(* ===== verification/Prelude.thy ===== *)
theory Prelude
  imports Main "HOL-Library.Word"
begin

text \<open>
  Shared vocabulary of the development: machine integer types, labelled machines that are run
  over a schedule, the generic safety interface, power-of-two masks and list lemmas that several
  components use.

  Concurrency convention. A component that runs on several threads is a function
  \<open>step :: 's \<Rightarrow> 'e \<Rightarrow> 's option\<close>: the label says which thread moves (and, where the code
  has a choice, what it does), \<open>None\<close> says that the move is not enabled. Each step is one atomic
  operation of the source (an atomic load, store or read-modify-write, or one non-atomic field
  access), so that \<open>run\<close> ranges over all interleavings.
\<close>

unbundle bit_operations_syntax

type_synonym u8 = "8 word"
type_synonym u16 = "16 word"
type_synonym u32 = "32 word"
type_synonym u64 = "64 word"
type_synonym i64 = "64 word"
type_synonym tid = nat

named_theorems field_ops \<open>update equations of the component operations\<close>

section \<open>Labelled machines\<close>

fun run :: "('s \<Rightarrow> 'e \<Rightarrow> 's option) \<Rightarrow> 's \<Rightarrow> 'e list \<Rightarrow> 's option" where
  "run step s [] = Some s"
| "run step s (e # es) = (case step s e of None \<Rightarrow> None | Some t \<Rightarrow> run step t es)"

lemma run_append:
  "run step s (es @ fs) = (case run step s es of None \<Rightarrow> None | Some t \<Rightarrow> run step t fs)"
  by (induction es arbitrary: s) (auto split: option.splits)

lemma run_snoc:
  "run step s (es @ [e]) = Some t \<longleftrightarrow> (\<exists>u. run step s es = Some u \<and> step u e = Some t)"
  by (auto simp: run_append split: option.splits)

lemma run_invariant:
  assumes "\<And>s e t. I s \<Longrightarrow> step s e = Some t \<Longrightarrow> I t"
    and "I s" and "run step s es = Some t"
  shows "I t"
  using assms(2,3)
proof (induction es arbitrary: s)
  case Nil
  then show ?case by simp
next
  case (Cons e es)
  then show ?case by (auto split: option.splits dest: assms(1))
qed

lemma run_replicate:
  fixes cost :: "'s \<Rightarrow> nat"
  assumes "\<And>s. waiting s \<Longrightarrow> \<exists>r. step s e = Some r \<and> waiting r \<and> cost r = cost s + k"
  shows "waiting s \<Longrightarrow> \<exists>r. run step s (replicate n e) = Some r \<and> waiting r \<and> cost r = cost s + n * k"
proof (induction n arbitrary: s)
  case 0
  then show ?case by simp
next
  case (Suc n)
  then obtain q where "step s e = Some q" "waiting q" "cost q = cost s + k" using assms by blast
  with Suc.IH [of q] show ?case by auto
qed

text \<open>
  The interface of every protocol of the development: a start state, a step function and an
  invariant that the steps keep. What holds in all reachable states follows once, here.
\<close>

locale safe_machine =
  fixes step :: "'s \<Rightarrow> 'e \<Rightarrow> 's option"
    and inv :: "'s \<Rightarrow> bool"
  assumes step_inv: "inv s \<Longrightarrow> step s e = Some t \<Longrightarrow> inv t"
begin

lemma run_inv: "inv s \<Longrightarrow> run step s es = Some t \<Longrightarrow> inv t"
  by (rule run_invariant [of inv step]) (rule step_inv)

lemma run_prefix_inv:
  assumes "inv s" and "run step s (es @ fs) = Some t"
  shows "\<exists>u. run step s es = Some u \<and> inv u \<and> run step u fs = Some t"
  using assms by (auto simp: run_append split: option.splits intro: run_inv)

end

section \<open>Power-of-two capacities and masks\<close>

text \<open>The \<open>static_assert((N & (N - 1)) == 0)\<close> of the templates, on \<open>size_t\<close>.\<close>

definition pow2_assert :: "u64 \<Rightarrow> bool" where
  "pow2_assert n \<longleftrightarrow> n AND (n - 1) = 0"

lemma unat_u64_less: "unat (x :: u64) < 2 ^ 64"
proof -
  have "unat x < 2 ^ LENGTH(64)" by (rule unsigned_less)
  then show ?thesis by simp
qed

lemma unat_add_u64: "unat a + unat b < 2 ^ 64 \<Longrightarrow> unat (a + b :: u64) = unat a + unat b"
  using unat_add_lem [of a b] by simp

lemma unat_exp_u64: "k < 64 \<Longrightarrow> unat (2 ^ k :: u64) = 2 ^ k"
proof -
  assume "k < 64"
  then have "(2::nat) ^ k < 2 ^ 64" by (intro power_strict_increasing) auto
  moreover have "(2 ^ k :: u64) = word_of_nat (2 ^ k)" by simp
  ultimately show ?thesis by (simp only: unat_of_nat) simp
qed

lemma nat_and_pred_pow2:
  "0 < n \<Longrightarrow> (n AND (n - 1)) = 0 \<Longrightarrow> \<exists>k. n = (2::nat) ^ k"
proof (induction n rule: less_induct)
  case (less n)
  have half: "(n div 2) AND ((n - 1) div 2) = 0"
    using less.prems(2) by (metis div_0 drop_bit_and drop_bit_Suc drop_bit_0 One_nat_def id_apply)
  show ?case
  proof (cases "even n")
    case True
    then obtain m where m: "n = 2 * m" by blast
    with less.prems(1) have "0 < m" "m < n" by auto
    moreover have "(n - 1) div 2 = m - 1" using m \<open>0 < m\<close> by auto
    ultimately have "\<exists>k. m = 2 ^ k" using half m less.IH [of m] by simp
    then show ?thesis using m by (metis power_Suc)
  next
    case False
    then obtain m where m: "n = 2 * m + 1" by (elim oddE)
    with half have "m = 0" by simp
    with m show ?thesis by (auto intro: exI [of _ 0])
  qed
qed

lemma pow2_assert_cases:
  assumes "pow2_assert n" and "n \<noteq> 0"
  obtains k where "n = 2 ^ k" and "k < 64"
proof -
  have "unat n AND (unat n - 1) = 0"
    using assms by (metis pow2_assert_def unsigned_and_eq unat_minus_one unsigned_0)
  moreover have "0 < unat n" using assms(2) by (simp add: unat_gt_0)
  ultimately obtain k where k: "unat n = 2 ^ k" using nat_and_pred_pow2 by blast
  have "k < 64"
  proof (rule ccontr)
    assume "\<not> k < 64"
    then have "(2::nat) ^ 64 \<le> 2 ^ k" by (intro power_increasing) auto
    moreover have "unat n < 2 ^ 64" by (rule unat_u64_less)
    ultimately show False using k by linarith
  qed
  moreover have "n = 2 ^ k"
    using k \<open>k < 64\<close> by (simp add: word_unat_eq_iff unat_exp_u64)
  ultimately show ?thesis using that by blast
qed

lemma mask_is_mod:
  assumes "pow2_assert n" and "n \<noteq> 0"
  shows "unat (x AND (n - 1)) = unat x mod unat n"
proof -
  obtain k where k: "n = 2 ^ k" "k < 64" using assms by (rule pow2_assert_cases)
  have "x AND (n - 1) = take_bit k x"
    by (simp add: k take_bit_eq_mask mask_eq_exp_minus_1)
  moreover have "unat n = 2 ^ k" using k by (simp add: unat_exp_u64)
  ultimately show ?thesis
    by (simp add: unsigned_take_bit_eq) (simp add: take_bit_eq_mod)
qed

lemma pow2_dvd_word_range:
  assumes "pow2_assert n" and "n \<noteq> 0"
  shows "unat n dvd 2 ^ 64"
proof -
  obtain k where k: "n = 2 ^ k" "k < 64" using assms by (rule pow2_assert_cases)
  then have "unat n = 2 ^ k" by (simp add: unat_exp_u64)
  moreover have "(2::nat) ^ k dvd 2 ^ 64" using k(2) by (intro le_imp_power_dvd) simp
  ultimately show ?thesis by simp
qed

lemma mod_window_inj:
  fixes a :: nat
  assumes "j < n" and "k < n" and "(a + j) mod n = (a + k) mod n"
  shows "j = k"
  using assms
proof (induction j k rule: linorder_wlog)
  case (le j k)
  then have "n dvd (a + k) - (a + j)"
    using mod_eq_dvd_iff_nat [of "a + j" "a + k" n] by simp
  then have "n dvd k - j" by simp
  then show ?case using le by (meson dvd_imp_le diff_le_self le_less_trans not_le zero_less_diff
      le_neq_implies_less)
next
  case (sym j k)
  then show ?case by metis
qed

text \<open>Clearing the low bits rounds down to a power of two.\<close>

lemma unat_and_not_mask: "unat (x AND NOT (mask n) :: 'a :: len word) = unat x div 2 ^ n * 2 ^ n"
proof -
  have eq: "x AND NOT (mask n) = push_bit n (drop_bit n x)" by (rule bit_word_eqI) (auto simp: bit_simps)
  have "unat x < 2 ^ LENGTH('a)" by (rule unsigned_less)
  then have "take_bit LENGTH('a) (unat x) = unat x" "unat x div 2 ^ n * 2 ^ n < 2 ^ LENGTH('a)"
    by (rule take_bit_nat_eq_self, rule le_less_trans [OF div_times_less_eq_dividend])
  then show ?thesis unfolding eq
    by (simp only: unsigned_push_bit_eq unsigned_drop_bit_eq)
      (simp only: push_bit_eq_mult drop_bit_eq_div take_bit_nat_eq_self)
qed

section \<open>Lists\<close>

lemma tile_count: "0 < t \<Longrightarrow> (a * t + t - 1) div t = (a :: nat)"
proof -
  assume "0 < t"
  then have "a * t + t - 1 = (t - 1) + a * t" by simp
  then show ?thesis using \<open>0 < t\<close> by (simp only: div_mult_self1) simp
qed

lemma nth_update_total:
  "(xs[i := v]) ! j = (if i = j \<and> j < length xs then v else xs ! j)"
  by (cases "i < length xs") (auto simp: nth_list_update list_update_beyond)

lemma sum_list_update_word:
  fixes xs :: "'a::comm_ring_1 list"
  shows "i < length xs \<Longrightarrow> sum_list (xs[i := xs ! i + d]) = sum_list xs + d"
  by (induction xs arbitrary: i) (auto split: nat.splits simp: algebra_simps)

text \<open>Nested loops over blocks of \<open>k\<close> indices run the plain loop.\<close>

lemma fold_blocks:
  assumes "\<And>n s. f (n * k) s = fold g [n * k..<n * k + k] s"
  shows "fold f (map (\<lambda>n. n * k) [0..<m]) s = fold g [0..<m * k] s"
proof (induction m)
  case (Suc m)
  have "[0..<Suc m * k] = [0..<m * k] @ [m * k..<m * k + k]"
    using upt_add_eq_append [of 0 "m * k" k] by (simp add: add.commute)
  then show ?case using Suc assms by simp
qed simp

end
