(* ===== verification/Seqlock.thy ===== *)
theory Seqlock
  imports Prelude
begin

text \<open>
  \<open>common/concurrency/seqlock.h\<close>: the \<open>SeqLock\<close> class, and the optimistic read protocol it is
  made for, as a machine with one writer and any number of readers that copy a payload of several
  fields. The protocol is stated over the three decisions a sequence lock makes (what
  entering and leaving a write section do to the counter, and when a copy is accepted), so that
  the same machine serves the \<open>SeqLock\<close> class and the lock of
  \<open>episodes/high_performance/10_locks_under_the_hood/challenge.cc\<close>.
\<close>

section \<open>The class\<close>

record seqlock =
  sequence :: u64

definition SeqLock :: "u64 \<Rightarrow> seqlock" where
  "SeqLock initial_seq = \<lparr>sequence = initial_seq\<rparr>"

definition WriteBegin :: "seqlock \<Rightarrow> seqlock" where
  "WriteBegin l = l\<lparr>sequence := sequence l + 1\<rparr>"

definition WriteEnd :: "seqlock \<Rightarrow> seqlock" where
  "WriteEnd l = l\<lparr>sequence := sequence l + 1\<rparr>"

definition ReadBegin :: "seqlock \<Rightarrow> u64" where
  "ReadBegin l = sequence l"

definition ReadRetry :: "seqlock \<Rightarrow> u64 \<Rightarrow> bool" where
  "ReadRetry l start_seq =
     (let end_seq = sequence l in start_seq AND 1 \<noteq> 0 \<or> start_seq \<noteq> end_seq)"

definition RawSequence :: "seqlock \<Rightarrow> u64" where
  "RawSequence l = sequence l"

lemma and_one_odd: "(w :: u64) AND 1 \<noteq> 0 \<longleftrightarrow> odd w"
  by (simp add: and_one_eq odd_iff_mod_2_eq_one)

lemma ReadRetry_iff: "ReadRetry l st \<longleftrightarrow> odd st \<or> st \<noteq> sequence l"
  by (simp add: ReadRetry_def Let_def and_one_odd)

lemma seqlock_fields [field_ops]:
  "sequence (WriteBegin l) = sequence l + 1" "sequence (WriteEnd l) = sequence l + 1"
  "sequence (SeqLock q) = q" "ReadBegin l = sequence l" "RawSequence l = sequence l"
  by (simp_all add: WriteBegin_def WriteEnd_def SeqLock_def ReadBegin_def RawSequence_def)

text \<open>
  Complete write sections: n of them advance the counter by 2n (mod \<open>2^64\<close>); inside the next section it is
  one more, so a reader that starts there always retries, and a reader that started before it
  retries as well.
\<close>

theorem SeqLock_progression:
  assumes "even q" and "m = ((\<lambda>x. WriteEnd (WriteBegin x)) ^^ n) (SeqLock q)"
  shows "RawSequence m = q + 2 * of_nat n \<and> \<not> ReadRetry m (ReadBegin m)
    \<and> ReadRetry (WriteBegin m) (ReadBegin (WriteBegin m))
    \<and> ReadRetry (WriteBegin m) (ReadBegin m)"
proof -
  have seq: "sequence m = q + 2 * of_nat n"
    unfolding assms(2) by (induction n) (simp_all add: field_ops algebra_simps)
  then have "even (sequence m)" using assms(1) by simp
  with seq show ?thesis by (simp add: ReadRetry_iff field_ops)
qed

theorem SeqLock_progression_witness:
  "even (100::u64) \<and>
   RawSequence (((\<lambda>x. WriteEnd (WriteBegin x)) ^^ 50) (SeqLock 100)) = 200"
  using SeqLock_progression [of 100 _ 50, OF _ refl] by simp

section \<open>One writer, many readers\<close>

text \<open>
  The writer publishes a payload of \<open>n\<close> fields between its two counter updates, storing the fields
  in any order (\<open>WBusy\<close> remembers the counter it found, the payload and the fields still to store); a reader loads the counter, copies the fields in any order and then decides, from
  the loaded counter and the counter it sees at the end, whether to keep the copy. \<open>commits\<close>,
  \<open>history\<close> and the last component of \<open>RCopy\<close> are ghost state: the number of finished
  write sections, the payloads they published, and \<open>commits\<close> when the read began.
\<close>

datatype 'a wpc = WIdle | WBusy u64 "'a list" "nat list"

datatype 'a rpc = RIdle | RCopy u64 "'a option list" "nat list" nat | RDone "'a list"

record 'a sq =
  ctr :: u64
  payload :: "'a list"
  writer :: "'a wpc"
  readers :: "tid \<Rightarrow> 'a rpc"
  commits :: nat
  history :: "'a list list"

datatype 'a sq_event =
  EvWBegin "'a list" | EvWField nat | EvWEnd | EvRBegin tid | EvRField tid nat | EvRCheck tid

definition all_fields :: "'a sq \<Rightarrow> nat list" where
  "all_fields s = [0..<length (payload s)]"

fun sq_step :: "(u64 \<Rightarrow> u64) \<Rightarrow> (u64 \<Rightarrow> u64 \<Rightarrow> u64) \<Rightarrow> (u64 \<Rightarrow> bool) \<Rightarrow> (u64 \<Rightarrow> u64 \<Rightarrow> bool)
    \<Rightarrow> 'a sq \<Rightarrow> 'a sq_event \<Rightarrow> 'a sq option" where
  "sq_step wb we go ok s (EvWBegin new) =
     (if writer s = WIdle \<and> length new = length (payload s)
      then Some (s\<lparr>ctr := wb (ctr s), writer := WBusy (ctr s) new (all_fields s)\<rparr>) else None)"
| "sq_step wb we go ok s (EvWField i) =
     (case writer s of
        WIdle \<Rightarrow> None
      | WBusy l new todo \<Rightarrow>
          if i \<in> set todo
          then Some (s\<lparr>payload := (payload s)[i := new ! i], writer := WBusy l new (removeAll i todo)\<rparr>)
          else None)"
| "sq_step wb we go ok s EvWEnd =
     (case writer s of
        WIdle \<Rightarrow> None
      | WBusy l new todo \<Rightarrow>
          if todo = []
          then Some (s\<lparr>ctr := we l (ctr s), writer := WIdle, commits := Suc (commits s),
                       history := history s @ [payload s]\<rparr>)
          else None)"
| "sq_step wb we go ok s (EvRBegin t) =
     (case readers s t of
        RCopy _ _ _ _ \<Rightarrow> None
      | _ \<Rightarrow> if go (ctr s)
            then Some (s\<lparr>readers := (readers s)(t := RCopy (ctr s)
                    (replicate (length (payload s)) None) (all_fields s) (commits s))\<rparr>)
            else Some s)"
| "sq_step wb we go ok s (EvRField t i) =
     (case readers s t of
        RCopy st buf todo c \<Rightarrow>
          if i \<in> set todo
          then Some (s\<lparr>readers := (readers s)(t := RCopy st (buf[i := Some (payload s ! i)])
                    (removeAll i todo) c)\<rparr>)
          else None
      | _ \<Rightarrow> None)"
| "sq_step wb we go ok s (EvRCheck t) =
     (case readers s t of
        RCopy st buf todo c \<Rightarrow>
          if todo = []
          then Some (s\<lparr>readers := (readers s)(t := if ok st (ctr s) then RDone (map the buf) else RIdle)\<rparr>)
          else None
      | _ \<Rightarrow> None)"

definition sq_init :: "u64 \<Rightarrow> 'a list \<Rightarrow> 'a sq" where
  "sq_init q p = \<lparr>ctr = q, payload = p, writer = WIdle, readers = (\<lambda>_. RIdle), commits = 0,
     history = [p]\<rparr>"

fun reader_ok :: "u64 \<Rightarrow> 'a sq \<Rightarrow> 'a rpc \<Rightarrow> bool" where
  "reader_ok q s RIdle = True"
| "reader_ok q s (RDone v) = (commits s < 2 ^ 63 \<longrightarrow> v \<in> set (history s))"
| "reader_ok q s (RCopy st buf todo c) =
     (c \<le> commits s \<and> length buf = length (payload s) \<and>
      (even st \<longrightarrow> st = q + 2 * of_nat c \<and>
        (writer s = WIdle \<and> commits s = c \<longrightarrow>
          (\<forall>i < length (payload s). i \<in> set todo \<or> buf ! i = Some (payload s ! i)))))"

fun writer_ok :: "u64 \<Rightarrow> 'a sq \<Rightarrow> 'a wpc \<Rightarrow> bool" where
  "writer_ok q s WIdle = (ctr s = q + 2 * of_nat (commits s) \<and> payload s = last (history s))"
| "writer_ok q s (WBusy l new todo) =
     (l = q + 2 * of_nat (commits s) \<and> ctr s = l + 1 \<and> length new = length (payload s) \<and>
      (\<forall>i < length (payload s). i \<in> set todo \<or> payload s ! i = new ! i))"

definition sq_inv :: "u64 \<Rightarrow> 'a sq \<Rightarrow> bool" where
  "sq_inv q s \<longleftrightarrow> even q \<and> history s \<noteq> [] \<and> writer_ok q s (writer s)
     \<and> (\<forall>t. reader_ok q s (readers s t))"

lemma sq_init_inv: "even q \<Longrightarrow> sq_inv q (sq_init q p)"
  by (simp add: sq_inv_def sq_init_def)

text \<open>
  The one place where the width of the counter matters: with fewer than \<open>2^63\<close> write sections
  the counter of a later section cannot come back to the value a reader saw.
\<close>

lemma counter_no_wrap:
  assumes "q + 2 * of_nat c = q + 2 * of_nat m + (d :: u64)" and "d = 0 \<or> d = 1"
    and "c \<le> m" and "m < 2 ^ 63"
  shows "d = 0 \<and> m = c"
proof -
  obtain k where k: "m = c + k" using assms(3) le_Suc_ex by blast
  have "2 * of_nat k + d = (0 :: u64)"
    using assms(1) by (simp add: k algebra_simps)
  then have "(of_nat (2 * k + unat d) :: u64) = 0" by simp
  then have "2 ^ 64 dvd 2 * k + unat d" by (simp only: word_of_nat_eq_0_iff) simp
  moreover have "2 * k + unat d < 2 ^ 64" using assms(2,4) k by auto
  ultimately have "2 * k + unat d = 0" by (meson dvd_imp_le not_gr_zero not_le)
  then show ?thesis using k assms(2) by auto
qed

text \<open>
  What the protocol asks of the lock: entering a section adds one, leaving it sets the entry value
  plus two, and a copy is accepted only between two equal even counter values.
\<close>

locale seq_lock =
  fixes wb :: "u64 \<Rightarrow> u64" and we :: "u64 \<Rightarrow> u64 \<Rightarrow> u64"
    and go :: "u64 \<Rightarrow> bool" and ok :: "u64 \<Rightarrow> u64 \<Rightarrow> bool"
  assumes wb_plus_one: "wb q = q + 1"
    and we_plus_two: "we l (l + 1) = l + 2"
    and go_even: "even q \<Longrightarrow> go q"
    and ok_iff: "ok st en \<longleftrightarrow> even st \<and> st = en"
begin

lemma we_succ: "x = l + 1 \<Longrightarrow> we l x = l + 2"
  by (simp add: we_plus_two)

lemma wbegin_inv:
  assumes "sq_inv q s" and "sq_step wb we go ok s (EvWBegin new) = Some s'"
  shows "sq_inv q s'"
proof -
  have "reader_ok q s' r" if "reader_ok q s r" for r
    using that assms(2) by (cases r) (auto split: if_splits)
  then show ?thesis
    using assms by (auto simp: sq_inv_def wb_plus_one all_fields_def split: if_splits)
qed

lemma wfield_inv:
  assumes "sq_inv q s" and "sq_step wb we go ok s (EvWField i) = Some s'"
  shows "sq_inv q s'"
proof -
  have "reader_ok q s' r" if "reader_ok q s r" for r
    using that assms(2) by (cases r) (auto split: if_splits wpc.splits)
  then show ?thesis
    using assms by (auto simp: sq_inv_def nth_update_total split: if_splits wpc.splits)
qed

lemma wend_inv:
  assumes "sq_inv q s" and "sq_step wb we go ok s EvWEnd = Some s'"
  shows "sq_inv q s'"
proof -
  have "reader_ok q s' r" if "reader_ok q s r" for r
    using that assms(2) by (cases r) (auto split: if_splits wpc.splits)
  then show ?thesis
    using assms
    by (auto simp: sq_inv_def we_succ algebra_simps split: if_splits wpc.splits)
qed

lemma rbegin_inv:
  assumes "sq_inv q s" and "sq_step wb we go ok s (EvRBegin t) = Some s'"
  shows "sq_inv q s'"
proof -
  let ?r = "RCopy (ctr s) (replicate (length (payload s)) None) (all_fields s) (commits s)"
  have "reader_ok q s ?r"
    using assms(1) by (cases "writer s") (auto simp: sq_inv_def all_fields_def)
  moreover have "s' = s\<lparr>readers := (readers s)(t := ?r)\<rparr> \<or> s' = s"
    using assms(2) by (auto split: rpc.splits if_splits)
  moreover have "reader_ok q (s\<lparr>readers := f\<rparr>) r = reader_ok q s r" for f r
    by (cases r) auto
  moreover have "writer_ok q (s\<lparr>readers := f\<rparr>) r = writer_ok q s r" for f r
    by (cases r) auto
  ultimately show ?thesis using assms(1) by (auto simp: sq_inv_def)
qed

lemma rfield_inv:
  assumes "sq_inv q s" and "sq_step wb we go ok s (EvRField t i) = Some s'"
  shows "sq_inv q s'"
proof -
  obtain st buf todo c where r: "readers s t = RCopy st buf todo c"
    and s': "s' = s\<lparr>readers := (readers s)(t := RCopy st (buf[i := Some (payload s ! i)])
                    (removeAll i todo) c)\<rparr>"
    using assms(2) by (auto split: rpc.splits if_splits)
  have "reader_ok q s (readers s t)" using assms(1) by (simp add: sq_inv_def)
  then have "reader_ok q s (RCopy st (buf[i := Some (payload s ! i)]) (removeAll i todo) c)"
    using r by (auto simp: nth_update_total)
  moreover have "reader_ok q (s\<lparr>readers := f\<rparr>) r = reader_ok q s r" for f r
    by (cases r) auto
  moreover have "writer_ok q (s\<lparr>readers := f\<rparr>) r = writer_ok q s r" for f r
    by (cases r) auto
  ultimately show ?thesis using assms(1) by (auto simp: sq_inv_def s')
qed

text \<open>An accepted copy is the payload at the moment of the check, with no section open.\<close>

lemma accepted_is_current:
  assumes inv: "sq_inv q s" and bound: "commits s < 2 ^ 63"
    and r: "readers s t = RCopy st buf [] c" and ok: "ok st (ctr s)"
  shows "writer s = WIdle \<and> map the buf = payload s"
proof -
  have rd: "reader_ok q s (RCopy st buf [] c)"
    using inv r unfolding sq_inv_def by metis
  moreover have st: "even st" "st = ctr s" using ok by (auto simp: ok_iff)
  ultimately have c: "st = q + 2 * of_nat c" "c \<le> commits s" by auto
  have "ctr s = q + 2 * of_nat (commits s) + (if writer s = WIdle then 0 else 1)"
    using inv by (cases "writer s") (auto simp: sq_inv_def)
  with c st(2) bound have "(if writer s = WIdle then 0 else 1 :: u64) = 0 \<and> commits s = c"
    by (intro counter_no_wrap [of q c "commits s"]) auto
  then have "writer s = WIdle" "commits s = c" by (auto split: if_splits)
  with rd st(1) show ?thesis by (auto intro: nth_equalityI)
qed

lemma rcheck_inv:
  assumes "sq_inv q s" and "sq_step wb we go ok s (EvRCheck t) = Some s'"
  shows "sq_inv q s'"
proof -
  obtain st buf c where r: "readers s t = RCopy st buf [] c"
    and s': "s' = s\<lparr>readers := (readers s)(t := if ok st (ctr s) then RDone (map the buf) else RIdle)\<rparr>"
    using assms(2) by (auto split: rpc.splits if_splits)
  have "payload s = last (history s)" if "writer s = WIdle"
    using assms(1) that by (simp add: sq_inv_def)
  then have "reader_ok q s (if ok st (ctr s) then RDone (map the buf) else RIdle)"
    using accepted_is_current [OF assms(1) _ r] assms(1) by (auto simp: sq_inv_def)
  moreover have "reader_ok q (s\<lparr>readers := f\<rparr>) r = reader_ok q s r" for f r
    by (cases r) auto
  moreover have "writer_ok q (s\<lparr>readers := f\<rparr>) r = writer_ok q s r" for f r
    by (cases r) auto
  ultimately show ?thesis using assms(1) by (auto simp: sq_inv_def s')
qed

lemma sq_step_inv: "sq_inv q s \<Longrightarrow> sq_step wb we go ok s e = Some s' \<Longrightarrow> sq_inv q s'"
  by (cases e) (blast intro: wbegin_inv wfield_inv wend_inv rbegin_inv rfield_inv rcheck_inv)+

end

sublocale seq_lock \<subseteq> machine: safe_machine "sq_step wb we go ok" "sq_inv q" for q
  by unfold_locales (rule sq_step_inv)

context seq_lock
begin

lemma run_sq_inv:
  "even q \<Longrightarrow> run (sq_step wb we go ok) (sq_init q p) es = Some s \<Longrightarrow> sq_inv q s"
  by (rule machine.run_inv) (auto intro: sq_init_inv)

lemma no_torn_read:
  assumes "even q" and "run (sq_step wb we go ok) (sq_init q p) es = Some s"
    and "commits s < 2 ^ 63" and "readers s t = RDone v"
  shows "v \<in> set (history s)"
proof -
  have "reader_ok q s (RDone v)"
    using run_sq_inv [OF assms(1,2)] assms(4) unfolding sq_inv_def by metis
  with assms(3) show ?thesis by simp
qed

end

text \<open>A reader that runs alone while no section is open finishes with the current payload.\<close>

definition read_alone :: "tid \<Rightarrow> nat \<Rightarrow> 'a sq_event list" where
  "read_alone t n = EvRBegin t # map (EvRField t) [0..<n] @ [EvRCheck t]"

lemma run_copy_fields:
  assumes "readers s t = RCopy st buf [k..<n] c" and "n = length (payload s)" and "length buf = n"
    and "k \<le> n" and "\<forall>i<k. buf ! i = Some (payload s ! i)"
  shows "run (sq_step wb we go ok) s (map (EvRField t) [k..<n]) =
    Some (s\<lparr>readers := (readers s)(t := RCopy st (map Some (payload s)) [] c)\<rparr>)"
  using assms
proof (induction "n - k" arbitrary: s buf k)
  case 0
  then have "buf = map Some (payload s)" by (auto intro: nth_equalityI)
  with 0 show ?case by (simp add: fun_upd_idem)
next
  case (Suc m)
  define s' where "s' = s\<lparr>readers := (readers s)(t := RCopy st (buf[k := Some (payload s ! k)])
    [Suc k..<n] c)\<rparr>"
  from Suc.hyps(2) have kn: "k < n" by simp
  then have "removeAll k [k..<n] = [Suc k..<n]" by (simp add: upt_conv_Cons)
  then have "sq_step wb we go ok s (EvRField t k) = Some s'"
    using Suc.prems(1) kn by (simp add: s'_def)
  moreover have "run (sq_step wb we go ok) s' (map (EvRField t) [Suc k..<n]) =
    Some (s'\<lparr>readers := (readers s')(t := RCopy st (map Some (payload s')) [] c)\<rparr>)"
    using Suc.prems Suc.hyps(2) kn
    by (intro Suc.hyps(1) [where buf = "buf[k := Some (payload s ! k)]" and k = "Suc k"])
      (auto simp: s'_def nth_update_total less_Suc_eq)
  ultimately show ?case using kn by (simp add: upt_conv_Cons s'_def)
qed

context seq_lock
begin

lemma read_alone_succeeds:
  assumes "even (ctr s)" and "readers s t = RIdle"
  shows "\<exists>s'. run (sq_step wb we go ok) s (read_alone t (length (payload s))) = Some s'
    \<and> readers s' t = RDone (payload s)"
proof -
  let ?n = "length (payload s)"
  define s1 where "s1 = s\<lparr>readers := (readers s)(t :=
    RCopy (ctr s) (replicate ?n None) [0..<?n] (commits s))\<rparr>"
  have "sq_step wb we go ok s (EvRBegin t) = Some s1"
    using assms by (simp add: go_even s1_def all_fields_def)
  moreover have "run (sq_step wb we go ok) s1 (map (EvRField t) [0..<?n]) =
    Some (s1\<lparr>readers := (readers s1)(t := RCopy (ctr s) (map Some (payload s1)) [] (commits s))\<rparr>)"
    by (rule run_copy_fields) (auto simp: s1_def)
  ultimately show ?thesis
    using assms(1) by (simp add: read_alone_def run_append s1_def ok_iff comp_def)
qed

end

section \<open>The SeqLock class implements the protocol\<close>

definition SeqLock_step :: "'a sq \<Rightarrow> 'a sq_event \<Rightarrow> 'a sq option" where
  "SeqLock_step = sq_step (\<lambda>c. sequence (WriteBegin \<lparr>sequence = c\<rparr>))
     (\<lambda>_ c. sequence (WriteEnd \<lparr>sequence = c\<rparr>)) (\<lambda>_. True)
     (\<lambda>st c. \<not> ReadRetry \<lparr>sequence = c\<rparr> st)"

interpretation sl: seq_lock "\<lambda>c. sequence (WriteBegin \<lparr>sequence = c\<rparr>)"
  "\<lambda>_ c. sequence (WriteEnd \<lparr>sequence = c\<rparr>)" "\<lambda>_. True" "\<lambda>st c. \<not> ReadRetry \<lparr>sequence = c\<rparr> st"
  by unfold_locales (auto simp: field_ops ReadRetry_iff)

text \<open>
  C15. No torn reads. In every interleaving of one writer that publishes payloads between
  \<open>WriteBegin\<close> and \<open>WriteEnd\<close> with any number of readers that copy fields between \<open>ReadBegin\<close>
  and \<open>ReadRetry\<close>, a copy that \<open>ReadRetry\<close> lets through is a payload that one write section
  published as a whole (or the initial one), as long as fewer than \<open>2^63\<close> sections finish.
\<close>

theorem SeqLock_no_torn_read:
  assumes "even q" and "run SeqLock_step (sq_init q p) es = Some s"
    and "commits s < 2 ^ 63" and "readers s t = RDone v"
  shows "v \<in> set (history s)"
  using assms unfolding SeqLock_step_def by (rule sl.no_torn_read)

definition demo_schedule :: "nat sq_event list" where
  "demo_schedule = [EvRBegin 0, EvRField 0 0, EvWBegin [7, 8], EvWField 1, EvRField 0 1,
     EvRCheck 0, EvWField 0, EvWEnd, EvRBegin 0, EvRField 0 1, EvRField 0 0, EvRCheck 0]"

theorem SeqLock_no_torn_read_witness:
  "\<exists>s. run SeqLock_step (sq_init 0 [1, 2]) demo_schedule = Some s
     \<and> readers s 0 = RDone [7, 8] \<and> [7, 8] \<in> set (history s)"
proof -
  obtain s where s: "run SeqLock_step (sq_init 0 [1, 2]) demo_schedule = Some s"
    "commits s < 2 ^ 63" "readers s 0 = RDone [7, 8]"
    by (simp add: demo_schedule_def SeqLock_step_def sq_init_def all_fields_def field_ops
        ReadRetry_iff upt_rec)
  with SeqLock_no_torn_read [OF _ s(1,2,3)] show ?thesis by auto
qed

text \<open>
  Obstruction freedom. A reader that is scheduled without interference while the counter is
  even returns after one pass, with the payload of that moment: \<open>ReadRetry\<close> sends nobody back
  for ever.
\<close>

theorem SeqLock_read_returns:
  assumes "even (ctr s)" and "readers s t = RIdle"
  shows "\<exists>s'. run SeqLock_step s (read_alone t (length (payload s))) = Some s'
    \<and> readers s' t = RDone (payload s)"
  using assms unfolding SeqLock_step_def by (rule sl.read_alone_succeeds)

theorem SeqLock_read_returns_witness:
  "\<exists>s'. run SeqLock_step (sq_init 4 [1 :: nat, 2, 3]) (read_alone 5 3) = Some s'
    \<and> readers s' 5 = RDone [1, 2, 3]"
  using SeqLock_read_returns [of "sq_init 4 [1 :: nat, 2, 3]" 5]
  by (simp add: sq_init_def numeral_3_eq_3)

end
