(* ===== verification/RouteCache.thy ===== *)
theory RouteCache
  imports Seqlock
begin

text \<open>
  The routing caches of workload A: \<open>RouteEntry\<close>, \<open>SharedMutexRouteCache\<close>, \<open>MutexRouteCache\<close>
  and \<open>SeqlockRouteCache\<close> of \<open>common/locks_under_the_hood/locks_under_the_hood.h\<close>, the tear
  check of \<open>common/locks_under_the_hood/challenge.cc\<close>, and the second \<open>SeqlockRouteCache\<close> of
  \<open>episodes/high_performance/10_locks_under_the_hood/challenge.cc\<close>, which serialises its
  writers with a mutex. An entry is copied field by field, so a cache holds a list of fields.
\<close>

section \<open>Entries\<close>

record RouteEntry =
  upstream_ip :: u64
  timeout_ms :: u64
  weight :: u64
  checksum :: u64

definition default_entry :: RouteEntry where
  "default_entry = \<lparr>upstream_ip = 0x0A000001, timeout_ms = 250, weight = 100,
     checksum = 0x0A000001 XOR 250 XOR 100\<rparr>"

definition route_fields :: "RouteEntry \<Rightarrow> u64 list" where
  "route_fields e = [upstream_ip e, timeout_ms e, weight e, checksum e]"

text \<open>The entry the challenge writes in round \<open>i\<close> of thread \<open>t\<close>, and its tear check.\<close>

definition trial_entry :: "u64 \<Rightarrow> u64 \<Rightarrow> RouteEntry" where
  "trial_entry t i =
     (let ip = 0x0A000001 + (i AND 0xFF); tms = 250 + (t AND 7); w = 100 + i
      in \<lparr>upstream_ip = ip, timeout_ms = tms, weight = w, checksum = ip XOR tms XOR w\<rparr>)"

definition tear_free :: "u64 list \<Rightarrow> bool" where
  "tear_free v \<longleftrightarrow> v ! 0 XOR v ! 1 XOR v ! 2 = v ! 3"

lemma tear_free_default [simp]: "tear_free (route_fields default_entry)"
  by (simp add: tear_free_def route_fields_def default_entry_def)

lemma tear_free_trial [simp]: "tear_free (route_fields (trial_entry t i))"
  by (simp add: tear_free_def route_fields_def trial_entry_def Let_def)

section \<open>The mutex and shared-mutex caches\<close>

text \<open>
  \<open>excl\<close> says whether readers take the mutex exclusively (\<open>std::lock_guard\<close> on
  \<open>std::mutex\<close>) or shared (\<open>std::shared_lock\<close> on \<open>std::shared_mutex\<close>). A thread enters,
  copies the fields one at a time and leaves; the destructor of the guard is the leaving step.
  The mutex is held by one thread, or shared by the threads of a list (by nobody when it is
  empty).
\<close>

datatype mutex = Shared "tid list" | Exclusive tid

datatype 'a gpc = GOut | GRead "'a option list" "nat list" | GWrite "'a list" "nat list"
  | GRet "'a list"

record 'a gcache =
  mtx :: mutex
  gentry :: "'a list"
  gpcs :: "tid \<Rightarrow> 'a gpc"
  ghist :: "'a list list"

datatype 'a gevent = GEnterRead tid | GEnterWrite tid "'a list" | GField tid nat | GLeave tid

definition inside :: "'a gpc \<Rightarrow> bool" where
  "inside p = (case p of GRead _ _ \<Rightarrow> True | GWrite _ _ \<Rightarrow> True | _ \<Rightarrow> False)"

fun lock_shared :: "bool \<Rightarrow> tid \<Rightarrow> mutex \<Rightarrow> mutex option" where
  "lock_shared excl t (Exclusive u) = None"
| "lock_shared excl t (Shared ts) =
     (if excl then (if ts = [] then Some (Exclusive t) else None) else Some (Shared (t # ts)))"

fun lock_exclusive :: "tid \<Rightarrow> mutex \<Rightarrow> mutex option" where
  "lock_exclusive t m = (if m = Shared [] then Some (Exclusive t) else None)"

fun unlock_mutex :: "tid \<Rightarrow> mutex \<Rightarrow> mutex" where
  "unlock_mutex t (Exclusive u) = Shared []"
| "unlock_mutex t (Shared ts) = Shared (removeAll t ts)"

fun gc_step :: "bool \<Rightarrow> 'a gcache \<Rightarrow> 'a gevent \<Rightarrow> 'a gcache option" where
  "gc_step excl s (GEnterRead t) =
     (case lock_shared excl t (mtx s) of
        Some m \<Rightarrow> if inside (gpcs s t) then None
          else Some (s\<lparr>mtx := m, gpcs := (gpcs s)(t := GRead (replicate (length (gentry s)) None)
              [0..<length (gentry s)])\<rparr>)
      | None \<Rightarrow> None)"
| "gc_step excl s (GEnterWrite t new) =
     (case lock_exclusive t (mtx s) of
        Some m \<Rightarrow> if inside (gpcs s t) \<or> length new \<noteq> length (gentry s) then None
          else Some (s\<lparr>mtx := m, gpcs := (gpcs s)(t := GWrite new [0..<length (gentry s)])\<rparr>)
      | None \<Rightarrow> None)"
| "gc_step excl s (GField t i) =
     (case gpcs s t of
        GRead buf todo \<Rightarrow>
          if i \<in> set todo
          then Some (s\<lparr>gpcs := (gpcs s)(t := GRead (buf[i := Some (gentry s ! i)]) (removeAll i todo))\<rparr>)
          else None
      | GWrite new todo \<Rightarrow>
          if i \<in> set todo
          then Some (s\<lparr>gentry := (gentry s)[i := new ! i],
                       gpcs := (gpcs s)(t := GWrite new (removeAll i todo))\<rparr>)
          else None
      | _ \<Rightarrow> None)"
| "gc_step excl s (GLeave t) =
     (case gpcs s t of
        GRead buf todo \<Rightarrow>
          if todo = []
          then Some (s\<lparr>mtx := unlock_mutex t (mtx s), gpcs := (gpcs s)(t := GRet (map the buf))\<rparr>)
          else None
      | GWrite new todo \<Rightarrow>
          if todo = []
          then Some (s\<lparr>mtx := unlock_mutex t (mtx s), gpcs := (gpcs s)(t := GOut),
                       ghist := ghist s @ [gentry s]\<rparr>)
          else None
      | _ \<Rightarrow> None)"

definition SharedMutexRouteCache_step :: "'a gcache \<Rightarrow> 'a gevent \<Rightarrow> 'a gcache option" where
  "SharedMutexRouteCache_step = gc_step False"

definition MutexRouteCache_step :: "'a gcache \<Rightarrow> 'a gevent \<Rightarrow> 'a gcache option" where
  "MutexRouteCache_step = gc_step True"

definition gc_init :: "'a list \<Rightarrow> 'a gcache" where
  "gc_init e = \<lparr>mtx = Shared [], gentry = e, gpcs = (\<lambda>_. GOut), ghist = [e]\<rparr>"

text \<open>
  The invariant: the mutex records exactly who is inside, a writer is alone, and outside a write
  section the entry is the last one published.
\<close>

fun gpc_ok :: "'a gcache \<Rightarrow> tid \<Rightarrow> 'a gpc \<Rightarrow> bool" where
  "gpc_ok s t GOut = True"
| "gpc_ok s t (GRet v) = (v \<in> set (ghist s))"
| "gpc_ok s t (GRead buf todo) = (length buf = length (gentry s) \<and> gentry s = last (ghist s) \<and>
     (\<forall>i < length (gentry s). i \<in> set todo \<or> buf ! i = Some (gentry s ! i)))"
| "gpc_ok s t (GWrite new todo) = (mtx s = Exclusive t)"

fun held_by :: "mutex \<Rightarrow> tid \<Rightarrow> bool" where
  "held_by (Shared ts) t = (t \<in> set ts)"
| "held_by (Exclusive u) t = (t = u)"

definition gc_inv :: "'a gcache \<Rightarrow> bool" where
  "gc_inv s \<longleftrightarrow> ghist s \<noteq> [] \<and> (\<forall>t. gpc_ok s t (gpcs s t))
     \<and> (\<forall>t. inside (gpcs s t) = held_by (mtx s) t)
     \<and> (\<forall>ts. mtx s = Shared ts \<longrightarrow> gentry s = last (ghist s))"

lemma gc_invI:
  "ghist s \<noteq> [] \<Longrightarrow> (\<And>t. gpc_ok s t (gpcs s t)) \<Longrightarrow> (\<And>t. inside (gpcs s t) = held_by (mtx s) t)
    \<Longrightarrow> (\<And>ts. mtx s = Shared ts \<Longrightarrow> gentry s = last (ghist s)) \<Longrightarrow> gc_inv s"
  by (simp add: gc_inv_def)

lemma gc_invD:
  assumes "gc_inv s"
  shows "ghist s \<noteq> []" "gpc_ok s t (gpcs s t)" "inside (gpcs s t) = held_by (mtx s) t"
    "mtx s = Shared ts \<Longrightarrow> gentry s = last (ghist s)"
  using assms by (simp_all add: gc_inv_def)

lemma gc_init_inv: "gc_inv (gc_init e)"
  by (simp add: gc_inv_def gc_init_def inside_def)

lemma outside_iff: "\<not> inside p \<longleftrightarrow> p = GOut \<or> (\<exists>v. p = GRet v)"
  by (cases p) (auto simp: inside_def)

lemma gpc_ok_outside:
  "gpc_ok s t p \<Longrightarrow> \<not> inside p \<Longrightarrow> set (ghist s) \<subseteq> set (ghist s') \<Longrightarrow> gpc_ok s' t p"
  by (auto simp: outside_iff)

lemma gpc_ok_gpcs_upd [simp]: "gpc_ok (s\<lparr>gpcs := f\<rparr>) t p = gpc_ok s t p"
  by (cases p) auto

lemma inside_simps [simp]:
  "inside (GRead b r)" "inside (GWrite n r)" "\<not> inside GOut" "\<not> inside (GRet v)"
  by (simp_all add: inside_def)

lemma gc_enter_read_inv:
  assumes "gc_inv s" and "gc_step excl s (GEnterRead t) = Some s'"
  shows "gc_inv s'"
proof -
  let ?p = "GRead (replicate (length (gentry s)) None) [0..<length (gentry s)]"
  obtain ts m where ts: "mtx s = Shared ts" and m: "lock_shared excl t (Shared ts) = Some m"
    and s': "s' = s\<lparr>mtx := m, gpcs := (gpcs s)(t := ?p)\<rparr>"
    using assms(2) by (cases "mtx s") (auto split: if_splits)
  note inv = gc_invD [OF assms(1)]
  have "gpc_ok s' u (gpcs s u)" for u
    using inv(2) [of u] ts by (cases "gpcs s u") (auto simp: s')
  moreover have "inside (gpcs s' u) = held_by m u" for u
    using inv(3) [of u] ts m by (auto simp: s' split: if_splits)
  ultimately show ?thesis
    using inv(1) inv(4) [OF ts] by (intro gc_invI) (auto simp: s')
qed

lemma alone_when_exclusive:
  assumes "gc_inv s" and "mtx s = Exclusive t" and "u \<noteq> t" and "set (ghist s) \<subseteq> set (ghist s')"
  shows "\<not> inside (gpcs s u) \<and> gpc_ok s' u (gpcs s u)"
  using gc_invD(2,3) [OF assms(1), of u] assms(2-4) by (auto intro: gpc_ok_outside)

lemma gc_enter_write_inv:
  assumes "gc_inv s" and "gc_step excl s (GEnterWrite t new) = Some s'"
  shows "gc_inv s'"
proof -
  have s': "mtx s = Shared []"
    "s' = s\<lparr>mtx := Exclusive t, gpcs := (gpcs s)(t := GWrite new [0..<length (gentry s)])\<rparr>"
    using assms(2) by (auto split: option.splits if_splits)
  note inv = gc_invD [OF assms(1)]
  have out: "\<not> inside (gpcs s u)" for u using inv(3) [of u] s'(1) by simp
  have "gpc_ok s' u (gpcs s u)" for u
    using inv(2) [of u] out [of u] by (rule gpc_ok_outside) (simp add: s'(2))
  then show ?thesis using inv(1) out by (intro gc_invI) (auto simp: s'(2))
qed

lemma gc_field_inv:
  assumes "gc_inv s" and "gc_step excl s (GField t i) = Some s'"
  shows "gc_inv s'"
proof (cases "gpcs s t")
  case (GRead buf todo)
  define p where "p = GRead (buf[i := Some (gentry s ! i)]) (removeAll i todo)"
  have s': "s' = s\<lparr>gpcs := (gpcs s)(t := p)\<rparr>"
    using assms(2) GRead by (auto split: if_splits simp: p_def)
  note inv = gc_invD [OF assms(1)]
  have "gpc_ok s t p" using inv(2) [of t] GRead by (auto simp: p_def nth_update_total)
  moreover have "inside p = inside (gpcs s t)" by (simp add: p_def GRead)
  ultimately show ?thesis
    using inv by (intro gc_invI) (auto simp: s')
next
  case (GWrite new todo)
  then have s': "s' = s\<lparr>gentry := (gentry s)[i := new ! i],
      gpcs := (gpcs s)(t := GWrite new (removeAll i todo))\<rparr>"
    using assms(2) by (auto split: if_splits)
  note inv = gc_invD [OF assms(1)]
  have m: "mtx s = Exclusive t" using inv(2) [of t] GWrite by simp
  note out = alone_when_exclusive [OF assms(1) m, of _ s']
  show ?thesis using inv(1) m out by (intro gc_invI) (auto simp: s')
qed (use assms in auto)

lemma gc_leave_inv:
  assumes "gc_inv s" and "gc_step excl s (GLeave t) = Some s'"
  shows "gc_inv s'"
proof (cases "gpcs s t")
  case (GRead buf todo)
  then have s': "todo = []"
      "s' = s\<lparr>mtx := unlock_mutex t (mtx s), gpcs := (gpcs s)(t := GRet (map the buf))\<rparr>"
    using assms(2) by (auto split: if_splits)
  note inv = gc_invD [OF assms(1)]
  have ok: "gpc_ok s t (GRead buf [])" using inv(2) [of t] GRead s'(1) by simp
  then have "map the buf = last (ghist s)" by (auto intro: nth_equalityI)
  then have ret: "map the buf \<in> set (ghist s)" using inv(1) by simp
  have held: "held_by (mtx s) t" using inv(3) [of t] GRead by simp
  have "gpc_ok s' u (gpcs s u)" if "u \<noteq> t" for u
    using inv(2) [of u] held that by (cases "gpcs s u") (auto simp: s')
  moreover have "inside (gpcs s' u) = held_by (mtx s') u" for u
    using inv(3) [of u] held by (cases "mtx s") (auto simp: s')
  ultimately show ?thesis using inv(1) ok ret by (intro gc_invI) (auto simp: s')
next
  case (GWrite new todo)
  then have s': "s' = s\<lparr>mtx := unlock_mutex t (mtx s), gpcs := (gpcs s)(t := GOut),
      ghist := ghist s @ [gentry s]\<rparr>"
    using assms(2) by (auto split: if_splits)
  note inv = gc_invD [OF assms(1)]
  have m: "mtx s = Exclusive t" using inv(2) [of t] GWrite by simp
  note out = alone_when_exclusive [OF assms(1) m, of _ s']
  show ?thesis using m out by (intro gc_invI) (auto simp: s')
qed (use assms in auto)

interpretation gc: safe_machine "gc_step excl" gc_inv for excl
proof
  fix s e s'
  assume "gc_inv s" "gc_step excl s e = Some (s' :: 'a gcache)"
  then show "gc_inv s'"
    by (cases e) (auto intro: gc_enter_read_inv gc_enter_write_inv gc_field_inv gc_leave_inv
        simp del: gc_step.simps)
qed

lemma gc_returned_published:
  assumes "run (gc_step excl) (gc_init p) es = Some s" and "gpcs s t = GRet v"
  shows "v \<in> set (ghist s)"
proof -
  have "gc_inv s" by (rule gc.run_inv [OF gc_init_inv assms(1)])
  then have "gpc_ok s t (GRet v)" using assms(2) unfolding gc_inv_def by metis
  then show ?thesis by simp
qed

text \<open>
  The lock-based caches never return a torn entry: whatever the interleaving of the field
  accesses of readers and writers, with shared or with exclusive readers, a returned entry is one
  that some \<open>Write\<close> stored as a whole.
\<close>

theorem lock_route_caches_tear_free:
  assumes "run SharedMutexRouteCache_step (gc_init p) es = Some s
      \<or> run MutexRouteCache_step (gc_init p) es = Some s"
    and "gpcs s t = GRet v"
  shows "v \<in> set (ghist s)"
  using assms gc_returned_published
  unfolding SharedMutexRouteCache_step_def MutexRouteCache_step_def by blast

theorem lock_route_caches_tear_free_witness:
  "\<exists>s. run SharedMutexRouteCache_step (gc_init [1 :: nat, 2]) [GEnterRead 0, GEnterRead 1, GField 0 1,
      GField 1 0, GField 0 0, GLeave 0, GField 1 1, GLeave 1, GEnterWrite 0 [3, 4], GField 0 0,
      GField 0 1, GLeave 0, GEnterRead 1, GField 1 1, GField 1 0, GLeave 1] = Some s
    \<and> gpcs s 1 = GRet [3, 4] \<and> [3, 4] \<in> set (ghist s)"
proof -
  obtain s where s: "run SharedMutexRouteCache_step (gc_init [1 :: nat, 2]) [GEnterRead 0,
      GEnterRead 1, GField 0 1,
      GField 1 0, GField 0 0, GLeave 0, GField 1 1, GLeave 1, GEnterWrite 0 [3, 4], GField 0 0,
      GField 0 1, GLeave 0, GEnterRead 1, GField 1 1, GField 1 0, GLeave 1] = Some s"
    "gpcs s 1 = GRet [3, 4]"
    by (simp add: SharedMutexRouteCache_step_def gc_init_def upt_rec)
  with lock_route_caches_tear_free [OF disjI1 [OF s(1)] s(2)] show ?thesis by auto
qed

section \<open>SeqlockRouteCache of locks_under_the_hood.h\<close>

text \<open>
  \<open>Write\<close> loads \<open>seq_\<close>, stores the loaded value plus one, stores the fields, and stores the loaded
  value plus two; nothing serialises writers. \<open>Read\<close> is a \<open>do ... while (s0 != s1)\<close> loop whose body
  executes \<open>continue\<close> when \<open>s0\<close> is odd: \<open>continue\<close> goes to the loop condition, which then
  compares \<open>s0\<close> with the \<open>s1\<close> of an earlier round. \<open>RHead\<close> is the head of the body (with the
  values of \<open>s1\<close> and \<open>copy\<close>), \<open>RBody\<close> the part after the parity test.
\<close>

datatype 'a wrc = WOut | WLoaded u64 "'a list" | WOpen u64 "'a list" "nat list"

datatype 'a rrc = ROut | RHead u64 "'a list" | RBody u64 "'a list" "nat list" | RRet "'a list"

record 'a route_cache =
  rseq :: u64
  rentry :: "'a list"
  rwriters :: "tid \<Rightarrow> 'a wrc"
  rreaders :: "tid \<Rightarrow> 'a rrc"

datatype 'a rc_event =
    WrLoad tid "'a list" | WrOpen tid | WrField tid nat | WrClose tid
  | RdCall tid "'a list" | RdSeq0 tid | RdField tid nat | RdSeq1 tid

fun rc_step :: "'a route_cache \<Rightarrow> 'a rc_event \<Rightarrow> 'a route_cache option" where
  "rc_step s (WrLoad t new) =
     (if rwriters s t = WOut \<and> length new = length (rentry s)
      then Some (s\<lparr>rwriters := (rwriters s)(t := WLoaded (rseq s) new)\<rparr>) else None)"
| "rc_step s (WrOpen t) =
     (case rwriters s t of
        WLoaded q new \<Rightarrow> Some (s\<lparr>rseq := q + 1,
          rwriters := (rwriters s)(t := WOpen q new [0..<length (rentry s)])\<rparr>)
      | _ \<Rightarrow> None)"
| "rc_step s (WrField t i) =
     (case rwriters s t of
        WOpen q new todo \<Rightarrow>
          if i \<in> set todo
          then Some (s\<lparr>rentry := (rentry s)[i := new ! i],
                       rwriters := (rwriters s)(t := WOpen q new (removeAll i todo))\<rparr>)
          else None
      | _ \<Rightarrow> None)"
| "rc_step s (WrClose t) =
     (case rwriters s t of
        WOpen q new [] \<Rightarrow> Some (s\<lparr>rseq := q + 2, rwriters := (rwriters s)(t := WOut)\<rparr>)
      | _ \<Rightarrow> None)"
| "rc_step s (RdCall t fresh) =
     (case rreaders s t of
        RHead _ _ \<Rightarrow> None | RBody _ _ _ \<Rightarrow> None
      | _ \<Rightarrow> Some (s\<lparr>rreaders := (rreaders s)(t := RHead 0 fresh)\<rparr>))"
| "rc_step s (RdSeq0 t) =
     (case rreaders s t of
        RHead s1 copy \<Rightarrow>
          let s0 = rseq s in
          if s0 AND 1 \<noteq> 0
          then Some (s\<lparr>rreaders := (rreaders s)(t := if s0 \<noteq> s1 then RHead s1 copy else RRet copy)\<rparr>)
          else Some (s\<lparr>rreaders := (rreaders s)(t := RBody s0 copy [0..<length (rentry s)])\<rparr>)
      | _ \<Rightarrow> None)"
| "rc_step s (RdField t i) =
     (case rreaders s t of
        RBody s0 copy todo \<Rightarrow>
          if i \<in> set todo
          then Some (s\<lparr>rreaders := (rreaders s)(t := RBody s0 (copy[i := rentry s ! i]) (removeAll i todo))\<rparr>)
          else None
      | _ \<Rightarrow> None)"
| "rc_step s (RdSeq1 t) =
     (case rreaders s t of
        RBody s0 copy [] \<Rightarrow>
          let s1 = rseq s in
          Some (s\<lparr>rreaders := (rreaders s)(t := if s0 \<noteq> s1 then RHead s1 copy else RRet copy)\<rparr>)
      | _ \<Rightarrow> None)"

definition rc_init :: "'a list \<Rightarrow> 'a route_cache" where
  "rc_init e = \<lparr>rseq = 0, rentry = e, rwriters = (\<lambda>_. WOut), rreaders = (\<lambda>_. ROut)\<rparr>"

definition old_fields :: "u64 list" where "old_fields = route_fields default_entry"

definition torn_by_continue :: "u64 rc_event list" where
  "torn_by_continue =
     [RdCall 1 old_fields, RdSeq0 1, WrLoad 0 (route_fields (trial_entry 0 100)), WrOpen 0,
      WrField 0 0, RdField 1 0, RdField 1 1, RdField 1 2, RdField 1 3, RdSeq1 1, RdSeq0 1]"

definition torn_by_writers :: "u64 rc_event list" where
  "torn_by_writers =
     [WrLoad 0 (route_fields (trial_entry 0 100)), WrLoad 2 (route_fields (trial_entry 2 200)),
      WrOpen 0, WrOpen 2, WrField 0 0, WrField 0 1, WrField 0 2, WrField 0 3, WrClose 0,
      RdCall 1 old_fields, RdSeq0 1, WrField 2 0,
      RdField 1 0, RdField 1 1, RdField 1 2, RdField 1 3, RdSeq1 1]"

lemmas route_eval = rc_init_def old_fields_def route_fields_def trial_entry_def default_entry_def
  Let_def upt_rec tear_free_def

text \<open>
  \<open>SeqlockRouteCache::Read\<close> can return a torn entry with a single writer: every entry ever
  stored passes the tear check, but the reader leaves the loop through \<open>continue\<close> with the odd
  counter value it had already seen at the end of the torn round.
\<close>

lemma read_torn_by_continue:
  "\<exists>s v. run rc_step (rc_init old_fields) torn_by_continue = Some s
     \<and> tear_free old_fields \<and> tear_free (route_fields (trial_entry 0 100))
     \<and> rreaders s 1 = RRet v \<and> \<not> tear_free v"
proof -
  have "tear_free old_fields" by (simp add: old_fields_def)
  then show ?thesis
    by (simp add: torn_by_continue_def) (simp add: route_eval)
qed

text \<open>
  With two writers, as \<open>RunRouteCacheTrial\<close> runs the cache, even a read that sees the same even
  counter before and after its copy can return a torn entry: the first writer to finish makes the
  counter even while the second is still storing fields.
\<close>

lemma read_torn_by_writers:
  "\<exists>s v. run rc_step (rc_init old_fields) torn_by_writers = Some s
     \<and> tear_free old_fields \<and> tear_free (route_fields (trial_entry 0 100))
     \<and> tear_free (route_fields (trial_entry 2 200)) \<and> even (rseq s)
     \<and> rreaders s 1 = RRet v \<and> \<not> tear_free v"
proof -
  have "tear_free old_fields" by (simp add: old_fields_def)
  then show ?thesis
    by (simp add: torn_by_writers_def) (simp add: route_eval)
qed

text \<open>
  \<open>SeqlockRouteCache\<close> is not tear-free, in two ways. With a single writer \<open>Read\<close> can leave its loop
  through \<open>continue\<close>, with the odd counter it had already seen, and return a torn round. With two writers,
  as \<open>RunRouteCacheTrial\<close> runs the cache, even a read between two equal even counters can be torn. In
  both runs every entry that was ever stored passes the tear check.
\<close>

theorem SeqlockRouteCache_torn:
  "(\<exists>s v. run rc_step (rc_init old_fields) torn_by_continue = Some s
      \<and> tear_free old_fields \<and> tear_free (route_fields (trial_entry 0 100))
      \<and> rreaders s 1 = RRet v \<and> \<not> tear_free v)
   \<and> (\<exists>s v. run rc_step (rc_init old_fields) torn_by_writers = Some s
      \<and> tear_free (route_fields (trial_entry 2 200)) \<and> even (rseq s)
      \<and> rreaders s 1 = RRet v \<and> \<not> tear_free v)"
  using read_torn_by_continue read_torn_by_writers by blast

section \<open>SeqlockRouteCache of the episode 10 challenge\<close>

text \<open>
  \<open>update\<close> holds \<open>writer_mtx_\<close>, so at most one section is open; \<open>read\<close> is a \<open>for (;;)\<close> loop that
  starts over on an odd counter and returns only between equal counters. This is the protocol of
  \<open>Seqlock\<close>, with the payload copied by \<open>memcpy\<close>.
\<close>

definition ep10_open :: "u64 \<Rightarrow> u64" where "ep10_open seq0 = seq0 + 1"

definition ep10_close :: "u64 \<Rightarrow> u64 \<Rightarrow> u64" where "ep10_close seq0 current = seq0 + 2"

definition ep10_may_copy :: "u64 \<Rightarrow> bool" where
  "ep10_may_copy seq1 \<longleftrightarrow> \<not> (seq1 AND 1 \<noteq> 0)"

definition ep10_accept :: "u64 \<Rightarrow> u64 \<Rightarrow> bool" where
  "ep10_accept seq1 seq2 \<longleftrightarrow> ep10_may_copy seq1 \<and> seq1 = seq2"

definition Ep10RouteCache_step :: "'a sq \<Rightarrow> 'a sq_event \<Rightarrow> 'a sq option" where
  "Ep10RouteCache_step = sq_step ep10_open ep10_close ep10_may_copy ep10_accept"

interpretation ep10: seq_lock ep10_open ep10_close ep10_may_copy ep10_accept
  by unfold_locales
    (auto simp: ep10_open_def ep10_close_def ep10_may_copy_def ep10_accept_def and_one_odd)

text \<open>
  The episode 10 cache is tear-free for any number of writers and readers: a returned copy is
  an entry that one \<open>update\<close> stored as a whole, while fewer than \<open>2^63\<close> updates finish.
\<close>

theorem Ep10RouteCache_tear_free:
  assumes "run Ep10RouteCache_step (sq_init 0 p) es = Some s"
    and "commits s < 2 ^ 63" and "readers s t = RDone v"
  shows "v \<in> set (history s)"
  using ep10.no_torn_read [of 0 p es s t v] assms unfolding Ep10RouteCache_step_def by simp

theorem Ep10RouteCache_tear_free_witness:
  "\<exists>s. run Ep10RouteCache_step (sq_init 0 [1, 2]) demo_schedule = Some s
     \<and> readers s 0 = RDone [7, 8] \<and> [7, 8] \<in> set (history s)"
proof -
  obtain s where s: "run Ep10RouteCache_step (sq_init 0 [1, 2]) demo_schedule = Some s"
    "commits s < 2 ^ 63" "readers s 0 = RDone [7, 8]"
    by (simp add: demo_schedule_def Ep10RouteCache_step_def sq_init_def all_fields_def
        ep10_open_def ep10_close_def ep10_may_copy_def ep10_accept_def upt_rec)
  with Ep10RouteCache_tear_free [OF s(1,2,3)] show ?thesis by auto
qed

end
