(* ===== verification/LockProtocol.thy ===== *)
theory LockProtocol
  imports Prelude
begin

text \<open>
  What the critical sections of the repository ask of a lock, and what they get from it: the
  interface every lock model of \<open>SpinLocks\<close> and \<open>FutexLocks\<close> is an interpretation of, and the
  client that \<open>RunLockTrial\<close> and the MESI challenge run on each lock (lock, update the shared
  record with plain loads and stores, unlock).
\<close>

section \<open>The client machine\<close>

text \<open>
  The loop body of \<open>RunLockTrial\<close>, as thread \<open>t\<close> runs it on a lock machine \<open>step\<close>: the thread reads
  the shared record into registers and later stores the updated record, and between the two other
  threads may run. \<open>releases e\<close> is the thread whose \<open>unlock\<close> the lock event \<open>e\<close> is, if it is one:
  a client starts an update only while it holds the lock and unlocks only when its update is
  complete. \<open>left\<close> counts the iterations each thread still has to do.
\<close>

record ('s, 'd) trial =
  lk :: 's
  shared :: 'd
  pending :: "tid \<Rightarrow> 'd option"
  left :: "nat list"

datatype 'e trial_event = LockEv 'e | LoadState tid | StoreState tid

fun trial_step :: "('s \<Rightarrow> 'e \<Rightarrow> 's option) \<Rightarrow> ('s \<Rightarrow> tid \<Rightarrow> bool) \<Rightarrow> ('e \<Rightarrow> tid option) \<Rightarrow> ('d \<Rightarrow> 'd)
    \<Rightarrow> ('s, 'd) trial \<Rightarrow> 'e trial_event \<Rightarrow> ('s, 'd) trial option" where
  "trial_step step holds releases upd s (LockEv e) =
     (if (case releases e of None \<Rightarrow> False | Some t \<Rightarrow> pending s t \<noteq> None) then None
      else map_option (\<lambda>l. s\<lparr>lk := l\<rparr>) (step (lk s) e))"
| "trial_step step holds releases upd s (LoadState t) =
     (if holds (lk s) t \<and> pending s t = None \<and> t < length (left s) \<and> 0 < left s ! t
      then Some (s\<lparr>pending := (pending s)(t := Some (shared s))\<rparr>) else None)"
| "trial_step step holds releases upd s (StoreState t) =
     (case pending s t of
        None \<Rightarrow> None
      | Some d \<Rightarrow> Some (s\<lparr>shared := upd d, pending := (pending s)(t := None),
                          left := (left s)[t := left s ! t - 1]\<rparr>))"

definition trial_init :: "'s \<Rightarrow> 'd \<Rightarrow> nat \<Rightarrow> nat \<Rightarrow> ('s, 'd) trial" where
  "trial_init l d num_threads ops_per_thread =
     \<lparr>lk = l, shared = d, pending = (\<lambda>_. None), left = replicate num_threads ops_per_thread\<rparr>"

definition all_joined :: "('s, 'd) trial \<Rightarrow> bool" where
  "all_joined s \<longleftrightarrow> list_all (\<lambda>n. n = 0) (left s)"

lemma all_joined_sum: "all_joined s \<Longrightarrow> sum_list (left s) = 0"
  by (auto simp: all_joined_def list_all_iff)

lemma sum_list_decrement:
  fixes xs :: "nat list"
  assumes "t < length xs" and "0 < xs ! t"
  shows "Suc (sum_list (xs[t := xs ! t - 1])) = sum_list xs"
  using assms elem_le_sum_list [of t xs] by (simp add: sum_list_update)

section \<open>The interface\<close>

locale lock_protocol = safe_machine step inv
  for step :: "'s \<Rightarrow> 'e \<Rightarrow> 's option" and inv :: "'s \<Rightarrow> bool" +
  fixes init :: 's and holds :: "'s \<Rightarrow> tid \<Rightarrow> bool" and releases :: "'e \<Rightarrow> tid option"
  assumes inv_init: "inv init"
    and exclusive: "inv s \<Longrightarrow> holds s t \<Longrightarrow> holds s u \<Longrightarrow> t = u"
    and keeps: "inv s \<Longrightarrow> holds s t \<Longrightarrow> step s e = Some s' \<Longrightarrow> releases e \<noteq> Some t \<Longrightarrow> holds s' t"
begin

lemma mutual_exclusion:
  "run step init es = Some s \<Longrightarrow> holds s t \<Longrightarrow> holds s u \<Longrightarrow> t = u"
  using run_inv [OF inv_init] exclusive by blast

definition trial_inv :: "('d \<Rightarrow> 'd) \<Rightarrow> nat \<Rightarrow> 'd \<Rightarrow> ('s, 'd) trial \<Rightarrow> bool" where
  "trial_inv upd n d0 s \<longleftrightarrow> inv (lk s)
     \<and> (\<exists>k. k + sum_list (left s) = n \<and> shared s = (upd ^^ k) d0)
     \<and> (\<forall>t d. pending s t = Some d \<longrightarrow> holds (lk s) t \<and> d = shared s \<and> t < length (left s) \<and> 0 < left s ! t)"

lemma trial_step_inv:
  assumes "trial_inv upd n d0 s" and "trial_step step holds releases upd s e = Some s'"
  shows "trial_inv upd n d0 s'"
proof (cases e)
  case (LockEv le)
  then obtain l where l: "step (lk s) le = Some l" "s' = s\<lparr>lk := l\<rparr>"
    "\<And>t. releases le = Some t \<Longrightarrow> pending s t = None"
    using assms(2) by (auto split: if_splits option.splits)
  have "holds l t" if "pending s t = Some d" for t d
  proof -
    have "holds (lk s) t" using assms(1) that by (auto simp: trial_inv_def)
    moreover have "releases le \<noteq> Some t" using l(3) that by auto
    moreover have "inv (lk s)" using assms(1) by (simp add: trial_inv_def)
    ultimately show ?thesis using l(1) keeps by blast
  qed
  then show ?thesis using assms(1) l step_inv by (auto simp: trial_inv_def)
next
  case (LoadState t)
  then show ?thesis using assms by (auto simp: trial_inv_def split: if_splits)
next
  case (StoreState t)
  then obtain d where d: "pending s t = Some d"
    "s' = s\<lparr>shared := upd d, pending := (pending s)(t := None), left := (left s)[t := left s ! t - 1]\<rparr>"
    using assms(2) by (auto split: option.splits)
  have hold: "holds (lk s) t" "d = shared s" "t < length (left s)" "0 < left s ! t"
    using assms(1) d(1) by (auto simp: trial_inv_def)
  obtain k where k: "k + sum_list (left s) = n" "shared s = (upd ^^ k) d0"
    using assms(1) by (auto simp: trial_inv_def)
  have "pending s u = None" if "u \<noteq> t" for u
  proof (rule ccontr)
    assume "pending s u \<noteq> None"
    then have "holds (lk s) u" using assms(1) by (auto simp: trial_inv_def)
    then show False using exclusive [OF _ hold(1)] assms(1) that by (auto simp: trial_inv_def)
  qed
  moreover have "Suc k + sum_list (left s') = n"
    using sum_list_decrement [OF hold(3,4)] k(1) by (simp add: d(2))
  moreover have "shared s' = (upd ^^ Suc k) d0" using k(2) hold(2) by (simp add: d(2))
  moreover have "inv (lk s')" using assms(1) by (simp add: d(2) trial_inv_def)
  ultimately show ?thesis by (auto simp: trial_inv_def d(2) intro!: exI [of _ "Suc k"])
qed

lemma no_lost_update:
  assumes "run (trial_step step holds releases upd) (trial_init init d0 m n) es = Some s"
    and "all_joined s"
  shows "shared s = (upd ^^ (m * n)) d0"
proof -
  have start: "trial_inv upd (m * n) d0 (trial_init init d0 m n)"
    by (auto simp: trial_inv_def trial_init_def inv_init sum_list_replicate intro: exI [of _ 0])
  have "trial_inv upd (m * n) d0 s"
    by (rule run_invariant [where I = "trial_inv upd (m * n) d0", OF _ start assms(1)])
      (erule (1) trial_step_inv)
  then show ?thesis using all_joined_sum [OF assms(2)] by (auto simp: trial_inv_def)
qed

end

section \<open>The record under the locks\<close>

text \<open>
  \<open>ProtectedState\<close> of \<open>locks_under_the_hood.h\<close>. The two constants are the multiplier and the
  increment of the linear congruential step on the buckets.
\<close>

record ProtectedState =
  sequence_no :: u64
  balance_a :: u64
  balance_b :: u64
  state_checksum :: u64
  buckets :: "u64 list"

definition initial_state :: ProtectedState where
  "initial_state = \<lparr>sequence_no = 0, balance_a = 1000000, balance_b = 1000000,
     state_checksum = 2000000, buckets = replicate 5 0\<rparr>"

definition mix_buckets :: "u64 \<Rightarrow> u64 list \<Rightarrow> u64 list" where
  "mix_buckets s bs = map (\<lambda>idx. (bs ! idx XOR (s + of_nat idx)) * 6364136223846793005
     + 1442695040888963407) [0..<length bs]"

definition UpdateInvariants :: "u64 \<Rightarrow> ProtectedState \<Rightarrow> ProtectedState" where
  "UpdateInvariants delta p =
     (let s = sequence_no p + 1; a = balance_a p + delta; b = balance_b p - delta
      in p\<lparr>sequence_no := s, balance_a := a, balance_b := b,
           state_checksum := (a + b) XOR (s * 0x9E3779B97F4A7C15),
           buckets := mix_buckets s (buckets p)\<rparr>)"

definition ApplyTransfer :: "u64 \<Rightarrow> ProtectedState \<Rightarrow> ProtectedState" where
  "ApplyTransfer amount p =
     (let s = sequence_no p + 1
      in p\<lparr>sequence_no := s, balance_a := balance_a p + amount, balance_b := balance_b p - amount,
           buckets := mix_buckets s (buckets p)\<rparr>)"

lemma transfers_conserve:
  "sequence_no ((ApplyTransfer amount ^^ n) p) = sequence_no p + of_nat n
   \<and> balance_a ((ApplyTransfer amount ^^ n) p) + balance_b ((ApplyTransfer amount ^^ n) p)
     = balance_a p + balance_b p"
  by (induction n) (simp_all add: ApplyTransfer_def Let_def algebra_simps)

definition invariants_hold :: "ProtectedState \<Rightarrow> bool" where
  "invariants_hold p \<longleftrightarrow> state_checksum p =
     (balance_a p + balance_b p) XOR (sequence_no p * 0x9E3779B97F4A7C15)"

text \<open>
  \<open>UpdateInvariants\<close> establishes the record's checksum, keeps the total balance and advances the
  sequence, and the initial record has a correct checksum; \<open>ApplyTransfer\<close> has the same effect on
  balances and sequence but leaves the checksum of the update before it.
\<close>

lemma UpdateInvariants_correct:
  "invariants_hold initial_state \<and> invariants_hold (UpdateInvariants d p)
   \<and> balance_a (UpdateInvariants d p) + balance_b (UpdateInvariants d p) = balance_a p + balance_b p
   \<and> sequence_no (UpdateInvariants d p) = sequence_no p + 1
   \<and> UpdateInvariants d p = (ApplyTransfer d p)\<lparr>state_checksum := state_checksum (UpdateInvariants d p)\<rparr>"
  by (simp add: invariants_hold_def UpdateInvariants_def ApplyTransfer_def initial_state_def Let_def)

section \<open>The trial\<close>

text \<open>
  \<open>RunLockTrial\<close>: \<open>num_threads\<close> threads, each with \<open>ops_per_thread\<close> lock/transfer/unlock rounds on
  the lock machine \<open>step\<close>, interleaved by the schedule. After the joins it reports the final sequence
  and whether it equals the number of operations with the total balance kept; \<open>None\<close> is a schedule
  that is not one of the program's or that does not reach the joins.
\<close>

definition RunLockTrial :: "('s \<Rightarrow> 'e \<Rightarrow> 's option) \<Rightarrow> ('s \<Rightarrow> tid \<Rightarrow> bool) \<Rightarrow> ('e \<Rightarrow> tid option) \<Rightarrow> 's
    \<Rightarrow> nat \<Rightarrow> nat \<Rightarrow> 'e trial_event list \<Rightarrow> (u64 \<times> bool) option" where
  "RunLockTrial step holds releases lock num_threads ops_per_thread es =
     (case run (trial_step step holds releases (ApplyTransfer 1))
             (trial_init lock initial_state num_threads ops_per_thread) es of
        None \<Rightarrow> None
      | Some s \<Rightarrow>
          (if all_joined s
           then let p = shared s; total_ops = of_nat num_threads * of_nat ops_per_thread
                in Some (sequence_no p, sequence_no p = total_ops \<and> balance_a p + balance_b p = 2000000)
           else None))"

context lock_protocol
begin

lemma RunLockTrial_ok:
  assumes "RunLockTrial step holds releases init m n es = Some r"
  shows "r = (of_nat m * of_nat n, True)"
proof -
  obtain s where s: "run (trial_step step holds releases (ApplyTransfer 1))
      (trial_init init initial_state m n) es = Some s" "all_joined s"
    using assms by (auto simp: RunLockTrial_def split: option.splits if_splits)
  have "shared s = (ApplyTransfer 1 ^^ (m * n)) initial_state" by (rule no_lost_update [OF s])
  then show ?thesis
    using assms s transfers_conserve [of "m * n" 1 initial_state]
    by (auto simp: RunLockTrial_def Let_def initial_state_def)
qed

end

section \<open>A lock a lone thread can take\<close>

text \<open>
  \<open>free\<close> is a state in which nobody holds or waits; from there \<open>acquire t\<close> takes the lock for \<open>t\<close> and
  \<open>release t\<close> leads back. Then the trial has a run that reaches its joins.
\<close>

locale solo_lock =
  fixes step :: "'s \<Rightarrow> 'e \<Rightarrow> 's option" and holds :: "'s \<Rightarrow> tid \<Rightarrow> bool" and releases :: "'e \<Rightarrow> tid option"
    and free :: "'s \<Rightarrow> bool" and acquire :: "tid \<Rightarrow> 'e list" and release :: "tid \<Rightarrow> 'e"
  assumes silent: "e \<in> set (acquire t) \<Longrightarrow> releases e = None"
    and acquires: "free l \<Longrightarrow> \<exists>l1 l2. run step l (acquire t) = Some l1 \<and> holds l1 t \<and> step l1 (release t) = Some l2 \<and> free l2"
begin

lemma lock_events:
  "run step (lk s) es = Some l \<Longrightarrow> \<forall>e \<in> set es. releases e = None
    \<Longrightarrow> run (trial_step step holds releases upd) s (map LockEv es) = Some (s\<lparr>lk := l\<rparr>)"
  by (induction es arbitrary: s) (auto split: option.splits)

lemma solo_round:
  assumes "free (lk s)" and "pending s = (\<lambda>_. None)" and t: "t < length (left s)" "0 < left s ! t"
  shows "\<exists>es s'. run (trial_step step holds releases upd) s es = Some s' \<and> free (lk s') \<and> pending s' = (\<lambda>_. None)
    \<and> left s' = (left s)[t := left s ! t - 1]"
proof -
  obtain l1 l2 where l: "run step (lk s) (acquire t) = Some l1" "holds l1 t" "step l1 (release t) = Some l2" "free l2"
    using acquires [OF assms(1)] by blast
  have acq: "run (trial_step step holds releases upd) s (map LockEv (acquire t)) = Some (s\<lparr>lk := l1\<rparr>)"
    using lock_events [OF l(1)] silent by blast
  let ?s' = "s\<lparr>lk := l2, shared := upd (shared s), pending := (\<lambda>_. None), left := (left s)[t := left s ! t - 1]\<rparr>"
  have "run (trial_step step holds releases upd) (s\<lparr>lk := l1\<rparr>) [LoadState t, StoreState t, LockEv (release t)] = Some ?s'"
    using l(2,3) t assms(2) by (auto split: option.splits)
  then have "run (trial_step step holds releases upd) s
      (map LockEv (acquire t) @ [LoadState t, StoreState t, LockEv (release t)]) = Some ?s'"
    using acq by (simp add: run_append)
  then show ?thesis using l(4) by (intro exI conjI) (assumption, simp_all)
qed

lemma solo_trial:
  assumes "free (lk s)" and "pending s = (\<lambda>_. None)"
  shows "\<exists>es s'. run (trial_step step holds releases upd) s es = Some s' \<and> all_joined s'"
  using assms
proof (induction "sum_list (left s)" arbitrary: s)
  case 0
  then have "all_joined s" by (simp add: all_joined_def list_all_iff)
  then show ?case by (intro exI [of _ "[]"] exI [of _ s]) simp
next
  case (Suc n)
  have "\<not> (\<forall>x \<in> set (left s). x = 0)" using Suc.hyps(2) by (metis nat.distinct(1) sum_list_eq_0_iff)
  then obtain t where t: "t < length (left s)" "0 < left s ! t" by (auto simp: in_set_conv_nth)
  obtain es s1 where 1: "run (trial_step step holds releases upd) s es = Some s1" "free (lk s1)" "pending s1 = (\<lambda>_. None)"
    "left s1 = (left s)[t := left s ! t - 1]"
    using solo_round [OF Suc.prems t] by blast
  have "n = sum_list (left s1)" using sum_list_decrement [OF t] Suc.hyps(2) 1(4) by simp
  then obtain fs s2 where 2: "run (trial_step step holds releases upd) s1 fs = Some s2" "all_joined s2"
    using Suc.hyps(1) 1(2,3) by blast
  have "run (trial_step step holds releases upd) s (es @ fs) = Some s2" using 1(1) 2(1) by (simp add: run_append)
  then show ?case using 2(2) by blast
qed

lemma RunLockTrial_completes:
  assumes "free l"
  shows "\<exists>es r. RunLockTrial step holds releases l m n es = Some r"
proof -
  let ?s = "trial_init l initial_state m n"
  obtain es s where "run (trial_step step holds releases (ApplyTransfer 1)) ?s es = Some s" "all_joined s"
    using solo_trial [of ?s "ApplyTransfer 1"] assms by (auto simp: trial_init_def)
  then show ?thesis by (intro exI [of _ es]) (simp add: RunLockTrial_def Let_def)
qed

end

end
