(* ===== verification/SpinLocks.thy ===== *)
theory SpinLocks
  imports LockProtocol
begin

text \<open>
  The spinlocks of \<open>locks_under_the_hood.h\<close>, \<open>mesi_coherency.h\<close> and the episode 10 challenge, one
  step function per lock, and \<open>StdMutexWrapper\<close>. \<open>pc t\<close> is where thread \<open>t\<close> stands in \<open>lock\<close>; one
  \<open>Move\<close> is one atomic operation on the flag. All are interpretations of \<open>lock_protocol\<close>.
\<close>

section \<open>State and shared parts\<close>

text \<open>
  \<open>Check\<close> is at the load before the exchange, \<open>Rmw\<close> at the read-modify-write, \<open>Spin\<close> at the load of
  the inner waiting loop. \<open>rmws\<close> counts the read-modify-writes issued so far, each of which asks for
  exclusive ownership of the cache line.
\<close>

datatype spin_pc = Idle | Check | Rmw | Spin | Holding

datatype spin_event = Call tid | Move tid | Spurious tid | Unlock tid

record 'f spin =
  flag :: 'f
  pc :: "tid \<Rightarrow> spin_pc"
  rmws :: nat

definition spin_init :: "'f \<Rightarrow> 'f spin" where
  "spin_init f = \<lparr>flag = f, pc = (\<lambda>_. Idle), rmws = 0\<rparr>"

definition at :: "'f spin \<Rightarrow> tid \<Rightarrow> spin_pc \<Rightarrow> 'f spin" where
  "at s t p = s\<lparr>pc := (pc s)(t := p)\<rparr>"

definition rmw :: "'f spin \<Rightarrow> 'f \<Rightarrow> 'f spin" where
  "rmw s v = s\<lparr>flag := v, rmws := Suc (rmws s)\<rparr>"

definition spin_holds :: "'f spin \<Rightarrow> tid \<Rightarrow> bool" where
  "spin_holds s t \<longleftrightarrow> pc s t = Holding"

fun spin_releases :: "spin_event \<Rightarrow> tid option" where
  "spin_releases (Unlock t) = Some t"
| "spin_releases _ = None"

text \<open>Entering \<open>lock\<close> at its first atomic operation, and \<open>unlock\<close> by a plain store of \<open>free\<close>.\<close>

definition enter :: "spin_pc \<Rightarrow> 'f spin \<Rightarrow> tid \<Rightarrow> 'f spin option" where
  "enter p s t = (if pc s t = Idle then Some (at s t p) else None)"

definition leave :: "'f \<Rightarrow> 'f spin \<Rightarrow> tid \<Rightarrow> 'f spin option" where
  "leave free s t = (if pc s t = Holding then Some (at (s\<lparr>flag := free\<rparr>) t Idle) else None)"

section \<open>The locks\<close>

text \<open>\<open>while (flag.test_and_set());\<close>\<close>

fun NaiveTASLock_step :: "bool spin \<Rightarrow> spin_event \<Rightarrow> bool spin option" where
  "NaiveTASLock_step s (Call t) = enter Rmw s t"
| "NaiveTASLock_step s (Move t) =
     (case pc s t of
        Rmw \<Rightarrow> Some (at (rmw s True) t (if flag s then Rmw else Holding))
      | _ \<Rightarrow> None)"
| "NaiveTASLock_step s (Spurious t) = None"
| "NaiveTASLock_step s (Unlock t) = leave False s t"

text \<open>\<open>if (!load && !exchange(true)) return; while (load);\<close>, without and with \<open>_mm_pause\<close>.\<close>

fun TTASNoPauseLock_step :: "bool spin \<Rightarrow> spin_event \<Rightarrow> bool spin option" where
  "TTASNoPauseLock_step s (Call t) = enter Check s t"
| "TTASNoPauseLock_step s (Move t) =
     (case pc s t of
        Check \<Rightarrow> Some (at s t (if flag s then Spin else Rmw))
      | Rmw \<Rightarrow> Some (at (rmw s True) t (if flag s then Spin else Holding))
      | Spin \<Rightarrow> Some (at s t (if flag s then Spin else Check))
      | _ \<Rightarrow> None)"
| "TTASNoPauseLock_step s (Spurious t) = None"
| "TTASNoPauseLock_step s (Unlock t) = leave False s t"

fun TTASPauseLock_step :: "bool spin \<Rightarrow> spin_event \<Rightarrow> bool spin option" where
  "TTASPauseLock_step s (Call t) = enter Check s t"
| "TTASPauseLock_step s (Move t) =
     (case pc s t of
        Check \<Rightarrow> Some (at s t (if flag s then Spin else Rmw))
      | Rmw \<Rightarrow> Some (at (rmw s True) t (if flag s then Spin else Holding))
      | Spin \<Rightarrow> Some (at s t (if flag s then Spin else Check))
      | _ \<Rightarrow> None)"
| "TTASPauseLock_step s (Spurious t) = None"
| "TTASPauseLock_step s (Unlock t) = leave False s t"

text \<open>The episode 10 challenge's \<open>TTASPauseLock\<close> exchanges first and goes back to the exchange.\<close>

fun Ep10TTASPauseLock_step :: "bool spin \<Rightarrow> spin_event \<Rightarrow> bool spin option" where
  "Ep10TTASPauseLock_step s (Call t) = enter Rmw s t"
| "Ep10TTASPauseLock_step s (Move t) =
     (case pc s t of
        Rmw \<Rightarrow> Some (at (rmw s True) t (if flag s then Spin else Holding))
      | Spin \<Rightarrow> Some (at s t (if flag s then Spin else Rmw))
      | _ \<Rightarrow> None)"
| "Ep10TTASPauseLock_step s (Spurious t) = None"
| "Ep10TTASPauseLock_step s (Unlock t) = leave False s t"

text \<open>
  \<open>StdMutexWrapper\<close> hands \<open>std::mutex\<close> through: \<open>lock\<close> returns in a state where the mutex is free and
  takes it.
\<close>

fun StdMutexWrapper_step :: "bool spin \<Rightarrow> spin_event \<Rightarrow> bool spin option" where
  "StdMutexWrapper_step s (Call t) = enter Rmw s t"
| "StdMutexWrapper_step s (Move t) =
     (if pc s t = Rmw \<and> \<not> flag s then Some (at (rmw s True) t Holding) else None)"
| "StdMutexWrapper_step s (Spurious t) = None"
| "StdMutexWrapper_step s (Unlock t) = leave False s t"

text \<open>
  The MESI spinlocks are on a 64-bit flag and \<open>compare_exchange_weak\<close> from \<open>expected = 0\<close> to 1; the weak
  form may fail spuriously, which is the event \<open>Spurious\<close>. A failed exchange writes nothing but is
  a locked instruction all the same.
\<close>

fun NaiveCasSpinlock_step :: "u64 spin \<Rightarrow> spin_event \<Rightarrow> u64 spin option" where
  "NaiveCasSpinlock_step s (Call t) = enter Rmw s t"
| "NaiveCasSpinlock_step s (Move t) =
     (case pc s t of
        Rmw \<Rightarrow> (if flag s = 0 then Some (at (rmw s 1) t Holding) else Some (at (rmw s (flag s)) t Rmw))
      | _ \<Rightarrow> None)"
| "NaiveCasSpinlock_step s (Spurious t) =
     (if pc s t = Rmw then Some (at (rmw s (flag s)) t Rmw) else None)"
| "NaiveCasSpinlock_step s (Unlock t) = leave 0 s t"

fun ReadBeforeCasSpinlock_step :: "u64 spin \<Rightarrow> spin_event \<Rightarrow> u64 spin option" where
  "ReadBeforeCasSpinlock_step s (Call t) = enter Rmw s t"
| "ReadBeforeCasSpinlock_step s (Move t) =
     (case pc s t of
        Rmw \<Rightarrow> (if flag s = 0 then Some (at (rmw s 1) t Holding) else Some (at (rmw s (flag s)) t Spin))
      | Spin \<Rightarrow> Some (at s t (if flag s \<noteq> 0 then Spin else Rmw))
      | _ \<Rightarrow> None)"
| "ReadBeforeCasSpinlock_step s (Spurious t) =
     (if pc s t = Rmw then Some (at (rmw s (flag s)) t Spin) else None)"
| "ReadBeforeCasSpinlock_step s (Unlock t) = leave 0 s t"

section \<open>The invariant\<close>

text \<open>The flag is set while some thread holds the lock, and at most one does.\<close>

definition spin_inv :: "('f \<Rightarrow> bool) \<Rightarrow> 'f spin \<Rightarrow> bool" where
  "spin_inv taken s \<longleftrightarrow> (\<forall>t. spin_holds s t \<longrightarrow> taken (flag s) \<and> (\<forall>u. spin_holds s u \<longrightarrow> u = t))"

text \<open>
  What every spinlock step does, up to where the thread waits: wait on, take the free flag, or
  release the own one.
\<close>

definition spin_effect :: "('f \<Rightarrow> bool) \<Rightarrow> 'f spin \<Rightarrow> spin_event \<Rightarrow> 'f spin \<Rightarrow> bool" where
  "spin_effect taken s e s' \<longleftrightarrow>
     (\<exists>t p. \<not> spin_holds s t \<and> p \<noteq> Holding \<and> pc s' = (pc s)(t := p) \<and> (taken (flag s) \<longrightarrow> taken (flag s')))
   \<or> (\<exists>t. \<not> spin_holds s t \<and> \<not> taken (flag s) \<and> taken (flag s') \<and> pc s' = (pc s)(t := Holding))
   \<or> (\<exists>t. spin_releases e = Some t \<and> spin_holds s t \<and> \<not> taken (flag s') \<and> pc s' = (pc s)(t := Idle))"

lemma spin_effect_inv:
  "spin_inv taken s \<Longrightarrow> spin_effect taken s e s' \<Longrightarrow> spin_inv taken s'"
  unfolding spin_effect_def
  by (elim disjE exE conjE) (auto simp: spin_inv_def spin_holds_def split: if_splits)

lemma spin_effect_keeps:
  "spin_holds s t \<Longrightarrow> spin_effect taken s e s' \<Longrightarrow> spin_releases e \<noteq> Some t \<Longrightarrow> spin_holds s' t"
  unfolding spin_effect_def by (elim disjE exE conjE) (auto simp: spin_holds_def)

lemmas spin_ops = at_def rmw_def enter_def leave_def spin_holds_def

lemma waits: "\<not> spin_holds s t \<Longrightarrow> p \<noteq> Holding \<Longrightarrow> pc s' = (pc s)(t := p)
    \<Longrightarrow> (taken (flag s) \<longrightarrow> taken (flag s')) \<Longrightarrow> spin_effect taken s e s'"
  unfolding spin_effect_def by blast

lemma takes: "\<not> spin_holds s t \<Longrightarrow> \<not> taken (flag s) \<Longrightarrow> taken (flag s')
    \<Longrightarrow> pc s' = (pc s)(t := Holding) \<Longrightarrow> spin_effect taken s e s'"
  unfolding spin_effect_def by blast

lemma enter_effect: "enter p s t = Some s' \<Longrightarrow> p \<noteq> Holding \<Longrightarrow> spin_effect taken s e s'"
  by (rule waits [of s t p]) (auto simp: spin_ops split: if_splits)

lemma leave_effect: "leave f s t = Some s' \<Longrightarrow> \<not> taken f \<Longrightarrow> spin_effect taken s (Unlock t) s'"
  by (auto simp: spin_effect_def spin_ops split: if_splits)

lemma spin_inv_init: "spin_inv taken (spin_init f)"
  by (simp add: spin_inv_def spin_init_def spin_holds_def)

lemma spin_lock_protocol:
  assumes "\<And>s e s'. step s e = Some s' \<Longrightarrow> spin_effect taken s e s'"
  shows "lock_protocol step (spin_inv taken) (spin_init f) spin_holds spin_releases"
proof
  show "spin_inv taken s'" if "spin_inv taken s" "step s e = Some s'" for s e s'
    using that assms spin_effect_inv by blast
  show "spin_inv taken (spin_init f)" by (rule spin_inv_init)
  show "t = u" if "spin_inv taken s" "spin_holds s t" "spin_holds s u" for s t u
    using that by (auto simp: spin_inv_def)
  show "spin_holds s' t" if "spin_holds s t" "step s e = Some s'" "spin_releases e \<noteq> Some t" for s t e s'
    using that assms spin_effect_keeps by blast
qed

lemma NaiveTASLock_effect: "NaiveTASLock_step s e = Some s' \<Longrightarrow> spin_effect id s e s'"
proof (cases e)
  case (Move t)
  assume "NaiveTASLock_step s e = Some s'"
  then show ?thesis using Move
    by (cases "flag s") (auto simp: spin_ops split: spin_pc.splits intro: waits [of s t Rmw] takes [of s t])
qed (auto intro: enter_effect leave_effect)

lemma TTASNoPauseLock_effect: "TTASNoPauseLock_step s e = Some s' \<Longrightarrow> spin_effect id s e s'"
proof (cases e)
  case (Move t)
  assume "TTASNoPauseLock_step s e = Some s'"
  then show ?thesis using Move
    by (cases "flag s") (auto simp: spin_ops split: spin_pc.splits
        intro: waits [of s t Spin] waits [of s t Rmw] waits [of s t Check] takes [of s t])
qed (auto intro: enter_effect leave_effect)

lemma TTASPauseLock_same: "TTASPauseLock_step s e = TTASNoPauseLock_step s e"
  by (cases e) simp_all

lemma Ep10TTASPauseLock_effect: "Ep10TTASPauseLock_step s e = Some s' \<Longrightarrow> spin_effect id s e s'"
proof (cases e)
  case (Move t)
  assume "Ep10TTASPauseLock_step s e = Some s'"
  then show ?thesis using Move
    by (cases "flag s") (auto simp: spin_ops split: spin_pc.splits
        intro: waits [of s t Spin] waits [of s t Rmw] takes [of s t])
qed (auto intro: enter_effect leave_effect)

lemma StdMutexWrapper_effect: "StdMutexWrapper_step s e = Some s' \<Longrightarrow> spin_effect id s e s'"
proof (cases e)
  case (Move t)
  assume "StdMutexWrapper_step s e = Some s'"
  then show ?thesis using Move
    by (auto simp: spin_ops split: if_splits intro: takes [of s t])
qed (auto intro: enter_effect leave_effect)

lemma NaiveCasSpinlock_effect: "NaiveCasSpinlock_step s e = Some s' \<Longrightarrow> spin_effect (\<lambda>f. f \<noteq> 0) s e s'"
proof (cases e)
  case (Move t)
  assume "NaiveCasSpinlock_step s e = Some s'"
  then show ?thesis using Move
    by (cases "flag s = 0") (auto simp: spin_ops split: spin_pc.splits intro: waits [of s t Rmw] takes [of s t])
next
  case (Spurious t)
  assume "NaiveCasSpinlock_step s e = Some s'"
  then show ?thesis using Spurious
    by (auto simp: spin_ops split: if_splits intro: waits [of s t Rmw])
qed (auto intro: enter_effect leave_effect)

lemma ReadBeforeCasSpinlock_effect:
  "ReadBeforeCasSpinlock_step s e = Some s' \<Longrightarrow> spin_effect (\<lambda>f. f \<noteq> 0) s e s'"
proof (cases e)
  case (Move t)
  assume "ReadBeforeCasSpinlock_step s e = Some s'"
  then show ?thesis using Move
    by (cases "flag s = 0") (auto simp: spin_ops split: spin_pc.splits
        intro: waits [of s t Rmw] waits [of s t Spin] takes [of s t])
next
  case (Spurious t)
  assume "ReadBeforeCasSpinlock_step s e = Some s'"
  then show ?thesis using Spurious
    by (auto simp: spin_ops split: if_splits intro: waits [of s t Spin])
qed (auto intro: enter_effect leave_effect)

interpretation tas: lock_protocol NaiveTASLock_step "spin_inv id" "spin_init False" spin_holds spin_releases
  by (rule spin_lock_protocol) (rule NaiveTASLock_effect)

interpretation ttas_np: lock_protocol TTASNoPauseLock_step "spin_inv id" "spin_init False" spin_holds spin_releases
  by (rule spin_lock_protocol) (rule TTASNoPauseLock_effect)

interpretation ttas: lock_protocol TTASPauseLock_step "spin_inv id" "spin_init False" spin_holds spin_releases
  by (rule spin_lock_protocol) (simp add: TTASPauseLock_same TTASNoPauseLock_effect)

interpretation ttas10: lock_protocol Ep10TTASPauseLock_step "spin_inv id" "spin_init False" spin_holds spin_releases
  by (rule spin_lock_protocol) (rule Ep10TTASPauseLock_effect)

interpretation std_mtx: lock_protocol StdMutexWrapper_step "spin_inv id" "spin_init False" spin_holds spin_releases
  by (rule spin_lock_protocol) (rule StdMutexWrapper_effect)

interpretation ncas: lock_protocol NaiveCasSpinlock_step "spin_inv (\<lambda>f. f \<noteq> 0)" "spin_init 0" spin_holds spin_releases
  by (rule spin_lock_protocol) (rule NaiveCasSpinlock_effect)

interpretation rbcas: lock_protocol ReadBeforeCasSpinlock_step "spin_inv (\<lambda>f. f \<noteq> 0)" "spin_init 0" spin_holds spin_releases
  by (rule spin_lock_protocol) (rule ReadBeforeCasSpinlock_effect)

section \<open>A lone thread\<close>

definition spin_free :: "'f \<Rightarrow> 'f spin \<Rightarrow> bool" where
  "spin_free f s \<longleftrightarrow> flag s = f \<and> (\<forall>t. pc s t = Idle)"

lemma spin_free_init: "spin_free f (spin_init f)"
  by (simp add: spin_free_def spin_init_def)

abbreviation one_try :: "tid \<Rightarrow> spin_event list" where "one_try t \<equiv> [Call t, Move t]"

abbreviation read_then_try :: "tid \<Rightarrow> spin_event list" where "read_then_try t \<equiv> [Call t, Move t, Move t]"

interpretation tas_solo: solo_lock NaiveTASLock_step spin_holds spin_releases "spin_free False" one_try Unlock
  by unfold_locales (auto simp: spin_free_def spin_ops)

interpretation ttas_np_solo: solo_lock TTASNoPauseLock_step spin_holds spin_releases "spin_free False" read_then_try Unlock
  by unfold_locales (auto simp: spin_free_def spin_ops)

interpretation ttas_solo: solo_lock TTASPauseLock_step spin_holds spin_releases "spin_free False" read_then_try Unlock
  by unfold_locales (auto simp: spin_free_def spin_ops)

interpretation ttas10_solo: solo_lock Ep10TTASPauseLock_step spin_holds spin_releases "spin_free False" one_try Unlock
  by unfold_locales (auto simp: spin_free_def spin_ops)

interpretation std_mtx_solo: solo_lock StdMutexWrapper_step spin_holds spin_releases "spin_free False" one_try Unlock
  by unfold_locales (auto simp: spin_free_def spin_ops)

interpretation ncas_solo: solo_lock NaiveCasSpinlock_step spin_holds spin_releases "spin_free 0" one_try Unlock
  by unfold_locales (auto simp: spin_free_def spin_ops)

interpretation rbcas_solo: solo_lock ReadBeforeCasSpinlock_step spin_holds spin_releases "spin_free 0" one_try Unlock
  by unfold_locales (auto simp: spin_free_def spin_ops)

section \<open>Properties\<close>

lemma bool_spinlocks_exclusive:
  assumes "step \<in> {NaiveTASLock_step, TTASNoPauseLock_step, TTASPauseLock_step, Ep10TTASPauseLock_step,
                     StdMutexWrapper_step}"
    and "run step (spin_init False) es = Some s" and "spin_holds s t" and "spin_holds s u"
  shows "t = u"
  using assms
  by (elim insertE emptyE) (auto intro: tas.mutual_exclusion ttas_np.mutual_exclusion ttas.mutual_exclusion
      ttas10.mutual_exclusion std_mtx.mutual_exclusion)

lemma cas_spinlocks_exclusive:
  assumes "step \<in> {NaiveCasSpinlock_step, ReadBeforeCasSpinlock_step}"
    and "run step (spin_init 0) es = Some s" and "spin_holds s t" and "spin_holds s u"
  shows "t = u"
  using assms by (elim insertE emptyE) (auto intro: ncas.mutual_exclusion rbcas.mutual_exclusion)

text \<open>
  Every spinlock of the repository and \<open>StdMutexWrapper\<close> give mutual exclusion in every
  interleaving of any number of threads, with spurious failures of the weak compare-exchange.
\<close>

theorem spinlocks_mutual_exclusion:
  assumes "step \<in> {NaiveTASLock_step, TTASNoPauseLock_step, TTASPauseLock_step, Ep10TTASPauseLock_step,
                     StdMutexWrapper_step}"
    and "cas_step \<in> {NaiveCasSpinlock_step, ReadBeforeCasSpinlock_step}"
    and "run step (spin_init False) es = Some s" and "run cas_step (spin_init 0) fs = Some r"
  shows "(spin_holds s t \<and> spin_holds s u \<longrightarrow> t = u) \<and> (spin_holds r t \<and> spin_holds r u \<longrightarrow> t = u)"
  using bool_spinlocks_exclusive [OF assms(1,3)] cas_spinlocks_exclusive [OF assms(2,4)] by blast

theorem spinlocks_mutual_exclusion_witness:
  "run TTASPauseLock_step (spin_init False) [Call 0, Call 1, Move 0, Move 1, Move 1, Move 0] \<noteq> None
   \<and> run ReadBeforeCasSpinlock_step (spin_init 0) [Call 0, Call 1, Spurious 0, Move 1, Move 0] \<noteq> None
   \<and> (let s = the (run TTASPauseLock_step (spin_init False) [Call 0, Call 1, Move 0, Move 1, Move 1, Move 0]);
          r = the (run ReadBeforeCasSpinlock_step (spin_init 0) [Call 0, Call 1, Spurious 0, Move 1, Move 0])
      in spin_holds s 1 \<and> spin_holds r 1 \<and> (spin_holds s 1 \<and> spin_holds s 0 \<longrightarrow> (1::nat) = 0)
         \<and> (spin_holds r 1 \<and> spin_holds r 0 \<longrightarrow> (1::nat) = 0))"
proof -
  let ?es = "[Call 0, Call 1, Move 0, Move 1, Move 1, Move 0]"
  let ?fs = "[Call 0, Call 1, Spurious 0, Move 1, Move 0]"
  have s: "\<exists>s. run TTASPauseLock_step (spin_init False) ?es = Some s \<and> spin_holds s 1"
    by (simp add: spin_init_def spin_ops)
  have r: "\<exists>r. run ReadBeforeCasSpinlock_step (spin_init 0) ?fs = Some r \<and> spin_holds r 1"
    by (simp add: spin_init_def spin_ops)
  show ?thesis
    using s r spinlocks_mutual_exclusion [of TTASPauseLock_step ReadBeforeCasSpinlock_step ?es _ ?fs _ 1 0]
    by (auto simp: Let_def)
qed

lemma NaiveTASLock_storm:
  "flag s \<Longrightarrow> pc s t = Rmw \<Longrightarrow> \<exists>r. run NaiveTASLock_step s (replicate n (Move t)) = Some r \<and> rmws r = rmws s + n"
  using run_replicate [of "\<lambda>s. flag s \<and> pc s t = Rmw" NaiveTASLock_step "Move t" rmws 1 s n]
  by (auto simp: spin_ops split: spin_pc.splits)

lemma NaiveCasSpinlock_storm:
  "flag s \<noteq> 0 \<Longrightarrow> pc s t = Rmw \<Longrightarrow> \<exists>r. run NaiveCasSpinlock_step s (replicate n (Move t)) = Some r \<and> rmws r = rmws s + n"
  using run_replicate [of "\<lambda>s. flag s \<noteq> 0 \<and> pc s t = Rmw" NaiveCasSpinlock_step "Move t" rmws 1 s n]
  by (auto simp: spin_ops split: spin_pc.splits)

lemma TTASPauseLock_quiet:
  assumes "flag s" and "pc s t \<in> {Check, Spin}"
  shows "\<exists>r. run TTASPauseLock_step s (replicate n (Move t)) = Some r \<and> rmws r = rmws s"
proof -
  let ?W = "\<lambda>s. flag s \<and> pc s t \<in> {Check, Spin}"
  have "\<And>s. ?W s \<Longrightarrow> \<exists>r. TTASPauseLock_step s (Move t) = Some r \<and> ?W r \<and> rmws r = rmws s + 0"
    by (auto simp: spin_ops)
  from run_replicate [of ?W TTASPauseLock_step "Move t" rmws 0 s n, OF this] assms
  show ?thesis by auto
qed

lemma Ep10TTASPauseLock_quiet:
  "flag s \<Longrightarrow> pc s t = Spin \<Longrightarrow> \<exists>r. run Ep10TTASPauseLock_step s (replicate n (Move t)) = Some r \<and> rmws r = rmws s"
  using run_replicate [of "\<lambda>s. flag s \<and> pc s t = Spin" Ep10TTASPauseLock_step "Move t" rmws 0 s n]
  by (auto simp: spin_ops split: spin_pc.splits)

lemma ReadBeforeCasSpinlock_quiet:
  "flag s \<noteq> 0 \<Longrightarrow> pc s t = Spin \<Longrightarrow> \<exists>r. run ReadBeforeCasSpinlock_step s (replicate n (Move t)) = Some r \<and> rmws r = rmws s"
  using run_replicate [of "\<lambda>s. flag s \<noteq> 0 \<and> pc s t = Spin" ReadBeforeCasSpinlock_step "Move t" rmws 0 s n]
  by (auto simp: spin_ops split: spin_pc.splits)

text \<open>
  What the two designs cost and when they get in. While the lock stays taken, a waiting thread of
  \<open>NaiveTASLock\<close> or \<open>NaiveCasSpinlock\<close> issues one read-modify-write per iteration, one of
  \<open>TTASPauseLock\<close> none at all, and one of the episode 10 lock or of \<open>ReadBeforeCasSpinlock\<close> exactly
  the first; and a thread that calls \<open>lock\<close> on a free lock and runs alone returns from it holding it.
\<close>

theorem spin_traffic:
  assumes "flag s" and "pc s t = Idle" and "\<not> flag f" and "pc f t = Idle"
    and "flag c \<noteq> 0" and "pc c t = Idle" and "flag g = 0" and "pc g t = Idle"
  shows "(\<exists>r. run NaiveTASLock_step s (Call t # replicate n (Move t)) = Some r \<and> rmws r = rmws s + n)
   \<and> (\<exists>r. run NaiveCasSpinlock_step c (Call t # replicate n (Move t)) = Some r \<and> rmws r = rmws c + n)
   \<and> (\<exists>r. run TTASPauseLock_step s (Call t # replicate n (Move t)) = Some r \<and> rmws r = rmws s)
   \<and> (\<exists>r. run Ep10TTASPauseLock_step s (Call t # replicate (Suc n) (Move t)) = Some r \<and> rmws r = rmws s + 1)
   \<and> (\<exists>r. run ReadBeforeCasSpinlock_step c (Call t # replicate (Suc n) (Move t)) = Some r \<and> rmws r = rmws c + 1)
   \<and> (\<exists>r. run NaiveTASLock_step f [Call t, Move t] = Some r \<and> spin_holds r t)
   \<and> (\<exists>r. run TTASPauseLock_step f [Call t, Move t, Move t] = Some r \<and> spin_holds r t)
   \<and> (\<exists>r. run Ep10TTASPauseLock_step f [Call t, Move t] = Some r \<and> spin_holds r t)
   \<and> (\<exists>r. run NaiveCasSpinlock_step g [Call t, Move t] = Some r \<and> spin_holds r t)
   \<and> (\<exists>r. run ReadBeforeCasSpinlock_step g [Call t, Move t] = Some r \<and> spin_holds r t)"
proof (intro conjI)
  show "\<exists>r. run NaiveTASLock_step s (Call t # replicate n (Move t)) = Some r \<and> rmws r = rmws s + n"
    using assms(1,2) NaiveTASLock_storm [of "at s t Rmw" t n] by (auto simp: spin_ops)
  show "\<exists>r. run NaiveCasSpinlock_step c (Call t # replicate n (Move t)) = Some r \<and> rmws r = rmws c + n"
    using assms(5,6) NaiveCasSpinlock_storm [of "at c t Rmw" t n] by (auto simp: spin_ops)
  show "\<exists>r. run TTASPauseLock_step s (Call t # replicate n (Move t)) = Some r \<and> rmws r = rmws s"
    using assms(1,2) TTASPauseLock_quiet [of "at s t Check" t n] by (auto simp: spin_ops)
  show "\<exists>r. run Ep10TTASPauseLock_step s (Call t # replicate (Suc n) (Move t)) = Some r \<and> rmws r = rmws s + 1"
    using assms(1,2) Ep10TTASPauseLock_quiet [of "at (rmw (at s t Rmw) True) t Spin" t n]
    by (auto simp: spin_ops)
  show "\<exists>r. run ReadBeforeCasSpinlock_step c (Call t # replicate (Suc n) (Move t)) = Some r \<and> rmws r = rmws c + 1"
    using assms(5,6) ReadBeforeCasSpinlock_quiet [of "at (rmw (at c t Rmw) (flag c)) t Spin" t n]
    by (auto simp: spin_ops)
qed (use assms in \<open>simp_all add: spin_ops\<close>)

theorem spin_traffic_witness:
  "let s = spin_init True; f = spin_init False; c = spin_init 1 :: u64 spin; g = spin_init 0 :: u64 spin
   in (\<exists>r. run NaiveTASLock_step s (Call 0 # replicate 5 (Move 0)) = Some r \<and> rmws r = rmws s + 5)
      \<and> (\<exists>r. run TTASPauseLock_step s (Call 0 # replicate 5 (Move 0)) = Some r \<and> rmws r = rmws s)
      \<and> (\<exists>r. run ReadBeforeCasSpinlock_step g [Call 0, Move 0] = Some r \<and> spin_holds r 0)"
  using spin_traffic [of "spin_init True" 0 "spin_init False" "spin_init 1" "spin_init 0" 5]
  by (simp add: spin_init_def Let_def del: run.simps replicate.simps)

end
