(* ===== verification/FutexLocks.thy ===== *)
theory FutexLocks
  imports LockProtocol
begin

text \<open>
  The three-state futex locks of \<open>locks_under_the_hood.h\<close>: \<open>RawFutexMutex\<close>, \<open>AdaptiveFutexMutex\<close>
  and \<open>Cpp20AtomicWaitLock\<close>. The three share their code up to the number of spins and the blocking
  call, so they are instances of one machine. The state word is 0 (unlocked), 1 (locked, nobody
  sleeps) or 2 (locked, somebody may sleep).
\<close>

section \<open>The machine\<close>

text \<open>
  Program points: \<open>FStart\<close> is the first \<open>compare_exchange_strong\<close>; \<open>FSpin k c\<close> the load of spin
  iteration \<open>k\<close>, \<open>c\<close> the local variable; \<open>FTry k\<close> the weak compare-exchange of that iteration;
  \<open>FXchg\<close> the exchange with 2; \<open>FWait\<close> the call of \<open>FUTEX_WAIT\<close> (or of \<open>wait\<close>); \<open>FSleep\<close> blocked
  in it; \<open>FHold\<close> the critical section; \<open>FWake\<close> between the exchange with 0 and the wake call.
\<close>

datatype futex_pc = FIdle | FStart | FSpin nat u32 | FTry nat | FXchg | FWait | FSleep | FHold | FWake

record futex =
  word :: u32
  where_at :: "tid \<Rightarrow> futex_pc"
  queue :: "tid list"
  syscalls :: nat

definition futex_init :: futex where
  "futex_init = \<lparr>word = 0, where_at = (\<lambda>_. FIdle), queue = [], syscalls = 0\<rparr>"

text \<open>
  \<open>FWeak\<close> is a spurious failure of the weak compare-exchange, \<open>FSpurious\<close> a return of the blocking call
  without a wake, \<open>FWakeup t u\<close> the wake call of \<open>t\<close> with the kernel choosing the sleeper \<open>u\<close>.
\<close>

datatype futex_event = FCall tid | FMove tid | FWeak tid | FSpurious tid | FUnlock tid | FWakeup tid tid

fun futex_releases :: "futex_event \<Rightarrow> tid option" where
  "futex_releases (FUnlock t) = Some t"
| "futex_releases _ = None"

definition futex_holds :: "futex \<Rightarrow> tid \<Rightarrow> bool" where
  "futex_holds s t \<longleftrightarrow> where_at s t = FHold"

definition goto :: "futex \<Rightarrow> tid \<Rightarrow> futex_pc \<Rightarrow> futex" where
  "goto s t p = s\<lparr>where_at := (where_at s)(t := p)\<rparr>"

text \<open>\<open>if (c != 2) c = state.exchange(2); while (c != 0) ...\<close>, entered with the local \<open>c\<close>.\<close>

definition after_spin :: "u32 \<Rightarrow> futex_pc" where
  "after_spin c = (if c \<noteq> 2 then FXchg else FWait)"

definition spin_loop :: "nat \<Rightarrow> nat \<Rightarrow> u32 \<Rightarrow> futex_pc" where
  "spin_loop spins k c = (if k < spins then FSpin k c else after_spin c)"

text \<open>
  One atomic operation of thread \<open>t\<close> inside \<open>lock\<close>. A \<open>FUTEX_WAIT\<close> with expected value 2 returns at
  once if the word is not 2, otherwise it puts the thread on the queue.
\<close>

definition futex_lock :: "nat \<Rightarrow> futex \<Rightarrow> tid \<Rightarrow> futex option" where
  "futex_lock spins s t =
     (case where_at s t of
        FStart \<Rightarrow>
          (if word s = 0 then Some (goto (s\<lparr>word := 1\<rparr>) t FHold)
           else Some (goto s t (spin_loop spins 0 (word s))))
      | FSpin k c \<Rightarrow>
          (if word s = 0 then Some (goto s t (FTry k)) else Some (goto s t (spin_loop spins (Suc k) c)))
      | FTry k \<Rightarrow>
          (if word s = 0 then Some (goto (s\<lparr>word := 1\<rparr>) t FHold)
           else Some (goto s t (spin_loop spins (Suc k) (word s))))
      | FXchg \<Rightarrow> Some (goto (s\<lparr>word := 2\<rparr>) t (if word s = 0 then FHold else FWait))
      | FWait \<Rightarrow>
          (let s = s\<lparr>syscalls := Suc (syscalls s)\<rparr>
           in if word s = 2 then Some (goto (s\<lparr>queue := queue s @ [t]\<rparr>) t FSleep) else Some (goto s t FXchg))
      | _ \<Rightarrow> None)"

text \<open>\<open>if (state.exchange(0) == 2) wake;\<close>\<close>

definition futex_unlock :: "futex \<Rightarrow> tid \<Rightarrow> futex option" where
  "futex_unlock s t =
     (if where_at s t = FHold
      then Some (goto (s\<lparr>word := 0\<rparr>) t (if word s = 2 then FWake else FIdle)) else None)"

text \<open>The wake call takes one sleeper off the queue and lets it go on at \<open>woken\<close>.\<close>

definition futex_wake :: "futex_pc \<Rightarrow> futex \<Rightarrow> tid \<Rightarrow> tid \<Rightarrow> futex option" where
  "futex_wake woken s t u =
     (if where_at s t \<noteq> FWake then None
      else let s = goto (s\<lparr>syscalls := Suc (syscalls s)\<rparr>) t FIdle
           in if queue s = [] then Some s
              else if u \<in> set (queue s) then Some (goto (s\<lparr>queue := remove1 u (queue s)\<rparr>) u woken)
              else None)"

fun futex_step :: "nat \<Rightarrow> futex_pc \<Rightarrow> futex \<Rightarrow> futex_event \<Rightarrow> futex option" where
  "futex_step spins woken s (FCall t) = (if where_at s t = FIdle then Some (goto s t FStart) else None)"
| "futex_step spins woken s (FMove t) = futex_lock spins s t"
| "futex_step spins woken s (FWeak t) =
     (case where_at s t of FTry k \<Rightarrow> Some (goto s t (spin_loop spins (Suc k) 0)) | _ \<Rightarrow> None)"
| "futex_step spins woken s (FSpurious t) =
     (if where_at s t = FSleep then Some (goto (s\<lparr>queue := remove1 t (queue s)\<rparr>) t woken) else None)"
| "futex_step spins woken s (FUnlock t) = futex_unlock s t"
| "futex_step spins woken s (FWakeup t u) = futex_wake woken s t u"

text \<open>
  The three locks. After \<open>FUTEX_WAIT\<close> the code exchanges again; \<open>std::atomic::wait\<close> returns to its
  caller only when it has seen a value different from 2, so a woken thread compares first.
\<close>

definition RawFutexMutex_step :: "futex \<Rightarrow> futex_event \<Rightarrow> futex option" where
  "RawFutexMutex_step = futex_step 0 FXchg"

definition AdaptiveFutexMutex_step :: "futex \<Rightarrow> futex_event \<Rightarrow> futex option" where
  "AdaptiveFutexMutex_step = futex_step 40 FXchg"

definition Cpp20AtomicWaitLock_step :: "futex \<Rightarrow> futex_event \<Rightarrow> futex option" where
  "Cpp20AtomicWaitLock_step = futex_step 40 FWait"

section \<open>The invariant\<close>

text \<open>
  The word tells whether the lock has an owner, the queue holds the sleepers, and while somebody
  sleeps, either the word is 2 (so the owner's \<open>unlock\<close> will wake), or a thread that will wake or
  write 2 is on its way.
\<close>

definition runnable_waker :: "futex \<Rightarrow> bool" where
  "runnable_waker s \<longleftrightarrow> (\<exists>t. where_at s t \<in> {FWake, FXchg, FWait})"

definition futex_owned :: "tid option \<Rightarrow> futex \<Rightarrow> bool" where
  "futex_owned ow s \<longleftrightarrow> word s \<in> {0, 1, 2} \<and> (word s = 0 \<longleftrightarrow> ow = None)
     \<and> (\<forall>t. where_at s t = FHold \<longleftrightarrow> ow = Some t)
     \<and> distinct (queue s) \<and> (\<forall>t. t \<in> set (queue s) \<longleftrightarrow> where_at s t = FSleep)
     \<and> (queue s \<noteq> [] \<longrightarrow> word s = 2 \<or> runnable_waker s)"

definition futex_inv :: "futex \<Rightarrow> bool" where
  "futex_inv s \<longleftrightarrow> (\<exists>ow. futex_owned ow s)"

text \<open>A step moves one thread and may change the owner and the queue at that thread.\<close>

lemma futex_owned_move:
  assumes "futex_owned ow s" and "where_at s' = (where_at s)(t := p)"
    and "word s' \<in> {0, 1, 2}" and "word s' = 0 \<longleftrightarrow> ow' = None"
    and "\<forall>u. u \<noteq> t \<longrightarrow> (ow' = Some u \<longleftrightarrow> ow = Some u)" and "ow' = Some t \<longleftrightarrow> p = FHold"
    and "distinct (queue s')" and "\<forall>u. u \<noteq> t \<longrightarrow> (u \<in> set (queue s') \<longleftrightarrow> u \<in> set (queue s))"
    and "t \<in> set (queue s') \<longleftrightarrow> p = FSleep"
    and "word s' = 2 \<or> p \<in> {FWake, FXchg, FWait} \<or> queue s' = [] \<or> runnable_waker s'
      \<or> (queue s \<noteq> [] \<and> word s \<noteq> 2 \<and> where_at s t \<notin> {FWake, FXchg, FWait})"
  shows "futex_owned ow' s'"
proof -
  have "word s' = 2 \<or> runnable_waker s'" if "queue s' \<noteq> []"
  proof (cases "word s' = 2 \<or> p \<in> {FWake, FXchg, FWait} \<or> runnable_waker s'")
    case True
    moreover have "where_at s' t = p" using assms(2) by simp
    ultimately show ?thesis unfolding runnable_waker_def by blast
  next
    case False
    with assms(10) that have c: "queue s \<noteq> []" "word s \<noteq> 2" "where_at s t \<notin> {FWake, FXchg, FWait}" by auto
    with assms(1) obtain u where u: "where_at s u \<in> {FWake, FXchg, FWait}"
      unfolding futex_owned_def runnable_waker_def by blast
    with c have "u \<noteq> t" by blast
    with u have "where_at s' u \<in> {FWake, FXchg, FWait}" using assms(2) by simp
    then show ?thesis unfolding runnable_waker_def by blast
  qed
  moreover have "\<forall>u. where_at s' u = FHold \<longleftrightarrow> ow' = Some u"
    using assms(1,2,5,6) by (auto simp: futex_owned_def)
  moreover have "\<forall>u. u \<in> set (queue s') \<longleftrightarrow> where_at s' u = FSleep"
    using assms(1,2,8,9) by (auto simp: futex_owned_def)
  ultimately show ?thesis using assms(3,4,7) by (simp add: futex_owned_def)
qed

lemma futex_ownedD:
  assumes "futex_owned ow s"
  shows "word s \<in> {0, 1, 2}" and "word s = 0 \<longleftrightarrow> ow = None" and "where_at s t = FHold \<longleftrightarrow> ow = Some t"
    and "distinct (queue s)" and "t \<in> set (queue s) \<longleftrightarrow> where_at s t = FSleep"
    and "queue s \<noteq> [] \<Longrightarrow> word s = 2 \<or> runnable_waker s"
  using assms unfolding futex_owned_def by blast+

text \<open>The moves that leave word, owner and queue alone.\<close>

lemma futex_owned_silent:
  assumes "futex_owned ow s" and "where_at s' = (where_at s)(t := p)" and "word s' = word s"
    and "queue s' = queue s" and "where_at s t \<notin> {FHold, FSleep}" and "p \<notin> {FHold, FSleep}"
    and "where_at s t \<in> {FWake, FXchg, FWait} \<longrightarrow> p \<in> {FWake, FXchg, FWait} \<or> queue s = []"
  shows "futex_owned ow s'"
  using assms futex_ownedD(1,2,4,6) [OF assms(1)] futex_ownedD(3,5) [OF assms(1), of t]
  by (intro futex_owned_move [OF assms(1,2)]) (auto simp: futex_owned_def)

lemma futex_owned_take:
  assumes "futex_owned ow s" and "where_at s' = (where_at s)(t := FHold)" and "word s = 0"
    and "queue s' = queue s" and "where_at s t \<noteq> FSleep"
    and "word s' = 2 \<or> word s' = 1 \<and> where_at s t \<notin> {FWake, FXchg, FWait}"
  shows "futex_owned (Some t) s'"
  using assms futex_ownedD(1,2,4,6) [OF assms(1)] futex_ownedD(3,5) [OF assms(1), of t]
  by (intro futex_owned_move [OF assms(1,2)]) auto

lemma futex_owned_mark:
  assumes "futex_owned ow s" and "where_at s' = (where_at s)(t := p)" and "word s \<noteq> 0" and "word s' = 2"
    and "where_at s t \<in> {FXchg, FWait}" and "p = FWait \<and> queue s' = queue s \<or> p = FSleep \<and> queue s' = queue s @ [t]"
  shows "futex_owned ow s'"
  using assms futex_ownedD(1,2,4,6) [OF assms(1)] futex_ownedD(3,5) [OF assms(1), of t]
  by (intro futex_owned_move [OF assms(1,2)]) auto

lemma futex_lock_inv:
  assumes "futex_owned ow s" and "futex_lock spins s t = Some s'"
  shows "futex_inv s'"
proof -
  have spin: "spin_loop spins k c \<notin> {FHold, FSleep}" for k c
    by (simp add: spin_loop_def after_spin_def)
  let ?p = "where_at s' t"
  have w: "where_at s' = (where_at s)(t := ?p)"
    using assms(2) by (auto simp: futex_lock_def goto_def Let_def split: futex_pc.splits if_splits)
  consider (silent) "word s' = word s" "queue s' = queue s" "where_at s t \<notin> {FHold, FSleep}"
      "?p \<notin> {FHold, FSleep}" "where_at s t \<in> {FWake, FXchg, FWait} \<longrightarrow> ?p = FXchg"
    | (take) "word s = 0" "?p = FHold" "queue s' = queue s" "where_at s t \<noteq> FSleep"
      "word s' = 2 \<or> word s' = 1 \<and> where_at s t \<notin> {FWake, FXchg, FWait}"
    | (mark) "word s \<noteq> 0" "word s' = 2" "where_at s t \<in> {FXchg, FWait}"
      "?p = FWait \<and> queue s' = queue s \<or> ?p = FSleep \<and> queue s' = queue s @ [t]"
    using assms(2) spin unfolding futex_lock_def
    by (cases "where_at s t") (auto simp: goto_def Let_def split: if_splits)
  then show ?thesis
  proof cases
    case silent
    then have "futex_owned ow s'" using futex_owned_silent [OF assms(1) w] by blast
    then show ?thesis by (auto simp: futex_inv_def)
  next
    case take
    then have "where_at s' = (where_at s)(t := FHold)" using w by simp
    then have "futex_owned (Some t) s'" using futex_owned_take [OF assms(1)] take by blast
    then show ?thesis by (auto simp: futex_inv_def)
  next
    case mark
    then have "futex_owned ow s'" using futex_owned_mark [OF assms(1) w] by blast
    then show ?thesis by (auto simp: futex_inv_def)
  qed
qed

lemma futex_owned_woken:
  assumes "futex_owned ow s" and "where_at s' = (where_at s)(u := p)" and "word s' = word s"
    and "queue s' = remove1 u (queue s)" and "where_at s u = FSleep" and "p \<in> {FXchg, FWait}"
  shows "futex_owned ow s'"
  using assms futex_ownedD(1,2,4,6) [OF assms(1)] futex_ownedD(3,5) [OF assms(1), of u]
  by (intro futex_owned_move [OF assms(1,2)]) (auto simp: set_remove1_eq)

lemma futex_wake_inv:
  assumes "futex_owned ow s" and "futex_wake woken s t u = Some s'" and "woken \<in> {FXchg, FWait}"
  shows "futex_inv s'"
proof -
  have t: "where_at s t = FWake" using assms(2) by (auto simp: futex_wake_def split: if_splits)
  show ?thesis
  proof (cases "queue s = []")
    case True
    then have "s' = goto (s\<lparr>syscalls := Suc (syscalls s)\<rparr>) t FIdle"
      using assms(2) t by (simp add: futex_wake_def goto_def)
    then have "futex_owned ow s'"
      using futex_owned_silent [OF assms(1), of s' t FIdle] t True by (simp add: goto_def)
    then show ?thesis by (auto simp: futex_inv_def)
  next
    case False
    then have u: "u \<in> set (queue s)" "s' = goto (goto (s\<lparr>syscalls := Suc (syscalls s),
        queue := remove1 u (queue s)\<rparr>) t FIdle) u woken"
      using assms(2) t by (auto simp: futex_wake_def goto_def Let_def split: if_splits)
    with futex_ownedD(5) [OF assms(1)] have pu: "where_at s u = FSleep" by blast
    with t have ne: "u \<noteq> t" by auto
    let ?q = "goto (s\<lparr>queue := remove1 u (queue s)\<rparr>) u woken"
    have q: "futex_owned ow ?q"
      using futex_owned_woken [OF assms(1), of ?q u woken] pu assms(3) by (simp add: goto_def)
    have "where_at s' u \<in> {FXchg, FWait}" using assms(3) by (simp add: u(2) goto_def)
    then have "runnable_waker s'" unfolding runnable_waker_def by blast
    then have "futex_owned ow s'"
      using futex_ownedD(1,2,4,6) [OF q] futex_ownedD(3,5) [OF q, of t] ne t assms(3)
      by (intro futex_owned_move [OF q, of s' t FIdle]) (auto simp: u(2) goto_def fun_upd_twist)
    then show ?thesis by (auto simp: futex_inv_def)
  qed
qed

lemma futex_step_inv:
  assumes "woken \<in> {FXchg, FWait}" and "futex_inv s" and "futex_step spins woken s e = Some s'"
  shows "futex_inv s'"
proof -
  obtain ow where ow: "futex_owned ow s" using assms(2) by (auto simp: futex_inv_def)
  have quiet: "futex_inv (goto s t p)"
    if "where_at s t \<notin> {FHold, FSleep, FWake, FXchg, FWait}" "p \<notin> {FHold, FSleep}" for t p
    using futex_owned_silent [OF ow, of "goto s t p" t p] that by (auto simp: futex_inv_def goto_def)
  show ?thesis
  proof (cases e)
    case (FMove t)
    then show ?thesis using futex_lock_inv [OF ow] assms(3) by simp
  next
    case (FWakeup t u)
    then show ?thesis using futex_wake_inv [OF ow _ assms(1)] assms(3) by simp
  next
    case (FSpurious t)
    with assms(3) have t: "where_at s t = FSleep" "s' = goto (s\<lparr>queue := remove1 t (queue s)\<rparr>) t woken"
      by (auto split: if_splits)
    have "futex_owned ow s'"
      using futex_owned_woken [OF ow, of s' t woken] t assms(1) by (simp add: goto_def)
    then show ?thesis by (auto simp: futex_inv_def)
  next
    case (FUnlock t)
    with assms(3) have t: "where_at s t = FHold"
      "s' = goto (s\<lparr>word := 0\<rparr>) t (if word s = 2 then FWake else FIdle)"
      by (auto simp: futex_unlock_def split: if_splits)
    have "futex_owned None s'"
      using futex_ownedD(1,2,4,6) [OF ow] futex_ownedD(3,5) [OF ow, of t] t
      by (intro futex_owned_move [OF ow, of s' t "if word s = 2 then FWake else FIdle"])
        (auto simp: goto_def)
    then show ?thesis by (auto simp: futex_inv_def)
  qed (use assms(3) quiet in \<open>auto simp: spin_loop_def after_spin_def split: if_splits futex_pc.splits\<close>)
qed

lemma futex_holder_awake: "futex_inv s \<Longrightarrow> futex_holds s t \<Longrightarrow> t \<notin> set (queue s)"
  by (auto simp: futex_inv_def futex_owned_def futex_holds_def)

lemma futex_lock_protocol:
  assumes "woken \<in> {FXchg, FWait}"
  shows "lock_protocol (futex_step spins woken) futex_inv futex_init futex_holds futex_releases"
proof
  show "futex_inv s'" if "futex_inv s" "futex_step spins woken s e = Some s'" for s e s'
    using futex_step_inv [OF assms that] .
  have "futex_owned None futex_init" by (simp add: futex_owned_def futex_init_def)
  then show "futex_inv futex_init" by (auto simp: futex_inv_def)
  show "t = u" if "futex_inv s" "futex_holds s t" "futex_holds s u" for s t u
    using that by (auto simp: futex_inv_def futex_holds_def futex_owned_def)
  show "futex_holds s' t" if "futex_inv s" "futex_holds s t" "futex_step spins woken s e = Some s'"
      "futex_releases e \<noteq> Some t" for s t e s'
    using that futex_holder_awake [OF that(1,2)] by (cases e) (auto simp: futex_holds_def goto_def futex_lock_def futex_unlock_def
        futex_wake_def Let_def split: if_splits futex_pc.splits)
qed

interpretation raw_futex: lock_protocol RawFutexMutex_step futex_inv futex_init futex_holds futex_releases
  unfolding RawFutexMutex_step_def by (rule futex_lock_protocol) simp

interpretation adaptive_futex: lock_protocol AdaptiveFutexMutex_step futex_inv futex_init futex_holds futex_releases
  unfolding AdaptiveFutexMutex_step_def by (rule futex_lock_protocol) simp

interpretation atomic_wait: lock_protocol Cpp20AtomicWaitLock_step futex_inv futex_init futex_holds futex_releases
  unfolding Cpp20AtomicWaitLock_step_def by (rule futex_lock_protocol) simp

lemma futex_reachable_inv:
  assumes "step \<in> {RawFutexMutex_step, AdaptiveFutexMutex_step, Cpp20AtomicWaitLock_step}"
    and "run step futex_init es = Some s"
  shows "futex_inv s"
  using assms raw_futex.run_inv [OF raw_futex.inv_init] adaptive_futex.run_inv [OF adaptive_futex.inv_init]
    atomic_wait.run_inv [OF atomic_wait.inv_init]
  by (elim insertE emptyE) auto

section \<open>A lone thread\<close>

definition futex_free :: "futex \<Rightarrow> bool" where
  "futex_free s \<longleftrightarrow> word s = 0 \<and> (\<forall>t. where_at s t = FIdle)"

abbreviation fast_path :: "tid \<Rightarrow> futex_event list" where "fast_path t \<equiv> [FCall t, FMove t]"

lemma futex_free_init: "futex_free futex_init"
  by (simp add: futex_free_def futex_init_def)

lemma futex_solo: "solo_lock (futex_step spins woken) futex_holds futex_releases futex_free fast_path FUnlock"
  by unfold_locales
    (auto simp: futex_free_def futex_lock_def futex_unlock_def futex_holds_def goto_def)

interpretation raw_futex_solo: solo_lock RawFutexMutex_step futex_holds futex_releases futex_free fast_path FUnlock
  unfolding RawFutexMutex_step_def by (rule futex_solo)

interpretation adaptive_futex_solo: solo_lock AdaptiveFutexMutex_step futex_holds futex_releases futex_free fast_path FUnlock
  unfolding AdaptiveFutexMutex_step_def by (rule futex_solo)

interpretation atomic_wait_solo: solo_lock Cpp20AtomicWaitLock_step futex_holds futex_releases futex_free fast_path FUnlock
  unfolding Cpp20AtomicWaitLock_step_def by (rule futex_solo)

section \<open>Properties\<close>

text \<open>
  The three futex locks give mutual exclusion in every interleaving, with spurious wake-ups and
  spurious compare-exchange failures, and their word always tells the truth: it is 0 exactly when
  nobody holds the lock.
\<close>

theorem futex_mutual_exclusion:
  assumes "step \<in> {RawFutexMutex_step, AdaptiveFutexMutex_step, Cpp20AtomicWaitLock_step}"
    and "run step futex_init es = Some s"
  shows "(futex_holds s t \<and> futex_holds s u \<longrightarrow> t = u) \<and> (word s = 0 \<longleftrightarrow> (\<forall>v. \<not> futex_holds s v))
    \<and> word s \<in> {0, 1, 2}"
  using futex_reachable_inv [OF assms] by (auto simp: futex_inv_def futex_owned_def futex_holds_def)

text \<open>
  C19. No wake-up is lost. In every reachable state in which a thread sleeps in the kernel, either the
  lock is held with the word at 2, so that the holder's \<open>unlock\<close> goes on to the wake call, or some
  other thread is awake inside \<open>lock\<close> or \<open>unlock\<close> and is about to wake a sleeper or to write 2; in
  particular the threads are never all asleep or outside with the lock free.
\<close>

theorem futex_no_lost_wakeup:
  assumes "step \<in> {RawFutexMutex_step, AdaptiveFutexMutex_step, Cpp20AtomicWaitLock_step}"
    and "run step futex_init es = Some s" and "where_at s t = FSleep"
  shows "(word s = 2 \<and> (\<exists>h. futex_holds s h
            \<and> map_option (\<lambda>r. where_at r h) (step s (FUnlock h)) = Some FWake))
       \<or> (\<exists>u. u \<noteq> t \<and> where_at s u \<in> {FWake, FXchg, FWait})"
proof -
  obtain ow where ow: "futex_owned ow s" using futex_reachable_inv [OF assms(1,2)] by (auto simp: futex_inv_def)
  have "queue s \<noteq> []" using futex_ownedD(5) [OF ow, of t] assms(3) by auto
  then consider "word s = 2" | u where "where_at s u \<in> {FWake, FXchg, FWait}"
    using futex_ownedD(6) [OF ow] unfolding runnable_waker_def by blast
  then show ?thesis
  proof cases
    case 1
    then obtain h where "where_at s h = FHold" using ow by (auto simp: futex_owned_def)
    moreover have "step s (FUnlock h) = futex_unlock s h" using assms(1)
      by (auto simp: RawFutexMutex_step_def AdaptiveFutexMutex_step_def Cpp20AtomicWaitLock_step_def)
    ultimately show ?thesis using 1 by (auto simp: futex_holds_def futex_unlock_def goto_def)
  next
    case 2
    then have "u \<noteq> t" using assms(3) by auto
    then show ?thesis using 2 by blast
  qed
qed

definition contended_futex :: "futex_event list" where
  "contended_futex = [FCall 0, FMove 0, FCall 1, FMove 1, FMove 1, FMove 1]"

theorem futex_mutual_exclusion_witness:
  "\<exists>s. run RawFutexMutex_step futex_init contended_futex = Some s \<and> futex_holds s 0 \<and> \<not> futex_holds s 1"
proof -
  obtain s where s: "run RawFutexMutex_step futex_init contended_futex = Some s" "futex_holds s 0"
    by (simp add: contended_futex_def RawFutexMutex_step_def futex_init_def futex_lock_def goto_def
        futex_holds_def spin_loop_def after_spin_def Let_def)
  with futex_mutual_exclusion [of RawFutexMutex_step contended_futex s 0 1] show ?thesis by auto
qed

theorem futex_no_lost_wakeup_witness:
  "\<exists>s. run RawFutexMutex_step futex_init contended_futex = Some s \<and> where_at s 1 = FSleep \<and> word s = 2
     \<and> ((\<exists>h. futex_holds s h) \<or> (\<exists>u. u \<noteq> 1 \<and> where_at s u \<in> {FWake, FXchg, FWait}))"
proof -
  obtain s where s: "run RawFutexMutex_step futex_init contended_futex = Some s" "where_at s 1 = FSleep" "word s = 2"
    by (simp add: contended_futex_def RawFutexMutex_step_def futex_init_def futex_lock_def goto_def
        spin_loop_def after_spin_def Let_def)
  with futex_no_lost_wakeup [of RawFutexMutex_step contended_futex s 1] show ?thesis by auto
qed

text \<open>
  A thread that finds the lock taken by somebody who keeps it looks \<open>spins\<close> times, exchanges once
  and goes to sleep: the number of its operations is bounded.
\<close>

lemma spinning_gives_up:
  assumes "word s = 1" and "where_at s t = spin_loop spins k 1" and "k \<le> spins"
  shows "\<exists>r. run (futex_step spins woken) s (replicate (spins - k + 2) (FMove t)) = Some r
    \<and> where_at r t = FSleep \<and> syscalls r = Suc (syscalls s) \<and> word r = 2"
  using assms
proof (induction "spins - k" arbitrary: s k)
  case 0
  then have "k = spins" by simp
  then show ?case using 0
    by (simp add: numeral_2_eq_2 spin_loop_def after_spin_def futex_lock_def goto_def Let_def)
next
  case (Suc n)
  let ?q = "goto s t (spin_loop spins (Suc k) 1)"
  have move: "futex_lock spins s t = Some ?q"
    using Suc.hyps(2) Suc.prems by (auto simp: futex_lock_def spin_loop_def)
  have "n = spins - Suc k" "Suc k \<le> spins" using Suc.hyps(2) by auto
  with Suc.hyps(1) [OF _ _ _, of "Suc k" ?q] Suc.prems
  have "\<exists>r. run (futex_step spins woken) ?q (replicate (spins - Suc k + 2) (FMove t)) = Some r
    \<and> where_at r t = FSleep \<and> syscalls r = Suc (syscalls s) \<and> word r = 2"
    by (simp add: goto_def)
  moreover have "replicate (spins - k + 2) (FMove t) = FMove t # replicate (spins - Suc k + 2) (FMove t)"
    using Suc.hyps(2) \<open>n = spins - Suc k\<close> by simp
  ultimately show ?case using move by simp
qed

text \<open>
  The cost of the two paths. Without contention, \<open>lock\<close> and \<open>unlock\<close> take the word 0, 1, 0 with
  two atomic operations and no system call. A thread that meets a lock held throughout does its
  compare-exchange, exactly 40 spin iterations (none for \<open>RawFutexMutex\<close>), one exchange and one
  \<open>FUTEX_WAIT\<close>, and then sleeps with the word at 2.
\<close>

theorem futex_paths:
  assumes "step \<in> {RawFutexMutex_step, AdaptiveFutexMutex_step, Cpp20AtomicWaitLock_step}"
    and "where_at s t = FIdle" and "word s = 0" and "where_at b t = FIdle" and "word b = 1"
  shows "run step s [FCall t, FMove t, FUnlock t] = Some s
    \<and> (\<exists>r. run RawFutexMutex_step b (FCall t # replicate 3 (FMove t)) = Some r
         \<and> where_at r t = FSleep \<and> syscalls r = syscalls b + 1 \<and> word r = 2)
    \<and> (\<exists>r. run AdaptiveFutexMutex_step b (FCall t # replicate 43 (FMove t)) = Some r
         \<and> where_at r t = FSleep \<and> syscalls r = syscalls b + 1 \<and> word r = 2)
    \<and> (\<exists>r. run Cpp20AtomicWaitLock_step b (FCall t # replicate 43 (FMove t)) = Some r
         \<and> where_at r t = FSleep \<and> syscalls r = syscalls b + 1 \<and> word r = 2)"
proof -
  have idle: "s\<lparr>word := 0, where_at := (where_at s)(t := FIdle)\<rparr> = s"
    using assms(2,3) by (cases s) (auto simp: fun_upd_idem)
  have "run (futex_step spins woken) s [FCall t, FMove t, FUnlock t] = Some s" for spins woken
    using assms(2,3) idle by (simp add: goto_def futex_lock_def futex_unlock_def fun_upd_twist)
  moreover have "\<exists>r. run (futex_step spins woken) b (FCall t # replicate (Suc (spins + 2)) (FMove t)) = Some r
      \<and> where_at r t = FSleep \<and> syscalls r = syscalls b + 1 \<and> word r = 2" for spins woken
    using assms(4,5) spinning_gives_up [of "goto b t (spin_loop spins 0 1)" t spins 0 woken]
    by (simp add: futex_lock_def goto_def)
  from this [of 0 FXchg] this [of 40 FXchg] this [of 40 FWait]
  have "\<exists>r. run (futex_step 0 FXchg) b (FCall t # replicate 3 (FMove t)) = Some r
      \<and> where_at r t = FSleep \<and> syscalls r = syscalls b + 1 \<and> word r = 2"
    "\<exists>r. run (futex_step 40 FXchg) b (FCall t # replicate 43 (FMove t)) = Some r
      \<and> where_at r t = FSleep \<and> syscalls r = syscalls b + 1 \<and> word r = 2"
    "\<exists>r. run (futex_step 40 FWait) b (FCall t # replicate 43 (FMove t)) = Some r
      \<and> where_at r t = FSleep \<and> syscalls r = syscalls b + 1 \<and> word r = 2"
    by (simp_all add: eval_nat_numeral del: run.simps)
  ultimately show ?thesis using assms(1)
    unfolding RawFutexMutex_step_def AdaptiveFutexMutex_step_def Cpp20AtomicWaitLock_step_def by blast
qed

theorem futex_paths_witness:
  "run Cpp20AtomicWaitLock_step futex_init [FCall 3, FMove 3, FUnlock 3] = Some futex_init
   \<and> (\<exists>r. run AdaptiveFutexMutex_step (futex_init\<lparr>word := 1\<rparr>) (FCall 3 # replicate 43 (FMove 3)) = Some r
         \<and> where_at r 3 = FSleep \<and> word r = 2)"
  using futex_paths [of Cpp20AtomicWaitLock_step futex_init 3 "futex_init\<lparr>word := 1\<rparr>"]
  by (auto simp: futex_init_def simp del: run.simps)

end
