(* ===== verification/Counters.thy ===== *)
theory Counters
  imports Prelude
begin

text \<open>
  The contention-free counters of \<open>mesi_coherency.h\<close>: \<open>ShardedCounter\<close> (with a scrape that runs
  while other threads increment), \<open>BatchedIdGenerator\<close>, \<open>ThreadMagazine\<close>, the header layouts, and the
  ledger of the spinlock benchmark. Each operation on shared data is a single \<open>fetch_add\<close>, load or
  store, so a schedule is a list of calls.
\<close>

section \<open>ShardedCounter\<close>

text \<open>The shards, \<open>NumShards\<close> of them; \<open>CacheLineAlignedAtomic\<close> pads each to its own line.\<close>

type_synonym shards = "u64 list"

definition shard_index :: "u64 \<Rightarrow> u64 \<Rightarrow> nat" where
  "shard_index num_shards worker_id = unat (worker_id AND (num_shards - 1))"

definition Increment :: "u64 \<Rightarrow> u64 \<Rightarrow> u64 \<Rightarrow> shards \<Rightarrow> shards" where
  "Increment num_shards worker_id delta ss =
     (let i = shard_index num_shards worker_id in ss[i := ss ! i + delta])"

definition ReadTotal :: "shards \<Rightarrow> u64" where
  "ReadTotal ss = foldl (\<lambda>sum shard. sum + shard) 0 ss"

definition Reset :: "shards \<Rightarrow> shards" where
  "Reset ss = map (\<lambda>_. 0) ss"

lemma shard_index_mod:
  "pow2_assert n \<Longrightarrow> n \<noteq> 0 \<Longrightarrow> shard_index n w = unat w mod unat n"
  by (simp add: shard_index_def mask_is_mod)

lemma shard_index_less:
  "pow2_assert n \<Longrightarrow> n \<noteq> 0 \<Longrightarrow> shard_index n w < unat n"
  by (simp add: shard_index_mod unat_gt_0)

lemma ReadTotal_sum: "ReadTotal ss = sum_list ss"
proof -
  have "foldl (\<lambda>sum shard. sum + shard) a ss = a + sum_list ss" for a
    by (induction ss arbitrary: a) (simp_all add: algebra_simps)
  then show ?thesis by (simp add: ReadTotal_def)
qed

lemma length_Increment [simp]: "length (Increment n w d ss) = length ss"
  by (simp add: Increment_def Let_def)

lemma ReadTotal_Increment:
  "pow2_assert n \<Longrightarrow> n \<noteq> 0 \<Longrightarrow> length ss = unat n \<Longrightarrow> ReadTotal (Increment n w d ss) = ReadTotal ss + d"
  using shard_index_less [of n w]
  by (simp add: ReadTotal_sum Increment_def Let_def sum_list_update_word)

text \<open>A scrape is a loop of loads; between two of them any worker may increment.\<close>

datatype scrape_event = Inc u64 u64 | LoadShard

record scrape =
  cells :: shards
  next_shard :: nat
  partial :: u64

fun scrape_step :: "u64 \<Rightarrow> scrape \<Rightarrow> scrape_event \<Rightarrow> scrape option" where
  "scrape_step n s (Inc w d) = Some (s\<lparr>cells := Increment n w d (cells s)\<rparr>)"
| "scrape_step n s LoadShard =
     (if next_shard s < length (cells s)
      then Some (s\<lparr>next_shard := Suc (next_shard s), partial := partial s + cells s ! next_shard s\<rparr>)
      else None)"

definition scrape_init :: "shards \<Rightarrow> scrape" where
  "scrape_init ss = \<lparr>cells = ss, next_shard = 0, partial = 0\<rparr>"

definition nat_total :: "shards \<Rightarrow> nat" where
  "nat_total ss = sum_list (map unat ss)"

fun increments :: "scrape_event list \<Rightarrow> nat" where
  "increments [] = 0"
| "increments (Inc w d # es) = unat d + increments es"
| "increments (LoadShard # es) = increments es"

definition scrape_inv :: "shards \<Rightarrow> scrape \<Rightarrow> bool" where
  "scrape_inv ss s \<longleftrightarrow> length (cells s) = length ss \<and> next_shard s \<le> length ss
     \<and> (\<forall>i < length ss. unat (ss ! i) \<le> unat (cells s ! i))
     \<and> sum_list (map unat (take (next_shard s) ss)) \<le> unat (partial s)
     \<and> unat (partial s) \<le> sum_list (map unat (take (next_shard s) (cells s)))"

lemma unat_elem_le_total: "i < length ss \<Longrightarrow> unat (ss ! i) \<le> nat_total ss"
  unfolding nat_total_def by (metis elem_le_sum_list length_map nth_map)

lemma nat_total_Increment:
  assumes "pow2_assert n" and "n \<noteq> 0" and "length ss = unat n" and "nat_total ss + unat d < 2 ^ 64"
  shows "nat_total (Increment n w d ss) = nat_total ss + unat d"
    and "unat (ss ! shard_index n w + d) = unat (ss ! shard_index n w) + unat d"
proof -
  let ?i = "shard_index n w"
  have i: "?i < length ss" using shard_index_less assms(1-3) by simp
  show eq: "unat (ss ! ?i + d) = unat (ss ! ?i) + unat d"
    using unat_elem_le_total [OF i] assms(4) by (intro unat_add_u64) simp
  show "nat_total (Increment n w d ss) = nat_total ss + unat d"
    using i eq unat_elem_le_total [OF i]
    by (simp add: nat_total_def Increment_def Let_def map_update sum_list_update)
qed

lemma scrape_step_inv:
  assumes "pow2_assert n" and "n \<noteq> 0" and "length ss = unat n" and "scrape_inv ss s"
    and "nat_total (cells s) + increments [e] < 2 ^ 64" and "scrape_step n s e = Some s'"
  shows "scrape_inv ss s' \<and> nat_total (cells s') = nat_total (cells s) + increments [e]"
proof (cases e)
  case (Inc w d)
  let ?i = "shard_index n w" and ?c = "cells s"
  have len: "length ?c = unat n" using assms(3,4) by (simp add: scrape_inv_def)
  have s': "s' = s\<lparr>cells := Increment n w d ?c\<rparr>" using assms(6) Inc by simp
  note upd = nat_total_Increment [OF assms(1,2) len, of d w]
  have grow: "unat (?c ! j) \<le> unat (Increment n w d ?c ! j)" for j
    using upd(2) assms(5) Inc by (auto simp: Increment_def Let_def nth_update_total)
  have "sum_list (map unat (take k ?c)) \<le> sum_list (map unat (take k (Increment n w d ?c)))" for k
    using grow by (intro sum_list_mono2) auto
  then show ?thesis using assms(4,5) upd(1) grow Inc
    by (auto simp: scrape_inv_def s' intro: order_trans)
next
  case LoadShard
  let ?k = "next_shard s" and ?c = "cells s"
  have k: "?k < length ss" "length ?c = length ss"
    and s': "s' = s\<lparr>next_shard := Suc ?k, partial := partial s + ?c ! ?k\<rparr>"
    using assms(4,6) LoadShard by (auto simp: scrape_inv_def split: if_splits)
  have "sum_list (map unat (take (Suc ?k) ?c)) \<le> nat_total ?c"
    using sum_list_append [of "map unat (take (Suc ?k) ?c)" "map unat (drop (Suc ?k) ?c)"]
    by (simp add: nat_total_def flip: map_append)
  moreover have "sum_list (map unat (take (Suc ?k) ?c)) = sum_list (map unat (take ?k ?c)) + unat (?c ! ?k)"
    using k by (simp add: take_Suc_conv_app_nth)
  moreover have "sum_list (map unat (take (Suc ?k) ss)) = sum_list (map unat (take ?k ss)) + unat (ss ! ?k)"
    using k by (simp add: take_Suc_conv_app_nth)
  moreover have "unat (ss ! ?k) \<le> unat (?c ! ?k)" using assms(4) k(1) by (simp add: scrape_inv_def)
  moreover have "unat (partial s + ?c ! ?k) = unat (partial s) + unat (?c ! ?k)"
    using calculation assms(4,5) by (intro unat_add_u64) (auto simp: scrape_inv_def)
  ultimately show ?thesis using assms(4) k LoadShard by (auto simp: scrape_inv_def s')
qed

lemma scrape_run_inv:
  assumes "pow2_assert n" and "n \<noteq> 0" and "length ss = unat n"
  shows "scrape_inv ss s \<Longrightarrow> nat_total (cells s) + increments es < 2 ^ 64
    \<Longrightarrow> run (scrape_step n) s es = Some s'
    \<Longrightarrow> scrape_inv ss s' \<and> nat_total (cells s') = nat_total (cells s) + increments es"
proof (induction es arbitrary: s)
  case Nil
  then show ?case by simp
next
  case (Cons e es)
  then obtain q where q: "scrape_step n s e = Some q" "run (scrape_step n) q es = Some s'"
    by (auto split: option.splits)
  have split: "increments (e # es) = increments [e] + increments es" by (cases e) auto
  have "scrape_inv ss q \<and> nat_total (cells q) = nat_total (cells s) + increments [e]"
    using scrape_step_inv [OF assms Cons.prems(1) _ q(1)] Cons.prems(2) split by simp
  then show ?case using Cons.IH [OF _ _ q(2)] Cons.prems(2) split by simp
qed

text \<open>
  C30. \<open>ShardedCounter\<close>: every worker id lands on an existing shard (its id modulo the number of
  shards), an increment adds its delta to the total, and a scrape that runs while other threads
  increment returns a value between the total at its first load and the total at its last, as long
  as the total itself fits 64 bits.
\<close>

theorem ShardedCounter_scrape:
  assumes "pow2_assert n" and "n \<noteq> 0" and "length ss = unat n"
    and "nat_total ss + increments es < 2 ^ 64"
    and "run (scrape_step n) (scrape_init ss) es = Some s" and "next_shard s = length (cells s)"
  shows "shard_index n w = unat w mod unat n \<and> ReadTotal (Increment n w d ss) = ReadTotal ss + d
    \<and> unat (ReadTotal ss) \<le> unat (partial s) \<and> unat (partial s) \<le> unat (ReadTotal (cells s))
    \<and> unat (ReadTotal (cells s)) = unat (ReadTotal ss) + increments es
    \<and> ReadTotal (Reset ss) = 0"
proof -
  have exact: "unat (ReadTotal xs) = nat_total xs" if "nat_total xs < 2 ^ 64" for xs
    using that
  proof (induction xs)
    case (Cons x xs)
    then show ?case using unat_add_u64 [of x "sum_list xs"] by (simp add: ReadTotal_sum nat_total_def)
  qed (simp add: ReadTotal_def nat_total_def)
  have "scrape_inv ss (scrape_init ss)" by (simp add: scrape_inv_def scrape_init_def)
  from scrape_run_inv [OF assms(1-3) this _ assms(5)] assms(4)
  have inv: "scrape_inv ss s" "nat_total (cells s) = nat_total ss + increments es"
    by (simp_all add: scrape_init_def)
  then have "nat_total ss \<le> unat (partial s)" "unat (partial s) \<le> nat_total (cells s)"
    using assms(6) by (auto simp: scrape_inv_def nat_total_def)
  moreover have "ReadTotal (Reset ss) = 0" unfolding ReadTotal_sum Reset_def by (induction ss) auto
  ultimately show ?thesis
    using exact [of ss] exact [of "cells s"] inv(2) assms(4) shard_index_mod [OF assms(1,2)]
      ReadTotal_Increment [OF assms(1-3)] by simp
qed

theorem ShardedCounter_scrape_witness:
  "\<exists>s. run (scrape_step 2) (scrape_init [5, 6]) [LoadShard, Inc 0 10, Inc 3 1, LoadShard] = Some s
    \<and> partial s = 12 \<and> unat (ReadTotal [5, 6]) \<le> unat (partial s)
    \<and> unat (partial s) \<le> unat (ReadTotal (cells s))"
proof -
  let ?es = "[LoadShard, Inc 0 10, Inc 3 1, LoadShard]"
  obtain s where "run (scrape_step 2) (scrape_init [5, 6]) ?es = Some s" "partial s = 12"
    "next_shard s = length (cells s)"
    by (simp add: scrape_init_def Increment_def shard_index_def)
  then show ?thesis using ShardedCounter_scrape [of 2 "[5, 6]" ?es s 0 0]
    by (auto simp: pow2_assert_def nat_total_def)
qed

section \<open>BatchedIdGenerator\<close>

record ThreadLease =
  cur :: u64
  batch_end :: u64

definition default_lease :: ThreadLease where
  "default_lease = \<lparr>cur = 0, batch_end = 0\<rparr>"

text \<open>\<open>NextId\<close> on the global counter and the caller's lease; it returns the id.\<close>

definition NextId :: "u64 \<Rightarrow> u64 \<Rightarrow> ThreadLease \<Rightarrow> u64 \<times> u64 \<times> ThreadLease" where
  "NextId batch_size global_id lease =
     (let (global_id, lease) =
        (if cur lease = batch_end lease
         then (global_id + batch_size, \<lparr>cur = global_id, batch_end = global_id + batch_size\<rparr>)
         else (global_id, lease))
      in (cur lease, global_id, lease\<lparr>cur := cur lease + 1\<rparr>))"

text \<open>
  A generator with its clients: the leases of the threads and the ids handed out so far, newest
  first. A thread touches shared memory in \<open>NextId\<close> at most once, by the \<open>fetch_add\<close>, so the calls
  of different threads interleave as wholes.
\<close>

record id_clients =
  global_id :: u64
  leases :: "ThreadLease list"
  issued :: "(tid \<times> u64) list"

definition GlobalWatermark :: "id_clients \<Rightarrow> u64" where
  "GlobalWatermark s = global_id s"

definition id_clients_init :: "nat \<Rightarrow> id_clients" where
  "id_clients_init num_threads =
     \<lparr>global_id = 0, leases = replicate num_threads default_lease, issued = []\<rparr>"

definition id_call :: "u64 \<Rightarrow> id_clients \<Rightarrow> tid \<Rightarrow> id_clients option" where
  "id_call batch_size s t =
     (if t < length (leases s)
      then let (i, g, l) = NextId batch_size (global_id s) (leases s ! t)
           in Some \<lparr>global_id = g, leases = (leases s)[t := l], issued = (t, i) # issued s\<rparr>
      else None)"

text \<open>
  The ids still in the leases and the ids handed out are pairwise different and below the watermark;
  each thread's calls and remaining ids make up whole batches, and these batches make up the
  watermark.
\<close>

definition remaining :: "ThreadLease \<Rightarrow> nat" where
  "remaining l = unat (batch_end l) - unat (cur l)"

definition calls_of :: "id_clients \<Rightarrow> tid \<Rightarrow> nat" where
  "calls_of s t = count_list (map fst (issued s)) t"

definition reserved :: "id_clients \<Rightarrow> tid \<Rightarrow> u64 \<Rightarrow> bool" where
  "reserved s t i \<longleftrightarrow> cur (leases s ! t) \<le> i \<and> i < batch_end (leases s ! t)"

definition id_inv :: "u64 \<Rightarrow> id_clients \<Rightarrow> bool" where
  "id_inv b s \<longleftrightarrow>
     (\<forall>t < length (leases s). cur (leases s ! t) \<le> batch_end (leases s ! t)
        \<and> batch_end (leases s ! t) \<le> global_id s \<and> remaining (leases s ! t) < unat b
        \<and> unat b dvd calls_of s t + remaining (leases s ! t))
   \<and> (\<forall>t < length (leases s). \<forall>u < length (leases s). \<forall>i. reserved s t i \<longrightarrow> reserved s u i \<longrightarrow> t = u)
   \<and> (\<forall>i \<in> snd ` set (issued s). i < global_id s \<and> (\<forall>t < length (leases s). \<not> reserved s t i))
   \<and> distinct (map snd (issued s))
   \<and> unat (global_id s) = (\<Sum>t < length (leases s). calls_of s t + remaining (leases s ! t))
   \<and> unat (global_id s) \<le> unat b * length (issued s)"

lemma id_invD:
  assumes "id_inv b s" and "t < length (leases s)"
  shows "cur (leases s ! t) \<le> batch_end (leases s ! t)" and "batch_end (leases s ! t) \<le> global_id s"
    and "remaining (leases s ! t) < unat b" and "unat b dvd calls_of s t + remaining (leases s ! t)"
    and "u < length (leases s) \<Longrightarrow> reserved s t i \<Longrightarrow> reserved s u i \<Longrightarrow> t = u"
    and "i \<in> snd ` set (issued s) \<Longrightarrow> i < global_id s \<and> \<not> reserved s t i"
  using assms unfolding id_inv_def by blast+

text \<open>One call, whichever way \<open>NextId\<close> goes: the id comes from the lease or from a fresh batch.\<close>

lemma NextId_spec:
  assumes "cur l \<le> batch_end l" and "batch_end l \<le> g" and "b \<noteq> 0" and "unat g + unat b < 2 ^ 64"
    and "NextId b g l = (i, g', l')"
  shows "i < batch_end l'" and "batch_end l' \<le> g'" and "cur l' = i + 1" and "unat (cur l') = unat i + 1"
    and "g \<le> g'"
    and "(cur l < batch_end l \<and> i = cur l \<and> batch_end l' = batch_end l \<and> g' = g)
       \<or> (cur l = batch_end l \<and> i = g \<and> unat g' = unat g + unat b \<and> batch_end l' = g')"
proof -
  have gb: "unat (g + b) = unat g + unat b" using assms(4) by (rule unat_add_u64)
  have b: "0 < unat b" using assms(3) by (simp add: unat_gt_0)
  have "cur l < batch_end l \<or> cur l = batch_end l" using assms(1) by auto
  then have "i < batch_end l' \<and> batch_end l' \<le> g' \<and> cur l' = i + 1 \<and> g \<le> g'"
    using assms gb b by (auto simp: NextId_def Let_def word_less_nat_alt word_le_nat_alt split: if_splits)
  then show lt: "i < batch_end l'" and "batch_end l' \<le> g'" and "cur l' = i + 1" and "g \<le> g'" by simp_all
  then show "unat (cur l') = unat i + 1"
    using unat_u64_less [of "batch_end l'"] by (simp add: unat_add_u64 word_less_nat_alt)
  show "(cur l < batch_end l \<and> i = cur l \<and> batch_end l' = batch_end l \<and> g' = g)
       \<or> (cur l = batch_end l \<and> i = g \<and> unat g' = unat g + unat b \<and> batch_end l' = g')"
    using assms gb by (auto simp: NextId_def Let_def split: if_splits)
qed

lemma id_call_inv:
  assumes b: "b \<noteq> 0" and room: "unat b * Suc (length (issued s)) < 2 ^ 64"
    and inv: "id_inv b s" and call: "id_call b s t = Some s'"
  shows "id_inv b s'"
proof -
  let ?n = "length (leases s)" and ?l = "leases s ! t" and ?g = "global_id s"
  have t: "t < ?n" using call by (auto simp: id_call_def split: if_splits)
  obtain i g l where nx: "NextId b ?g ?l = (i, g, l)" by (cases "NextId b ?g ?l")
  have s': "s' = \<lparr>global_id = g, leases = (leases s)[t := l], issued = (t, i) # issued s\<rparr>"
    using call nx t by (simp add: id_call_def)
  have "unat ?g + unat b < 2 ^ 64" using inv room by (simp add: id_inv_def)
  note sp = NextId_spec [OF id_invD(1,2) [OF inv t] b this nx]
  note nat_le = word_less_nat_alt word_le_nat_alt
  have bpos: "0 < unat b" using b by (simp add: unat_gt_0)
  have lease: "leases s' ! u = (if u = t then l else leases s ! u)" for u
    using t by (simp add: s' nth_list_update)
  have calls: "calls_of s' u = (if u = t then Suc (calls_of s u) else calls_of s u)" for u
    by (simp add: calls_of_def s')
  have res_t: "reserved s' t j \<longleftrightarrow> i < j \<and> j < batch_end l" for j
    using sp(3,4) by (simp add: reserved_def lease nat_le Suc_le_eq)
  have res_u: "reserved s' u j \<longleftrightarrow> reserved s u j" if "u \<noteq> t" for u j
    using that by (simp add: reserved_def lease)
  have old: "?g \<le> j \<or> reserved s t j" if "reserved s' t j \<or> j = i" for j
  proof -
    have j: "i \<le> j" "j < batch_end l" using that sp(1) by (auto simp: res_t)
    from sp(6) show ?thesis
    proof
      assume "cur ?l < batch_end ?l \<and> i = cur ?l \<and> batch_end l = batch_end ?l \<and> g = ?g"
      then show ?thesis using j by (simp add: reserved_def)
    next
      assume "cur ?l = batch_end ?l \<and> i = ?g \<and> unat g = unat ?g + unat b \<and> batch_end l = g"
      then show ?thesis using j by simp
    qed
  qed
  have below: "u < ?n \<Longrightarrow> reserved s u j \<Longrightarrow> j < ?g" for u j
    using id_invD(2) [OF inv, of u] by (auto simp: reserved_def)
  have sum: "calls_of s' t + remaining l = calls_of s t + remaining ?l + (unat g - unat ?g)"
    using sp(1,2,4,5,6) id_invD(1) [OF inv t] bpos by (auto simp: calls remaining_def nat_le)
  moreover have "remaining l < unat b" "?g \<le> g"
    using sp(1,2,4,5,6) id_invD(3) [OF inv t] bpos by (auto simp: remaining_def nat_le)
  moreover have "unat g - unat ?g = 0 \<or> unat g - unat ?g = unat b" using sp(6) by auto
  moreover have "unat b dvd calls_of s' t + remaining l"
    using id_invD(4) [OF inv t] sum calculation(4) by (auto simp: dvd_add)
  ultimately have step: "calls_of s' t + remaining l = calls_of s t + remaining ?l + (unat g - unat ?g)
      \<and> remaining l < unat b \<and> unat b dvd calls_of s' t + remaining l \<and> ?g \<le> g" by blast
  have fresh: "u \<noteq> t \<Longrightarrow> u < ?n \<Longrightarrow> reserved s u j \<Longrightarrow> \<not> (reserved s' t j \<or> j = i)" for u j
    using old [of j] below [of u j] id_invD(5) [OF inv t, of u j] by auto
  have "cur (leases s' ! u) \<le> batch_end (leases s' ! u) \<and> batch_end (leases s' ! u) \<le> g
      \<and> remaining (leases s' ! u) < unat b \<and> unat b dvd calls_of s' u + remaining (leases s' ! u)"
    if "u < ?n" for u
    using that id_invD(1-4) [OF inv that] step sp(1,2,4,5) calls [of u]
    by (auto simp: lease nat_le)
  moreover have "u = v" if "u < ?n" "v < ?n" "reserved s' u j" "reserved s' v j" for u v j
    using that fresh [of u j] fresh [of v j] id_invD(5) [OF inv that(1,2)] by (cases "u = t"; cases "v = t") (auto simp: res_u)
  moreover have "j < g \<and> (\<forall>u < ?n. \<not> reserved s' u j)" if "j \<in> snd ` set (issued s')" for j
  proof (cases "j = i")
    case True
    then have "\<not> reserved s' u j" if "u < ?n" for u
      using fresh [of u j] that by (cases "u = t") (auto simp: res_t res_u)
    then show ?thesis using True sp(1,2) by auto
  next
    case False
    with that have j: "j \<in> snd ` set (issued s)" by (auto simp: s')
    then have "\<not> reserved s' t j" using old [of j] id_invD(6) [OF inv t j] by auto
    then show ?thesis using id_invD(6) [OF inv _ j] t sp(5) res_u by (metis order_less_le_trans)
  qed
  moreover have "i \<notin> snd ` set (issued s)"
  proof
    assume "i \<in> snd ` set (issued s)"
    from id_invD(6) [OF inv t this] old [of i] show False by auto
  qed
  moreover have "unat g = (\<Sum>u < ?n. calls_of s' u + remaining (leases s' ! u))"
  proof -
    have "(\<Sum>u < ?n. calls_of s' u + remaining (leases s' ! u))
        = (\<Sum>u \<in> {..<?n} - {t}. calls_of s u + remaining (leases s ! u)) + (calls_of s' t + remaining l)"
      using t by (subst sum.remove [of _ t]) (auto simp: calls lease)
    moreover have "(\<Sum>u < ?n. calls_of s u + remaining (leases s ! u))
        = (\<Sum>u \<in> {..<?n} - {t}. calls_of s u + remaining (leases s ! u)) + (calls_of s t + remaining ?l)"
      using t by (subst sum.remove [of _ t]) auto
    ultimately show ?thesis using step inv by (simp add: id_inv_def nat_le)
  qed
  moreover have "unat g \<le> unat b * length (issued s')"
    using sp(6) inv by (auto simp: id_inv_def s')
  ultimately show ?thesis using inv unfolding id_inv_def by (simp add: s' id_inv_def)
qed

lemma issued_call: "id_call b s t = Some s' \<Longrightarrow> map fst (issued s') = t # map fst (issued s)
    \<and> length (leases s') = length (leases s) \<and> t < length (leases s)"
  by (auto simp: id_call_def Let_def split: if_splits prod.splits)

lemma id_run_inv:
  assumes "b \<noteq> 0"
  shows "id_inv b s \<Longrightarrow> unat b * (length (issued s) + length ts) < 2 ^ 64 \<Longrightarrow> run (id_call b) s ts = Some s'
    \<Longrightarrow> id_inv b s' \<and> map fst (issued s') = rev ts @ map fst (issued s) \<and> length (leases s') = length (leases s)
      \<and> (\<forall>t \<in> set ts. t < length (leases s))"
proof (induction ts arbitrary: s)
  case Nil
  then show ?case by simp
next
  case (Cons t ts)
  then obtain q where q: "id_call b s t = Some q" "run (id_call b) q ts = Some s'"
    by (auto split: option.splits)
  have "unat b * Suc (length (issued s)) \<le> unat b * (length (issued s) + length (t # ts))"
    by (intro mult_le_mono2) simp
  then have "id_inv b q" using id_call_inv [OF assms _ Cons.prems(1) q(1)] Cons.prems(2) by linarith
  moreover have "length (issued q) = Suc (length (issued s))"
    using issued_call [OF q(1)] by (metis length_Cons length_map)
  ultimately show ?case using Cons.IH [OF _ _ q(2)] Cons.prems(2) issued_call [OF q(1)] by simp
qed

lemma id_inv_init: "b \<noteq> 0 \<Longrightarrow> id_inv b (id_clients_init m)"
  by (auto simp: id_inv_def id_clients_init_def default_lease_def reserved_def remaining_def calls_of_def
      unat_gt_0)

lemma id_call_total: "t < length (leases s) \<Longrightarrow> \<exists>q. id_call b s t = Some q"
  by (cases "NextId b (global_id s) (leases s ! t)") (simp add: id_call_def)

lemma id_run_total:
  "\<forall>t \<in> set ts. t < length (leases s) \<Longrightarrow> \<exists>s'. run (id_call b) s ts = Some s'"
proof (induction ts arbitrary: s)
  case (Cons t ts)
  then obtain q where q: "id_call b s t = Some q" using id_call_total by fastforce
  with Cons issued_call [OF q] show ?case by simp
qed simp

lemma id_run_threads:
  "run (id_call b) s ts = Some s' \<Longrightarrow> set ts \<subseteq> {..<length (leases s)}"
proof (induction ts arbitrary: s)
  case (Cons t ts)
  then obtain q where q: "id_call b s t = Some q" "run (id_call b) q ts = Some s'"
    by (auto split: option.splits)
  with Cons.IH [OF q(2)] issued_call [OF q(1)] show ?case by simp
qed simp

lemma whole_batches:
  fixes b :: nat
  assumes "b dvd k + r" and "r < b"
  shows "k + r = b * ((k + b - 1) div b)"
proof -
  obtain c where c: "k + r = b * c" using assms(1) by (auto simp: dvd_def)
  have "(k + b - 1) div b = c"
  proof (rule div_nat_eqI)
    show "b * c \<le> k + b - 1" and "k + b - 1 < b * Suc c" using c assms(2) by auto
  qed
  then show ?thesis using c by simp
qed

lemma id_reachable:
  assumes "b \<noteq> 0" and "unat b * length ts < 2 ^ 64" and "run (id_call b) (id_clients_init m) ts = Some s"
  shows "id_inv b s" and "map fst (issued s) = rev ts" and "length (leases s) = m"
    and "unat (GlobalWatermark s) = (\<Sum>t < m. unat b * ((count_list ts t + unat b - 1) div unat b))"
proof -
  have init: "issued (id_clients_init m) = []" "length (leases (id_clients_init m)) = m"
    by (simp_all add: id_clients_init_def)
  note id_run_inv [OF assms(1) id_inv_init [OF assms(1)] _ assms(3)]
  then show inv: "id_inv b s" and ts: "map fst (issued s) = rev ts" and m: "length (leases s) = m"
    using assms(2) by (simp_all add: init)
  have "calls_of s t + remaining (leases s ! t) = unat b * ((count_list ts t + unat b - 1) div unat b)"
    if "t < m" for t
    using id_invD(3,4) [OF inv, of t] that whole_batches by (simp add: m calls_of_def ts)
  then show "unat (GlobalWatermark s) = (\<Sum>t < m. unat b * ((count_list ts t + unat b - 1) div unat b))"
    using inv m by (simp add: id_inv_def GlobalWatermark_def)
qed

text \<open>
  C28. \<open>BatchedIdGenerator\<close>: for any batch size, any number of threads and any interleaving of their
  calls, no id is handed out twice, every id is below the watermark, and the watermark is one whole
  batch for every started batch of each thread (as long as the counter does not wrap).
\<close>

theorem BatchedIdGenerator_unique:
  assumes "b \<noteq> 0" and "unat b * length ts < 2 ^ 64" and "run (id_call b) (id_clients_init m) ts = Some s"
  shows "distinct (map snd (issued s)) \<and> length (issued s) = length ts
    \<and> list_all (\<lambda>(t, i). i < GlobalWatermark s) (issued s)
    \<and> unat (GlobalWatermark s) = (\<Sum>t < m. unat b * ((count_list ts t + unat b - 1) div unat b))"
proof -
  note r = id_reachable [OF assms]
  have "length (issued s) = length ts" using r(2) by (metis length_map length_rev)
  moreover have "list_all (\<lambda>(t, i). i < GlobalWatermark s) (issued s)"
    using r(1) by (force simp: id_inv_def GlobalWatermark_def list_all_iff)
  ultimately show ?thesis using r by (simp add: id_inv_def)
qed

theorem BatchedIdGenerator_unique_witness:
  "\<exists>s. run (id_call 2) (id_clients_init 2) [0, 1, 0, 0, 1] = Some s
     \<and> map snd (issued s) = [3, 4, 1, 2, 0] \<and> distinct (map snd (issued s)) \<and> GlobalWatermark s = 6"
proof -
  obtain s where "run (id_call 2) (id_clients_init 2) [0, 1, 0, 0, 1] = Some s"
    "map snd (issued s) = [3, 4, 1, 2, 0]" "GlobalWatermark s = 6"
    by (simp add: id_clients_init_def id_call_def NextId_def default_lease_def GlobalWatermark_def numeral_2_eq_2)
  then show ?thesis using BatchedIdGenerator_unique [of 2 "[0, 1, 0, 0, 1]" 2 s] by auto
qed

text \<open>
  The integrity check of the episode 9 challenge compares the watermark of 16 threads, each of which
  draws 500,000 ids in batches of 64, with the number of ids.
\<close>

definition challenge_watermark_check :: "id_clients \<Rightarrow> bool" where
  "challenge_watermark_check s \<longleftrightarrow> GlobalWatermark s = of_nat 16 * of_nat 500000"

text \<open>500,000 is not a multiple of 64, so the watermark ends at 8,000,512 in every interleaving.\<close>

lemma watermark_after:
  assumes "run (id_call 64) (id_clients_init 16) ts = Some s" and "\<And>t. t < 16 \<Longrightarrow> count_list ts t = 500000"
  shows "GlobalWatermark s = 8000512"
proof -
  have sub: "set ts \<subseteq> {..<16}"
    using id_run_threads [OF assms(1)] by (simp add: id_clients_init_def)
  have "length ts = (\<Sum>t \<in> set ts. count_list ts t)" by (simp add: sum_count_set)
  also have "\<dots> = (\<Sum>t < 16. count_list ts t)"
    using sub by (intro sum.mono_neutral_left) (auto simp: count_list_0_iff)
  also have "\<dots> = 16 * 500000" using assms(2) by simp
  finally have "unat (64 :: u64) * length ts < 2 ^ 64" by simp
  from id_reachable(4) [OF _ this assms(1)] assms(2)
  have "unat (GlobalWatermark s) = 8000512" by simp
  then show ?thesis by (metis of_nat_numeral of_nat_unat ucast_id)
qed

text \<open>
  That check always fails, whatever the interleaving, and the program reports \<open>FAILED\<close> although every id was
  unique.
\<close>

theorem challenge_watermark_fails:
  assumes "run (id_call 64) (id_clients_init 16) ts = Some s" and "\<And>t. t < 16 \<Longrightarrow> count_list ts t = 500000"
  shows "GlobalWatermark s = 8000512 \<and> \<not> challenge_watermark_check s"
  using watermark_after [OF assms] by (simp add: challenge_watermark_check_def)

lemma count_list_upt: "count_list [0..<m] t = (if t < m then 1 else 0)"
  by (induction m) auto

lemma count_round_robin:
  "t < m \<Longrightarrow> count_list (concat (replicate n [0..<m])) t = n"
proof (induction n)
  case (Suc n)
  then show ?case by (simp add: count_list_upt)
qed simp

theorem challenge_watermark_fails_witness:
  "\<exists>s. run (id_call 64) (id_clients_init 16) (concat (replicate 500000 [0..<16])) = Some s
     \<and> GlobalWatermark s = 8000512 \<and> \<not> challenge_watermark_check s"
proof -
  let ?ts = "concat (replicate 500000 [0..<16])"
  have "\<forall>t \<in> set ?ts. t < length (leases (id_clients_init 16))" by (auto simp: id_clients_init_def)
  then obtain s where s: "run (id_call 64) (id_clients_init 16) ?ts = Some s" using id_run_total by blast
  show ?thesis using s challenge_watermark_fails [OF s] count_round_robin by blast
qed

section \<open>ThreadMagazine\<close>

text \<open>\<open>BufferSlot\<close> nodes are named by their address; the array keeps what was pushed before.\<close>

record 'p magazine =
  slots :: "'p list"
  count :: nat

definition kBatchRefill :: "nat \<Rightarrow> nat" where
  "kBatchRefill capacity = capacity div 2"

definition TryPopLocal :: "'p magazine \<Rightarrow> 'p option \<times> 'p magazine" where
  "TryPopLocal m =
     (if count m = 0 then (None, m)
      else let c = count m - 1 in (Some (slots m ! c), m\<lparr>count := c\<rparr>))"

definition TryPushLocal :: "nat \<Rightarrow> 'p \<Rightarrow> 'p magazine \<Rightarrow> bool \<times> 'p magazine" where
  "TryPushLocal capacity buf m =
     (if count m = capacity then (False, m)
      else (True, m\<lparr>slots := (slots m)[count m := buf], count := count m + 1\<rparr>))"

text \<open>The magazine as a bounded stack.\<close>

definition mag_inv :: "nat \<Rightarrow> 'p magazine \<Rightarrow> bool" where
  "mag_inv capacity m \<longleftrightarrow> length (slots m) = capacity \<and> count m \<le> capacity"

definition mag_stack :: "'p magazine \<Rightarrow> 'p list" where
  "mag_stack m = rev (take (count m) (slots m))"

text \<open>
  \<open>ThreadMagazine\<close> refines a stack bounded by \<open>Capacity\<close>: a push is refused exactly when the
  stack is full and otherwise pushes, a pop is refused exactly when it is empty and otherwise takes
  the last buffer pushed, and both stay within the array.
\<close>

theorem ThreadMagazine_stack:
  assumes "mag_inv capacity m"
  shows "(case TryPushLocal capacity buf m of
            (ok, m') \<Rightarrow> mag_inv capacity m' \<and> (ok \<longleftrightarrow> length (mag_stack m) < capacity)
              \<and> mag_stack m' = (if ok then buf # mag_stack m else mag_stack m))
       \<and> (case TryPopLocal m of
            (r, m') \<Rightarrow> mag_inv capacity m'
              \<and> (case mag_stack m of [] \<Rightarrow> r = None \<and> m' = m
                 | p # ps \<Rightarrow> r = Some p \<and> mag_stack m' = ps))
       \<and> fst (TryPopLocal (snd (TryPushLocal capacity buf m))) \<in> {Some buf, fst (TryPopLocal m)}"
proof -
  have len: "length (mag_stack m) = count m" using assms by (simp add: mag_stack_def mag_inv_def)
  have push: "take (Suc (count m)) ((slots m)[count m := buf]) = take (count m) (slots m) @ [buf]"
    if "count m \<noteq> capacity"
    using assms that by (simp add: mag_inv_def take_Suc_conv_app_nth)
  have pop: "mag_stack m = slots m ! (count m - 1) # rev (take (count m - 1) (slots m))" if "count m \<noteq> 0"
  proof -
    have "count m - 1 < length (slots m)" "Suc (count m - 1) = count m"
      using assms that by (auto simp: mag_inv_def)
    from take_Suc_conv_app_nth [OF this(1)] this(2) show ?thesis by (simp add: mag_stack_def)
  qed
  have "case TryPopLocal m of (r, m') \<Rightarrow> mag_inv capacity m'
      \<and> (case mag_stack m of [] \<Rightarrow> r = None \<and> m' = m | p # ps \<Rightarrow> r = Some p \<and> mag_stack m' = ps)"
  proof (cases "count m = 0")
    case True
    then show ?thesis using assms by (simp add: TryPopLocal_def mag_stack_def)
  next
    case False
    have "mag_stack (m\<lparr>count := count m - 1\<rparr>) = rev (take (count m - 1) (slots m))"
      by (simp add: mag_stack_def)
    with False pop show ?thesis using assms by (auto simp: TryPopLocal_def Let_def mag_inv_def)
  qed
  moreover have "case TryPushLocal capacity buf m of (ok, m') \<Rightarrow> mag_inv capacity m'
      \<and> (ok \<longleftrightarrow> length (mag_stack m) < capacity) \<and> mag_stack m' = (if ok then buf # mag_stack m else mag_stack m)"
    using assms len push by (auto simp: TryPushLocal_def mag_inv_def mag_stack_def)
  moreover have "fst (TryPopLocal (snd (TryPushLocal capacity buf m))) \<in> {Some buf, fst (TryPopLocal m)}"
    using assms by (auto simp: TryPushLocal_def TryPopLocal_def Let_def mag_inv_def)
  ultimately show ?thesis by blast
qed

theorem ThreadMagazine_stack_witness:
  "let m = \<lparr>slots = [7, 8, 9 :: nat], count = 2\<rparr>
   in mag_inv 3 m \<and> mag_stack m = [8, 7] \<and> mag_stack (snd (TryPushLocal 3 5 m)) = [5, 8, 7]
      \<and> fst (TryPopLocal m) = Some 8"
proof -
  let ?m = "\<lparr>slots = [7, 8, 9 :: nat], count = 2\<rparr>"
  have "mag_inv 3 ?m" "mag_stack ?m = [8, 7]" by (simp_all add: mag_inv_def mag_stack_def)
  with ThreadMagazine_stack [of 3 ?m 5] show ?thesis
    by (auto simp: Let_def TryPushLocal_def split: prod.splits)
qed

section \<open>Header layouts\<close>

text \<open>
  Offsets of the members of a struct, from their sizes and alignments. \<open>#pragma pack(1)\<close> takes every
  alignment as 1.
\<close>

fun offsets :: "nat \<Rightarrow> (nat \<times> nat) list \<Rightarrow> nat list" where
  "offsets off [] = []"
| "offsets off ((bytes, align) # ms) =
     (let start = (off + align - 1) div align * align in start # offsets (start + bytes) ms)"

definition PackedSplitLockHeader :: "nat list" where
  "PackedSplitLockHeader = offsets 0 [(60, 1), (8, 1), (60, 1)]"

definition AlignedTelemetryHeader :: "nat list" where
  "AlignedTelemetryHeader = offsets 0 [(8, 8), (56, 1)]"

definition split_lock :: "nat \<Rightarrow> nat \<Rightarrow> bool" where
  "split_lock address bytes \<longleftrightarrow> address div 64 \<noteq> (address + bytes - 1) div 64"

text \<open>
  The \<open>static_assert\<close>s on the two headers hold, and with the headers on a cache line each (as the
  challenge declares them), the packed \<open>seq_no\<close> straddles two lines and the aligned one does not.
\<close>

lemma header_layouts:
  "PackedSplitLockHeader ! 1 = 60 \<and> AlignedTelemetryHeader ! 0 = 0
   \<and> AlignedTelemetryHeader ! 0 mod 8 = 0
   \<and> split_lock (64 * line + PackedSplitLockHeader ! 1) 8
   \<and> \<not> split_lock (64 * line + AlignedTelemetryHeader ! 0) 8"
  by (simp add: PackedSplitLockHeader_def AlignedTelemetryHeader_def split_lock_def Let_def)

section \<open>SharedOrderBookLedger\<close>

record SharedOrderBookLedger =
  ledger_sequence :: u64
  total_Fill_qty :: u64
  rolling_notional :: u64
  venue_buckets :: "u64 list"

definition empty_ledger :: SharedOrderBookLedger where
  "empty_ledger = \<lparr>ledger_sequence = 0, total_Fill_qty = 0, rolling_notional = 0, venue_buckets = replicate 5 0\<rparr>"

definition RecordExecution :: "u64 \<Rightarrow> u64 \<Rightarrow> SharedOrderBookLedger \<Rightarrow> SharedOrderBookLedger" where
  "RecordExecution qty price_ticks l =
     (let s = ledger_sequence l + 1
      in l\<lparr>ledger_sequence := s, total_Fill_qty := total_Fill_qty l + qty,
           rolling_notional := rolling_notional l + qty * price_ticks,
           venue_buckets := map (\<lambda>idx. (venue_buckets l ! idx XOR (s + of_nat idx)) * 6364136223846793005
             + 1442695040888963407) [0..<length (venue_buckets l)]\<rparr>)"

lemma RecordExecution_totals:
  "ledger_sequence ((RecordExecution q p ^^ n) l) = ledger_sequence l + of_nat n
   \<and> total_Fill_qty ((RecordExecution q p ^^ n) l) = total_Fill_qty l + of_nat n * q
   \<and> rolling_notional ((RecordExecution q p ^^ n) l) = rolling_notional l + of_nat n * (q * p)"
  by (induction n) (simp_all add: RecordExecution_def Let_def algebra_simps)

end
