(* ===== verification/ShardedMap.thy ===== *)
theory ShardedMap
  imports LockProtocol
begin

text \<open>
  \<open>ShardedHashMap\<close> of \<open>locks_under_the_hood.h\<close> and of the episode 10 challenge. A shard is only
  touched under its own mutex, so each \<open>Upsert\<close> is atomic and a concurrent history is a list of
  calls.
\<close>

section \<open>The map\<close>

record MapShard =
  map_buckets :: "u64 list"
  map_updates :: u64

definition empty_shard :: MapShard where
  "empty_shard = \<lparr>map_buckets = replicate 16 0, map_updates = 0\<rparr>"

definition ShardedHashMap :: "u64 \<Rightarrow> MapShard list" where
  "ShardedHashMap num_shards = replicate (unat num_shards) empty_shard"

definition MixHash :: "u64 \<Rightarrow> u64" where
  "MixHash x =
     (let x = x XOR drop_bit 30 x; x = x * 0xBF58476D1CE4E5B9;
          x = x XOR drop_bit 27 x; x = x * 0x94D049BB133111EB
      in x XOR drop_bit 31 x)"

definition Upsert :: "u64 \<Rightarrow> u64 \<Rightarrow> u64 \<Rightarrow> MapShard list \<Rightarrow> MapShard list" where
  "Upsert num_shards key delta ss =
     (let h = MixHash key; i = unat (h AND (num_shards - 1)); shard = ss ! i;
          j = unat (drop_bit 8 h AND 15)
      in ss[i := \<lparr>map_buckets = (map_buckets shard)[j := map_buckets shard ! j + delta],
                  map_updates = map_updates shard + 1\<rparr>])"

definition TotalUpdates :: "MapShard list \<Rightarrow> u64" where
  "TotalUpdates ss = foldl (\<lambda>sum shard. sum + map_updates shard) 0 ss"

section \<open>The hash\<close>

lemma xor_shift_inj:
  assumes "0 < k" and "(x :: u64) XOR drop_bit k x = y XOR drop_bit k y"
  shows "x = y"
proof (rule bit_word_eqI)
  have eq: "(bit x n \<noteq> bit x (k + n)) = (bit y n \<noteq> bit y (k + n))" for n
    using arg_cong [OF assms(2), of "\<lambda>w. bit w n"] by (simp add: bit_xor_iff bit_drop_bit_eq)
  show "bit x n = bit y n" for n
  proof (induction "64 - n" arbitrary: n rule: less_induct)
    case less
    show ?case
    proof (cases "n < 64")
      case True
      then have "64 - (k + n) < 64 - n" using assms(1) by simp
      from less [OF this] eq [of n] show ?thesis by blast
    next
      case False
      then show ?thesis by (auto dest: bit_imp_le_length)
    qed
  qed
qed

lemma unit_multiplier_inj:
  assumes "(c :: u64) * d = 1" and "x * c = y * c"
  shows "x = y"
proof -
  have "x = x * c * d" and "y = y * c * d" using assms(1) by (simp_all add: mult.assoc)
  with assms(2) show ?thesis by simp
qed

lemma MixHash_inj:
  assumes "MixHash x = MixHash y"
  shows "x = y"
proof -
  have m: "(0xBF58476D1CE4E5B9 :: u64) * 0x96DE1B173F119089 = 1"
    "(0x94D049BB133111EB :: u64) * 0x319642B2D24D8EC3 = 1" by simp_all
  define p q where "p = (x XOR drop_bit 30 x) * 0xBF58476D1CE4E5B9"
    and "q = (y XOR drop_bit 30 y) * 0xBF58476D1CE4E5B9"
  have "(p XOR drop_bit 27 p) * 0x94D049BB133111EB = (q XOR drop_bit 27 q) * 0x94D049BB133111EB"
    using assms unfolding MixHash_def Let_def p_def [symmetric] q_def [symmetric]
    by (rule xor_shift_inj [rotated]) simp
  then have "p XOR drop_bit 27 p = q XOR drop_bit 27 q" by (rule unit_multiplier_inj [OF m(2)])
  then have "p = q" by (rule xor_shift_inj [rotated]) simp
  then have "x XOR drop_bit 30 x = y XOR drop_bit 30 y"
    unfolding p_def q_def by (rule unit_multiplier_inj [OF m(1)])
  then show ?thesis by (rule xor_shift_inj [rotated]) simp
qed

section \<open>The map's contract\<close>

definition shard_inv :: "u64 \<Rightarrow> MapShard list \<Rightarrow> bool" where
  "shard_inv num_shards ss \<longleftrightarrow> length ss = unat num_shards \<and> list_all (\<lambda>s. length (map_buckets s) = 16) ss"

definition bucket_total :: "MapShard list \<Rightarrow> u64" where
  "bucket_total ss = sum_list (map (\<lambda>s. sum_list (map_buckets s)) ss)"

lemma fold_sum: "foldl (\<lambda>sum x. sum + f x) (a :: u64) xs = a + sum_list (map f xs)"
  by (induction xs arbitrary: a) (simp_all add: algebra_simps)

lemma sum_list_map_update:
  fixes f :: "'a \<Rightarrow> u64"
  assumes "i < length xs" and "f v = f (xs ! i) + d"
  shows "sum_list (map f (xs[i := v])) = sum_list (map f xs) + d"
  using assms sum_list_update_word [of i "map f xs" d] by (simp add: map_update)

lemma low_bits_less: "unat ((h :: u64) AND 15) < 16"
  using mask_is_mod [of 16 h] by (simp add: pow2_assert_def)

lemma Upsert_shard_index: "pow2_assert n \<Longrightarrow> n \<noteq> 0 \<Longrightarrow> unat (h AND (n - 1)) < unat n"
  by (simp add: mask_is_mod unat_gt_0)

lemma Upsert_spec:
  assumes "pow2_assert n" and "n \<noteq> 0" and "shard_inv n ss"
  shows "shard_inv n (Upsert n key delta ss)"
    and "TotalUpdates (Upsert n key delta ss) = TotalUpdates ss + 1"
    and "bucket_total (Upsert n key delta ss) = bucket_total ss + delta"
proof -
  let ?h = "MixHash key"
  let ?i = "unat (?h AND (n - 1))" and ?j = "unat (drop_bit 8 ?h AND 15)"
  have i: "?i < length ss" using Upsert_shard_index [OF assms(1,2)] assms(3) by (simp add: shard_inv_def)
  then have b: "?j < length (map_buckets (ss ! ?i))"
    using assms(3) low_bits_less by (simp add: shard_inv_def list_all_length)
  show "shard_inv n (Upsert n key delta ss)"
    using assms(3) i by (auto simp: Upsert_def Let_def shard_inv_def list_all_length nth_list_update)
  show "TotalUpdates (Upsert n key delta ss) = TotalUpdates ss + 1"
    by (simp add: TotalUpdates_def fold_sum Upsert_def Let_def sum_list_map_update [OF i])
  show "bucket_total (Upsert n key delta ss) = bucket_total ss + delta"
    by (simp add: bucket_total_def Upsert_def Let_def sum_list_map_update [OF i] sum_list_update_word [OF b])
qed

lemma ShardedHashMap_inv: "shard_inv n (ShardedHashMap n)"
  by (simp add: shard_inv_def ShardedHashMap_def empty_shard_def list_all_length)

text \<open>The challenge's loop: each thread walks a key sequence of its own.\<close>

definition trial_seed :: "u64 \<Rightarrow> u64" where
  "trial_seed tid = (tid * 1315423911) XOR 0x9E3779B97F4A7C15"

definition trial_key :: "u64 \<Rightarrow> u64" where
  "trial_key key = (key XOR drop_bit 30 key) * 0xBF58476D1CE4E5B9"

definition RunShardedMapTrial :: "u64 \<Rightarrow> nat \<Rightarrow> nat \<Rightarrow> tid list \<Rightarrow> (u64 \<times> bool) option" where
  "RunShardedMapTrial num_shards num_threads ops_per_thread sched =
     (if (\<forall>t \<in> set sched. t < num_threads) \<and> list_all (\<lambda>t. count_list sched t = ops_per_thread) [0..<num_threads]
      then let (keys, m) =
             fold (\<lambda>t (keys, m). let key = trial_key (keys ! t) in (keys[t := key], Upsert num_shards key 1 m))
               sched (map (\<lambda>t. trial_seed (of_nat t)) [0..<num_threads], ShardedHashMap num_shards);
             total_seq = TotalUpdates m
           in Some (total_seq, total_seq = of_nat num_threads * of_nat ops_per_thread)
      else None)"

lemma trial_fold:
  assumes "pow2_assert n" and "n \<noteq> 0"
  shows "shard_inv n m \<Longrightarrow> TotalUpdates (snd (fold (\<lambda>t (keys, m). let key = trial_key (keys ! t)
      in (keys[t := key], Upsert n key 1 m)) sched (keys, m))) = TotalUpdates m + of_nat (length sched)"
  by (induction sched arbitrary: keys m) (simp_all add: Let_def Upsert_spec [OF assms])

lemma length_by_counts:
  assumes "\<forall>t \<in> set ts. t < m" and "list_all (\<lambda>t. count_list ts t = k) [0..<m]"
  shows "length ts = m * k"
proof -
  have "length ts = (\<Sum>t \<in> set ts. count_list ts t)" by (simp add: sum_count_set)
  also have "\<dots> = (\<Sum>t < m. count_list ts t)"
    using assms(1) by (intro sum.mono_neutral_left) (auto simp: count_list_0_iff)
  also have "\<dots> = m * k" using assms(2) by (simp add: list_all_iff)
  finally show ?thesis .
qed

lemma ShardedMap_trial:
  assumes "pow2_assert n" and "n \<noteq> 0"
  shows "RunShardedMapTrial n m k sched \<in> {None, Some (of_nat m * of_nat k, True)}"
proof -
  have "TotalUpdates (ShardedHashMap n) = 0"
    by (simp add: TotalUpdates_def fold_sum ShardedHashMap_def empty_shard_def map_replicate_const
        sum_list_replicate)
  then show ?thesis
    using trial_fold [OF assms ShardedHashMap_inv, of sched] length_by_counts [of sched m k]
    by (simp add: RunShardedMapTrial_def Let_def case_prod_beta)
qed

section \<open>The episode 10 map\<close>

text \<open>Its shards hold a \<open>ProtectedState\<close> and \<open>Update\<close> applies a transfer to the shard of the key.\<close>

definition Ep10Update :: "u64 \<Rightarrow> u64 \<Rightarrow> u64 \<Rightarrow> ProtectedState list \<Rightarrow> ProtectedState list" where
  "Ep10Update num_shards key_hash delta ss =
     (let i = unat (key_hash AND (num_shards - 1)) in ss[i := ApplyTransfer delta (ss ! i)])"

definition Ep10TotalSequence :: "ProtectedState list \<Rightarrow> u64" where
  "Ep10TotalSequence ss = foldl (\<lambda>total shard. total + sequence_no shard) 0 ss"

lemma Ep10Update_spec:
  assumes "pow2_assert n" and "n \<noteq> 0" and "length ss = unat n"
  shows "Ep10TotalSequence (Ep10Update n k d ss) = Ep10TotalSequence ss + 1"
    and "length (Ep10Update n k d ss) = unat n"
proof -
  have i: "unat (k AND (n - 1)) < length ss" using Upsert_shard_index [OF assms(1,2)] assms(3) by simp
  show "Ep10TotalSequence (Ep10Update n k d ss) = Ep10TotalSequence ss + 1"
    by (simp add: Ep10TotalSequence_def fold_sum Ep10Update_def Let_def sum_list_map_update [OF i]
        ApplyTransfer_def)
  show "length (Ep10Update n k d ss) = unat n" by (simp add: Ep10Update_def Let_def assms(3))
qed

section \<open>Properties\<close>

text \<open>
  \<open>ShardedHashMap\<close>, for a power-of-two number of shards: the hash is injective (keys are never
  merged before the masking), an \<open>Upsert\<close> stays inside the arrays, adds exactly one update and
  exactly its delta, and therefore the trial reports the number of operations and success in every
  interleaving; the same count holds for the episode 10 map.
\<close>

theorem ShardedHashMap_counts:
  assumes "pow2_assert n" and "n \<noteq> 0" and "shard_inv n ss" and "length ps = unat n"
  shows "(MixHash x = MixHash y \<longrightarrow> x = y) \<and> shard_inv n (Upsert n key delta ss)
    \<and> TotalUpdates (Upsert n key delta ss) = TotalUpdates ss + 1
    \<and> bucket_total (Upsert n key delta ss) = bucket_total ss + delta
    \<and> RunShardedMapTrial n m k sched \<in> {None, Some (of_nat m * of_nat k, True)}
    \<and> Ep10TotalSequence (Ep10Update n key delta ps) = Ep10TotalSequence ps + 1"
  using MixHash_inj ShardedMap_trial [OF assms(1,2)] Upsert_spec [OF assms(1-3)] Ep10Update_spec(1) [OF assms(1,2,4)] by simp

theorem ShardedHashMap_counts_witness:
  "RunShardedMapTrial 4 2 2 [0, 1, 1, 0] = Some (4, True)
   \<and> TotalUpdates (Upsert 4 77 5 (ShardedHashMap 4)) = TotalUpdates (ShardedHashMap 4) + 1"
proof -
  have "RunShardedMapTrial 4 2 2 [0, 1, 1, 0] \<noteq> None"
    by (simp add: RunShardedMapTrial_def Let_def case_prod_beta upt_rec)
  then show ?thesis
    using ShardedHashMap_counts [of 4 "ShardedHashMap 4" "replicate 4 initial_state" 0 0 77 5 2 2 "[0, 1, 1, 0]"]
      ShardedHashMap_inv [of 4]
    by (auto simp: pow2_assert_def)
qed

end
