(* ===== verification/Litmus.thy ===== *)
theory Litmus
  imports Prelude
begin

text \<open>
  Dekker's store-load litmus test of the store-buffer challenge on the x86-TSO memory model: each
  core puts its plain stores into a private FIFO store buffer that drains to memory at any later
  time, and loads look into the own buffer first. A \<open>seq_cst\<close> store is an \<open>xchg\<close>, which drains.
\<close>

section \<open>One trial\<close>

datatype var = X | Y

record litmus =
  memory :: "var \<Rightarrow> int"
  buf0 :: "(var \<times> int) list"
  buf1 :: "(var \<times> int) list"
  pc0 :: nat
  pc1 :: nat
  r1 :: int
  r2 :: int

definition commit_stores :: "(var \<times> int) list \<Rightarrow> (var \<Rightarrow> int) \<Rightarrow> var \<Rightarrow> int" where
  "commit_stores b m = fold (\<lambda>(v, n) m. m(v := n)) b m"

text \<open>A load sees the memory as it will be after the own buffer: the newest own store, if any.\<close>

definition load_forward :: "(var \<times> int) list \<Rightarrow> (var \<Rightarrow> int) \<Rightarrow> var \<Rightarrow> int" where
  "load_forward b m v = commit_stores b m v"

datatype litmus_event = T0 | T1 | Drain0 | Drain1

text \<open>Thread 0 runs \<open>x = 1; r1 = y\<close> and thread 1 runs \<open>y = 1; r2 = x\<close>.\<close>

fun litmus_step :: "bool \<Rightarrow> litmus \<Rightarrow> litmus_event \<Rightarrow> litmus option" where
  "litmus_step seq_cst s T0 =
     (if pc0 s = 0 then
        (let b = buf0 s @ [(X, 1)]
         in if seq_cst then Some (s\<lparr>memory := commit_stores b (memory s), buf0 := [], pc0 := 1\<rparr>)
            else Some (s\<lparr>buf0 := b, pc0 := 1\<rparr>))
      else if pc0 s = 1 then Some (s\<lparr>r1 := load_forward (buf0 s) (memory s) Y, pc0 := 2\<rparr>)
      else None)"
| "litmus_step seq_cst s T1 =
     (if pc1 s = 0 then
        (let b = buf1 s @ [(Y, 1)]
         in if seq_cst then Some (s\<lparr>memory := commit_stores b (memory s), buf1 := [], pc1 := 1\<rparr>)
            else Some (s\<lparr>buf1 := b, pc1 := 1\<rparr>))
      else if pc1 s = 1 then Some (s\<lparr>r2 := load_forward (buf1 s) (memory s) X, pc1 := 2\<rparr>)
      else None)"
| "litmus_step seq_cst s Drain0 =
     (case buf0 s of [] \<Rightarrow> None
      | (v, n) # b \<Rightarrow> Some (s\<lparr>memory := (memory s)(v := n), buf0 := b\<rparr>))"
| "litmus_step seq_cst s Drain1 =
     (case buf1 s of [] \<Rightarrow> None
      | (v, n) # b \<Rightarrow> Some (s\<lparr>memory := (memory s)(v := n), buf1 := b\<rparr>))"

text \<open>
  The state at the first barrier: \<open>x\<close> and \<open>y\<close> are reset and visible to both threads, the registers
  keep the values of the trial before.
\<close>

definition litmus_start :: "int \<Rightarrow> int \<Rightarrow> litmus" where
  "litmus_start a b = \<lparr>memory = (\<lambda>_. 0), buf0 = [], buf1 = [], pc0 = 0, pc1 = 0, r1 = a, r2 = b\<rparr>"

text \<open>
  \<open>RunStoreLoadLitmusTest\<close>: one schedule per trial; both threads must have reached the second barrier,
  then the trial counts when both registers are 0. \<open>None\<close> is a schedule of no execution.
\<close>

fun RunStoreLoadLitmusTest :: "bool \<Rightarrow> litmus_event list list \<Rightarrow> int \<Rightarrow> int \<Rightarrow> nat option" where
  "RunStoreLoadLitmusTest seq_cst [] a b = Some 0"
| "RunStoreLoadLitmusTest seq_cst (es # ess) a b =
     (case run (litmus_step seq_cst) (litmus_start a b) es of
        None \<Rightarrow> None
      | Some s \<Rightarrow>
          (if pc0 s = 2 \<and> pc1 s = 2
           then map_option (\<lambda>n. (if r1 s = 0 \<and> r2 s = 0 then 1 else 0) + n)
             (RunStoreLoadLitmusTest seq_cst ess (r1 s) (r2 s))
           else None))"

section \<open>What the two memory orders allow\<close>

definition litmus_inv :: "litmus \<Rightarrow> bool" where
  "litmus_inv s \<longleftrightarrow> buf0 s = [] \<and> buf1 s = [] \<and> pc0 s \<le> 2 \<and> pc1 s \<le> 2
     \<and> (0 < pc0 s \<longrightarrow> memory s X = 1) \<and> (0 < pc1 s \<longrightarrow> memory s Y = 1)
     \<and> (pc0 s = 2 \<and> pc1 s = 2 \<longrightarrow> \<not> (r1 s = 0 \<and> r2 s = 0))"

lemma litmus_seq_cst_inv: "litmus_inv s \<Longrightarrow> litmus_step True s e = Some s' \<Longrightarrow> litmus_inv s'"
  by (cases e) (auto simp: litmus_inv_def load_forward_def commit_stores_def Let_def split: if_splits)

interpretation litmus: safe_machine "litmus_step True" litmus_inv
  by unfold_locales (rule litmus_seq_cst_inv)

lemma litmus_start_inv: "litmus_inv (litmus_start a b)"
  by (simp add: litmus_inv_def litmus_start_def)

text \<open>The reordered execution: both stores wait in their buffers while both loads read memory.\<close>

definition reordered :: "litmus_event list" where
  "reordered = [T0, T1, T0, T1, Drain0, Drain1]"

lemma reordered_both_zero:
  "\<exists>s. run (litmus_step False) (litmus_start a b) reordered = Some s \<and> pc0 s = 2 \<and> pc1 s = 2
     \<and> r1 s = 0 \<and> r2 s = 0"
  by (simp add: reordered_def litmus_start_def load_forward_def commit_stores_def)

lemma seq_cst_counts: "RunStoreLoadLitmusTest True ess a b \<in> {None, Some 0}"
proof (induction ess arbitrary: a b)
  case (Cons es ess)
  show ?case
  proof (cases "run (litmus_step True) (litmus_start a b) es")
    case (Some s)
    have "litmus_inv s" by (rule litmus.run_inv [OF litmus_start_inv Some])
    then show ?thesis using Some Cons.IH [of "r1 s" "r2 s"] by (auto simp: litmus_inv_def)
  qed simp
qed simp

lemma seq_cst_completes: "RunStoreLoadLitmusTest True (replicate n [T0, T0, T1, T1]) a b = Some 0"
  by (induction n arbitrary: a b) (simp_all add: litmus_start_def load_forward_def commit_stores_def)

lemma ordered_counts: "RunStoreLoadLitmusTest False (replicate n [T0, Drain0, T0, T1, T1, Drain1]) a b = Some 0"
  by (induction n arbitrary: a b) (simp_all add: litmus_start_def load_forward_def commit_stores_def)

lemma reordered_counts:
  "RunStoreLoadLitmusTest False (replicate n reordered @ replicate m [T0, Drain0, T0, T1, T1, Drain1]) 0 0 = Some n"
proof (induction n)
  case 0
  then show ?case by (simp add: ordered_counts)
next
  case (Suc n)
  then show ?case using reordered_both_zero [of 0 0] by auto
qed

text \<open>
  C25. The litmus test tells the memory orders apart: with \<open>seq_cst\<close> no execution of any number of
  trials counts a single reordering, which is half of the program's \<open>valid\<close>; with \<open>relaxed\<close> every
  count from none to all trials is that of some execution.
\<close>

theorem store_load_litmus:
  "RunStoreLoadLitmusTest True ess a b \<in> {None, Some 0}
   \<and> RunStoreLoadLitmusTest False (replicate n reordered @ replicate m [T0, Drain0, T0, T1, T1, Drain1]) 0 0
     = Some n"
  by (intro conjI seq_cst_counts reordered_counts)

end
