(* ===== verification/Spsc.thy ===== *)
theory Spsc
  imports Prelude
begin

text \<open>
  \<open>SpscRingBuffer\<close> of \<open>store_buffer.h\<close>: the four operations on 64-bit indices that wrap, their
  contract as a bounded queue, and the two threads on the x86-TSO memory model, where every store of
  a field of a slot and of an index goes through the FIFO store buffer of its core.
\<close>

section \<open>The operations\<close>

record 'a spsc =
  write_idx :: u64
  read_idx :: u64
  ring :: "'a list"

definition spsc_index :: "u64 \<Rightarrow> u64 \<Rightarrow> nat" where
  "spsc_index capacity i = unat (i AND (capacity - 1))"

definition TryPushSeqCst :: "u64 \<Rightarrow> 'a \<Rightarrow> 'a spsc \<Rightarrow> bool \<times> 'a spsc" where
  "TryPushSeqCst capacity item s =
     (let w = write_idx s; r = read_idx s
      in if w - r \<ge> capacity then (False, s)
         else (True, s\<lparr>ring := (ring s)[spsc_index capacity w := item], write_idx := w + 1\<rparr>))"

definition TryPopSeqCst :: "u64 \<Rightarrow> 'a spsc \<Rightarrow> 'a option \<times> 'a spsc" where
  "TryPopSeqCst capacity s =
     (let r = read_idx s; w = write_idx s
      in if r = w then (None, s)
         else (Some (ring s ! spsc_index capacity r), s\<lparr>read_idx := r + 1\<rparr>))"

definition TryPushAcquireRelease :: "u64 \<Rightarrow> 'a \<Rightarrow> 'a spsc \<Rightarrow> bool \<times> 'a spsc" where
  "TryPushAcquireRelease capacity item s =
     (let w = write_idx s; r = read_idx s
      in if w - r \<ge> capacity then (False, s)
         else (True, s\<lparr>ring := (ring s)[spsc_index capacity w := item], write_idx := w + 1\<rparr>))"

definition TryPopAcquireRelease :: "u64 \<Rightarrow> 'a spsc \<Rightarrow> 'a option \<times> 'a spsc" where
  "TryPopAcquireRelease capacity s =
     (let r = read_idx s; w = write_idx s
      in if r = w then (None, s)
         else (Some (ring s ! spsc_index capacity r), s\<lparr>read_idx := r + 1\<rparr>))"

definition SpscRingBuffer :: "u64 \<Rightarrow> 'a \<Rightarrow> 'a spsc" where
  "SpscRingBuffer capacity dflt = \<lparr>write_idx = 0, read_idx = 0, ring = replicate (unat capacity) dflt\<rparr>"

section \<open>The contract of a bounded queue\<close>

datatype 'a queue_op = Push 'a | Pop

text \<open>The abstract queue: a list of at most \<open>n\<close> elements, oldest first.\<close>

fun queue_run :: "nat \<Rightarrow> 'a list \<Rightarrow> 'a queue_op list \<Rightarrow> (bool + 'a option) list" where
  "queue_run n q [] = []"
| "queue_run n q (Push x # ops) =
     (if length q < n then Inl True # queue_run n (q @ [x]) ops else Inl False # queue_run n q ops)"
| "queue_run n q (Pop # ops) =
     (case q of [] \<Rightarrow> Inr None # queue_run n q ops | x # q' \<Rightarrow> Inr (Some x) # queue_run n q' ops)"

fun ops_run :: "('a \<Rightarrow> 's \<Rightarrow> bool \<times> 's) \<Rightarrow> ('s \<Rightarrow> 'a option \<times> 's) \<Rightarrow> 's \<Rightarrow> 'a queue_op list \<Rightarrow> (bool + 'a option) list" where
  "ops_run push pop s [] = []"
| "ops_run push pop s (Push x # ops) = (case push x s of (b, s') \<Rightarrow> Inl b # ops_run push pop s' ops)"
| "ops_run push pop s (Pop # ops) = (case pop s of (r, s') \<Rightarrow> Inr r # ops_run push pop s' ops)"

locale bounded_queue =
  fixes push :: "'a \<Rightarrow> 's \<Rightarrow> bool \<times> 's" and pop :: "'s \<Rightarrow> 'a option \<times> 's"
    and abs :: "'s \<Rightarrow> 'a list" and inv :: "'s \<Rightarrow> bool" and bound :: nat
  assumes push_full: "inv s \<Longrightarrow> length (abs s) \<ge> bound \<Longrightarrow> push x s = (False, s)"
    and push_ok: "inv s \<Longrightarrow> length (abs s) < bound \<Longrightarrow>
      \<exists>s'. push x s = (True, s') \<and> inv s' \<and> abs s' = abs s @ [x]"
    and pop_empty: "inv s \<Longrightarrow> abs s = [] \<Longrightarrow> pop s = (None, s)"
    and pop_ok: "inv s \<Longrightarrow> abs s = y # ys \<Longrightarrow> \<exists>s'. pop s = (Some y, s') \<and> inv s' \<and> abs s' = ys"
begin

lemma refines: "inv s \<Longrightarrow> ops_run push pop s ops = queue_run bound (abs s) ops"
proof (induction ops arbitrary: s)
  case (Cons op ops)
  show ?case
  proof (cases op)
    case (Push x)
    show ?thesis
    proof (cases "length (abs s) < bound")
      case True
      then obtain s' where "push x s = (True, s')" "inv s'" "abs s' = abs s @ [x]"
        using push_ok Cons.prems by blast
      then show ?thesis using Cons.IH [of s'] Push True by simp
    next
      case False
      then show ?thesis using push_full Cons Push by simp
    qed
  next
    case Pop
    show ?thesis
    proof (cases "abs s")
      case Nil
      then show ?thesis using pop_empty Cons Pop by simp
    next
      case (Cons y ys)
      then obtain s' where "pop s = (Some y, s')" "inv s'" "abs s' = ys"
        using pop_ok Cons.prems by blast
      then show ?thesis using Cons.IH [of s'] Pop Cons by simp
    qed
  qed
qed simp

text \<open>An element pushed into the empty queue is what the next pop returns.\<close>

lemma handover:
  assumes "inv s" and "abs s = []" and "0 < bound"
  shows "\<exists>s' s''. push x s = (True, s') \<and> pop s' = (Some x, s'') \<and> inv s'' \<and> abs s'' = []"
  using push_ok [OF assms(1), of x] pop_ok assms(2,3) by fastforce

end

text \<open>
  The ring as a queue. The indices only ever matter by their difference and their low bits, so
  \<open>write_idx\<close> may have wrapped past \<open>read_idx\<close>.
\<close>

definition spsc_inv :: "u64 \<Rightarrow> 'a spsc \<Rightarrow> bool" where
  "spsc_inv capacity s \<longleftrightarrow> length (ring s) = unat capacity \<and> write_idx s - read_idx s \<le> capacity"

definition spsc_queue :: "u64 \<Rightarrow> 'a spsc \<Rightarrow> 'a list" where
  "spsc_queue capacity s =
     map (\<lambda>k. ring s ! spsc_index capacity (read_idx s + of_nat k)) [0..<unat (write_idx s - read_idx s)]"

lemma spsc_index_less: "pow2_assert c \<Longrightarrow> c \<noteq> 0 \<Longrightarrow> spsc_index c i < unat c"
  by (simp add: spsc_index_def mask_is_mod unat_gt_0)

lemma spsc_index_add:
  assumes "pow2_assert c" and "c \<noteq> 0"
  shows "spsc_index c (i + of_nat k) = (unat i + k) mod unat c"
proof -
  have "unat c dvd 2 ^ 64" using pow2_dvd_word_range assms by blast
  moreover have "unat (i + of_nat k) = (unat i + k) mod 2 ^ 64"
    by (simp add: unat_word_ariths unat_of_nat mod_add_right_eq)
  ultimately show ?thesis by (simp add: spsc_index_def mask_is_mod assms mod_mod_cancel)
qed

lemma spsc_window:
  assumes "spsc_inv c s" and "write_idx s - read_idx s \<noteq> c" and "c \<noteq> 0"
  shows "unat (write_idx s - read_idx s) < unat c"
    and "write_idx s + 1 - read_idx s = write_idx s - read_idx s + 1"
    and "unat (write_idx s + 1 - read_idx s) = Suc (unat (write_idx s - read_idx s))"
proof -
  show lt: "unat (write_idx s - read_idx s) < unat c"
    using assms by (simp add: spsc_inv_def word_le_less_eq word_less_nat_alt)
  show eq: "write_idx s + 1 - read_idx s = write_idx s - read_idx s + 1" by simp
  have "unat (write_idx s - read_idx s + 1) = unat (write_idx s - read_idx s) + unat (1 :: u64)"
    using lt unat_u64_less [of c] by (intro unat_add_u64) simp
  then show "unat (write_idx s + 1 - read_idx s) = Suc (unat (write_idx s - read_idx s))"
    by (simp only: eq) simp
qed

lemma spsc_push_ok:
  assumes c: "pow2_assert c" "c \<noteq> 0" and inv: "spsc_inv c s" and room: "length (spsc_queue c s) < unat c"
    and t_def: "t = s\<lparr>ring := (ring s)[spsc_index c (write_idx s) := x], write_idx := write_idx s + 1\<rparr>"
  shows "\<not> write_idx s - read_idx s \<ge> c" and "spsc_inv c t" and "spsc_queue c t = spsc_queue c s @ [x]"
proof -
  let ?d = "unat (write_idx s - read_idx s)"
  have d: "?d < unat c" using room by (simp add: spsc_queue_def)
  then show "\<not> write_idx s - read_idx s \<ge> c" by (simp add: word_le_nat_alt)
  have ne: "write_idx s - read_idx s \<noteq> c" using d by auto
  note win = spsc_window [OF inv ne c(2)]
  then show "spsc_inv c t" using inv d by (simp add: t_def spsc_inv_def word_le_nat_alt)
  have at: "spsc_index c (write_idx s) = (unat (read_idx s) + ?d) mod unat c"
    using spsc_index_add [OF c, of "read_idx s" ?d] by simp
  have other: "spsc_index c (write_idx s) \<noteq> spsc_index c (read_idx s + of_nat k)" if "k < ?d" for k
    using mod_window_inj [of k "unat c" ?d "unat (read_idx s)"] that d
    by (auto simp: at spsc_index_add [OF c])
  have "read_idx s + (write_idx s - read_idx s) = write_idx s" by simp
  then show "spsc_queue c t = spsc_queue c s @ [x]"
    using win other inv spsc_index_less [OF c]
    by (auto simp: spsc_queue_def t_def spsc_inv_def nth_update_total)
qed

lemma spsc_pop_ok:
  assumes c: "pow2_assert c" "c \<noteq> 0" and inv: "spsc_inv c s" and q: "spsc_queue c s = y # ys"
    and t_def: "t = s\<lparr>read_idx := read_idx s + 1\<rparr>"
  shows "read_idx s \<noteq> write_idx s" and "ring s ! spsc_index c (read_idx s) = y"
    and "spsc_inv c t" and "spsc_queue c t = ys"
proof -
  let ?d = "unat (write_idx s - read_idx s)"
  have len: "?d = Suc (length ys)" using arg_cong [OF q, of length] by (simp add: spsc_queue_def)
  then show "read_idx s \<noteq> write_idx s" by auto
  have "unat (write_idx s - read_idx s - 1) = unat (write_idx s - read_idx s) - unat (1 :: u64)"
    using len by (intro unat_sub) (simp add: word_le_nat_alt)
  then have dt: "unat (write_idx t - read_idx t) = length ys"
    using len by (simp add: t_def diff_diff_eq)
  have up: "[0..<Suc n] = 0 # map Suc [0..<n]" for n by (simp add: map_Suc_upt upt_conv_Cons)
  have "spsc_queue c s = ring s ! spsc_index c (read_idx s) # spsc_queue c t"
    unfolding spsc_queue_def dt len up by (simp add: t_def o_def add.assoc)
  with q show "ring s ! spsc_index c (read_idx s) = y" and "spsc_queue c t = ys" by simp_all
  show "spsc_inv c t" using inv dt len by (simp add: spsc_inv_def t_def word_le_nat_alt)
qed

lemma spsc_queue_Nil: "spsc_queue c s = [] \<longleftrightarrow> read_idx s = write_idx s"
  by (simp add: spsc_queue_def unat_eq_0) (metis)

lemma spsc_contract:
  assumes "pow2_assert c" and "c \<noteq> 0"
    and push: "\<And>x s. push x s = (if write_idx s - read_idx s \<ge> c then (False, s)
         else (True, s\<lparr>ring := (ring s)[spsc_index c (write_idx s) := x], write_idx := write_idx s + 1\<rparr>))"
    and pop: "\<And>s. pop s = (if read_idx s = write_idx s then (None, s)
         else (Some (ring s ! spsc_index c (read_idx s)), s\<lparr>read_idx := read_idx s + 1\<rparr>))"
  shows "bounded_queue push pop (spsc_queue c) (spsc_inv c) (unat c)"
proof
  fix s :: "'a spsc" and x y :: 'a and ys
  assume inv: "spsc_inv c s"
  show "push x s = (False, s)" if "unat c \<le> length (spsc_queue c s)"
    using that by (simp add: push spsc_queue_def word_le_nat_alt)
  show "\<exists>s'. push x s = (True, s') \<and> spsc_inv c s' \<and> spsc_queue c s' = spsc_queue c s @ [x]"
    if "length (spsc_queue c s) < unat c"
    using spsc_push_ok [OF assms(1,2) inv that refl] by (simp add: push)
  show "pop s = (None, s)" if "spsc_queue c s = []" using that by (simp add: pop spsc_queue_Nil)
  show "\<exists>s'. pop s = (Some y, s') \<and> spsc_inv c s' \<and> spsc_queue c s' = ys" if "spsc_queue c s = y # ys"
    using spsc_pop_ok [OF assms(1,2) inv that refl] by (simp add: pop)
qed

text \<open>
  The interpretations are for an arbitrary power-of-two capacity, stated as lemmas for use with \<open>OF\<close>;
  the instance for the challenge's 1024 slots is an \<open>interpretation\<close>.
\<close>

lemma TryPushSeqCst_queue:
  "pow2_assert c \<Longrightarrow> c \<noteq> 0 \<Longrightarrow>
   bounded_queue (TryPushSeqCst c) (TryPopSeqCst c) (spsc_queue c) (spsc_inv c) (unat c)"
  by (rule spsc_contract) (simp_all add: TryPushSeqCst_def TryPopSeqCst_def Let_def)

lemma TryPushAcquireRelease_queue:
  "pow2_assert c \<Longrightarrow> c \<noteq> 0 \<Longrightarrow>
   bounded_queue (TryPushAcquireRelease c) (TryPopAcquireRelease c) (spsc_queue c) (spsc_inv c) (unat c)"
  by (rule spsc_contract) (simp_all add: TryPushAcquireRelease_def TryPopAcquireRelease_def Let_def)

interpretation sc1024: bounded_queue "TryPushSeqCst 1024" "TryPopSeqCst 1024" "spsc_queue 1024" "spsc_inv 1024"
    "unat (1024 :: u64)"
  by (rule TryPushSeqCst_queue) (simp_all add: pow2_assert_def)

interpretation ar1024: bounded_queue "TryPushAcquireRelease 1024" "TryPopAcquireRelease 1024" "spsc_queue 1024"
    "spsc_inv 1024" "unat (1024 :: u64)"
  by (rule TryPushAcquireRelease_queue) (simp_all add: pow2_assert_def)

lemma SpscRingBuffer_start: "spsc_inv c (SpscRingBuffer c d) \<and> spsc_queue c (SpscRingBuffer c d) = []"
  by (simp add: spsc_inv_def spsc_queue_def SpscRingBuffer_def)

section \<open>Two cores\<close>

text \<open>
  The variables the producer writes: \<open>write_idx\<close> and the fields of the slots. \<open>published\<close> counts the
  stores to \<open>write_idx\<close> that have reached memory; nothing reads it.
\<close>

record 'a pmem =
  widx :: u64
  cells :: "'a list list"
  published :: nat

datatype 'a pstore = StField nat nat 'a | StW u64

fun commit :: "'a pstore \<Rightarrow> 'a pmem \<Rightarrow> 'a pmem" where
  "commit (StField p k v) m = m\<lparr>cells := (cells m)[p := (cells m ! p)[k := v]]\<rparr>"
| "commit (StW w) m = m\<lparr>widx := w, published := Suc (published m)\<rparr>"

definition commits :: "'a pstore list \<Rightarrow> 'a pmem \<Rightarrow> 'a pmem" where
  "commits b m = fold commit b m"

datatype 'a ppc = PIdle | PHave "'a list" u64 | PFill "'a list" u64 nat
datatype 'a cpc = CIdle | CHave u64 | CCopy u64 "'a list"

text \<open>
  The producer's memory and store buffer, \<open>read_idx\<close> in memory with the consumer's store buffer (its
  only stores are to \<open>read_idx\<close>), the program points, and the items pushed and popped so far.
\<close>

record 'a duo =
  pm :: "'a pmem"
  pbuf :: "'a pstore list"
  ridx :: u64
  cbuf :: "u64 list"
  consumed :: nat
  ppc :: "'a ppc"
  cpc :: "'a cpc"
  pushed :: "'a list list"
  popped :: "'a list list"

datatype 'a duo_event = PushCall "'a list" | PMove | PopCall | CMove | DrainP | DrainC

text \<open>
  \<open>TryPush\<close>: load \<open>write_idx\<close> (own stores forwarded), load \<open>read_idx\<close>, give up if the ring is full,
  store the item field by field, store \<open>write_idx + 1\<close>. A \<open>seq_cst\<close> store drains the buffer.
\<close>

fun producer_step :: "bool \<Rightarrow> u64 \<Rightarrow> nat \<Rightarrow> 'a duo \<Rightarrow> 'a duo option" where
  "producer_step seq_cst capacity nf s =
     (case ppc s of
        PIdle \<Rightarrow> None
      | PHave item w \<Rightarrow>
          (if w - ridx s \<ge> capacity then Some (s\<lparr>ppc := PIdle\<rparr>) else Some (s\<lparr>ppc := PFill item w 0\<rparr>))
      | PFill item w k \<Rightarrow>
          (if k < nf
           then Some (s\<lparr>pbuf := pbuf s @ [StField (spsc_index capacity w) k (item ! k)], ppc := PFill item w (Suc k)\<rparr>)
           else let b = pbuf s @ [StW (w + 1)]; s = s\<lparr>ppc := PIdle, pushed := pushed s @ [item]\<rparr>
                in if seq_cst then Some (s\<lparr>pm := commits b (pm s), pbuf := []\<rparr>) else Some (s\<lparr>pbuf := b\<rparr>)))"

text \<open>\<open>TryPop\<close>: load both indices, give up if they are equal, copy the slot, store \<open>read_idx + 1\<close>.\<close>

definition own_read_idx :: "'a duo \<Rightarrow> u64" where
  "own_read_idx s = (if cbuf s = [] then ridx s else last (cbuf s))"

fun consumer_step :: "bool \<Rightarrow> u64 \<Rightarrow> nat \<Rightarrow> 'a duo \<Rightarrow> 'a duo option" where
  "consumer_step seq_cst capacity nf s =
     (case cpc s of
        CIdle \<Rightarrow> None
      | CHave r \<Rightarrow> (if r = widx (pm s) then Some (s\<lparr>cpc := CIdle\<rparr>) else Some (s\<lparr>cpc := CCopy r []\<rparr>))
      | CCopy r acc \<Rightarrow>
          (if length acc < nf
           then Some (s\<lparr>cpc := CCopy r (acc @ [cells (pm s) ! spsc_index capacity r ! length acc])\<rparr>)
           else let b = cbuf s @ [r + 1]; s = s\<lparr>cpc := CIdle, popped := popped s @ [acc]\<rparr>
                in if seq_cst then Some (s\<lparr>ridx := last b, consumed := consumed s + length b, cbuf := []\<rparr>)
                   else Some (s\<lparr>cbuf := b\<rparr>)))"

fun duo_step :: "bool \<Rightarrow> u64 \<Rightarrow> nat \<Rightarrow> 'a duo \<Rightarrow> 'a duo_event \<Rightarrow> 'a duo option" where
  "duo_step seq_cst capacity nf s (PushCall item) =
     (if ppc s = PIdle \<and> length item = nf
      then Some (s\<lparr>ppc := PHave item (widx (commits (pbuf s) (pm s)))\<rparr>) else None)"
| "duo_step seq_cst capacity nf s PMove = producer_step seq_cst capacity nf s"
| "duo_step seq_cst capacity nf s PopCall =
     (if cpc s = CIdle then Some (s\<lparr>cpc := CHave (own_read_idx s)\<rparr>) else None)"
| "duo_step seq_cst capacity nf s CMove = consumer_step seq_cst capacity nf s"
| "duo_step seq_cst capacity nf s DrainP =
     (case pbuf s of [] \<Rightarrow> None | st # b \<Rightarrow> Some (s\<lparr>pm := commit st (pm s), pbuf := b\<rparr>))"
| "duo_step seq_cst capacity nf s DrainC =
     (case cbuf s of [] \<Rightarrow> None | r # b \<Rightarrow> Some (s\<lparr>ridx := r, cbuf := b, consumed := Suc (consumed s)\<rparr>))"

definition duo_init :: "u64 \<Rightarrow> nat \<Rightarrow> 'a \<Rightarrow> 'a duo" where
  "duo_init capacity nf dflt =
     \<lparr>pm = \<lparr>widx = 0, cells = replicate (unat capacity) (replicate nf dflt), published = 0\<rparr>, pbuf = [],
      ridx = 0, cbuf = [], consumed = 0, ppc = PIdle, cpc = CIdle, pushed = [], popped = []\<rparr>"

section \<open>The invariant of the two cores\<close>

text \<open>
  \<open>good\<close> holds of a memory in which every item that is published and not yet popped lies complete in
  its slot. It holds of the memory now and after any number of the producer's buffered stores.
\<close>

definition good :: "nat \<Rightarrow> nat \<Rightarrow> 'a list list \<Rightarrow> nat \<Rightarrow> 'a pmem \<Rightarrow> bool" where
  "good c nf items r m \<longleftrightarrow> widx m = of_nat (published m) \<and> published m \<le> length items
     \<and> length (cells m) = c \<and> (\<forall>x \<in> set (cells m). length x = nf)
     \<and> (\<forall>i. r \<le> i \<longrightarrow> i < published m \<longrightarrow> cells m ! (i mod c) = items ! i)"

definition all_good :: "nat \<Rightarrow> nat \<Rightarrow> 'a list list \<Rightarrow> nat \<Rightarrow> 'a pmem \<Rightarrow> 'a pstore list \<Rightarrow> bool" where
  "all_good c nf items r m b \<longleftrightarrow> (\<forall>xs ys. b = xs @ ys \<longrightarrow> good c nf items r (commits xs m))"

definition counts_inv :: "nat \<Rightarrow> 'a duo \<Rightarrow> bool" where
  "counts_inv c s \<longleftrightarrow> consumed s \<le> length (popped s) \<and> length (popped s) \<le> published (pm s)
     \<and> published (pm s) \<le> length (pushed s) \<and> length (pushed s) \<le> consumed s + c
     \<and> published (commits (pbuf s) (pm s)) = length (pushed s)
     \<and> ridx s = of_nat (consumed s) \<and> cbuf s = map (\<lambda>k. of_nat (Suc k)) [consumed s..<length (popped s)]"

definition ppc_inv :: "nat \<Rightarrow> nat \<Rightarrow> 'a duo \<Rightarrow> bool" where
  "ppc_inv c nf s \<longleftrightarrow>
     (case ppc s of
        PIdle \<Rightarrow> True
      | PHave item w \<Rightarrow> w = of_nat (length (pushed s)) \<and> length item = nf
      | PFill item w k \<Rightarrow> w = of_nat (length (pushed s)) \<and> length item = nf \<and> k \<le> nf
          \<and> length (pushed s) < consumed s + c
          \<and> take k (cells (commits (pbuf s) (pm s)) ! (length (pushed s) mod c)) = take k item)"

definition cpc_ok :: "nat \<Rightarrow> 'a cpc \<Rightarrow> 'a list list \<Rightarrow> nat \<Rightarrow> nat \<Rightarrow> bool" where
  "cpc_ok nf p items r pub \<longleftrightarrow>
     (case p of
        CIdle \<Rightarrow> True
      | CHave w \<Rightarrow> w = of_nat r
      | CCopy w acc \<Rightarrow> w = of_nat r \<and> r < pub \<and> length acc \<le> nf \<and> acc = take (length acc) (items ! r))"

definition cpc_inv :: "nat \<Rightarrow> 'a duo \<Rightarrow> bool" where
  "cpc_inv nf s \<longleftrightarrow> cpc_ok nf (cpc s) (pushed s) (length (popped s)) (published (pm s))"

definition duo_inv :: "u64 \<Rightarrow> nat \<Rightarrow> 'a duo \<Rightarrow> bool" where
  "duo_inv c nf s \<longleftrightarrow> all_good (unat c) nf (pushed s) (length (popped s)) (pm s) (pbuf s)
     \<and> counts_inv (unat c) s \<and> ppc_inv (unat c) nf s \<and> cpc_inv nf s
     \<and> popped s = take (length (popped s)) (pushed s) \<and> (\<forall>x \<in> set (pushed s). length x = nf)"

lemma commits_simps [simp]: "commits [] m = m" "commits (st # b) m = commits b (commit st m)"
    "commits (b @ c) m = commits c (commits b m)"
  by (simp_all add: commits_def)

lemma published_commit: "published m \<le> published (commit st m)"
  by (cases st) auto

lemma published_commits: "published m \<le> published (commits b m)"
proof (induction b arbitrary: m)
  case (Cons st b)
  then show ?case using published_commit [of m st] by (metis commits_simps(2) order_trans)
qed simp

lemma all_good_snoc:
  "all_good c nf items r m b \<Longrightarrow> good c nf items r (commits (b @ [st]) m) \<Longrightarrow> all_good c nf items r m (b @ [st])"
  unfolding all_good_def
proof (intro allI impI)
  fix xs ys
  assume old: "\<forall>xs ys. b = xs @ ys \<longrightarrow> good c nf items r (commits xs m)"
    and new: "good c nf items r (commits (b @ [st]) m)" and eq: "b @ [st] = xs @ ys"
  show "good c nf items r (commits xs m)"
  proof (cases ys rule: rev_cases)
    case Nil
    then show ?thesis using eq new by simp
  next
    case (snoc zs z)
    then show ?thesis using eq old by simp
  qed
qed

lemma all_good_drain: "all_good c nf items r m (st # b) \<Longrightarrow> all_good c nf items r (commit st m) b"
  unfolding all_good_def by (metis append_Cons commits_simps(2))

lemma all_good_now: "all_good c nf items r m b \<Longrightarrow> good c nf items r m"
  unfolding all_good_def by (metis append_Nil commits_simps(1))

lemma all_good_view: "all_good c nf items r m b \<Longrightarrow> good c nf items r (commits b m)"
  unfolding all_good_def by (metis append_Nil2)

lemma all_good_drained: "good c nf items r (commits b m) \<Longrightarrow> all_good c nf items r (commits b m) []"
  by (simp add: all_good_def)

lemma good_mono: "good c nf items r m \<Longrightarrow> r \<le> r' \<Longrightarrow> good c nf (items @ extra) r' m"
  by (auto simp: good_def nth_append)

lemma all_good_mono: "all_good c nf items r m b \<Longrightarrow> r \<le> r' \<Longrightarrow> all_good c nf (items @ extra) r' m b"
  unfolding all_good_def using good_mono by blast

text \<open>The two kinds of store of the producer keep the view of its core good.\<close>

lemma good_field:
  assumes "good c nf items r m" and "0 < c" and "length items < r + c" and "published m \<le> length items"
  shows "good c nf items r (commit (StField (length items mod c) k v) m)"
proof -
  have other: "length items mod c \<noteq> i mod c" if "r \<le> i" "i < length items" for i
  proof
    assume eq: "length items mod c = i mod c"
    have "(r + (length items - r)) mod c = (r + (i - r)) mod c" using eq that by simp
    moreover have "length items - r < c" "i - r < c" using that assms(3) by auto
    ultimately have "length items - r = i - r" using mod_window_inj by blast
    then show False using that by simp
  qed
  have "\<forall>i. r \<le> i \<longrightarrow> i < published m \<longrightarrow> (cells m)[length items mod c := w] ! (i mod c) = items ! i" for w
  proof (intro allI impI)
    fix i assume i: "r \<le> i" "i < published m"
    have "length items mod c \<noteq> i mod c" using assms(4) i by (intro other) auto
    then have "(cells m)[length items mod c := w] ! (i mod c) = cells m ! (i mod c)" by (rule nth_list_update_neq)
    also have "\<dots> = items ! i" using assms(1) i unfolding good_def by blast
    finally show "(cells m)[length items mod c := w] ! (i mod c) = items ! i" .
  qed
  moreover have "\<forall>x \<in> set ((cells m)[length items mod c := (cells m ! (length items mod c))[k := v]]). length x = nf"
    using assms(1,2) set_update_subset_insert [of "cells m" "length items mod c"]
    by (fastforce simp: good_def)
  ultimately show ?thesis using assms(1) by (simp add: good_def)
qed

lemma good_publish:
  assumes "good c nf items r m" and "published m = length items" and "cells m ! (length items mod c) = item"
  shows "good c nf (items @ [item]) r (commit (StW (of_nat (length items) + 1)) m)"
  using assms by (auto simp: good_def nth_append less_Suc_eq)

lemma cpc_ok_mono:
  "cpc_ok nf p items r pub \<Longrightarrow> pub \<le> pub' \<Longrightarrow> pub \<le> length items \<Longrightarrow> cpc_ok nf p (items @ extra) r pub'"
  by (auto simp: cpc_ok_def nth_append split: cpc.splits)

lemma spsc_index_of_nat:
  "pow2_assert c \<Longrightarrow> c \<noteq> 0 \<Longrightarrow> spsc_index c (of_nat n) = n mod unat c"
  using spsc_index_add [of c 0 n] by simp

lemma word_window:
  assumes "a \<le> b" and "b \<le> a + unat (c :: u64)"
  shows "unat (of_nat b - of_nat a :: u64) = b - a"
proof -
  have "of_nat b - of_nat a = (of_nat (b - a) :: u64)" using assms(1) by (simp add: of_nat_diff)
  moreover have "b - a < 2 ^ 64" using assms unat_u64_less [of c] by linarith
  ultimately show ?thesis by (simp add: unat_of_nat)
qed

lemma duo_invI:
  assumes "all_good (unat c) nf (pushed s) (length (popped s)) (pm s) (pbuf s)"
    and "counts_inv (unat c) s" and "ppc_inv (unat c) nf s" and "cpc_inv nf s"
    and "popped s = take (length (popped s)) (pushed s)" and "\<forall>x \<in> set (pushed s). length x = nf"
  shows "duo_inv c nf s"
  using assms by (simp add: duo_inv_def)

lemma duo_invD:
  assumes "duo_inv c nf s"
  shows "all_good (unat c) nf (pushed s) (length (popped s)) (pm s) (pbuf s)"
    and "counts_inv (unat c) s" and "ppc_inv (unat c) nf s" and "cpc_inv nf s"
    and "popped s = take (length (popped s)) (pushed s)" and "\<forall>x \<in> set (pushed s). length x = nf"
  using assms by (simp_all add: duo_inv_def)

lemma producer_step_inv:
  assumes c: "pow2_assert c" "c \<noteq> 0" and inv: "duo_inv c nf s" and st: "producer_step sc c nf s = Some s'"
  shows "duo_inv c nf s'"
proof -
  note g = duo_invD(1) [OF inv] and cn = duo_invD(2) [OF inv, unfolded counts_inv_def]
    and pp = duo_invD(3) [OF inv, unfolded ppc_inv_def] and cp = duo_invD(4) [OF inv]
    and pr = duo_invD(5,6) [OF inv]
  have cpos: "0 < unat c" using c(2) by (simp add: unat_gt_0)
  let ?P = "length (pushed s)"
  show ?thesis
  proof (cases "ppc s")
    case PIdle
    then show ?thesis using st by simp
  next
    case (PHave item w)
    have "unat (w - ridx s) = ?P - consumed s"
      using cn pp PHave word_window [of "consumed s" ?P c] by simp
    then have "ppc_inv (unat c) nf s'" using st pp cn PHave
      by (auto simp: ppc_inv_def word_le_nat_alt split: if_splits)
    moreover obtain p where "s' = s\<lparr>ppc := p\<rparr>" using st PHave by (auto split: if_splits)
    ultimately show ?thesis using inv
      by (auto simp: duo_inv_def counts_inv_def cpc_inv_def split: cpc.splits)
  next
    case (PFill item w k)
    let ?p = "?P mod unat c"
    have w: "w = of_nat ?P" "length item = nf" "k \<le> nf" "?P < consumed s + unat c"
      "take k (cells (commits (pbuf s) (pm s)) ! ?p) = take k item"
      using pp PFill by auto
    have idx: "spsc_index c w = ?p" by (simp add: w spsc_index_of_nat c)
    have slot: "length (cells (commits (pbuf s) (pm s)) ! ?p) = nf" "?p < length (cells (commits (pbuf s) (pm s)))"
      using all_good_view [OF g] cpos by (auto simp: good_def)
    show ?thesis
    proof (cases "k < nf")
      case True
      let ?st = "StField ?p k (item ! k)"
      have s': "s' = s\<lparr>pbuf := pbuf s @ [?st], ppc := PFill item w (Suc k)\<rparr>"
        using st PFill True idx by simp
      have "all_good (unat c) nf (pushed s) (length (popped s)) (pm s) (pbuf s @ [?st])"
        using good_field [OF all_good_view [OF g] cpos, of k "item ! k"] cn w(4)
        by (intro all_good_snoc [OF g]) simp
      moreover have "ppc_inv (unat c) nf s'"
        using w slot True by (simp add: s' ppc_inv_def take_Suc_conv_app_nth)
      ultimately show ?thesis using cn cp pr
        by (intro duo_invI) (simp_all add: s' counts_inv_def cpc_inv_def)
    next
      case False
      then have k: "k = nf" using w(3) by simp
      let ?b = "pbuf s @ [StW (w + 1)]" and ?items = "pushed s @ [item]"
      have full: "cells (commits (pbuf s) (pm s)) ! ?p = item" using w(2,5) slot(1) k by simp
      have "good (unat c) nf ?items (length (popped s)) (commits ?b (pm s))"
        using good_publish [OF all_good_view [OF g] _ full] cn w(1) by simp
      moreover have "all_good (unat c) nf ?items (length (popped s)) (pm s) (pbuf s)"
        using all_good_mono [OF g order_refl] .
      ultimately have new: "all_good (unat c) nf ?items (length (popped s)) (pm s) ?b"
        "all_good (unat c) nf ?items (length (popped s)) (commits ?b (pm s)) []"
        using all_good_snoc all_good_drained by blast+
      have s': "s' = (if sc then s\<lparr>ppc := PIdle, pushed := ?items, pm := commits ?b (pm s), pbuf := []\<rparr>
          else s\<lparr>ppc := PIdle, pushed := ?items, pbuf := ?b\<rparr>)"
        using st PFill False by (auto simp: Let_def split: if_splits)
      have "published (pm s') \<ge> published (pm s)" using published_commits [of "pm s" ?b] by (simp add: s')
      moreover have "published (pm s') \<le> Suc ?P" "published (commits (pbuf s') (pm s')) = Suc ?P"
        using cn by (auto simp: s')
      ultimately have "counts_inv (unat c) s'" using cn w(4) by (auto simp: s' counts_inv_def)
      moreover have "cpc_inv nf s'"
        using cpc_ok_mono [of nf "cpc s" "pushed s" "length (popped s)" "published (pm s)" "published (pm s')" "[item]"]
          cp cn \<open>published (pm s') \<ge> published (pm s)\<close>
        by (auto simp: s' cpc_inv_def)
      moreover have "popped s' = take (length (popped s')) (pushed s')" using pr(1) cn by (simp add: s')
      ultimately show ?thesis using new pr(2) w(2)
        by (intro duo_invI) (auto simp: s' ppc_inv_def)
    qed
  qed
qed

lemma own_read_idx_popped:
  assumes "counts_inv c s"
  shows "own_read_idx s = of_nat (length (popped s))"
proof (cases "consumed s = length (popped s)")
  case True
  then show ?thesis using assms by (simp add: own_read_idx_def counts_inv_def)
next
  case False
  then obtain n where "length (popped s) = Suc n" "consumed s \<le> n"
    using assms by (cases "length (popped s)") (auto simp: counts_inv_def)
  then show ?thesis using assms by (simp add: own_read_idx_def counts_inv_def)
qed

lemma consumer_step_inv:
  assumes c: "pow2_assert c" "c \<noteq> 0" and inv: "duo_inv c nf s" and st: "consumer_step sc c nf s = Some s'"
  shows "duo_inv c nf s'"
proof -
  note g = duo_invD(1) [OF inv] and cn = duo_invD(2) [OF inv, unfolded counts_inv_def]
    and pp = duo_invD(3) [OF inv] and cp = duo_invD(4) [OF inv, unfolded cpc_inv_def cpc_ok_def]
    and pr = duo_invD(5,6) [OF inv]
  have now: "good (unat c) nf (pushed s) (length (popped s)) (pm s)" by (rule all_good_now [OF g])
  let ?R = "length (popped s)"
  show ?thesis
  proof (cases "cpc s")
    case CIdle
    then show ?thesis using st by simp
  next
    case (CHave r)
    have r: "r = of_nat ?R" using cp CHave by simp
    have le: "?R \<le> published (pm s)" using cn by simp
    have "unat (widx (pm s) - r) = published (pm s) - ?R"
      using word_window [of ?R "published (pm s)" c] cn now r by (simp add: good_def)
    then have "?R < published (pm s)" if "r \<noteq> widx (pm s)"
      using that le by (metis diff_is_0_eq' eq_iff_diff_eq_0 le_neq_implies_less unat_eq_0)
    then have "cpc_inv nf s'" using st r CHave
      by (auto simp: cpc_inv_def cpc_ok_def split: if_splits)
    moreover obtain p where "s' = s\<lparr>cpc := p\<rparr>" using st CHave by (auto split: if_splits)
    ultimately show ?thesis using inv
      by (auto simp: duo_inv_def counts_inv_def ppc_inv_def split: ppc.splits)
  next
    case (CCopy r acc)
    have cc: "r = of_nat ?R" "?R < published (pm s)" "length acc \<le> nf" "acc = take (length acc) (pushed s ! ?R)"
      using cp CCopy by auto
    have slot: "cells (pm s) ! spsc_index c r = pushed s ! ?R"
      using now cc(2) by (simp add: good_def cc(1) spsc_index_of_nat c)
    have len: "length (pushed s ! ?R) = nf" using pr(2) cc(2) cn by simp
    show ?thesis
    proof (cases "length acc < nf")
      case True
      then have "s' = s\<lparr>cpc := CCopy r (acc @ [pushed s ! ?R ! length acc])\<rparr>"
        using st CCopy slot by simp
      moreover have "acc @ [pushed s ! ?R ! length acc] = take (Suc (length acc)) (pushed s ! ?R)"
        using cc(4) True len by (simp add: take_Suc_conv_app_nth)
      ultimately show ?thesis using inv cc True
        by (auto simp: duo_inv_def counts_inv_def ppc_inv_def cpc_inv_def cpc_ok_def split: ppc.splits)
    next
      case False
      then have acc: "acc = pushed s ! ?R" using cc(3,4) len by simp
      have pop: "popped s @ [acc] = take (Suc ?R) (pushed s)"
        using pr(1) acc cc(2) cn by (simp add: take_Suc_conv_app_nth)
      have ag: "all_good (unat c) nf (pushed s) (Suc ?R) (pm s) (pbuf s)"
        using all_good_mono [OF g, of "Suc ?R" "[]"] by simp
      have buf: "cbuf s @ [r + 1] = map (\<lambda>k. of_nat (Suc k)) [consumed s..<Suc ?R]"
        using cn cc(1) by simp
      then have drained: "consumed s + length (cbuf s @ [r + 1]) = Suc ?R" using cn by simp
      have s': "s' = (if sc then s\<lparr>cpc := CIdle, popped := popped s @ [acc], ridx := r + 1,
            consumed := consumed s + length (cbuf s @ [r + 1]), cbuf := []\<rparr>
          else s\<lparr>cpc := CIdle, popped := popped s @ [acc], cbuf := cbuf s @ [r + 1]\<rparr>)"
        using st CCopy False by (auto simp: Let_def split: if_splits)
      have "counts_inv (unat c) s'" using cn cc(1,2) buf drained by (auto simp: s' counts_inv_def)
      moreover have "ppc_inv (unat c) nf s'"
        using pp cn drained by (auto simp: s' ppc_inv_def split: ppc.splits)
      moreover have "min (length (pushed s)) (Suc ?R) = Suc ?R" using cc(2) cn by simp
      ultimately show ?thesis using ag pop pr
        by (intro duo_invI) (auto simp: s' cpc_inv_def cpc_ok_def)
    qed
  qed
qed

lemma duo_step_inv:
  assumes c: "pow2_assert c" "c \<noteq> 0" and inv: "duo_inv c nf s" and st: "duo_step sc c nf s e = Some s'"
  shows "duo_inv c nf s'"
proof (cases e)
  case (PushCall item)
  have "widx (commits (pbuf s) (pm s)) = of_nat (length (pushed s))"
    using all_good_view [OF duo_invD(1) [OF inv]] duo_invD(2) [OF inv] by (simp add: good_def counts_inv_def)
  then show ?thesis using inv st PushCall
    by (auto simp: duo_inv_def counts_inv_def ppc_inv_def cpc_inv_def split: if_splits)
next
  case PMove
  then show ?thesis using producer_step_inv [OF c inv] st by simp
next
  case PopCall
  then show ?thesis using inv st own_read_idx_popped [OF duo_invD(2) [OF inv]]
    by (auto simp: duo_inv_def counts_inv_def ppc_inv_def cpc_inv_def cpc_ok_def split: if_splits ppc.splits)
next
  case CMove
  then show ?thesis using consumer_step_inv [OF c inv] st by simp
next
  case DrainP
  then obtain s0 b where b: "pbuf s = s0 # b" "s' = s\<lparr>pm := commit s0 (pm s), pbuf := b\<rparr>"
    using st by (auto split: list.splits)
  have "published (commit s0 (pm s)) \<le> published (commits (pbuf s) (pm s))"
    using published_commits [of "commit s0 (pm s)" b] by (simp add: b)
  moreover have "cpc_inv nf s'"
    using cpc_ok_mono [of nf "cpc s" "pushed s" "length (popped s)" "published (pm s)" "published (pm s')" "[]"]
      duo_invD(2,4) [OF inv] published_commit [of "pm s" s0]
    by (simp add: cpc_inv_def counts_inv_def b)
  ultimately show ?thesis
    using inv all_good_drain [of "unat c" nf "pushed s" "length (popped s)" "pm s" s0 b] published_commit [of "pm s" s0]
    by (auto simp: duo_inv_def counts_inv_def ppc_inv_def b split: ppc.splits)
next
  case DrainC
  then obtain r b where b: "cbuf s = r # b" "s' = s\<lparr>ridx := r, cbuf := b, consumed := Suc (consumed s)\<rparr>"
    using st by (auto split: list.splits)
  have cn: "cbuf s = map (\<lambda>k. of_nat (Suc k)) [consumed s..<length (popped s)]"
    using duo_invD(2) [OF inv] by (simp add: counts_inv_def)
  then have lt: "consumed s < length (popped s)" using b(1) by (cases "consumed s < length (popped s)") auto
  then have "r = of_nat (Suc (consumed s))" "b = map (\<lambda>k. of_nat (Suc k)) [Suc (consumed s)..<length (popped s)]"
    using cn b(1) by (simp_all add: upt_conv_Cons)
  then show ?thesis using inv lt
    by (auto simp: duo_inv_def counts_inv_def ppc_inv_def cpc_inv_def b(2) split: ppc.splits)
qed

lemma duo_init_inv: "duo_inv c nf (duo_init c nf d)"
  by (simp add: duo_inv_def duo_init_def all_good_def good_def counts_inv_def ppc_inv_def cpc_inv_def cpc_ok_def)

interpretation spsc_cores: safe_machine "duo_step sc 1024 nf" "duo_inv 1024 nf"
  by unfold_locales (rule duo_step_inv, simp_all add: pow2_assert_def)

lemma duo_reachable:
  assumes "pow2_assert c" and "c \<noteq> 0" and "run (duo_step sc c nf) (duo_init c nf d) es = Some s"
  shows "duo_inv c nf s"
  using run_invariant [where I = "duo_inv c nf", OF _ duo_init_inv assms(3)] duo_step_inv [OF assms(1,2)] by blast

lemma SpscRingBuffer_tso_1024:
  "run (duo_step sc 1024 nf) (duo_init 1024 nf d) es = Some s \<Longrightarrow> popped s = take (length (popped s)) (pushed s)"
  by (rule duo_invD(5) [OF spsc_cores.run_inv [OF duo_init_inv]])

text \<open>
  C17. Both variants of the ring are correct across two cores with store buffers: whatever the
  interleaving of the threads' operations and of the draining of the buffers, for both memory
  orders, what the consumer has popped is exactly the beginning of what the producer has pushed, item
  by item with all fields of each item together (nothing lost, duplicated, reordered or torn), and
  the ring never holds more than its capacity.
\<close>

theorem SpscRingBuffer_tso:
  assumes "pow2_assert c" and "c \<noteq> 0" and "run (duo_step seq_cst c nf) (duo_init c nf d) es = Some s"
  shows "popped s = take (length (popped s)) (pushed s)
    \<and> length (pushed s) - length (popped s) \<le> unat c"
proof -
  note inv = duo_invD(2,5) [OF duo_reachable [OF assms]]
  have "length (pushed s) \<le> length (popped s) + unat c" using inv(1) unfolding counts_inv_def by linarith
  then show ?thesis using inv(2) by linarith
qed

lemma replicate_two: "replicate 2 x = [x, x]"
  by (simp add: numeral_2_eq_2)

definition late_drain :: "nat duo_event list" where
  "late_drain = [PushCall [1, 2], PMove, PMove, PMove, PMove, PushCall [3, 4], PMove, DrainP, PMove, DrainP, DrainP,
     PopCall, CMove, CMove, CMove, CMove]"

theorem SpscRingBuffer_tso_witness:
  "\<exists>s. run (duo_step False 2 2) (duo_init 2 2 0) late_drain = Some s \<and> pbuf s \<noteq> []
     \<and> popped s = [[1, 2]] \<and> popped s = take (length (popped s)) (pushed s)"
proof -
  obtain s where "run (duo_step False 2 2) (duo_init 2 2 0) late_drain = Some s" "pbuf s \<noteq> []" "popped s = [[1, 2]]"
    by (simp add: late_drain_def duo_init_def own_read_idx_def spsc_index_def Let_def replicate_two word_le_nat_alt)
  moreover from this have "popped s = take (length (popped s)) (pushed s)"
    by (intro SpscRingBuffer_tso [of 2 False 2 0 late_drain s, THEN conjunct1]) (simp_all add: pow2_assert_def)
  ultimately show ?thesis by blast
qed

end
