(* ===== verification/Frames.thy ===== *)
theory Frames
  imports Prelude
begin

text \<open>
  The byte layer of the broadcast ring buffer: the data segment seen through its virtual-memory
  mirror, little-endian fields, and \<open>FrameHeader\<close>. An address is an offset into the doubled
  mapping (or a stream cursor, which is the same place modulo the capacity); \<open>MemoryMap\<close> maps the
  segment twice in a row, so address \<open>a\<close> is byte \<open>a mod capacity\<close>.
\<close>

section \<open>The mirrored segment\<close>

type_synonym segment = "u8 list"

definition peek :: "segment \<Rightarrow> nat \<Rightarrow> u8" where
  "peek m a = m ! (a mod length m)"

fun store :: "segment \<Rightarrow> nat \<Rightarrow> u8 list \<Rightarrow> segment" where
  "store m a [] = m"
| "store m a (b # bs) = store (m[a mod length m := b]) (Suc a) bs"

definition load_bytes :: "segment \<Rightarrow> nat \<Rightarrow> nat \<Rightarrow> u8 list" where
  "load_bytes m a n = map (\<lambda>k. peek m (a + k)) [0..<n]"

lemma length_store [simp]: "length (store m a bs) = length m"
  by (induction bs arbitrary: m a) auto

lemma length_load_bytes [simp]: "length (load_bytes m a n) = n"
  by (simp add: load_bytes_def)

text \<open>Two addresses less than a capacity apart are the same byte only if they are equal.\<close>

lemma window_neq:
  fixes a b :: nat
  assumes "a < b" and "b < a + L"
  shows "a mod L \<noteq> b mod L"
proof
  assume "a mod L = b mod L"
  then have "L dvd b - a" using assms(1) by (metis mod_eq_dvd_iff_nat less_imp_le)
  then show False using assms by (auto dest: dvd_imp_le)
qed

lemma peek_store_outside:
  "m \<noteq> [] \<Longrightarrow> (\<And>k. k < length bs \<Longrightarrow> (a + k) mod length m \<noteq> x mod length m)
    \<Longrightarrow> peek (store m a bs) x = peek m x"
proof (induction bs arbitrary: m a)
  case (Cons b bs)
  have "a mod length m \<noteq> x mod length m" using Cons.prems(2) [of 0] by simp
  then have "peek (m[a mod length m := b]) x = peek m x" by (simp add: peek_def)
  moreover have "peek (store (m[a mod length m := b]) (Suc a) bs) x = peek (m[a mod length m := b]) x"
    using Cons.prems Cons.prems(2) [of "Suc k" for k] by (intro Cons.IH) auto
  ultimately show ?case by simp
qed simp

lemma peek_store_inside:
  "m \<noteq> [] \<Longrightarrow> length bs \<le> length m \<Longrightarrow> k < length bs \<Longrightarrow> peek (store m a bs) (a + k) = bs ! k"
proof (induction bs arbitrary: m a k)
  case (Cons b bs)
  let ?m = "m[a mod length m := b]"
  show ?case
  proof (cases k)
    case 0
    have "peek (store ?m (Suc a) bs) a = peek ?m a"
    proof (rule peek_store_outside)
      show "(Suc a + j) mod length ?m \<noteq> a mod length ?m" if "j < length bs" for j
        using window_neq [of a "Suc a + j" "length m"] Cons.prems(2) that by simp
    qed (use Cons.prems in simp)
    then show ?thesis using 0 Cons.prems(1) by (simp add: peek_def)
  next
    case (Suc j)
    then show ?thesis using Cons.IH [of ?m j "Suc a"] Cons.prems by simp
  qed
qed simp

lemma load_store_same:
  "m \<noteq> [] \<Longrightarrow> length bs \<le> length m \<Longrightarrow> load_bytes (store m a bs) a (length bs) = bs"
  by (rule nth_equalityI) (simp_all add: load_bytes_def peek_store_inside)

lemma load_store_part:
  "m \<noteq> [] \<Longrightarrow> length bs \<le> length m \<Longrightarrow> k + n \<le> length bs
    \<Longrightarrow> load_bytes (store m a bs) (a + k) n = take n (drop k bs)"
  using peek_store_inside [of m bs "k + j" a for j]
  by (intro nth_equalityI) (simp_all add: load_bytes_def add.assoc)

text \<open>
  Cursor ranges \<open>[a, a + n)\<close> and \<open>[b, b + k)\<close> that lie in one window of a capacity do not touch.
\<close>

definition apart :: "nat \<Rightarrow> nat \<Rightarrow> nat \<Rightarrow> nat \<Rightarrow> nat \<Rightarrow> bool" where
  "apart L a n b k \<longleftrightarrow> a + n \<le> b \<and> b + k \<le> a + L \<or> b + k \<le> a \<and> a + n \<le> b + L"

lemma load_store_apart:
  assumes "m \<noteq> []" and "apart (length m) a (length bs) b n"
  shows "load_bytes (store m a bs) b n = load_bytes m b n"
proof -
  have "peek (store m a bs) (b + j) = peek m (b + j)" if "j < n" for j
  proof (rule peek_store_outside [OF assms(1)])
    fix k assume k: "k < length bs"
    from assms(2) show "(a + k) mod length m \<noteq> (b + j) mod length m"
      unfolding apart_def using window_neq [of "a + k" "b + j" "length m"]
        window_neq [of "b + j" "a + k" "length m"] k that by (auto simp: eq_commute)
  qed
  then show ?thesis by (simp add: load_bytes_def)
qed

text \<open>A cursor and its offset address the same bytes.\<close>

lemma peek_offset: "peek m (c mod length m + k) = peek m (c + k)"
  by (simp add: peek_def mod_add_left_eq)

lemma load_bytes_offset: "load_bytes m (c mod length m + k) n = load_bytes m (c + k) n"
  using peek_offset [of m c "k + j" for j] by (simp add: load_bytes_def add.assoc)

lemma list_update_mod: "store m (c mod length m + k) bs = store m (c + k) bs"
proof (induction bs arbitrary: m c k)
  case (Cons b bs)
  let ?m = "m[(c + k) mod length m := b]"
  have "(c mod length m + k) mod length m = (c + k) mod length m" by (simp add: mod_add_left_eq)
  then show ?case using Cons.IH [of ?m c "Suc k"] by simp
qed simp

section \<open>Little-endian fields\<close>

definition le_bytes :: "nat \<Rightarrow> u64 \<Rightarrow> u8 list" where
  "le_bytes n w = map (\<lambda>i. ucast (drop_bit (8 * i) w)) [0..<n]"

fun of_le :: "u8 list \<Rightarrow> u64" where
  "of_le [] = 0"
| "of_le (b # bs) = ucast b OR push_bit 8 (of_le bs)"

lemma length_le_bytes [simp]: "length (le_bytes n w) = n"
  by (simp add: le_bytes_def)

lemma le_bytes_Suc: "le_bytes (Suc n) w = ucast w # le_bytes n (drop_bit 8 w)"
  unfolding le_bytes_def by (subst upt_conv_Cons) (simp_all add: map_Suc_upt [symmetric] drop_bit_drop_bit add.commute del: upt_Suc)

lemma of_le_bytes: "of_le (le_bytes n w) = take_bit (8 * n) w"
proof (induction n arbitrary: w)
  case 0
  then show ?case by (simp add: le_bytes_def)
next
  case (Suc n)
  show ?case
    by (rule bit_word_eqI) (auto simp: le_bytes_Suc Suc.IH bit_simps not_le)
qed

definition load32 :: "segment \<Rightarrow> nat \<Rightarrow> u32" where
  "load32 m a = ucast (of_le (load_bytes m a 4))"

definition load64 :: "segment \<Rightarrow> nat \<Rightarrow> u64" where
  "load64 m a = of_le (load_bytes m a 8)"

definition store32 :: "segment \<Rightarrow> nat \<Rightarrow> u32 \<Rightarrow> segment" where
  "store32 m a v = store m a (le_bytes 4 (ucast v))"

definition store64 :: "segment \<Rightarrow> nat \<Rightarrow> u64 \<Rightarrow> segment" where
  "store64 m a v = store m a (le_bytes 8 v)"

lemma length_store32 [simp]: "length (store32 m a v) = length m"
  by (simp add: store32_def)

lemma length_store64 [simp]: "length (store64 m a v) = length m"
  by (simp add: store64_def)

lemma load32_store32: "4 \<le> length m \<Longrightarrow> load32 (store32 m a v) a = v"
proof -
  assume "4 \<le> length m"
  then have "load_bytes (store32 m a v) a 4 = le_bytes 4 (ucast v)"
    using load_store_same [of m "le_bytes 4 (ucast v)" a] by (cases m) (simp_all add: store32_def)
  then show ?thesis
    by (intro bit_word_eqI) (auto simp: load32_def of_le_bytes bit_simps)
qed

lemma load64_store64: "8 \<le> length m \<Longrightarrow> load64 (store64 m a v) a = v"
proof -
  assume "8 \<le> length m"
  then have "load_bytes (store64 m a v) a 8 = le_bytes 8 v"
    using load_store_same [of m "le_bytes 8 v" a] by (cases m) (simp_all add: store64_def)
  then show ?thesis
    by (intro bit_word_eqI) (auto simp: load64_def of_le_bytes bit_simps dest: bit_imp_le_length)
qed

section \<open>FrameHeader\<close>

text \<open>
  \<open>version\<close>, \<open>length\<close> and \<open>type\<close> are 4 bytes each at 0, 4 and 8, \<open>timestamp\<close> is 8 bytes at 16 after
  4 bytes of padding; \<open>sizeof(FrameHeader)\<close> is 24.
\<close>

record FrameHeader =
  frame_version :: u32
  frame_length :: u32
  frame_type :: u32
  frame_timestamp :: u64

definition kFrameHeaderSize :: nat where
  "kFrameHeaderSize = 24"

definition read_header :: "segment \<Rightarrow> nat \<Rightarrow> FrameHeader" where
  "read_header m a = \<lparr>frame_version = load32 m a, frame_length = load32 m (a + 4),
     frame_type = load32 m (a + 8), frame_timestamp = load64 m (a + 16)\<rparr>"

definition AlignedPayloadSize :: "u32 \<Rightarrow> u32" where
  "AlignedPayloadSize len = (len + 7) AND NOT 7"

definition TotalFrameSize :: "u32 \<Rightarrow> u32" where
  "TotalFrameSize len = ucast (24 + ucast (AlignedPayloadSize len) :: u64)"

lemma unat_u32_less: "unat (x :: u32) < 2 ^ 32"
proof -
  have "unat x < 2 ^ LENGTH(32)" by (rule unsigned_less)
  then show ?thesis by simp
qed

text \<open>As long as \<open>length + 7\<close> does not wrap, the aligned size is the next multiple of 8.\<close>

lemma AlignedPayloadSize_nat:
  assumes "unat len + 7 < 2 ^ 32"
  shows "unat (AlignedPayloadSize len) = (unat len + 7) div 8 * 8"
proof -
  have "unat (len + 7) = unat len + 7"
    using assms unat_add_lem [of len 7] by simp
  moreover have "unat (x AND NOT 7) = unat x div 8 * 8" for x :: u32
    using unat_and_not_mask [of x 3] by (simp add: mask_eq_exp_minus_1)
  ultimately show ?thesis by (simp add: AlignedPayloadSize_def)
qed

end
