(* ===== verification/Ring.thy ===== *)
theory Ring
  imports Frames
begin

text \<open>
  \<open>BroadcastRingBuffer\<close>: the shared header with its reader roster, the data segment, and every
  operation of \<open>broadcast_ring_buffer.cc\<close>. A call that meets other processes gets what it observes of
  them as an argument: the roster as each iteration of \<open>Reserve\<close>'s waiting loop finds it, the
  words and bytes each attempt of a copying poll loads. Every interleaving gives some such argument.
\<close>

section \<open>Data\<close>

datatype status = NotFound | AlreadyExists | PermissionDenied | ResourceExhausted | InvalidArgument
  | DataLoss | Internal

definition kMaxReaders :: nat where
  "kMaxReaders = 16"

record ReaderSlot =
  active :: bool
  slot_cursor :: u64
  heartbeat_ts :: u64
  slot_pid :: u32
  slot_generation :: u32

definition empty_slot :: ReaderSlot where
  "empty_slot = \<lparr>active = False, slot_cursor = 0, heartbeat_ts = 0, slot_pid = 0, slot_generation = 0\<rparr>"

record BroadcastHeader =
  producer_cursor :: u64
  commit_cursor :: u64
  buffer_capacity :: u64
  readers :: "ReaderSlot list"

record Reservation =
  claimed_cursor :: u64
  start_offset :: u64
  total_frame_size :: u32

text \<open>
  One process's \<open>BroadcastRingBuffer\<close> object together with the shared memory it maps: \<open>header\<close> and
  \<open>segment\<close> are shared, the other fields are the object's own.
\<close>

record ring_buffer =
  header :: BroadcastHeader
  segment :: segment
  capacity :: u64
  is_producer :: bool
  evict_timeout_ns :: u64
  current_reservation :: Reservation
  cached_min_cursor :: u64

record BroadcastReader =
  cursor :: u64
  slot_index :: int
  generation_id :: u32

record SafeMessage =
  msg_type :: u32
  msg_timestamp :: u64
  msg_payload :: "u8 list"

section \<open>Creation\<close>

text \<open>
  The constructor and the initialisation of \<open>Create\<close>, on the two segments the memory maps gave; the
  data segment comes zero-filled from \<open>ftruncate\<close>.
\<close>

definition new_header :: "u64 \<Rightarrow> BroadcastHeader" where
  "new_header capacity_bytes = \<lparr>producer_cursor = 0, commit_cursor = 0, buffer_capacity = capacity_bytes,
     readers = replicate kMaxReaders empty_slot\<rparr>"

definition no_reservation :: Reservation where
  "no_reservation = \<lparr>claimed_cursor = 0, start_offset = 0, total_frame_size = 0\<rparr>"

definition BroadcastRingBuffer :: "BroadcastHeader \<Rightarrow> segment \<Rightarrow> u64 \<Rightarrow> bool \<Rightarrow> u64 \<Rightarrow> ring_buffer" where
  "BroadcastRingBuffer meta data map_size producer timeout =
     \<lparr>header = meta, segment = data, capacity = map_size, is_producer = producer, evict_timeout_ns = timeout,
      current_reservation = no_reservation, cached_min_cursor = 0\<rparr>"

definition Create :: "u64 \<Rightarrow> u64 \<Rightarrow> ring_buffer" where
  "Create capacity_bytes evict_timeout =
     BroadcastRingBuffer (new_header capacity_bytes) (replicate (unat capacity_bytes) 0) capacity_bytes True
       evict_timeout"

text \<open>\<open>Attach\<close> on the header found in the metadata segment; the capacity is checked against 1 GB.\<close>

definition Attach :: "BroadcastHeader \<Rightarrow> segment \<Rightarrow> bool \<Rightarrow> status + ring_buffer" where
  "Attach meta data writable =
     (let map_size = buffer_capacity meta
      in if map_size > 1024 * 1024 * 1024 then Inl DataLoss
         else Inr (BroadcastRingBuffer meta data map_size writable 0))"

definition new_reader :: "u64 \<Rightarrow> BroadcastReader" where
  "new_reader start_cursor = \<lparr>cursor = start_cursor, slot_index = -1, generation_id = 0\<rparr>"

section \<open>Producer\<close>

text \<open>
  One pass over the roster in \<open>Reserve\<close>: active readers whose heartbeat is older than the timeout are
  deactivated, the others lower the minimum. \<open>int64_t\<close> values are compared as signed words.
\<close>

fun scan_readers :: "u64 \<Rightarrow> u64 \<Rightarrow> u64 \<Rightarrow> ReaderSlot list \<Rightarrow> ReaderSlot list \<times> u64" where
  "scan_readers now timeout min_c [] = ([], min_c)"
| "scan_readers now timeout min_c (r # rs) =
     (if \<not> active r then let (rs', m) = scan_readers now timeout min_c rs in (r # rs', m)
      else if timeout <s now - heartbeat_ts r
      then let (rs', m) = scan_readers now timeout min_c rs in (r\<lparr>active := False\<rparr> # rs', m)
      else let (rs', m) = scan_readers now timeout (if slot_cursor r < min_c then slot_cursor r else min_c) rs
           in (r # rs', m))"

text \<open>
  The waiting loop. Each element of the list is one iteration: the clock value it uses and the roster
  it finds. It gives the roster it leaves and the new \<open>cached_min_cursor\<close>; \<open>None\<close> while it still waits.
\<close>

fun wait_for_readers :: "u64 \<Rightarrow> u64 \<Rightarrow> u64 \<Rightarrow> (u64 \<times> ReaderSlot list) list \<Rightarrow> (ReaderSlot list \<times> u64) option" where
  "wait_for_readers cap timeout target [] = None"
| "wait_for_readers cap timeout target ((now, roster) # later) =
     (let (roster', min_c) = scan_readers now timeout target roster
      in if target - min_c \<le> cap then Some (roster', min_c) else wait_for_readers cap timeout target later)"

definition required_space :: "u32 \<Rightarrow> u64" where
  "required_space payload_size = of_nat kFrameHeaderSize + ucast ((payload_size + 7) AND NOT 7)"

text \<open>
  The result is the address of the payload; \<open>timestamp\<close> is the clock at the header write. \<open>None\<close> means
  that the call has not returned after the given iterations.
\<close>

definition Reserve :: "u32 \<Rightarrow> u32 \<Rightarrow> (u64 \<times> ReaderSlot list) list \<Rightarrow> u64 \<Rightarrow> ring_buffer
    \<Rightarrow> ((status + nat) \<times> ring_buffer) option" where
  "Reserve payload_size type_id iterations timestamp s =
     (if \<not> is_producer s then Some (Inl PermissionDenied, s)
      else if required_space payload_size > capacity s then Some (Inl InvalidArgument, s)
      else
        let current = producer_cursor (header s); target = current + required_space payload_size;
            waited = (if target - cached_min_cursor s > capacity s
                      then map_option (\<lambda>(roster, m). s\<lparr>header := (header s)\<lparr>readers := roster\<rparr>, cached_min_cursor := m\<rparr>)
                             (wait_for_readers (capacity s) (evict_timeout_ns s) target iterations)
                      else Some s)
        in case waited of
             None \<Rightarrow> None
           | Some s \<Rightarrow>
               (let offset = current mod capacity s; a = unat offset;
                    seg = store32 (segment s) a (load32 (segment s) a OR 1);
                    seg = store32 seg (a + 4) payload_size;
                    seg = store32 seg (a + 8) type_id;
                    seg = store64 seg (a + 16) timestamp
                in Some (Inr (a + kFrameHeaderSize),
                     s\<lparr>segment := seg,
                       current_reservation := \<lparr>claimed_cursor = target, start_offset = offset,
                         total_frame_size = ucast (required_space payload_size)\<rparr>,
                       header := (header s)\<lparr>producer_cursor := target\<rparr>\<rparr>)))"

text \<open>The caller fills the payload through the pointer it got.\<close>

definition write_payload :: "nat \<Rightarrow> u8 list \<Rightarrow> ring_buffer \<Rightarrow> ring_buffer" where
  "write_payload p bytes s = s\<lparr>segment := store (segment s) p bytes\<rparr>"

definition Commit :: "ring_buffer \<Rightarrow> ring_buffer" where
  "Commit s =
     (let a = unat (start_offset (current_reservation s))
      in s\<lparr>segment := store32 (segment s) a (load32 (segment s) a + 1),
           header := (header s)\<lparr>commit_cursor := claimed_cursor (current_reservation s)\<rparr>\<rparr>)"

section \<open>The roster\<close>

fun claim_slot :: "ReaderSlot list \<Rightarrow> nat option" where
  "claim_slot [] = None"
| "claim_slot (r # rs) = (if active r then map_option Suc (claim_slot rs) else Some 0)"

definition RegisterReader :: "u64 \<Rightarrow> u32 \<Rightarrow> BroadcastReader \<Rightarrow> ring_buffer
    \<Rightarrow> status option \<times> BroadcastReader \<times> ring_buffer" where
  "RegisterReader now pid reader s =
     (if slot_index reader \<noteq> -1 then (Some AlreadyExists, reader, s)
      else case claim_slot (readers (header s)) of
             None \<Rightarrow> (Some ResourceExhausted, reader, s)
           | Some i \<Rightarrow>
               (let slot = readers (header s) ! i; gen = slot_generation slot + 1;
                    slot = \<lparr>active = True, slot_cursor = cursor reader, heartbeat_ts = now, slot_pid = pid,
                            slot_generation = gen\<rparr>
                in (None, reader\<lparr>slot_index := int i, generation_id := gen\<rparr>,
                    s\<lparr>header := (header s)\<lparr>readers := (readers (header s))[i := slot]\<rparr>\<rparr>)))"

definition UnregisterReader :: "BroadcastReader \<Rightarrow> ring_buffer \<Rightarrow> BroadcastReader \<times> ring_buffer" where
  "UnregisterReader reader s =
     (let slot = slot_index reader
      in if 0 \<le> slot \<and> slot < int kMaxReaders
         then (reader\<lparr>slot_index := -1\<rparr>,
               s\<lparr>header := (header s)\<lparr>readers := (readers (header s))
                   [nat slot := (readers (header s) ! nat slot)\<lparr>active := False\<rparr>]\<rparr>\<rparr>)
         else (reader, s))"

definition Advance :: "u64 \<Rightarrow> u64 \<Rightarrow> BroadcastReader \<Rightarrow> ring_buffer \<Rightarrow> BroadcastReader \<times> ring_buffer" where
  "Advance now total_frame_length reader s =
     (let new_cursor = cursor reader + total_frame_length; reader = reader\<lparr>cursor := new_cursor\<rparr>;
          slot = slot_index reader
      in if slot < 0 then (reader, s)
         else let my_slot = readers (header s) ! nat slot
              in if slot_generation my_slot = generation_id reader
                 then (reader, s\<lparr>header := (header s)\<lparr>readers := (readers (header s))
                         [nat slot := my_slot\<lparr>slot_cursor := new_cursor, heartbeat_ts := now\<rparr>]\<rparr>\<rparr>)
                 else (reader\<lparr>slot_index := -1\<rparr>, s))"

definition GetLatestCursor :: "ring_buffer \<Rightarrow> u64" where
  "GetLatestCursor s = commit_cursor (header s)"

text \<open>\<open>BroadcastReader::Advance(header)\<close> moves the local cursor only.\<close>

definition reader_Advance :: "FrameHeader \<Rightarrow> BroadcastReader \<Rightarrow> BroadcastReader" where
  "reader_Advance h reader = reader\<lparr>cursor := cursor reader + ucast (TotalFrameSize (frame_length h))\<rparr>"

section \<open>Polling\<close>

text \<open>The result is the header fields, and the address and length of the payload in the segment.\<close>

definition PollZeroCopy :: "BroadcastReader \<Rightarrow> ring_buffer \<Rightarrow> status + FrameHeader \<times> nat \<times> u32" where
  "PollZeroCopy reader s =
     (let current = cursor reader; commit = commit_cursor (header s)
      in if current \<ge> commit then Inl NotFound
         else if producer_cursor (header s) - current > capacity s then Inl ResourceExhausted
         else let a = unat (current mod capacity s); frame = read_header (segment s) a
              in if ucast (frame_length frame) > capacity s then Inl DataLoss
                 else Inr (frame, a + kFrameHeaderSize, frame_length frame))"

text \<open>
  What one attempt of a copying poll observes: \<open>producer_cursor\<close>, \<open>version\<close> before, the header
  fields, the segment as the payload copy reads it, \<open>version\<close> after; and the \<open>length\<close> that the batch
  poll reads once more, after the second \<open>version\<close>.
\<close>

record attempt =
  seen_producer :: u64
  version_before :: u32
  seen_length :: u32
  seen_type :: u32
  seen_timestamp :: u64
  seen_segment :: segment
  version_after :: u32
  length_again :: u32

datatype copy_result = Lapped | Corrupt | GaveUp | Got SafeMessage u32

definition kMaxRetries :: nat where
  "kMaxRetries = 1000"

text \<open>
  The retry loop at frame \<open>a\<close> of the segment, as \<open>PollCopy\<close> (\<open>batch = False\<close>) and \<open>PollCopyBatch\<close> run
  it: only the latter gives up on an odd version, and \<open>retry\<close> counts. \<open>None\<close> while it still retries.
\<close>

fun copy_frame :: "bool \<Rightarrow> u64 \<Rightarrow> u64 \<Rightarrow> nat \<Rightarrow> attempt list \<Rightarrow> copy_result option" where
  "copy_frame batch cap current retry [] = None"
| "copy_frame batch cap current retry (o1 # os) =
     (if seen_producer o1 - current > cap then Some Lapped
      else if version_before o1 AND 1 \<noteq> 0
      then (if batch \<and> retry + 1 > kMaxRetries then Some GaveUp else copy_frame batch cap current (retry + 1) os)
      else if ucast (seen_length o1) > cap then Some Corrupt
      else if version_before o1 = version_after o1
      then Some (Got \<lparr>msg_type = seen_type o1, msg_timestamp = seen_timestamp o1,
                   msg_payload = load_bytes (seen_segment o1)
                     (unat (current mod cap) + kFrameHeaderSize) (unat (seen_length o1))\<rparr>
                 (TotalFrameSize (length_again o1)))
      else copy_frame batch cap current (retry + 1) os)"

definition PollCopy :: "attempt list \<Rightarrow> BroadcastReader \<Rightarrow> ring_buffer \<Rightarrow> (status + SafeMessage) option" where
  "PollCopy attempts reader s =
     (let current = cursor reader; commit = commit_cursor (header s)
      in if current \<ge> commit then Some (Inl NotFound)
         else case copy_frame False (capacity s) current 0 attempts of
                None \<Rightarrow> None
              | Some Lapped \<Rightarrow> Some (Inl ResourceExhausted)
              | Some Corrupt \<Rightarrow> Some (Inl DataLoss)
              | Some GaveUp \<Rightarrow> None
              | Some (Got m n) \<Rightarrow> Some (Inr m))"

text \<open>
  The batch loop; \<open>env n c\<close> are the attempts at message number \<open>n\<close> when it lies at cursor \<open>c\<close>. It
  gives the error to return when nothing was read, the messages and the bytes to advance.
\<close>

function batch_loop :: "(nat \<Rightarrow> u64 \<Rightarrow> attempt list) \<Rightarrow> u64 \<Rightarrow> u64 \<Rightarrow> nat \<Rightarrow> u64 \<Rightarrow> u64 \<Rightarrow> SafeMessage list
    \<Rightarrow> (status \<times> SafeMessage list \<times> u64) option" where
  "batch_loop env cap commit max_messages current advanced msgs =
     (if length msgs < max_messages \<and> current < commit
      then case copy_frame True cap current 0 (env (length msgs) current) of
             None \<Rightarrow> None
           | Some Lapped \<Rightarrow> Some (ResourceExhausted, msgs, advanced)
           | Some Corrupt \<Rightarrow> Some (DataLoss, msgs, advanced)
           | Some GaveUp \<Rightarrow> Some (NotFound, msgs, advanced)
           | Some (Got m n) \<Rightarrow>
               batch_loop env cap commit max_messages (current + ucast n) (advanced + ucast n) (msgs @ [m])
      else Some (NotFound, msgs, advanced))"
  by pat_completeness auto

termination by (relation "measure (\<lambda>(env, cap, commit, n, cur, advanced, msgs). n - length msgs)") auto

declare batch_loop.simps [simp del]

definition PollCopyBatch :: "(nat \<Rightarrow> u64 \<Rightarrow> attempt list) \<Rightarrow> u64 \<Rightarrow> nat \<Rightarrow> BroadcastReader \<Rightarrow> ring_buffer
    \<Rightarrow> ((status + SafeMessage list) \<times> BroadcastReader \<times> ring_buffer) option" where
  "PollCopyBatch env now max_messages reader s =
     (let current = cursor reader; commit = commit_cursor (header s)
      in if current \<ge> commit then Some (Inl NotFound, reader, s)
         else case batch_loop env (capacity s) commit max_messages current 0 [] of
                None \<Rightarrow> None
              | Some (err, msgs, advanced) \<Rightarrow>
                  (if msgs \<noteq> [] then Some (Inr msgs, Advance now advanced reader s)
                   else Some (Inl err, reader, s)))"

end
