(* ===== verification/RingProps.thy ===== *)
theory RingProps
  imports Ring
begin

text \<open>
  The stream a broadcast ring carries: the log of published messages, where each lies in the segment,
  and what the producer and the readers do to it.
\<close>

section \<open>The stream\<close>

record message =
  m_type :: u32
  m_timestamp :: u64
  m_payload :: "u8 list"

definition span :: "message \<Rightarrow> nat" where
  "span m = kFrameHeaderSize + (length (m_payload m) + 7) div 8 * 8"

text \<open>The cursor at which message \<open>j\<close> of the log starts; \<open>start_of log (length log)\<close> is its end.\<close>

definition start_of :: "message list \<Rightarrow> nat \<Rightarrow> nat" where
  "start_of log j = sum_list (map span (take j log))"

definition fits :: "u64 \<Rightarrow> message \<Rightarrow> bool" where
  "fits cap m \<longleftrightarrow> length (m_payload m) + 7 < 2 ^ 32 \<and> span m \<le> unat cap"

text \<open>Message \<open>m\<close> lies complete at cursor \<open>c\<close>, with an even version.\<close>

definition frame_at :: "segment \<Rightarrow> nat \<Rightarrow> message \<Rightarrow> bool" where
  "frame_at seg c m \<longleftrightarrow> load32 seg c AND 1 = 0 \<and> load32 seg (c + 4) = of_nat (length (m_payload m))
     \<and> load32 seg (c + 8) = m_type m \<and> load64 seg (c + 16) = m_timestamp m
     \<and> load_bytes seg (c + kFrameHeaderSize) (length (m_payload m)) = m_payload m"

text \<open>
  Every message that starts within one capacity of the producer is intact. \<open>pcur\<close> is the producer
  cursor: past the end of the log while a reservation is open.
\<close>

definition stream :: "message list \<Rightarrow> nat \<Rightarrow> ring_buffer \<Rightarrow> bool" where
  "stream log pcur s \<longleftrightarrow> capacity s \<noteq> 0 \<and> length (segment s) = unat (capacity s)
     \<and> (\<forall>m \<in> set log. fits (capacity s) m)
     \<and> commit_cursor (header s) = of_nat (start_of log (length log)) \<and> start_of log (length log) < 2 ^ 64
     \<and> producer_cursor (header s) = of_nat pcur \<and> pcur < 2 ^ 64
     \<and> (\<forall>j < length log. pcur \<le> start_of log j + unat (capacity s) \<longrightarrow> frame_at (segment s) (start_of log j) (log ! j))"

definition ring_inv :: "message list \<Rightarrow> ring_buffer \<Rightarrow> bool" where
  "ring_inv log s \<longleftrightarrow> stream log (start_of log (length log)) s"

lemma start_of_Suc: "j < length log \<Longrightarrow> start_of log (Suc j) = start_of log j + span (log ! j)"
  by (simp add: start_of_def take_Suc_conv_app_nth)

lemma start_of_snoc [simp]:
  "j \<le> length log \<Longrightarrow> start_of (log @ [m]) j = start_of log j"
  "start_of (log @ [m]) (Suc (length log)) = start_of log (length log) + span m"
  by (simp_all add: start_of_def)

lemma start_of_mono:
  assumes "i \<le> j"
  shows "start_of log i \<le> start_of log j"
proof -
  have "take j log = take i log @ take (j - i) (drop i log)"
    using assms take_add [of i "j - i" log] by simp
  then show ?thesis by (simp add: start_of_def)
qed

lemma start_of_next: "j < length log \<Longrightarrow> start_of log j + span (log ! j) \<le> start_of log (length log)"
  using start_of_mono [of "Suc j" "length log" log] by (simp add: start_of_Suc)

lemma span_ge: "kFrameHeaderSize + length (m_payload m) \<le> span m"
proof -
  have "length (m_payload m) \<le> (length (m_payload m) + 7) div 8 * 8" by presburger
  then show ?thesis by (simp add: span_def)
qed

lemma unat_ucast_u32: "unat (ucast (x :: u32) :: u64) = unat x"
  using unat_u32_less [of x] by (simp add: unsigned_ucast_eq take_bit_nat_eq_self)

lemma required_space_nat:
  assumes "unat n + 7 < 2 ^ 32"
  shows "unat (required_space n) = kFrameHeaderSize + (unat n + 7) div 8 * 8"
proof -
  have al: "unat (ucast ((n + 7) AND NOT 7) :: u64) = (unat n + 7) div 8 * 8"
    using AlignedPayloadSize_nat [OF assms] unfolding unat_ucast_u32 AlignedPayloadSize_def .
  moreover have "(unat n + 7) div 8 * 8 < 2 ^ 32"
    using assms div_times_less_eq_dividend [of "unat n + 7" 8] by linarith
  ultimately show ?thesis
    using unat_add_u64 [of "of_nat kFrameHeaderSize" "ucast ((n + 7) AND NOT 7)"]
    unfolding required_space_def by (simp add: kFrameHeaderSize_def)
qed

lemma TotalFrameSize_nat:
  assumes "unat n + 7 < 2 ^ 32" and "kFrameHeaderSize + (unat n + 7) div 8 * 8 < 2 ^ 32"
  shows "unat (TotalFrameSize n) = kFrameHeaderSize + (unat n + 7) div 8 * 8"
proof -
  have "TotalFrameSize n = ucast (required_space n)"
    by (simp add: TotalFrameSize_def required_space_def AlignedPayloadSize_def kFrameHeaderSize_def)
  then show ?thesis using required_space_nat [OF assms(1)] assms(2)
    by (simp add: unsigned_ucast_eq unsigned_take_bit_eq take_bit_nat_eq_self)
qed

section \<open>What the stores of the producer touch\<close>

lemma load_store32_apart:
  "m \<noteq> [] \<Longrightarrow> apart (length m) a 4 b n \<Longrightarrow> load_bytes (store32 m a v) b n = load_bytes m b n"
  by (simp add: store32_def load_store_apart)

lemma load_store64_apart:
  "m \<noteq> [] \<Longrightarrow> apart (length m) a 8 b n \<Longrightarrow> load_bytes (store64 m a v) b n = load_bytes m b n"
  by (simp add: store64_def load_store_apart)

lemmas load_apart = load_store32_apart load_store64_apart load_store_apart

lemma store32_neq_Nil [simp]: "store32 m a v = [] \<longleftrightarrow> m = []"
  by (metis length_0_conv length_store32)

lemma store64_neq_Nil [simp]: "store64 m a v = [] \<longleftrightarrow> m = []"
  by (metis length_0_conv length_store64)

lemma store_neq_Nil [simp]: "store m a bs = [] \<longleftrightarrow> m = []"
  by (metis length_0_conv length_store)

lemma load_bytes_part: "k + n \<le> N \<Longrightarrow> load_bytes m (c + k) n = take n (drop k (load_bytes m c N))"
  by (rule nth_equalityI) (simp_all add: load_bytes_def add.assoc)

lemma frame_at_cong:
  assumes "load_bytes seg' c (span m) = load_bytes seg c (span m)"
  shows "frame_at seg' c m \<longleftrightarrow> frame_at seg c m"
proof -
  have part: "load_bytes seg' (c + k) n = load_bytes seg (c + k) n" if "k + n \<le> span m" for k n
    using load_bytes_part [OF that, of seg c] load_bytes_part [OF that, of seg' c] assms by simp
  have "24 \<le> span m" using span_ge [of m] by (simp add: kFrameHeaderSize_def)
  then show ?thesis
    using part [of 0 4] part [of 4 4] part [of 8 4] part [of 16 8]
      part [of kFrameHeaderSize "length (m_payload m)"] span_ge [of m]
    by (simp add: frame_at_def load32_def load64_def)
qed

text \<open>The header fields as \<open>Reserve\<close> writes them at cursor \<open>e\<close>, and the even version of \<open>Commit\<close>.\<close>

definition write_header :: "segment \<Rightarrow> nat \<Rightarrow> u32 \<Rightarrow> u32 \<Rightarrow> u64 \<Rightarrow> segment" where
  "write_header seg e n ty ts =
     store64 (store32 (store32 (store32 seg e (load32 seg e OR 1)) (e + 4) n) (e + 8) ty) (e + 16) ts"

definition write_frame :: "segment \<Rightarrow> nat \<Rightarrow> message \<Rightarrow> segment" where
  "write_frame seg e m =
     (let w = store (write_header seg e (of_nat (length (m_payload m))) (m_type m) (m_timestamp m))
                (e + kFrameHeaderSize) (m_payload m)
      in store32 w e (load32 w e + 1))"

lemma length_write_frame [simp]: "length (write_frame seg e m) = length seg"
  by (simp add: write_frame_def write_header_def Let_def)

lemma write_frame_other:
  assumes "seg \<noteq> []" and "span m \<le> length seg" and "c + n \<le> e" and "e + span m \<le> c + length seg"
  shows "load_bytes (write_frame seg e m) c n = load_bytes seg c n"
  using assms span_ge [of m]
  by (simp add: write_frame_def write_header_def Let_def load_apart apart_def kFrameHeaderSize_def)

lemma odd_plus_one_even: "((v :: u32) OR 1) + 1 AND 1 = 0"
proof -
  have "odd (v OR 1)" by (simp add: even_or_iff)
  then have "even ((v OR 1) + 1)" by simp
  then show ?thesis by (simp add: and_one_eq even_iff_mod_2_eq_zero)
qed

lemma write_frame_at:
  assumes "seg \<noteq> []" and "span m \<le> length seg"
  shows "frame_at (write_frame seg e m) e m"
proof -
  note sp = span_ge [of m]
  let ?n = "of_nat (length (m_payload m)) :: u32"
  let ?h = "write_header seg e ?n (m_type m) (m_timestamp m)"
  let ?w = "store ?h (e + kFrameHeaderSize) (m_payload m)"
  have len: "24 \<le> length seg" "24 + length (m_payload m) \<le> length seg"
    using assms(2) sp by (auto simp: kFrameHeaderSize_def)
  have ver: "load32 ?w e = load32 seg e OR 1"
  proof -
    have "load32 ?w e = load32 (store32 seg e (load32 seg e OR 1)) e"
      using assms(1) len by (simp add: write_header_def load32_def load_apart apart_def kFrameHeaderSize_def)
    then show ?thesis using load32_store32 [of seg e] len by simp
  qed
  have "load32 (write_frame seg e m) e = load32 ?w e + 1"
    using load32_store32 [of ?w e] len by (simp add: write_frame_def write_header_def Let_def)
  then have "load32 (write_frame seg e m) e AND 1 = 0" by (simp add: ver odd_plus_one_even)
  moreover have "load32 (write_frame seg e m) (e + 4) = ?n"
  proof -
    have "load32 (write_frame seg e m) (e + 4)
        = load32 (store32 (store32 seg e (load32 seg e OR 1)) (e + 4) ?n) (e + 4)"
      using assms(1) len
      by (simp add: write_frame_def write_header_def Let_def load32_def load_apart apart_def kFrameHeaderSize_def)
    then show ?thesis using load32_store32 [of "store32 seg e (load32 seg e OR 1)" "e + 4"] len by simp
  qed
  moreover have "load32 (write_frame seg e m) (e + 8) = m_type m"
  proof -
    have "load32 (write_frame seg e m) (e + 8)
        = load32 (store32 (store32 (store32 seg e (load32 seg e OR 1)) (e + 4) ?n) (e + 8) (m_type m)) (e + 8)"
      using assms(1) len
      by (simp add: write_frame_def write_header_def Let_def load32_def load_apart apart_def kFrameHeaderSize_def)
    then show ?thesis
      using load32_store32 [of "store32 (store32 seg e (load32 seg e OR 1)) (e + 4) ?n" "e + 8"] len by simp
  qed
  moreover have "load64 (write_frame seg e m) (e + 16) = m_timestamp m"
  proof -
    have "load64 (write_frame seg e m) (e + 16) = load64 ?h (e + 16)"
      using assms(1) len
      by (simp add: write_frame_def write_header_def Let_def load64_def load_apart apart_def kFrameHeaderSize_def)
    then show ?thesis
      using load64_store64 [of "store32 (store32 (store32 seg e (load32 seg e OR 1)) (e + 4) ?n) (e + 8) (m_type m)" "e + 16"] len
      by (simp add: write_header_def)
  qed
  moreover have "load_bytes (write_frame seg e m) (e + kFrameHeaderSize) (length (m_payload m)) = m_payload m"
  proof -
    have "load_bytes (write_frame seg e m) (e + kFrameHeaderSize) (length (m_payload m))
        = load_bytes ?w (e + kFrameHeaderSize) (length (m_payload m))"
      using assms(1) len by (simp add: write_frame_def Let_def write_header_def load_apart apart_def kFrameHeaderSize_def)
    also have "\<dots> = m_payload m"
      using len assms(1) by (intro load_store_same) (simp_all add: write_header_def)
    finally show ?thesis .
  qed
  ultimately show ?thesis by (simp add: frame_at_def)
qed

section \<open>Publishing\<close>

lemma Reserve_okD:
  assumes "Reserve n ty its ts s = Some (Inr p, s1)"
  shows "is_producer s" and "required_space n \<le> capacity s"
    and "p = unat (producer_cursor (header s) mod capacity s) + kFrameHeaderSize"
    and "\<exists>roster m. s1 = s\<lparr>segment := (let a = unat (producer_cursor (header s) mod capacity s); seg = segment s;
             seg = store32 seg a (load32 seg a OR 1); seg = store32 seg (a + 4) n;
             seg = store32 seg (a + 8) ty in store64 seg (a + 16) ts),
         current_reservation := \<lparr>claimed_cursor = producer_cursor (header s) + required_space n,
           start_offset = producer_cursor (header s) mod capacity s, total_frame_size = ucast (required_space n)\<rparr>,
         header := (header s)\<lparr>readers := roster, producer_cursor := producer_cursor (header s) + required_space n\<rparr>,
         cached_min_cursor := m\<rparr>
       \<and> (let target = producer_cursor (header s) + required_space n
          in target - cached_min_cursor s \<le> capacity s \<and> roster = readers (header s) \<and> m = cached_min_cursor s
           \<or> target - cached_min_cursor s > capacity s
             \<and> wait_for_readers (capacity s) (evict_timeout_ns s) target its = Some (roster, m))"
proof -
  show "is_producer s" and "required_space n \<le> capacity s"
    and "p = unat (producer_cursor (header s) mod capacity s) + kFrameHeaderSize"
    using assms by (auto simp: Reserve_def Let_def split: if_splits option.splits)
  let ?target = "producer_cursor (header s) + required_space n"
  show "\<exists>roster m. s1 = s\<lparr>segment := (let a = unat (producer_cursor (header s) mod capacity s); seg = segment s;
             seg = store32 seg a (load32 seg a OR 1); seg = store32 seg (a + 4) n;
             seg = store32 seg (a + 8) ty in store64 seg (a + 16) ts),
         current_reservation := \<lparr>claimed_cursor = ?target,
           start_offset = producer_cursor (header s) mod capacity s, total_frame_size = ucast (required_space n)\<rparr>,
         header := (header s)\<lparr>readers := roster, producer_cursor := ?target\<rparr>,
         cached_min_cursor := m\<rparr>
       \<and> (let target = ?target
          in target - cached_min_cursor s \<le> capacity s \<and> roster = readers (header s) \<and> m = cached_min_cursor s
           \<or> target - cached_min_cursor s > capacity s
             \<and> wait_for_readers (capacity s) (evict_timeout_ns s) target its = Some (roster, m))"
  proof (cases "?target - cached_min_cursor s > capacity s")
    case True
    then obtain roster m where "wait_for_readers (capacity s) (evict_timeout_ns s) ?target its = Some (roster, m)"
      using assms by (auto simp: Reserve_def Let_def split: if_splits option.splits)
    with True assms show ?thesis
      by (intro exI [of _ roster] exI [of _ m]) (auto simp: Reserve_def Let_def split: if_splits)
  next
    case False
    with assms show ?thesis
      by (intro exI [of _ "readers (header s)"] exI [of _ "cached_min_cursor s"], cases s, cases "header s")
        (auto simp: Reserve_def Let_def not_less split: if_splits)
  qed
qed

definition publish :: "message \<Rightarrow> (u64 \<times> ReaderSlot list) list \<Rightarrow> ring_buffer \<Rightarrow> ring_buffer option" where
  "publish m its s =
     (case Reserve (of_nat (length (m_payload m))) (m_type m) its (m_timestamp m) s of
        Some (Inr p, s1) \<Rightarrow> Some (Commit (write_payload p (m_payload m) s1))
      | _ \<Rightarrow> None)"

lemma store_mod:
  assumes "length m = L"
  shows "store m (c mod L + k) bs = store m (c + k) bs" and "store m (c mod L) bs = store m c bs"
    and "store32 m (c mod L + k) v = store32 m (c + k) v" and "store32 m (c mod L) v = store32 m c v"
    and "store64 m (c mod L + k) w = store64 m (c + k) w" and "load32 m (c mod L) = load32 m c"
  using list_update_mod [of m c k] list_update_mod [of m c 0] load_bytes_offset [of m c 0] assms
  by (simp_all add: store32_def store64_def load32_def)

lemma publish_segment:
  assumes "publish m its s = Some s'" and "producer_cursor (header s) = of_nat e" and "e < 2 ^ 64"
    and "length (segment s) = unat (capacity s)"
  shows "segment s' = write_frame (segment s) e m"
    and "producer_cursor (header s') = of_nat e + required_space (of_nat (length (m_payload m)))"
    and "commit_cursor (header s') = of_nat e + required_space (of_nat (length (m_payload m)))"
    and "capacity s' = capacity s"
    and "required_space (of_nat (length (m_payload m))) \<le> capacity s" and "is_producer s' = is_producer s"
    and "evict_timeout_ns s' = evict_timeout_ns s"
proof -
  let ?n = "of_nat (length (m_payload m)) :: u32"
  obtain p s1 where r: "Reserve ?n (m_type m) its (m_timestamp m) s = Some (Inr p, s1)"
    and s': "s' = Commit (write_payload p (m_payload m) s1)"
    using assms(1) by (auto simp: publish_def split: option.splits prod.splits sum.splits)
  note ok = Reserve_okD [OF r]
  have a: "unat (producer_cursor (header s) mod capacity s) = e mod length (segment s)"
    using assms(2-4) by (simp add: unat_mod unat_of_nat)
  obtain roster mc where s1: "s1 = s\<lparr>segment := write_header (segment s) e ?n (m_type m) (m_timestamp m),
         current_reservation := \<lparr>claimed_cursor = producer_cursor (header s) + required_space ?n,
           start_offset = producer_cursor (header s) mod capacity s, total_frame_size = ucast (required_space ?n)\<rparr>,
         header := (header s)\<lparr>readers := roster, producer_cursor := producer_cursor (header s) + required_space ?n\<rparr>,
         cached_min_cursor := mc\<rparr>"
    using ok(4) by (auto simp: Let_def write_header_def a store_mod)
  have "length (segment s1) = length (segment s)" by (simp add: s1 write_header_def)
  then show "segment s' = write_frame (segment s) e m"
    by (simp add: s' Commit_def write_payload_def ok(3) Let_def s1 write_frame_def a store_mod)
  show "producer_cursor (header s') = of_nat e + required_space ?n"
    "commit_cursor (header s') = of_nat e + required_space ?n" "capacity s' = capacity s"
    "required_space ?n \<le> capacity s" "is_producer s' = is_producer s" "evict_timeout_ns s' = evict_timeout_ns s"
    using ok(2) assms(2) by (simp_all add: s' Commit_def write_payload_def Let_def s1)
qed

lemma publish_inv:
  assumes inv: "ring_inv log s" and pub: "publish m its s = Some s'"
    and len: "length (m_payload m) + 7 < 2 ^ 32" and room: "start_of log (length log) + span m < 2 ^ 64"
  shows "ring_inv (log @ [m]) s'"
proof -
  let ?e = "start_of log (length log)" and ?n = "of_nat (length (m_payload m)) :: u32"
  have i: "capacity s \<noteq> 0" "length (segment s) = unat (capacity s)" "\<forall>m \<in> set log. fits (capacity s) m"
    "producer_cursor (header s) = of_nat ?e" "?e < 2 ^ 64"
    "\<forall>j < length log. ?e \<le> start_of log j + unat (capacity s) \<longrightarrow> frame_at (segment s) (start_of log j) (log ! j)"
    using inv by (auto simp: ring_inv_def stream_def)
  note p = publish_segment [OF pub i(4,5,2)]
  have n: "unat ?n = length (m_payload m)" using len by (simp add: unat_of_nat)
  then have req: "unat (required_space ?n) = span m" using required_space_nat [of ?n] len by (simp add: span_def)
  then have fit: "fits (capacity s) m" using p(5) len by (simp add: fits_def word_le_nat_alt)
  then have sp: "span m \<le> length (segment s)" using i(2) by (simp add: fits_def)
  have nz: "segment s \<noteq> []" using i(1,2) by (auto simp: unat_eq_0)
  have cur: "of_nat ?e + required_space ?n = of_nat (?e + span m)"
    using req by (simp flip: req add: ucast_id)
  have "frame_at (segment s') (start_of (log @ [m]) j) ((log @ [m]) ! j)"
    if j: "j < Suc (length log)" "?e + span m \<le> start_of (log @ [m]) j + unat (capacity s)" for j
  proof (cases "j = length log")
    case True
    then show ?thesis using write_frame_at [OF nz sp] by (simp add: p(1))
  next
    case False
    with j have lt: "j < length log" by simp
    have "load_bytes (segment s') (start_of log j) (span (log ! j)) = load_bytes (segment s) (start_of log j) (span (log ! j))"
      unfolding p(1) using lt j start_of_next [OF lt] i(2)
      by (intro write_frame_other [OF nz sp]) simp_all
    then have "frame_at (segment s') (start_of log j) (log ! j) \<longleftrightarrow> frame_at (segment s) (start_of log j) (log ! j)"
      by (rule frame_at_cong)
    moreover have "frame_at (segment s) (start_of log j) (log ! j)" using i(6) lt j(2) by simp
    ultimately show ?thesis using lt by (simp add: nth_append)
  qed
  then show ?thesis using i p(1-4) room fit cur
    by (simp add: ring_inv_def stream_def)
qed

section \<open>Polling\<close>

text \<open>An attempt that no other process disturbs sees the state as it is.\<close>

definition quiet_attempt :: "ring_buffer \<Rightarrow> u64 \<Rightarrow> attempt" where
  "quiet_attempt s c =
     (let h = read_header (segment s) (unat (c mod capacity s))
      in \<lparr>seen_producer = producer_cursor (header s), version_before = frame_version h,
          seen_length = frame_length h, seen_type = frame_type h, seen_timestamp = frame_timestamp h,
          seen_segment = segment s, version_after = frame_version h, length_again = frame_length h\<rparr>)"

definition safe_message :: "message \<Rightarrow> SafeMessage" where
  "safe_message m = \<lparr>msg_type = m_type m, msg_timestamp = m_timestamp m, msg_payload = m_payload m\<rparr>"

definition header_of :: "u32 \<Rightarrow> message \<Rightarrow> FrameHeader" where
  "header_of v m = \<lparr>frame_version = v, frame_length = of_nat (length (m_payload m)), frame_type = m_type m,
     frame_timestamp = m_timestamp m\<rparr>"

definition live :: "message list \<Rightarrow> nat \<Rightarrow> ring_buffer \<Rightarrow> bool" where
  "live log j s \<longleftrightarrow> start_of log (length log) \<le> start_of log j + unat (capacity s)"

lemma u64_less_of_nat: "a < 2 ^ 64 \<Longrightarrow> b < 2 ^ 64 \<Longrightarrow> (of_nat a :: u64) < of_nat b \<longleftrightarrow> a < b"
  by (simp add: word_less_nat_alt unat_of_nat)

lemma u64_diff_of_nat: "a \<le> b \<Longrightarrow> b < 2 ^ 64 \<Longrightarrow> unat (of_nat b - of_nat a :: u64) = b - a"
proof -
  assume "a \<le> b" and "b < 2 ^ 64"
  then have "(of_nat b - of_nat a :: u64) = of_nat (b - a)" by (simp add: of_nat_diff)
  with \<open>b < 2 ^ 64\<close> show ?thesis by (simp add: unat_of_nat)
qed

text \<open>What a reader at message \<open>j\<close> finds.\<close>

lemma at_message:
  assumes inv: "ring_inv log s" and j: "j < length log"
  defines "c \<equiv> of_nat (start_of log j) :: u64"
  shows "c < commit_cursor (header s)"
    and "producer_cursor (header s) - c > capacity s \<longleftrightarrow> \<not> live log j s"
    and "live log j s \<Longrightarrow> \<exists>v. v AND 1 = 0
       \<and> read_header (segment s) (unat (c mod capacity s)) = header_of v (log ! j)
       \<and> load_bytes (segment s) (unat (c mod capacity s) + kFrameHeaderSize) (length (m_payload (log ! j)))
         = m_payload (log ! j)"
    and "unat (of_nat (length (m_payload (log ! j))) :: u32) = length (m_payload (log ! j))"
    and "\<not> capacity s < ucast (of_nat (length (m_payload (log ! j))) :: u32)"
proof -
  let ?e = "start_of log (length log)"
  have i: "capacity s \<noteq> 0" "length (segment s) = unat (capacity s)" "\<forall>m \<in> set log. fits (capacity s) m"
    "producer_cursor (header s) = of_nat ?e" "commit_cursor (header s) = of_nat ?e" "?e < 2 ^ 64"
    "\<forall>j < length log. ?e \<le> start_of log j + unat (capacity s) \<longrightarrow> frame_at (segment s) (start_of log j) (log ! j)"
    using inv by (auto simp: ring_inv_def stream_def)
  have sp: "start_of log j + span (log ! j) \<le> ?e" by (rule start_of_next [OF j])
  have pos: "24 + length (m_payload (log ! j)) \<le> span (log ! j)"
    using span_ge [of "log ! j"] by (simp add: kFrameHeaderSize_def)
  show "c < commit_cursor (header s)"
    using sp pos i(6) by (simp add: c_def i(5) u64_less_of_nat)
  show "producer_cursor (header s) - c > capacity s \<longleftrightarrow> \<not> live log j s"
    using sp i(6) u64_diff_of_nat [of "start_of log j" ?e]
    by (auto simp: c_def i(4) word_less_nat_alt live_def)
  have a: "unat (c mod capacity s) = start_of log j mod length (segment s)"
    using sp i(2,6) by (simp add: c_def unat_mod unat_of_nat)
  have fit: "fits (capacity s) (log ! j)" using i(3) j by simp
  then show n: "unat (of_nat (length (m_payload (log ! j))) :: u32) = length (m_payload (log ! j))"
    by (simp add: fits_def unat_of_nat)
  have "length (m_payload (log ! j)) \<le> unat (capacity s)" using fit pos by (simp add: fits_def)
  then show "\<not> capacity s < ucast (of_nat (length (m_payload (log ! j))) :: u32)"
    using n unat_ucast_u32 [of "of_nat (length (m_payload (log ! j)))"] by (simp add: word_less_nat_alt)
  assume "live log j s"
  then have f: "frame_at (segment s) (start_of log j) (log ! j)" using i(7) j by (simp add: live_def)
  have "load32 (segment s) (unat (c mod capacity s) + k) = load32 (segment s) (start_of log j + k)"
    "load64 (segment s) (unat (c mod capacity s) + k) = load64 (segment s) (start_of log j + k)" for k
    by (simp_all add: a load32_def load64_def load_bytes_offset)
  from this(1) [of 0] this(1) [of 4] this(1) [of 8] this(2) [of 16] f
  show "\<exists>v. v AND 1 = 0 \<and> read_header (segment s) (unat (c mod capacity s)) = header_of v (log ! j)
       \<and> load_bytes (segment s) (unat (c mod capacity s) + kFrameHeaderSize) (length (m_payload (log ! j)))
         = m_payload (log ! j)"
    by (intro exI [of _ "load32 (segment s) (start_of log j)"])
      (simp add: frame_at_def read_header_def header_of_def a load_bytes_offset)
qed

lemma at_end:
  assumes "ring_inv log s"
  shows "\<not> of_nat (start_of log (length log)) < commit_cursor (header s)"
  using assms by (simp add: ring_inv_def stream_def)

lemma poll_message:
  assumes inv: "ring_inv log s" and j: "j < length log" and c: "cursor reader = of_nat (start_of log j)"
    and lv: "live log j s"
  shows "\<exists>v a. PollZeroCopy reader s = Inr (header_of v (log ! j), a, of_nat (length (m_payload (log ! j))))
           \<and> load_bytes (segment s) a (length (m_payload (log ! j))) = m_payload (log ! j)"
    and "copy_frame b (capacity s) (cursor reader) k [quiet_attempt s (cursor reader)]
       = Some (Got (safe_message (log ! j)) (TotalFrameSize (of_nat (length (m_payload (log ! j))))))"
proof -
  note m = at_message [OF inv j]
  obtain v where v: "v AND 1 = 0"
    "read_header (segment s) (unat (of_nat (start_of log j) mod capacity s)) = header_of v (log ! j)"
    "load_bytes (segment s) (unat (of_nat (start_of log j) mod capacity s) + kFrameHeaderSize)
       (length (m_payload (log ! j))) = m_payload (log ! j)"
    using m(3) [OF lv] by blast
  show "\<exists>v a. PollZeroCopy reader s = Inr (header_of v (log ! j), a, of_nat (length (m_payload (log ! j))))
           \<and> load_bytes (segment s) a (length (m_payload (log ! j))) = m_payload (log ! j)"
    using m(1,2,5) lv v(2,3) by (auto simp: PollZeroCopy_def Let_def c not_le header_of_def)
  show "copy_frame b (capacity s) (cursor reader) k [quiet_attempt s (cursor reader)]
       = Some (Got (safe_message (log ! j)) (TotalFrameSize (of_nat (length (m_payload (log ! j))))))"
    using m(2,4,5) lv v by (simp add: quiet_attempt_def Let_def c header_of_def safe_message_def)
qed

lemma frame_advance:
  assumes "fits cap m" and "unat cap < 2 ^ 32"
  shows "(ucast (TotalFrameSize (of_nat (length (m_payload m)))) :: u64) = of_nat (span m)"
proof -
  have n: "unat (of_nat (length (m_payload m)) :: u32) = length (m_payload m)"
    using assms(1) by (simp add: fits_def unat_of_nat)
  then have "unat (TotalFrameSize (of_nat (length (m_payload m)))) = span m"
    using TotalFrameSize_nat [of "of_nat (length (m_payload m))"] assms by (simp add: fits_def span_def)
  then show ?thesis
    by (metis unat_ucast_u32 of_nat_unat ucast_id)
qed

lemma batch_quiet:
  assumes inv: "ring_inv log s" and cap: "unat (capacity s) < 2 ^ 32"
  shows "j \<le> length log \<Longrightarrow> live log j s \<Longrightarrow>
    batch_loop (\<lambda>n c. [quiet_attempt s c]) (capacity s) (commit_cursor (header s)) k (of_nat (start_of log j)) adv msgs
    = Some (NotFound, msgs @ map safe_message (take (k - length msgs) (drop j log)),
        adv + of_nat (start_of log (min (length log) (j + (k - length msgs))) - start_of log j))"
proof (induction "k - length msgs" arbitrary: j adv msgs)
  case 0
  then show ?case by (simp add: batch_loop.simps)
next
  case (Suc r)
  show ?case
  proof (cases "j = length log")
    case True
    then show ?thesis using at_end [OF inv] by (subst batch_loop.simps) simp
  next
    case False
    with Suc.prems have j: "j < length log" by simp
    let ?m = "log ! j" and ?reader = "\<lparr>cursor = of_nat (start_of log j), slot_index = -1, generation_id = 0\<rparr>"
    have fit: "fits (capacity s) ?m" using inv j by (simp add: ring_inv_def stream_def)
    have got: "copy_frame True (capacity s) (of_nat (start_of log j)) 0 [quiet_attempt s (of_nat (start_of log j))]
        = Some (Got (safe_message ?m) (TotalFrameSize (of_nat (length (m_payload ?m)))))"
      using poll_message(2) [OF inv j, of ?reader True 0] Suc.prems(2) by (simp del: copy_frame.simps)
    have cur: "of_nat (start_of log j) + ucast (TotalFrameSize (of_nat (length (m_payload ?m)))) =
        (of_nat (start_of log (Suc j)) :: u64)"
      using frame_advance [OF fit cap] j by (simp add: start_of_Suc)
    have lv: "live log (Suc j) s" using Suc.prems(2) j by (simp add: live_def start_of_Suc)
    let ?stop = "start_of log (min (length log) (Suc j + r))"
    have mono: "start_of log (Suc j) \<le> ?stop" using j by (intro start_of_mono) simp
    have kr: "k - length (msgs @ [safe_message ?m]) = r" using Suc.hyps(2) by simp
    have "batch_loop (\<lambda>n c. [quiet_attempt s c]) (capacity s) (commit_cursor (header s)) k
        (of_nat (start_of log (Suc j))) (adv + ucast (TotalFrameSize (of_nat (length (m_payload ?m)))))
        (msgs @ [safe_message ?m])
      = Some (NotFound, (msgs @ [safe_message ?m]) @ map safe_message (take r (drop (Suc j) log)),
          adv + ucast (TotalFrameSize (of_nat (length (m_payload ?m)))) + of_nat (?stop - start_of log (Suc j)))"
      using Suc.hyps(1) [OF kr [symmetric] _ lv] j unfolding kr by simp
    moreover have wanted: "j + (k - length msgs) = Suc j + r" "k - length msgs = Suc r"
      and more_wanted: "length msgs < k" using Suc.hyps(2) by simp_all
    moreover have "take (Suc r) (drop j log) = ?m # take r (drop (Suc j) log)"
      using j by (simp add: Cons_nth_drop_Suc [symmetric])
    moreover have "ucast (TotalFrameSize (of_nat (length (m_payload ?m)))) + of_nat (?stop - start_of log (Suc j))
        = (of_nat (?stop - start_of log j) :: u64)"
    proof -
      have "span ?m + (?stop - start_of log (Suc j)) = ?stop - start_of log j"
        using mono j by (simp add: start_of_Suc)
      then show ?thesis by (metis frame_advance [OF fit cap] of_nat_add)
    qed
    ultimately show ?thesis
      using at_message(1) [OF inv j] got more_wanted
      unfolding wanted by (subst batch_loop.simps) (simp add: cur add.assoc del: copy_frame.simps)
  qed
qed

section \<open>Backpressure\<close>

lemma scan_min:
  "scan_readers now timeout m0 rs = (rs', m) \<Longrightarrow> m \<le> m0
    \<and> (\<forall>r \<in> set rs'. active r \<longrightarrow> m \<le> slot_cursor r \<and> r \<in> set rs \<and> \<not> timeout <s now - heartbeat_ts r)
    \<and> length rs' = length rs
    \<and> (\<forall>i < length rs. active (rs ! i) \<longrightarrow> \<not> active (rs' ! i) \<longrightarrow> timeout <s now - heartbeat_ts (rs ! i))"
proof (induction rs arbitrary: m0 rs' m)
  case (Cons r rs)
  define m1 where "m1 = (if \<not> active r \<or> timeout <s now - heartbeat_ts r then m0
      else if slot_cursor r < m0 then slot_cursor r else m0)"
  obtain q where q: "scan_readers now timeout m1 rs = (q, m)"
    "rs' = (if active r \<and> timeout <s now - heartbeat_ts r then r\<lparr>active := False\<rparr> else r) # q"
    using Cons.prems by (auto simp: m1_def Let_def split: if_splits prod.splits)
  have m1: "m1 \<le> m0" "active r \<Longrightarrow> \<not> timeout <s now - heartbeat_ts r \<Longrightarrow> m1 \<le> slot_cursor r"
    by (auto simp: m1_def)
  from Cons.IH [OF q(1)] m1 show ?case
    by (auto simp: q(2) nth_Cons split: nat.splits intro: order_trans)
qed simp

lemma scan_same:
  "scan_readers now timeout m0 rs = (rs', m) \<Longrightarrow> i < length rs \<Longrightarrow> active (rs' ! i) \<Longrightarrow> rs' ! i = rs ! i"
proof (induction rs arbitrary: m0 rs' m i)
  case (Cons r rs)
  then show ?case by (cases i) (auto simp: Let_def split: if_splits prod.splits)
qed simp

lemma wait_result:
  "wait_for_readers cap timeout target its = Some (rs', m) \<Longrightarrow>
    target - m \<le> cap \<and> (\<exists>(now, roster) \<in> set its. scan_readers now timeout target roster = (rs', m))"
  by (induction its) (auto simp: Let_def split: prod.splits if_splits)

lemma wait_blocks:
  assumes "\<forall>(now, roster) \<in> set its. \<exists>r \<in> set roster. active r \<and> \<not> timeout <s now - heartbeat_ts r
      \<and> slot_cursor r \<le> target \<and> target - slot_cursor r > cap"
  shows "wait_for_readers cap timeout target its = None"
  using assms
proof (induction its)
  case (Cons it its)
  obtain now roster where it: "it = (now, roster)" by (cases it)
  obtain rs' m where sc: "scan_readers now timeout target roster = (rs', m)" by fastforce
  from Cons.prems it obtain r where r: "r \<in> set roster" "active r" "\<not> timeout <s now - heartbeat_ts r"
    "slot_cursor r \<le> target" "target - slot_cursor r > cap" by auto
  have "m \<le> slot_cursor r"
  proof -
    from r(1) obtain i where i: "i < length roster" "roster ! i = r" by (auto simp: in_set_conv_nth)
    note s = scan_min [OF sc]
    with i r(2,3) have a: "active (rs' ! i)" by blast
    show ?thesis using scan_same [OF sc i(1)] i a s by (metis nth_mem)
  qed
  then have "target - slot_cursor r \<le> target - m" using r(4) by (simp add: word_le_nat_alt unat_sub)
  then show ?case using Cons it sc r(5) by simp
qed simp

section \<open>Properties\<close>

lemma Create_inv: "cap \<noteq> 0 \<Longrightarrow> ring_inv [] (Create cap timeout)"
  by (simp add: ring_inv_def stream_def Create_def BroadcastRingBuffer_def new_header_def start_of_def)

lemma publish_total:
  assumes "is_producer s" and "fits (capacity s) m"
    and "producer_cursor (header s) + required_space (of_nat (length (m_payload m))) - cached_min_cursor s \<le> capacity s"
  shows "\<exists>s'. publish m its s = Some s'"
proof -
  have n: "unat (of_nat (length (m_payload m)) :: u32) = length (m_payload m)"
    using assms(2) by (simp add: fits_def unat_of_nat)
  have "required_space (of_nat (length (m_payload m))) \<le> capacity s"
    using required_space_nat [of "of_nat (length (m_payload m))"] n assms(2)
    by (simp add: fits_def span_def word_le_nat_alt)
  then show ?thesis using assms(1,3)
    by (auto simp: publish_def Reserve_def Let_def not_less split: option.splits)
qed

text \<open>
  C1. Publishing (\<open>Reserve\<close>, filling the payload, \<open>Commit\<close>) on a ring that carries the stream
  \<open>log\<close> appends exactly one message to the stream: the new frame is complete with an even version,
  and every earlier message that starts within one capacity of the new producer cursor is still
  intact, byte for byte, across the mirror. A fresh ring carries the empty stream; a ring not opened
  for writing, or a frame larger than the ring, is refused and nothing changes.
\<close>

theorem Ring_publish:
  assumes "ring_inv log s" and "publish m its s = Some s'" and "length (m_payload m) + 7 < 2 ^ 32"
    and "start_of log (length log) + span m < 2 ^ 64" and "cap \<noteq> 0"
  shows "ring_inv (log @ [m]) s' \<and> ring_inv [] (Create cap timeout)
    \<and> Reserve n ty its ts (s\<lparr>is_producer := False\<rparr>) = Some (Inl PermissionDenied, s\<lparr>is_producer := False\<rparr>)
    \<and> (capacity s < required_space n \<longrightarrow> Reserve n ty its ts (s\<lparr>is_producer := True\<rparr>)
        = Some (Inl InvalidArgument, s\<lparr>is_producer := True\<rparr>))"
  using publish_inv [OF assms(1-4)] Create_inv [OF assms(5)] by (simp add: Reserve_def)

definition demo_message :: message where
  "demo_message = \<lparr>m_type = 7, m_timestamp = 99, m_payload = [1, 2, 3]\<rparr>"

lemma demo_publish: "\<exists>s'. publish demo_message its (Create 64 0) = Some s'"
  by (rule publish_total) (simp_all add: Create_def BroadcastRingBuffer_def new_header_def fits_def span_def
      kFrameHeaderSize_def demo_message_def required_space_def word_le_nat_alt)

lemma demo_room: "length (m_payload demo_message) + 7 < 2 ^ 32"
    "start_of [] (length []) + span demo_message < 2 ^ 64"
  by (simp_all add: demo_message_def start_of_def span_def kFrameHeaderSize_def)

theorem Ring_publish_witness:
  "\<exists>s'. publish demo_message [] (Create 64 0) = Some s' \<and> ring_inv [demo_message] s'"
proof -
  obtain s' where s': "publish demo_message [] (Create 64 0) = Some s'" using demo_publish by blast
  have "(64 :: u64) \<noteq> 0" by simp
  from Ring_publish [OF Create_inv [OF this] s' demo_room this] s' show ?thesis by auto
qed

text \<open>
  C2. A reader at message \<open>j\<close> of the stream gets that message: \<open>PollZeroCopy\<close> returns its header and
  the place of its payload, an undisturbed \<open>PollCopy\<close> its type, timestamp and payload. If the producer
  has gone more than a capacity past it, both report \<open>ResourceExhausted\<close>; at the end of the stream
  both report \<open>NotFound\<close>.
\<close>

theorem Ring_poll:
  assumes "ring_inv log s" and "j < length log" and "cursor reader = of_nat (start_of log j)"
    and "cursor idle = of_nat (start_of log (length log))"
  shows "(live log j s \<longrightarrow>
      (\<exists>v a. PollZeroCopy reader s = Inr (header_of v (log ! j), a, of_nat (length (m_payload (log ! j))))
         \<and> load_bytes (segment s) a (length (m_payload (log ! j))) = m_payload (log ! j))
      \<and> PollCopy [quiet_attempt s (cursor reader)] reader s = Some (Inr (safe_message (log ! j))))
    \<and> (\<not> live log j s \<longrightarrow> PollZeroCopy reader s = Inl ResourceExhausted
      \<and> PollCopy [quiet_attempt s (cursor reader)] reader s = Some (Inl ResourceExhausted))
    \<and> PollZeroCopy idle s = Inl NotFound \<and> PollCopy as idle s = Some (Inl NotFound)"
proof (intro conjI impI)
  note m = at_message [OF assms(1,2)]
  assume "live log j s"
  note p = poll_message [OF assms(1-3) this]
  then show "\<exists>v a. PollZeroCopy reader s = Inr (header_of v (log ! j), a, of_nat (length (m_payload (log ! j))))
         \<and> load_bytes (segment s) a (length (m_payload (log ! j))) = m_payload (log ! j)" by blast
  show "PollCopy [quiet_attempt s (cursor reader)] reader s = Some (Inr (safe_message (log ! j)))"
    using m(1) p(2) [of False 0] by (simp add: PollCopy_def Let_def assms(3) not_le del: copy_frame.simps)
next
  note m = at_message(1,2) [OF assms(1,2)]
  assume "\<not> live log j s"
  then show "PollZeroCopy reader s = Inl ResourceExhausted"
    and "PollCopy [quiet_attempt s (cursor reader)] reader s = Some (Inl ResourceExhausted)"
    using m by (simp_all add: PollZeroCopy_def PollCopy_def assms(3) not_le quiet_attempt_def Let_def)
qed (use at_end [OF assms(1)] assms(4) in \<open>simp_all add: PollZeroCopy_def PollCopy_def Let_def not_less\<close>)

theorem Ring_poll_witness:
  "\<exists>s'. publish demo_message [] (Create 64 0) = Some s'
     \<and> PollCopy [quiet_attempt s' 0] (new_reader 0) s' = Some (Inr (safe_message demo_message))"
proof -
  obtain s' where s': "publish demo_message [] (Create 64 0) = Some s'" using demo_publish by blast
  have inv: "ring_inv [demo_message] s'"
    using publish_inv [OF Create_inv s' demo_room] by simp
  have "capacity s' = 64"
    using publish_segment(4) [OF s', of 0]
    by (simp add: Create_def BroadcastRingBuffer_def new_header_def)
  then have "live [demo_message] 0 s'"
    by (simp add: live_def start_of_def span_def demo_message_def kFrameHeaderSize_def)
  moreover have start: "start_of [demo_message] 0 = 0" by (simp add: start_of_def)
  ultimately show ?thesis
    using Ring_poll [OF inv, of 0 "new_reader 0" "new_reader (of_nat (start_of [demo_message] (length [demo_message])))"]
      s' by (simp add: new_reader_def)
qed

section \<open>Round trip\<close>

primrec publish_all :: "message list \<Rightarrow> ring_buffer \<Rightarrow> ring_buffer option" where
  "publish_all [] s = Some s"
| "publish_all (m # ms) s = (case publish m [] s of None \<Rightarrow> None | Some s \<Rightarrow> publish_all ms s)"

lemma publish_keeps_min:
  assumes "publish m [] s = Some s'"
    and "producer_cursor (header s) + required_space (of_nat (length (m_payload m))) - cached_min_cursor s \<le> capacity s"
  shows "cached_min_cursor s' = cached_min_cursor s"
  using assms by (auto simp: publish_def Reserve_def Commit_def write_payload_def Let_def not_less
      split: if_splits option.splits sum.splits)

lemma fits_of_span: "span m \<le> unat cap \<Longrightarrow> unat cap < 2 ^ 32 \<Longrightarrow> fits cap m"
  by (auto simp: fits_def span_def kFrameHeaderSize_def)

lemma publish_all_stream:
  assumes "ring_inv log s" and "is_producer s" and "cached_min_cursor s = 0" and "unat (capacity s) < 2 ^ 32"
    and "sum_list (map span (log @ ms)) \<le> unat (capacity s)"
  shows "\<exists>s'. publish_all ms s = Some s' \<and> ring_inv (log @ ms) s' \<and> capacity s' = capacity s"
  using assms
proof (induction ms arbitrary: log s)
  case (Cons m ms)
  let ?e = "start_of log (length log)" and ?n = "of_nat (length (m_payload m)) :: u32"
  have e: "?e = sum_list (map span log)" by (simp add: start_of_def)
  have st: "producer_cursor (header s) = of_nat ?e" "?e < 2 ^ 64" "length (segment s) = unat (capacity s)"
    using Cons.prems(1) by (simp_all add: ring_inv_def stream_def)
  have fit: "fits (capacity s) m" using Cons.prems(4,5) by (intro fits_of_span) simp_all
  have n: "unat ?n = length (m_payload m)" using fit by (simp add: fits_def unat_of_nat)
  have r: "unat (required_space ?n) = span m" using required_space_nat [of ?n] n fit by (simp add: fits_def span_def)
  have room: "?e + span m \<le> unat (capacity s)" using Cons.prems(5) e by simp
  have "unat (of_nat ?e + required_space ?n) = ?e + span m"
    using room r Cons.prems(4) by (subst unat_add_u64) (simp_all add: unat_of_nat)
  then have free: "producer_cursor (header s) + required_space ?n - cached_min_cursor s \<le> capacity s"
    using room by (simp add: st(1) Cons.prems(3) word_le_nat_alt)
  obtain s1 where p: "publish m [] s = Some s1" using publish_total [OF Cons.prems(2) fit free] by blast
  note seg = publish_segment [OF p st]
  have "ring_inv (log @ [m]) s1"
    using publish_inv [OF Cons.prems(1) p] fit room Cons.prems(4) by (simp add: fits_def)
  moreover have "is_producer s1" "cached_min_cursor s1 = 0" "capacity s1 = capacity s"
    using seg(4,6) Cons.prems(2,3) publish_keeps_min [OF p free] by simp_all
  ultimately show ?case using Cons.IH [of "log @ [m]" s1] Cons.prems(4,5) p by simp
qed simp

text \<open>
  C3. What is written is what is read. On a fresh ring below 4 GB the producer can publish any messages whose frames fit
  the ring together, of any types, timestamps and payloads, empty ones included, and without a
  wait; a reader that starts at the beginning then gets them back in one undisturbed \<open>PollCopyBatch\<close>, all,
  in order and unchanged, and finds the ring empty afterwards.
\<close>

theorem Ring_roundtrip:
  assumes "cap \<noteq> 0" and "unat cap < 2 ^ 32" and "sum_list (map span ms) \<le> unat cap" and "ms \<noteq> []" and "length ms \<le> k"
  shows "\<exists>s reader. publish_all ms (Create cap timeout) = Some s
    \<and> PollCopyBatch (\<lambda>n c. [quiet_attempt s c]) now k (new_reader 0) s = Some (Inr (map safe_message ms), reader, s)
    \<and> PollCopy [] reader s = Some (Inl NotFound)"
proof -
  have "capacity (Create cap timeout) = cap" "is_producer (Create cap timeout)" "cached_min_cursor (Create cap timeout) = 0"
    by (simp_all add: Create_def BroadcastRingBuffer_def new_header_def)
  then obtain s where s: "publish_all ms (Create cap timeout) = Some s" "ring_inv ms s" "capacity s = cap"
    using publish_all_stream [OF Create_inv [OF assms(1)], of timeout ms] assms(2,3) by auto
  let ?e = "start_of ms (length ms)"
  have live: "live ms 0 s" using assms(3) s(3) by (simp add: live_def start_of_def)
  have start: "start_of ms 0 = 0" by (simp add: start_of_def)
  have "0 < commit_cursor (header s)" using at_message(1) [OF s(2), of 0] assms(4) start by simp
  moreover have "batch_loop (\<lambda>n c. [quiet_attempt s c]) (capacity s) (commit_cursor (header s)) k 0 0 []
      = Some (NotFound, map safe_message ms, of_nat ?e)"
    using batch_quiet [OF s(2) _ _ live, of k 0 "[]"] assms(2,5) s(3) by (simp add: start min_absorb1)
  ultimately have "PollCopyBatch (\<lambda>n c. [quiet_attempt s c]) now k (new_reader 0) s
      = Some (Inr (map safe_message ms), new_reader (of_nat ?e), s)"
    using assms(4) by (simp add: PollCopyBatch_def new_reader_def Advance_def Let_def not_le)
  moreover have "PollCopy [] (new_reader (of_nat ?e)) s = Some (Inl NotFound)"
    using at_end [OF s(2)] by (simp add: PollCopy_def new_reader_def Let_def not_less)
  ultimately show ?thesis using s(1) by blast
qed

theorem Ring_roundtrip_witness:
  "\<exists>s reader. publish_all [demo_message, demo_message] (Create 64 0) = Some s
     \<and> PollCopyBatch (\<lambda>n c. [quiet_attempt s c]) 5 2 (new_reader 0) s
       = Some (Inr [safe_message demo_message, safe_message demo_message], reader, s)"
  using Ring_roundtrip [of 64 "[demo_message, demo_message]" 2 0 5]
  by (auto simp: span_def demo_message_def kFrameHeaderSize_def)



text \<open>
  The rosters the producer may find: every active reader is between the cached minimum and the
  producer. \<open>Advance\<close> keeps this, and so does a reader that registers at or after the minimum.
\<close>

definition roster_ok :: "u64 \<Rightarrow> u64 \<Rightarrow> ReaderSlot list \<Rightarrow> bool" where
  "roster_ok lo hi rs \<longleftrightarrow> (\<forall>r \<in> set rs. active r \<longrightarrow> lo \<le> slot_cursor r \<and> slot_cursor r \<le> hi)"

lemma word_diff_mono: "(a :: u64) \<le> b \<Longrightarrow> b \<le> t \<Longrightarrow> t - b \<le> t - a"
  by (simp add: word_le_nat_alt unat_sub)


text \<open>A full ring of 64 bytes with one fresh reader at its beginning.\<close>

definition full_ring :: ring_buffer where
  "full_ring = (Create 64 1000)\<lparr>header := \<lparr>producer_cursor = 64, commit_cursor = 64, buffer_capacity = 64,
     readers = [\<lparr>active = True, slot_cursor = 0, heartbeat_ts = 10, slot_pid = 1, slot_generation = 1\<rparr>]\<rparr>\<rparr>"


section \<open>The reader roster\<close>

lemma claim_slot_spec:
  "(claim_slot rs = Some i \<longrightarrow> i < length rs \<and> \<not> active (rs ! i) \<and> (\<forall>k < i. active (rs ! k)))
   \<and> (claim_slot rs = None \<longleftrightarrow> (\<forall>r \<in> set rs. active r))"
proof (induction rs arbitrary: i)
  case (Cons r rs)
  then show ?case by (auto simp: nth_Cons less_Suc_eq_0_disj split: nat.splits)
qed simp

text \<open>
  C6. The roster. \<open>RegisterReader\<close> takes the first inactive slot and only that slot, with a new
  generation and the reader's cursor, and fails exactly when the reader is registered already or all
  slots are active. An \<open>Advance\<close> by the slot's owner publishes cursor and heartbeat there; an
  \<open>Advance\<close> by a reader whose slot has meanwhile got another generation leaves shared memory alone
  and unbinds the reader.
\<close>

theorem Ring_roster:
  shows "(case RegisterReader now pid reader s of
       (None, r', s') \<Rightarrow> slot_index reader = -1
         \<and> (\<exists>i < length (readers (header s)). slot_index r' = int i \<and> \<not> active (readers (header s) ! i)
             \<and> (\<forall>k < i. active (readers (header s) ! k))
             \<and> generation_id r' = slot_generation (readers (header s) ! i) + 1
             \<and> generation_id r' = slot_generation (readers (header s') ! i)
             \<and> readers (header s') = (readers (header s))[i := readers (header s') ! i]
             \<and> active (readers (header s') ! i) \<and> slot_cursor (readers (header s') ! i) = cursor reader
             \<and> snd (Advance now2 n r' s') = s'\<lparr>header := (header s')\<lparr>readers := (readers (header s'))
                  [i := (readers (header s') ! i)\<lparr>slot_cursor := cursor reader + n, heartbeat_ts := now2\<rparr>]\<rparr>\<rparr>)
     | (Some e, r', s') \<Rightarrow> r' = reader \<and> s' = s
         \<and> (if slot_index reader \<noteq> -1 then e = AlreadyExists
             else e = ResourceExhausted \<and> (\<forall>r \<in> set (readers (header s)). active r)))
   \<and> (0 \<le> slot_index reader \<and> slot_generation (readers (header s) ! nat (slot_index reader)) \<noteq> generation_id reader
      \<longrightarrow> Advance now n reader s = (reader\<lparr>cursor := cursor reader + n, slot_index := -1\<rparr>, s))"
proof
  show "case RegisterReader now pid reader s of
       (None, r', s') \<Rightarrow> slot_index reader = -1
         \<and> (\<exists>i < length (readers (header s)). slot_index r' = int i \<and> \<not> active (readers (header s) ! i)
             \<and> (\<forall>k < i. active (readers (header s) ! k))
             \<and> generation_id r' = slot_generation (readers (header s) ! i) + 1
             \<and> generation_id r' = slot_generation (readers (header s') ! i)
             \<and> readers (header s') = (readers (header s))[i := readers (header s') ! i]
             \<and> active (readers (header s') ! i) \<and> slot_cursor (readers (header s') ! i) = cursor reader
             \<and> snd (Advance now2 n r' s') = s'\<lparr>header := (header s')\<lparr>readers := (readers (header s'))
                  [i := (readers (header s') ! i)\<lparr>slot_cursor := cursor reader + n, heartbeat_ts := now2\<rparr>]\<rparr>\<rparr>)
     | (Some e, r', s') \<Rightarrow> r' = reader \<and> s' = s
         \<and> (if slot_index reader \<noteq> -1 then e = AlreadyExists
             else e = ResourceExhausted \<and> (\<forall>r \<in> set (readers (header s)). active r))"
  proof (cases "slot_index reader \<noteq> -1")
    case True
    then show ?thesis by (simp add: RegisterReader_def)
  next
    case False
    show ?thesis
    proof (cases "claim_slot (readers (header s))")
      case None
      then show ?thesis using False claim_slot_spec [of "readers (header s)"] by (simp add: RegisterReader_def)
    next
      case (Some i)
      then have "i < length (readers (header s)) \<and> \<not> active (readers (header s) ! i)
          \<and> (\<forall>k < i. active (readers (header s) ! k))"
        using claim_slot_spec [of "readers (header s)" i] by blast
      then show ?thesis using False Some by (auto simp: RegisterReader_def Let_def Advance_def)
    qed
  qed
qed (auto simp: Advance_def Let_def)

theorem Ring_roster_witness:
  "Advance 0 8 \<lparr>cursor = 0, slot_index = 0, generation_id = 9\<rparr> full_ring
   = (\<lparr>cursor = 8, slot_index = -1, generation_id = 9\<rparr>, full_ring)"
  using Ring_roster [where reader = "\<lparr>cursor = 0, slot_index = 0, generation_id = 9\<rparr>" and s = full_ring
      and now = 0 and n = 8]
  by (simp add: full_ring_def Create_def BroadcastRingBuffer_def)

section \<open>Edges of the code\<close>

text \<open>
  \<open>payload_size + 7\<close> is computed in 32 bits: a payload size within 7 of \<open>2\<^sup>3\<^sup>2\<close> is taken for an
  empty payload, passes the capacity check and gets a 24-byte frame.
\<close>

lemma required_space_wraps: "required_space 0xFFFFFFFF = 24" and "required_space 0xFFFFFFF9 = 24"
  by (simp_all add: required_space_def kFrameHeaderSize_def)

text \<open>
  \<open>UnregisterReader\<close> does not compare generations: a reader that was evicted and whose slot another
  reader has taken since deactivates the new owner.
\<close>

lemma UnregisterReader_ignores_generation:
  assumes "0 \<le> slot_index reader" and "slot_index reader < 16" and "length (readers (header s)) = 16"
  shows "\<not> active (readers (header (snd (UnregisterReader reader s))) ! nat (slot_index reader))"
  using assms by (simp add: UnregisterReader_def Let_def kMaxReaders_def)

text \<open>
  A scan that meets no active reader caches the new producer cursor itself as the minimum. A reader
  that registers afterwards at an older cursor is below the cached minimum, and the next \<open>Reserve\<close>
  does not look at it.
\<close>

lemma empty_roster_minimum:
  "\<forall>r \<in> set rs. \<not> active r \<Longrightarrow> scan_readers now timeout target rs = (rs, target)"
  by (induction rs) auto

end
