(* ===== verification/MemMap.thy ===== *)
theory MemMap
  imports Ring
begin

text \<open>
  \<open>MemoryMap\<close> of \<open>memory_map.cc\<close> on a model of the process's resources: open descriptors, the
  page table and the names in the shared-memory file system. The answers of the system calls are a
  parameter; what a successful call does to the resources is its documented effect.
\<close>

section \<open>The operating system\<close>

datatype errno = ENOENT | EEXIST | EACCES | EPERM | ENOMEM | EINVAL | OTHER

text \<open>
  \<open>page a\<close> says what address \<open>a\<close> of the process shows: a byte of a shared-memory file, reserved space
  (\<open>Reserved\<close>) or nothing.
\<close>

datatype page = Unmapped | Reserved | FileByte nat nat

record os =
  fds :: "nat list"
  page :: "nat \<Rightarrow> page"
  names :: "string list"
  the_errno :: errno

text \<open>
  What the kernel answers, given the state: a descriptor or an error for \<open>shm_open\<close> (with the name and
  whether it creates), an error or none for \<open>ftruncate\<close>, an address or an error for \<open>mmap\<close> of a
  length (\<open>fixed\<close> with its address for \<open>MAP_FIXED\<close>), an error or none for \<open>shm_unlink\<close>.
\<close>

record kernel =
  k_page_size :: u64
  k_shm_open :: "os \<Rightarrow> string \<Rightarrow> bool \<Rightarrow> errno + nat"
  k_ftruncate :: "os \<Rightarrow> nat \<Rightarrow> u64 \<Rightarrow> errno option"
  k_mmap :: "os \<Rightarrow> nat option \<Rightarrow> u64 \<Rightarrow> errno + nat"
  k_shm_unlink :: "os \<Rightarrow> string \<Rightarrow> errno option"

definition map_range :: "nat \<Rightarrow> u64 \<Rightarrow> (nat \<Rightarrow> page) \<Rightarrow> os \<Rightarrow> os" where
  "map_range a len f w = w\<lparr>page := (\<lambda>x. if a \<le> x \<and> x < a + unat len then f (x - a) else page w x)\<rparr>"

definition sys_shm_open :: "kernel \<Rightarrow> string \<Rightarrow> bool \<Rightarrow> os \<Rightarrow> nat option \<times> os" where
  "sys_shm_open k name create w =
     (case k_shm_open k w name create of
        Inl e \<Rightarrow> (None, w\<lparr>the_errno := e\<rparr>)
      | Inr fd \<Rightarrow> (Some fd, w\<lparr>fds := fd # fds w, names := (if create then name # names w else names w)\<rparr>))"

definition sys_close :: "nat \<Rightarrow> os \<Rightarrow> os" where
  "sys_close fd w = w\<lparr>fds := remove1 fd (fds w)\<rparr>"

definition sys_ftruncate :: "kernel \<Rightarrow> nat \<Rightarrow> u64 \<Rightarrow> os \<Rightarrow> bool \<times> os" where
  "sys_ftruncate k fd len w =
     (case k_ftruncate k w fd len of None \<Rightarrow> (True, w) | Some e \<Rightarrow> (False, w\<lparr>the_errno := e\<rparr>))"

definition sys_mmap :: "kernel \<Rightarrow> nat option \<Rightarrow> u64 \<Rightarrow> (nat \<Rightarrow> page) \<Rightarrow> os \<Rightarrow> nat option \<times> os" where
  "sys_mmap k fixed len f w =
     (case k_mmap k w fixed len of
        Inl e \<Rightarrow> (None, w\<lparr>the_errno := e\<rparr>)
      | Inr a \<Rightarrow> (Some a, map_range a len f w))"

definition sys_munmap :: "nat \<Rightarrow> u64 \<Rightarrow> os \<Rightarrow> os" where
  "sys_munmap a len w = map_range a len (\<lambda>_. Unmapped) w"

definition sys_shm_unlink :: "kernel \<Rightarrow> string \<Rightarrow> os \<Rightarrow> bool \<times> os" where
  "sys_shm_unlink k name w =
     (case k_shm_unlink k w name of
        None \<Rightarrow> (True, w\<lparr>names := remove1 name (names w)\<rparr>)
      | Some e \<Rightarrow> (False, w\<lparr>the_errno := e\<rparr>))"

section \<open>MemoryMap\<close>

fun ErrnoToStatus :: "errno \<Rightarrow> status" where
  "ErrnoToStatus ENOENT = NotFound"
| "ErrnoToStatus EEXIST = AlreadyExists"
| "ErrnoToStatus EACCES = PermissionDenied"
| "ErrnoToStatus EPERM = PermissionDenied"
| "ErrnoToStatus ENOMEM = ResourceExhausted"
| "ErrnoToStatus EINVAL = InvalidArgument"
| "ErrnoToStatus OTHER = Internal"

text \<open>The object; \<open>map_fd = None\<close> is \<open>fd_ == -1\<close> and \<open>map_addr = None\<close> is \<open>nullptr\<close>.\<close>

record MemoryMap =
  map_name :: string
  map_fd :: "nat option"
  map_addr :: "nat option"
  map_size :: u64
  is_mirrored :: bool

definition mapped_length :: "MemoryMap \<Rightarrow> u64" where
  "mapped_length m = (if is_mirrored m then 2 * map_size m else map_size m)"

definition destroy :: "MemoryMap \<Rightarrow> os \<Rightarrow> os" where
  "destroy m w =
     (let w = (case map_addr m of None \<Rightarrow> w | Some a \<Rightarrow> sys_munmap a (mapped_length m) w)
      in case map_fd m of None \<Rightarrow> w | Some fd \<Rightarrow> sys_close fd w)"

definition move_construct :: "MemoryMap \<Rightarrow> MemoryMap \<times> MemoryMap" where
  "move_construct other =
     (other, other\<lparr>map_name := [], map_fd := None, map_addr := None, map_size := 0, is_mirrored := False\<rparr>)"

text \<open>\<open>same\<close> says that both sides are one object; then nothing happens.\<close>

definition move_assign :: "bool \<Rightarrow> MemoryMap \<Rightarrow> MemoryMap \<Rightarrow> os \<Rightarrow> MemoryMap \<times> MemoryMap \<times> os" where
  "move_assign same this other w =
     (if same then (this, other, w)
      else (other, other\<lparr>map_name := [], map_fd := None, map_addr := None, map_size := 0, is_mirrored := False\<rparr>,
            destroy this w))"

definition DoMap :: "kernel \<Rightarrow> nat \<Rightarrow> u64 \<Rightarrow> bool \<Rightarrow> os \<Rightarrow> (status + nat) \<times> os" where
  "DoMap k fd len use_magic_mirror w =
     (if \<not> use_magic_mirror
      then case sys_mmap k None len (\<lambda>i. FileByte fd i) w of
             (None, w) \<Rightarrow> (Inl (ErrnoToStatus (the_errno w)), w)
           | (Some a, w) \<Rightarrow> (Inr a, w)
      else
        let total_size = 2 * len
        in case sys_mmap k None total_size (\<lambda>_. Reserved) w of
             (None, w) \<Rightarrow> (Inl (ErrnoToStatus (the_errno w)), w)
           | (Some base, w) \<Rightarrow>
               (case sys_mmap k (Some base) len (\<lambda>i. FileByte fd i) w of
                  (None, w) \<Rightarrow> (let w = sys_munmap base total_size w in (Inl (ErrnoToStatus (the_errno w)), w))
                | (Some _, w) \<Rightarrow>
                    (case sys_mmap k (Some (base + unat len)) len (\<lambda>i. FileByte fd i) w of
                       (None, w) \<Rightarrow> (let w = sys_munmap base total_size w in (Inl (ErrnoToStatus (the_errno w)), w))
                     | (Some _, w) \<Rightarrow> (Inr base, w))))"

definition map_Create :: "kernel \<Rightarrow> string \<Rightarrow> u64 \<Rightarrow> bool \<Rightarrow> os \<Rightarrow> (status + MemoryMap) \<times> os" where
  "map_Create k name len use_magic_mirror w =
     (if use_magic_mirror \<and> len mod k_page_size k \<noteq> 0 then (Inl InvalidArgument, w)
      else case sys_shm_open k name True w of
        (None, w) \<Rightarrow> (Inl (ErrnoToStatus (the_errno w)), w)
      | (Some fd, w) \<Rightarrow>
          (case sys_ftruncate k fd len w of
             (False, w) \<Rightarrow>
               (let w = sys_close fd w; w = snd (sys_shm_unlink k name w)
                in (Inl (ErrnoToStatus (the_errno w)), w))
           | (True, w) \<Rightarrow>
               (case DoMap k fd len use_magic_mirror w of
                  (Inl e, w) \<Rightarrow> (let w = sys_close fd w in (Inl e, snd (sys_shm_unlink k name w)))
                | (Inr a, w) \<Rightarrow>
                    (Inr \<lparr>map_name = name, map_fd = Some fd, map_addr = Some a, map_size = len,
                          is_mirrored = use_magic_mirror\<rparr>, w))))"

text \<open>\<open>readonly\<close> only selects access rights, which the model does not track.\<close>

definition map_Open :: "kernel \<Rightarrow> string \<Rightarrow> u64 \<Rightarrow> bool \<Rightarrow> bool \<Rightarrow> os \<Rightarrow> (status + MemoryMap) \<times> os" where
  "map_Open k name len readonly use_magic_mirror w =
     (if use_magic_mirror \<and> len mod k_page_size k \<noteq> 0 then (Inl InvalidArgument, w)
      else case sys_shm_open k name False w of
        (None, w) \<Rightarrow> (Inl (ErrnoToStatus (the_errno w)), w)
      | (Some fd, w) \<Rightarrow>
          (case DoMap k fd len use_magic_mirror w of
             (Inl e, w) \<Rightarrow> (Inl e, sys_close fd w)
           | (Inr a, w) \<Rightarrow>
               (Inr \<lparr>map_name = name, map_fd = Some fd, map_addr = Some a, map_size = len,
                     is_mirrored = use_magic_mirror\<rparr>, w)))"

definition CreateOrOpen :: "kernel \<Rightarrow> string \<Rightarrow> u64 \<Rightarrow> bool \<Rightarrow> os \<Rightarrow> (status + MemoryMap) \<times> os" where
  "CreateOrOpen k name len use_magic_mirror w =
     (case map_Create k name len use_magic_mirror w of
        (Inr m, w) \<Rightarrow> (Inr m, w)
      | (Inl e, w) \<Rightarrow>
          (if e = AlreadyExists then map_Open k name len False use_magic_mirror w else (Inl e, w)))"

definition map_Unlink :: "kernel \<Rightarrow> string \<Rightarrow> os \<Rightarrow> status option \<times> os" where
  "map_Unlink k name w =
     (case sys_shm_unlink k name w of
        (True, w) \<Rightarrow> (None, w)
      | (False, w) \<Rightarrow> (Some (ErrnoToStatus (the_errno w)), w))"

section \<open>What the kernel documents\<close>

text \<open>
  \<open>shm_open\<close> gives a descriptor that is not open; \<open>mmap\<close> without \<open>MAP_FIXED\<close> gives space where
  nothing is mapped; \<open>mmap\<close> with \<open>MAP_FIXED\<close> gives the address asked for.
\<close>

definition kernel_ok :: "kernel \<Rightarrow> bool" where
  "kernel_ok k \<longleftrightarrow>
     (\<forall>w name c fd. k_shm_open k w name c = Inr fd \<longrightarrow> fd \<notin> set (fds w))
   \<and> (\<forall>w len a. k_mmap k w None len = Inr a \<longrightarrow> (\<forall>i < unat len. page w (a + i) = Unmapped))
   \<and> (\<forall>w b len a. k_mmap k w (Some b) len = Inr a \<longrightarrow> a = b)"

lemma kernel_okD:
  assumes "kernel_ok k"
  shows "k_shm_open k w name c = Inr fd \<Longrightarrow> fd \<notin> set (fds w)"
    and "k_mmap k w None len = Inr a \<Longrightarrow> i < unat len \<Longrightarrow> page w (a + i) = Unmapped"
    and "k_mmap k w (Some b) len = Inr a' \<Longrightarrow> a' = b"
  using assms unfolding kernel_ok_def by blast+

text \<open>The mapping as the ring buffer needs it: both halves show the file.\<close>

definition shows_file :: "nat \<Rightarrow> nat \<Rightarrow> u64 \<Rightarrow> bool \<Rightarrow> (nat \<Rightarrow> page) \<Rightarrow> os \<Rightarrow> bool" where
  "shows_file fd a len mirror before w \<longleftrightarrow>
     (\<forall>x. page w x = (if a \<le> x \<and> x < a + unat len then FileByte fd (x - a)
        else if mirror \<and> a + unat len \<le> x \<and> x < a + 2 * unat len then FileByte fd (x - a - unat len)
        else before x))"

section \<open>Mapping\<close>

lemmas sys_defs = sys_mmap_def sys_munmap_def map_range_def sys_close_def sys_shm_open_def sys_ftruncate_def
  sys_shm_unlink_def

lemma unat_double: "unat len < 2 ^ 63 \<Longrightarrow> unat (2 * len :: u64) = 2 * unat len"
proof -
  assume "unat len < 2 ^ 63"
  then have "unat (len + len) = unat len + unat len" by (intro unat_add_u64) simp
  then show ?thesis unfolding mult_2 .
qed

lemma DoMap_mirrored_ok:
  assumes ok: "DoMap k fd len True w = (Inr a, w')"
  shows "\<exists>b c. k_mmap k w None (2 * len) = Inr a
    \<and> k_mmap k (map_range a (2 * len) (\<lambda>_. Reserved) w) (Some a) len = Inr b
    \<and> w' = map_range c len (\<lambda>i. FileByte fd i)
             (map_range b len (\<lambda>i. FileByte fd i) (map_range a (2 * len) (\<lambda>_. Reserved) w))
    \<and> k_mmap k (map_range b len (\<lambda>i. FileByte fd i) (map_range a (2 * len) (\<lambda>_. Reserved) w))
        (Some (a + unat len)) len = Inr c"
proof (cases "k_mmap k w None (2 * len)")
  case (Inl e)
  then show ?thesis using ok by (simp add: DoMap_def sys_mmap_def)
next
  case r1: (Inr base)
  let ?u = "map_range base (2 * len) (\<lambda>_. Reserved) w"
  show ?thesis
  proof (cases "k_mmap k ?u (Some base) len")
    case (Inl e)
    then show ?thesis using ok r1 by (simp add: DoMap_def sys_mmap_def Let_def)
  next
    case r2: (Inr b)
    show ?thesis
    proof (cases "k_mmap k (map_range b len (\<lambda>i. FileByte fd i) ?u) (Some (base + unat len)) len")
      case (Inl e)
      then show ?thesis using ok r1 r2 by (simp add: DoMap_def sys_mmap_def Let_def)
    next
      case r3: (Inr c)
      have "base = a" "w' = map_range c len (\<lambda>i. FileByte fd i) (map_range b len (\<lambda>i. FileByte fd i) ?u)"
        using ok r1 r2 r3 by (auto simp: DoMap_def sys_mmap_def Let_def)
      then show ?thesis using r1 r2 r3 by blast
    qed
  qed
qed

lemma DoMap_ok:
  assumes k: "kernel_ok k" and len: "unat len < 2 ^ 63" and ok: "DoMap k fd len mirror w = (Inr a, w')"
  shows "shows_file fd a len mirror (page w) w'" and "fds w' = fds w" and "names w' = names w"
    and "\<And>i. i < (if mirror then 2 * unat len else unat len) \<Longrightarrow> page w (a + i) = Unmapped"
proof -
  have "shows_file fd a len mirror (page w) w' \<and> fds w' = fds w \<and> names w' = names w
      \<and> (\<forall>i < (if mirror then 2 * unat len else unat len). page w (a + i) = Unmapped)"
  proof (cases mirror)
    case False
    have "k_mmap k w None len = Inr a \<and> w' = map_range a len (\<lambda>i. FileByte fd i) w"
      using ok False by (cases "k_mmap k w None len") (simp_all add: DoMap_def sys_mmap_def)
    then show ?thesis using False kernel_okD(2) [OF k] by (auto simp: shows_file_def map_range_def)
  next
    case True
    let ?w1 = "map_range a (2 * len) (\<lambda>_. Reserved) w"
    obtain b c where m: "k_mmap k w None (2 * len) = Inr a" "k_mmap k ?w1 (Some a) len = Inr b"
      "w' = map_range c len (\<lambda>i. FileByte fd i) (map_range b len (\<lambda>i. FileByte fd i) ?w1)"
      "k_mmap k (map_range b len (\<lambda>i. FileByte fd i) ?w1) (Some (a + unat len)) len = Inr c"
      using DoMap_mirrored_ok [of k fd len w a w'] ok unfolding eqTrueI [OF True] by blast
    then have bc: "b = a" "c = a + unat len" using kernel_okD(3) [OF k] by blast+
    show ?thesis using True m(1) kernel_okD(2) [OF k m(1)]
      by (auto simp: shows_file_def m(3) bc map_range_def unat_double [OF len])
  qed
  then show "shows_file fd a len mirror (page w) w'" and "fds w' = fds w" and "names w' = names w"
    and "\<And>i. i < (if mirror then 2 * unat len else unat len) \<Longrightarrow> page w (a + i) = Unmapped"
    by blast+
qed

lemma DoMap_error:
  assumes k: "kernel_ok k" and len: "unat len < 2 ^ 63" and err: "DoMap k fd len mirror w = (Inl e, w')"
  shows "page w' = page w \<and> fds w' = fds w \<and> names w' = names w"
proof (cases mirror)
  case False
  then show ?thesis using err by (auto simp: DoMap_def sys_mmap_def split: sum.splits)
next
  case True
  show ?thesis
  proof (cases "k_mmap k w None (2 * len)")
    case (Inl e)
    then show ?thesis using err True by (auto simp: DoMap_def sys_mmap_def)
  next
    case (Inr a)
    have free: "page w (a + i) = Unmapped" if "i < 2 * unat len" for i
      using kernel_okD(2) [OF k Inr] that by (simp add: unat_double [OF len])
    then have clear: "page w x = Unmapped" if "a \<le> x" "x < a + 2 * unat len" for x
      using that free [of "x - a"] by simp
    have fixed: "\<And>u b l c. k_mmap k u (Some b) l = Inr c \<Longrightarrow> c = b" using kernel_okD(3) [OF k] by blast
    show ?thesis using err True Inr clear
      by (auto simp: DoMap_def sys_defs Let_def unat_double [OF len] fun_eq_iff dest!: fixed split: sum.splits)
  qed
qed

lemma map_Create_ok:
  assumes k: "kernel_ok k" and len: "unat len < 2 ^ 63" and ok: "map_Create k name len mirror w = (Inr m, w')"
  shows "\<exists>fd a. m = \<lparr>map_name = name, map_fd = Some fd, map_addr = Some a, map_size = len, is_mirrored = mirror\<rparr>
    \<and> fd \<notin> set (fds w) \<and> fds w' = fd # fds w \<and> shows_file fd a len mirror (page w) w'
    \<and> (\<forall>i < (if mirror then 2 * unat len else unat len). page w (a + i) = Unmapped)
    \<and> (mirror \<longrightarrow> len mod k_page_size k = 0)"
proof -
  obtain fd where fd: "k_shm_open k w name True = Inr fd"
    using ok by (auto simp: map_Create_def sys_shm_open_def split: if_splits sum.splits)
  let ?w1 = "w\<lparr>fds := fd # fds w, names := name # names w\<rparr>"
  have tr: "k_ftruncate k ?w1 fd len = None"
    using ok fd by (auto simp: map_Create_def sys_shm_open_def sys_ftruncate_def Let_def
        split: if_splits option.splits prod.splits)
  then obtain a where a: "DoMap k fd len mirror ?w1 = (Inr a, w')"
    "m = \<lparr>map_name = name, map_fd = Some fd, map_addr = Some a, map_size = len, is_mirrored = mirror\<rparr>"
    "mirror \<longrightarrow> len mod k_page_size k = 0"
    using ok fd by (auto simp: map_Create_def sys_shm_open_def sys_ftruncate_def Let_def
        split: if_splits prod.splits sum.splits)
  show ?thesis using DoMap_ok [OF k len a(1)] a(2,3) kernel_okD(1) [OF k fd] by auto
qed

lemma map_Create_error:
  assumes k: "kernel_ok k" and len: "unat len < 2 ^ 63" and err: "map_Create k name len mirror w = (Inl e, w')"
  shows "page w' = page w \<and> fds w' = fds w"
proof (cases "mirror \<and> len mod k_page_size k \<noteq> 0")
  case True
  then show ?thesis using err by (simp add: map_Create_def)
next
  case False
  show ?thesis
  proof (cases "k_shm_open k w name True")
    case (Inl e)
    then show ?thesis using err False by (auto simp: map_Create_def sys_shm_open_def)
  next
    case (Inr fd)
    let ?w1 = "w\<lparr>fds := fd # fds w, names := name # names w\<rparr>"
    show ?thesis
    proof (cases "k_ftruncate k ?w1 fd len")
      case None
      obtain e2 w2 where d: "DoMap k fd len mirror ?w1 = (Inl e2, w2)" "w' = snd (sys_shm_unlink k name (sys_close fd w2))"
        using err False Inr None
        by (auto simp: map_Create_def sys_shm_open_def sys_ftruncate_def Let_def split: prod.splits sum.splits)
      show ?thesis using DoMap_error [OF k len d(1)] by (auto simp: d(2) sys_close_def sys_shm_unlink_def split: option.splits)
    next
      case (Some e)
      then show ?thesis using err False Inr
        by (auto simp: map_Create_def sys_defs Let_def split: option.splits)
    qed
  qed
qed

lemma map_Open_error:
  assumes k: "kernel_ok k" and len: "unat len < 2 ^ 63" and err: "map_Open k name len ro mirror w = (Inl e, w')"
  shows "page w' = page w \<and> fds w' = fds w"
proof (cases "mirror \<and> len mod k_page_size k \<noteq> 0")
  case True
  then show ?thesis using err by (simp add: map_Open_def)
next
  case False
  show ?thesis
  proof (cases "k_shm_open k w name False")
    case (Inl e)
    then show ?thesis using err False by (auto simp: map_Open_def sys_shm_open_def)
  next
    case (Inr fd)
    let ?w1 = "w\<lparr>fds := fd # fds w\<rparr>"
    obtain e2 w2 where d: "DoMap k fd len mirror ?w1 = (Inl e2, w2)" "w' = sys_close fd w2"
      using err False Inr by (auto simp: map_Open_def sys_shm_open_def split: prod.splits sum.splits)
    show ?thesis using DoMap_error [OF k len d(1)] by (simp add: d(2) sys_close_def)
  qed
qed

lemma CreateOrOpen_error:
  assumes k: "kernel_ok k" and len: "unat len < 2 ^ 63" and err: "CreateOrOpen k name len mirror w = (Inl e, w')"
  shows "page w' = page w \<and> fds w' = fds w"
proof -
  obtain e1 w1 where c: "map_Create k name len mirror w = (Inl e1, w1)"
    using err by (auto simp: CreateOrOpen_def split: prod.splits sum.splits)
  show ?thesis
    using err c map_Create_error [OF k len c] map_Open_error [OF k len, of name False mirror w1 e w']
    by (auto simp: CreateOrOpen_def split: if_splits)
qed

section \<open>Properties\<close>

text \<open>
  C27. \<open>MemoryMap\<close> neither leaks nor breaks the mirror. When \<open>Create\<close> succeeds, the object owns one
  new descriptor and a mapping at formerly free addresses in which byte \<open>i\<close> of the file shows at
  \<open>addr + i\<close> and, when mirrored, again at \<open>addr + size + i\<close> (so that, below twice the size, the byte
  at offset \<open>o\<close> is the byte at \<open>o mod size\<close>), and its destructor gives everything back. When
  \<open>Create\<close>, \<open>Open\<close> or \<open>CreateOrOpen\<close> fail, at whatever system call, descriptors and address space are
  as before. A moved-from object's destructor does nothing, and move assignment releases what the
  target held.
\<close>

theorem MemoryMap_resources:
  assumes "kernel_ok k" and "unat len < 2 ^ 63"
  shows "(case map_Create k name len mirror w of
       (Inr m, w') \<Rightarrow>
         (\<exists>fd a. map_fd m = Some fd \<and> map_addr m = Some a \<and> fd \<notin> set (fds w) \<and> fds w' = fd # fds w
            \<and> (\<forall>i < unat len. page w' (a + i) = FileByte fd i)
            \<and> (mirror \<longrightarrow> len mod k_page_size k = 0
                \<and> (\<forall>i < 2 * unat len. page w' (a + i) = page w' (a + i mod unat len))))
         \<and> page (destroy m w') = page w \<and> fds (destroy m w') = fds w
     | (Inl e, w') \<Rightarrow> page w' = page w \<and> fds w' = fds w)
    \<and> (case map_Open k name len readonly mirror w of (Inr m, w') \<Rightarrow> True | (Inl e, w') \<Rightarrow> page w' = page w \<and> fds w' = fds w)
    \<and> (case CreateOrOpen k name len mirror w of (Inr m, w') \<Rightarrow> True | (Inl e, w') \<Rightarrow> page w' = page w \<and> fds w' = fds w)
    \<and> destroy (snd (move_construct m0)) w = w \<and> fst (move_construct m0) = m0
    \<and> move_assign False m1 m0 w = (m0, snd (move_construct m0), destroy m1 w)"
proof (intro conjI)
  show "case map_Create k name len mirror w of
       (Inr m, w') \<Rightarrow>
         (\<exists>fd a. map_fd m = Some fd \<and> map_addr m = Some a \<and> fd \<notin> set (fds w) \<and> fds w' = fd # fds w
            \<and> (\<forall>i < unat len. page w' (a + i) = FileByte fd i)
            \<and> (mirror \<longrightarrow> len mod k_page_size k = 0
                \<and> (\<forall>i < 2 * unat len. page w' (a + i) = page w' (a + i mod unat len))))
         \<and> page (destroy m w') = page w \<and> fds (destroy m w') = fds w
     | (Inl e, w') \<Rightarrow> page w' = page w \<and> fds w' = fds w"
  proof (cases "map_Create k name len mirror w")
    case (Pair r w')
    show ?thesis
    proof (cases r)
      case (Inl e)
      then show ?thesis using map_Create_error [OF assms, of name mirror w e w'] Pair by simp
    next
      case (Inr m)
      obtain fd a where c: "m = \<lparr>map_name = name, map_fd = Some fd, map_addr = Some a, map_size = len, is_mirrored = mirror\<rparr>"
        "fd \<notin> set (fds w)" "fds w' = fd # fds w" "shows_file fd a len mirror (page w) w'"
        "\<forall>i < (if mirror then 2 * unat len else unat len). page w (a + i) = Unmapped"
        "mirror \<longrightarrow> len mod k_page_size k = 0"
        using map_Create_ok [OF assms] Pair Inr by blast
      have lo: "\<forall>i < unat len. page w' (a + i) = FileByte fd i" using c(4) by (simp add: shows_file_def)
      have hi: "page w' (a + i) = page w' (a + i mod unat len)" if "mirror" "i < 2 * unat len" for i
        using c(4) that by (cases "i < unat len") (auto simp: shows_file_def mod_if)
      have "page w x = Unmapped" if "a \<le> x" "x < a + (if mirror then 2 * unat len else unat len)" for x
        using c(5) [rule_format, of "x - a"] that by (auto split: if_splits)
      then have "page (destroy m w') = page w"
        using c(4) by (auto simp: destroy_def c(1) sys_defs mapped_length_def shows_file_def fun_eq_iff
            unat_double [OF assms(2)])
      moreover have "fds (destroy m w') = fds w"
        using c(3) by (simp add: destroy_def c(1) sys_defs)
      ultimately show ?thesis using Pair Inr c(1-3,6) lo hi by auto
    qed
  qed
  show "case map_Open k name len readonly mirror w of (Inr m, w') \<Rightarrow> True | (Inl e, w') \<Rightarrow> page w' = page w \<and> fds w' = fds w"
    using map_Open_error [OF assms] by (auto split: prod.splits sum.splits)
  show "case CreateOrOpen k name len mirror w of (Inr m, w') \<Rightarrow> True | (Inl e, w') \<Rightarrow> page w' = page w \<and> fds w' = fds w"
    using CreateOrOpen_error [OF assms] by (auto split: prod.splits sum.splits)
qed (simp_all add: destroy_def move_construct_def move_assign_def)

text \<open>A kernel with 16 kilobytes of address space.\<close>

definition empty_os :: os where
  "empty_os = \<lparr>fds = [], page = (\<lambda>_. Unmapped), names = [], the_errno = OTHER\<rparr>"

definition small_kernel :: kernel where
  "small_kernel = \<lparr>k_page_size = 4096, k_shm_open = (\<lambda>w name c. Inr (Suc (sum_list (fds w)))),
     k_ftruncate = (\<lambda>w fd len. None),
     k_mmap = (\<lambda>w fixed len. case fixed of
         None \<Rightarrow> if unat len \<le> 16384 \<and> (\<forall>i < unat len. page w (4096 + i) = Unmapped) then Inr 4096 else Inl ENOMEM
       | Some b \<Rightarrow> Inr b),
     k_shm_unlink = (\<lambda>w name. None)\<rparr>"

lemma small_kernel_ok: "kernel_ok small_kernel"
  by (auto simp: kernel_ok_def small_kernel_def dest: member_le_sum_list split: if_splits)

theorem MemoryMap_resources_witness:
  "kernel_ok small_kernel
   \<and> (\<exists>w. map_Create small_kernel ''r'' 12288 True empty_os = (Inl ResourceExhausted, w) \<and> fds w = [])
   \<and> (\<exists>m w. map_Create small_kernel ''r'' 8192 True empty_os = (Inr m, w) \<and> fds w \<noteq> [] \<and> fds (destroy m w) = [])"
proof -
  obtain w where w: "map_Create small_kernel ''r'' 12288 True empty_os = (Inl ResourceExhausted, w)"
    by (simp add: map_Create_def sys_defs small_kernel_def empty_os_def DoMap_def Let_def)
  obtain m v where m: "map_Create small_kernel ''r'' 8192 True empty_os = (Inr m, v)"
    by (simp add: map_Create_def sys_defs small_kernel_def empty_os_def DoMap_def Let_def)
  show ?thesis
    using MemoryMap_resources [OF small_kernel_ok, where w = empty_os and name = "''r''" and mirror = True
        and len = 12288]
      MemoryMap_resources [OF small_kernel_ok, where w = empty_os and name = "''r''" and mirror = True
        and len = 8192] w m small_kernel_ok
    by (auto simp: empty_os_def)
qed

end
