(* ===== verification/RcuMap.thy ===== *)
theory RcuMap
  imports Prelude
begin

text \<open>
  \<open>RcuHashMap\<close> of \<open>rcu_hash_map.h\<close> on a heap: nodes and tables live at addresses, pointers are
  \<open>nat option\<close>. Writers run under \<open>write_mutex_\<close>, so each store of theirs that readers can see (a bucket,
  a \<open>next\<close> field, \<open>table_\<close>) is one step; readers walk node by node between them. Memory is not reused
  here: the guard a reader holds keeps what it can reach from being deleted, which is what the
  reclamation engine promises. Table sizes are natural numbers: a table with 2 to the 63 buckets
  does not fit into an address space.
\<close>

section \<open>Data\<close>

record ('k, 'v) rcu_node =
  n_key :: 'k
  n_value :: 'v
  n_seq :: u32
  n_next :: "nat option"

record rcu_table =
  t_buckets :: "nat option list"
  t_size :: nat

datatype retired_object = RetiredNode nat | RetiredTable nat

record ('k, 'v) rcu =
  nodes :: "('k, 'v) rcu_node list"
  tables :: "rcu_table list"
  table :: nat
  count :: nat
  generation :: u64
  retirements :: "retired_object list"

definition new_table :: "nat \<Rightarrow> rcu_table" where
  "new_table s = \<lparr>t_buckets = replicate s None, t_size = s\<rparr>"

definition new_node :: "'k \<Rightarrow> 'v \<Rightarrow> nat option \<Rightarrow> ('k, 'v) rcu_node" where
  "new_node k v n = \<lparr>n_key = k, n_value = v, n_seq = 0, n_next = n\<rparr>"

definition RcuHashMap :: "nat \<Rightarrow> ('k, 'v) rcu" where
  "RcuHashMap initial_buckets =
     \<lparr>nodes = [], tables = [new_table initial_buckets], table = 0, count = 0, generation = 0, retirements = []\<rparr>"

section \<open>Operations\<close>

abbreviation cur_table :: "('k, 'v) rcu \<Rightarrow> rcu_table" where
  "cur_table m \<equiv> tables m ! table m"

text \<open>
  The walk over a bucket that all operations do: the node with the key, and the node before it. A
  list has at most as many nodes as are allocated, which is the fuel the callers give.
\<close>

fun locate :: "nat \<Rightarrow> ('k, 'v) rcu_node list \<Rightarrow> 'k \<Rightarrow> nat option \<Rightarrow> nat option \<Rightarrow> (nat option \<times> nat) option" where
  "locate 0 h key prev current = None"
| "locate (Suc n) h key prev current =
     (case current of
        None \<Rightarrow> None
      | Some a \<Rightarrow>
          (if n_key (h ! a) = key then Some (prev, a) else locate n h key (Some a) (n_next (h ! a))))"

definition set_bucket :: "nat \<Rightarrow> nat option \<Rightarrow> ('k, 'v) rcu \<Rightarrow> ('k, 'v) rcu" where
  "set_bucket idx p m =
     m\<lparr>tables := (tables m)[table m := (cur_table m)\<lparr>t_buckets := (t_buckets (cur_table m))[idx := p]\<rparr>]\<rparr>"

definition set_next :: "nat \<Rightarrow> nat option \<Rightarrow> ('k, 'v) rcu \<Rightarrow> ('k, 'v) rcu" where
  "set_next a p m = m\<lparr>nodes := (nodes m)[a := (nodes m ! a)\<lparr>n_next := p\<rparr>]\<rparr>"

text \<open>\<open>prev->next.store\<close> or \<open>bucket.store\<close>.\<close>

definition link_after :: "nat option \<Rightarrow> nat \<Rightarrow> nat option \<Rightarrow> ('k, 'v) rcu \<Rightarrow> ('k, 'v) rcu" where
  "link_after prev idx p m = (case prev of Some a \<Rightarrow> set_next a p m | None \<Rightarrow> set_bucket idx p m)"

definition alloc :: "('k, 'v) rcu_node \<Rightarrow> ('k, 'v) rcu \<Rightarrow> nat \<times> ('k, 'v) rcu" where
  "alloc x m = (length (nodes m), m\<lparr>nodes := nodes m @ [x]\<rparr>)"

text \<open>\<open>Resize\<close>: the inner loop copies one old list in front of the new buckets.\<close>

fun copy_bucket :: "nat \<Rightarrow> ('k \<Rightarrow> nat) \<Rightarrow> nat \<Rightarrow> nat option \<Rightarrow> ('k, 'v) rcu_node list \<times> nat option list
    \<Rightarrow> ('k, 'v) rcu_node list \<times> nat option list" where
  "copy_bucket 0 hash new_size current (h, bs) = (h, bs)"
| "copy_bucket (Suc n) hash new_size current (h, bs) =
     (case current of
        None \<Rightarrow> (h, bs)
      | Some a \<Rightarrow>
          (let new_idx = hash (n_key (h ! a)) mod new_size;
               new_head = bs ! new_idx;
               copied = new_node (n_key (h ! a)) (n_value (h ! a)) new_head
           in copy_bucket n hash new_size (n_next (h ! a)) (h @ [copied], bs[new_idx := Some (length h)])))"

definition Resize :: "('k \<Rightarrow> nat) \<Rightarrow> nat \<Rightarrow> ('k, 'v) rcu \<Rightarrow> ('k, 'v) rcu" where
  "Resize hash new_size m =
     (let old = cur_table m;
          (h, bs) = fold (\<lambda>b hb. copy_bucket (length (nodes m)) hash new_size b hb) (t_buckets old)
                      (nodes m, t_buckets (new_table new_size))
      in m\<lparr>nodes := h, tables := tables m @ [\<lparr>t_buckets = bs, t_size = new_size\<rparr>], table := length (tables m),
           retirements := retirements m @ [RetiredTable (table m)]\<rparr>)"

text \<open>The first part of \<open>Put\<close> (under the lock) and the second; a modulo by zero is undefined.\<close>

definition Put_grow :: "('k \<Rightarrow> nat) \<Rightarrow> ('k, 'v) rcu \<Rightarrow> ('k, 'v) rcu" where
  "Put_grow hash m = (if count m \<ge> t_size (cur_table m) then Resize hash (t_size (cur_table m) * 2) m else m)"

definition Put_link :: "('k \<Rightarrow> nat) \<Rightarrow> 'k \<Rightarrow> 'v \<Rightarrow> ('k, 'v) rcu \<Rightarrow> ('k, 'v) rcu option" where
  "Put_link hash key v m =
     (let t = cur_table m in
      if t_size t = 0 then None
      else
        let idx = hash key mod t_size t; bucket = t_buckets t ! idx in
        case locate (length (nodes m)) (nodes m) key None bucket of
          Some (prev, current) \<Rightarrow>
            (let (a, m) = alloc (new_node key v (n_next (nodes m ! current))) m;
                 m = link_after prev idx (Some a) m
             in Some (m\<lparr>generation := generation m + 1, retirements := retirements m @ [RetiredNode current]\<rparr>))
        | None \<Rightarrow>
            (let (a, m) = alloc (new_node key v bucket) m;
                 m = set_bucket idx (Some a) m
             in Some (m\<lparr>count := count m + 1, generation := generation m + 1\<rparr>)))"

definition Put :: "('k \<Rightarrow> nat) \<Rightarrow> 'k \<Rightarrow> 'v \<Rightarrow> ('k, 'v) rcu \<Rightarrow> ('k, 'v) rcu option" where
  "Put hash key v m = Put_link hash key v (Put_grow hash m)"

definition Remove :: "('k \<Rightarrow> nat) \<Rightarrow> 'k \<Rightarrow> ('k, 'v) rcu \<Rightarrow> (bool \<times> ('k, 'v) rcu) option" where
  "Remove hash key m =
     (let t = cur_table m in
      if t_size t = 0 then None
      else
        let idx = hash key mod t_size t in
        case locate (length (nodes m)) (nodes m) key None (t_buckets t ! idx) of
          Some (prev, current) \<Rightarrow>
            (let m = link_after prev idx (n_next (nodes m ! current)) m
             in Some (True, m\<lparr>count := count m - 1, generation := generation m + 1,
                              retirements := retirements m @ [RetiredNode current]\<rparr>))
        | None \<Rightarrow> Some (False, m))"

definition Size :: "('k, 'v) rcu \<Rightarrow> nat" where
  "Size m = count m"

text \<open>
  \<open>Get\<close>, one load per step: \<open>table_\<close>, the bucket, then node after node; at the node with the key, the
  sequence loop, which repeats while the counter is odd.
\<close>

datatype 'v reader = Outside | AtTable | AtBucket nat | AtNode "nat option" | Found nat | Returned "'v option"

definition reader_step :: "('k \<Rightarrow> nat) \<Rightarrow> ('k, 'v) rcu \<Rightarrow> 'k \<Rightarrow> 'v reader \<Rightarrow> 'v reader option" where
  "reader_step hash m key r =
     (case r of
        Outside \<Rightarrow> None
      | AtTable \<Rightarrow> Some (AtBucket (table m))
      | AtBucket t \<Rightarrow>
          (let tb = tables m ! t in
           if t_size tb = 0 then None else Some (AtNode (t_buckets tb ! (hash key mod t_size tb))))
      | AtNode None \<Rightarrow> Some (Returned None)
      | AtNode (Some a) \<Rightarrow>
          Some (if n_key (nodes m ! a) = key then Found a else AtNode (n_next (nodes m ! a)))
      | Found a \<Rightarrow>
          (if n_seq (nodes m ! a) AND 1 \<noteq> 0 then Some (Found a) else Some (Returned (Some (n_value (nodes m ! a)))))
      | Returned v \<Rightarrow> None)"

text \<open>\<open>Get\<close> with nobody else at work.\<close>

definition Get :: "('k \<Rightarrow> nat) \<Rightarrow> 'k \<Rightarrow> ('k, 'v) rcu \<Rightarrow> 'v option option" where
  "Get hash key m =
     (if t_size (cur_table m) = 0 then None
      else Some (map_option (\<lambda>(prev, a). n_value (nodes m ! a))
        (locate (length (nodes m)) (nodes m) key None
          (t_buckets (cur_table m) ! (hash key mod t_size (cur_table m))))))"

text \<open>The destructors: which nodes are deleted, in order.\<close>

fun delete_list :: "nat \<Rightarrow> ('k, 'v) rcu_node list \<Rightarrow> nat option \<Rightarrow> nat list" where
  "delete_list 0 h current = []"
| "delete_list (Suc n) h current =
     (case current of None \<Rightarrow> [] | Some a \<Rightarrow> a # delete_list n h (n_next (h ! a)))"

definition delete_table :: "('k, 'v) rcu_node list \<Rightarrow> rcu_table \<Rightarrow> nat list" where
  "delete_table h t = concat (map (delete_list (length h) h) (t_buckets t))"

definition delete_map :: "('k, 'v) rcu \<Rightarrow> nat list" where
  "delete_map m = delete_table (nodes m) (cur_table m)"

section \<open>Lists in the heap\<close>

primrec chain :: "('k, 'v) rcu_node list \<Rightarrow> nat option \<Rightarrow> nat list \<Rightarrow> bool" where
  "chain h p [] \<longleftrightarrow> p = None"
| "chain h p (a # as) \<longleftrightarrow> p = Some a \<and> a < length h \<and> chain h (n_next (h ! a)) as"

lemma chain_unique: "chain h p xs \<Longrightarrow> chain h p ys \<Longrightarrow> xs = ys"
proof (induction xs arbitrary: p ys)
  case Nil
  then show ?case by (cases ys) auto
next
  case (Cons a xs)
  then show ?case by (cases ys) auto
qed

lemma chain_drop: "chain h p xs \<Longrightarrow> i < length xs \<Longrightarrow> chain h (Some (xs ! i)) (drop i xs)"
  by (induction xs arbitrary: p i) (auto simp: nth_Cons split: nat.split)

lemma chain_distinct:
  assumes "chain h p xs"
  shows "distinct xs"
proof -
  have "i = j" if "i < length xs" "j < length xs" "xs ! i = xs ! j" for i j
    using chain_unique [OF chain_drop [OF assms that(1)], of "drop j xs"] chain_drop [OF assms that(2)] that
    by (metis (no_types, lifting) diff_diff_cancel length_drop less_imp_le)
  then show ?thesis by (auto simp: distinct_conv_nth)
qed

lemma chain_bounded: "chain h p xs \<Longrightarrow> set xs \<subseteq> {..<length h}"
  by (induction xs arbitrary: p) auto

lemma chain_length:
  assumes "chain h p xs"
  shows "length xs \<le> length h"
proof -
  have "card (set xs) \<le> card {..<length h}" using chain_bounded [OF assms] by (intro card_mono) auto
  then show ?thesis using chain_distinct [OF assms] by (simp add: distinct_card)
qed

text \<open>The value a walk along the nodes \<open>xs\<close> finds.\<close>

definition lookup :: "('k, 'v) rcu_node list \<Rightarrow> nat list \<Rightarrow> 'k \<Rightarrow> 'v option" where
  "lookup h xs key = map_of (map (\<lambda>a. (n_key (h ! a), n_value (h ! a))) xs) key"

lemma locate_None:
  assumes "chain h p xs" and "length xs \<le> n"
  shows "locate n h key prev p = None \<longleftrightarrow> key \<notin> (\<lambda>a. n_key (h ! a)) ` set xs"
  using assms
proof (induction n h key prev p arbitrary: xs rule: locate.induct)
  case (2 n h key prev p)
  then show ?case by (cases xs) auto
qed auto

lemma locate_Some:
  assumes "chain h p xs" and "locate n h key prev p = Some (q, a)"
  shows "\<exists>ys zs. xs = ys @ a # zs \<and> key \<notin> (\<lambda>a. n_key (h ! a)) ` set ys \<and> n_key (h ! a) = key
    \<and> q = (if ys = [] then prev else Some (last ys))"
  using assms
proof (induction n h key prev p arbitrary: xs rule: locate.induct)
  case (2 n h key prev p)
  then obtain b bs where xs: "xs = b # bs" "p = Some b" "chain h (n_next (h ! b)) bs" by (cases xs) auto
  show ?case
  proof (cases "n_key (h ! b) = key")
    case True
    then show ?thesis using 2(3) xs by (intro exI [of _ "[]"] exI [of _ bs]) auto
  next
    case False
    then have "locate n h key (Some b) (n_next (h ! b)) = Some (q, a)" using 2(3) xs by simp
    then obtain ys zs where "bs = ys @ a # zs" "key \<notin> (\<lambda>a. n_key (h ! a)) ` set ys" "n_key (h ! a) = key"
      "q = (if ys = [] then Some b else Some (last ys))"
      using 2(1) [OF xs(2) False] xs(3) by blast
    then show ?thesis using xs False by (intro exI [of _ "b # ys"] exI [of _ zs]) auto
  qed
qed auto

lemma lookup_None: "lookup h xs key = None \<longleftrightarrow> key \<notin> (\<lambda>a. n_key (h ! a)) ` set xs"
  by (simp add: lookup_def map_of_eq_None_iff image_image)

lemma lookup_append: "lookup h (xs @ ys) key = (case lookup h xs key of None \<Rightarrow> lookup h ys key | Some v \<Rightarrow> Some v)"
  unfolding lookup_def by (simp add: map_add_def)

lemma lookup_Cons: "lookup h (a # xs) key = (if n_key (h ! a) = key then Some (n_value (h ! a)) else lookup h xs key)"
  by (simp add: lookup_def)

lemma lookup_Nil [simp]: "lookup h [] key = None"
  by (simp add: lookup_def)

lemma locate_lookup:
  assumes "chain h p xs" and "length xs \<le> n"
  shows "map_option (\<lambda>(prev, a). n_value (h ! a)) (locate n h key prev p) = lookup h xs key"
proof (cases "locate n h key prev p")
  case None
  then have "lookup h xs key = None" unfolding lookup_None using locate_None [OF assms] by blast
  then show ?thesis using None by simp
next
  case (Some r)
  obtain q a where r: "r = (q, a)" by fastforce
  obtain ys zs where z: "xs = ys @ a # zs" "key \<notin> (\<lambda>a. n_key (h ! a)) ` set ys" "n_key (h ! a) = key"
    using locate_Some [OF assms(1) Some [unfolded r]] by blast
  have none: "lookup h ys key = None" using lookup_None z(2) by fast
  have "lookup h xs key = Some (n_value (h ! a))"
    unfolding z(1) lookup_append lookup_Cons using none z(3) by simp
  then show ?thesis by (simp only: Some r option.map prod.case)
qed

section \<open>Splicing\<close>

lemma lookup_cong:
  assumes "\<And>a. a \<in> set xs \<Longrightarrow> n_key (g ! a) = n_key (h ! a) \<and> n_value (g ! a) = n_value (h ! a)"
  shows "lookup g xs key = lookup h xs key"
proof -
  have "map (\<lambda>a. (n_key (g ! a), n_value (g ! a))) xs = map (\<lambda>a. (n_key (h ! a), n_value (h ! a))) xs"
    using assms by (intro map_cong) auto
  then show ?thesis unfolding lookup_def by (rule arg_cong [where f = "\<lambda>l. map_of l key"])
qed

lemma chain_append: "chain h p xs \<Longrightarrow> chain (h @ g) p xs"
  by (induction xs arbitrary: p) (auto simp: nth_append)

lemma chain_split: "chain h p (ys @ a # zs) \<Longrightarrow> chain h (Some a) (a # zs) \<and> a < length h"
  by (induction ys arbitrary: p) auto

lemma chain_prefix: "chain h p (ys @ a # zs) \<Longrightarrow> chain h (Some a) (a # ws) \<Longrightarrow> chain h p (ys @ a # ws)"
  by (induction ys arbitrary: p) auto

abbreviation relink :: "nat \<Rightarrow> nat option \<Rightarrow> ('k, 'v) rcu_node list \<Rightarrow> ('k, 'v) rcu_node list" where
  "relink a q h \<equiv> h[a := (h ! a)\<lparr>n_next := q\<rparr>]"

lemma relink_fields:
  assumes "b < length h"
  shows "n_key (relink a q h ! b) = n_key (h ! b)" and "n_value (relink a q h ! b) = n_value (h ! b)"
    and "n_seq (relink a q h ! b) = n_seq (h ! b)"
  using assms by (cases "a = b"; simp)+

lemma relink_lookup:
  "set xs \<subseteq> {..<length h} \<Longrightarrow> lookup (relink a q h) xs key = lookup h xs key"
  by (rule lookup_cong) (auto simp: relink_fields)

lemma chain_relink_other: "chain h p xs \<Longrightarrow> a \<notin> set xs \<Longrightarrow> chain (relink a q h) p xs"
  by (induction xs arbitrary: p) auto

lemma chain_relink:
  assumes "chain h p (ys @ a # zs)" and "chain h q ws" and "a \<notin> set ws"
  shows "chain (relink a q h) p (ys @ a # ws)"
  using assms(1)
proof (induction ys arbitrary: p)
  case Nil
  then show ?case using chain_relink_other [OF assms(2,3), of q] by auto
next
  case (Cons y ys)
  have "distinct ((y # ys) @ a # zs)" by (rule chain_distinct [OF Cons.prems])
  then show ?case using Cons by auto
qed

text \<open>
  \<open>h'\<close> follows \<open>h\<close> for walks that look for \<open>key'\<close>: from every pointer, what they find stays as it was or,
  for the key of the operation, becomes the operation's new value.
\<close>

definition walks_follow :: "('k, 'v) rcu_node list \<Rightarrow> ('k, 'v) rcu_node list \<Rightarrow> 'k \<Rightarrow> 'v option \<Rightarrow> bool" where
  "walks_follow h h' key res \<longleftrightarrow>
     (\<forall>p xs. chain h p xs \<longrightarrow> (\<exists>xs'. chain h' p xs' \<and> length xs' \<le> length xs \<and>
        (\<forall>key'. lookup h' xs' key' = lookup h xs key' \<or> key' = key \<and> lookup h' xs' key' = res)))"

lemma walks_append: "walks_follow h (h @ g) key res"
  unfolding walks_follow_def
proof (intro allI impI)
  fix p xs assume c: "chain h p xs"
  have "lookup (h @ g) xs key' = lookup h xs key'" for key'
    by (rule lookup_cong) (use chain_bounded [OF c] in \<open>auto simp: nth_append\<close>)
  then show "\<exists>xs'. chain (h @ g) p xs' \<and> length xs' \<le> length xs \<and>
      (\<forall>key'. lookup (h @ g) xs' key' = lookup h xs key' \<or> key' = key \<and> lookup (h @ g) xs' key' = res)"
    using chain_append [OF c] by blast
qed

text \<open>
  Replacing what follows node \<open>a\<close>, a node with the key followed by \<open>zs\<close>, by \<open>ws\<close>, which is \<open>zs\<close> with
  or without a new node for the key.
\<close>

lemma walks_relink:
  assumes old: "chain h (Some a) (a # c # zs)" and new: "chain h q ws" and "a \<notin> set ws"
    and c: "n_key (h ! c) = key" and zs: "key \<notin> (\<lambda>b. n_key (h ! b)) ` set zs"
    and ws: "lookup h ws key = res" "\<And>key'. key' \<noteq> key \<Longrightarrow> lookup h ws key' = lookup h zs key'"
      "length ws \<le> Suc (length zs)"
  shows "walks_follow h (relink a q h) key res"
  unfolding walks_follow_def
proof (intro allI impI)
  fix p xs assume x: "chain h p xs"
  show "\<exists>xs'. chain (relink a q h) p xs' \<and> length xs' \<le> length xs \<and> (\<forall>key'. lookup (relink a q h) xs' key' = lookup h xs key'
      \<or> key' = key \<and> lookup (relink a q h) xs' key' = res)"
  proof (cases "a \<in> set xs")
    case False
    have "lookup (relink a q h) xs key' = lookup h xs key'" for key'
      by (rule relink_lookup [OF chain_bounded [OF x]])
    then show ?thesis using chain_relink_other [OF x False] by blast
  next
    case True
    then obtain ys us where "xs = ys @ a # us" by (auto simp: in_set_conv_decomp)
    then have xs: "xs = ys @ a # c # zs" using chain_unique [OF _ old] chain_split x by blast
    have x': "chain (relink a q h) p (ys @ a # ws)" using x unfolding xs by (rule chain_relink) fact+
    have same: "lookup (relink a q h) (ys @ a # ws) key' = lookup h (ys @ a # ws) key'" for key'
      by (rule relink_lookup) (use chain_bounded [OF x'] in simp)
    have "lookup h (ys @ a # ws) key' = lookup h xs key' \<or> key' = key \<and> lookup h (ys @ a # ws) key' = res" for key'
      using ws c by (cases "key' = key") (auto simp: xs lookup_append lookup_Cons split: option.split)
    moreover have "length (ys @ a # ws) \<le> length xs" using ws(3) by (simp add: xs)
    ultimately show ?thesis using x' same by metis
  qed
qed

section \<open>The invariant\<close>

abbreviation bucket :: "('k, 'v) rcu \<Rightarrow> nat \<Rightarrow> nat option" where
  "bucket m i \<equiv> t_buckets (cur_table m) ! i"

abbreviation buckets_n :: "('k, 'v) rcu \<Rightarrow> nat" where
  "buckets_n m \<equiv> t_size (cur_table m)"

definition bucket_ok :: "('k \<Rightarrow> nat) \<Rightarrow> nat \<Rightarrow> nat \<Rightarrow> ('k, 'v) rcu_node list \<Rightarrow> nat list \<Rightarrow> bool" where
  "bucket_ok hash n i h xs \<longleftrightarrow>
     distinct (map (\<lambda>a. n_key (h ! a)) xs) \<and> (\<forall>a \<in> set xs. hash (n_key (h ! a)) mod n = i)"

definition table_ok :: "('k, 'v) rcu_node list \<Rightarrow> rcu_table \<Rightarrow> bool" where
  "table_ok h t \<longleftrightarrow> 0 < t_size t \<and> length (t_buckets t) = t_size t \<and> (\<forall>p \<in> set (t_buckets t). \<exists>xs. chain h p xs)"

definition heap_ok :: "('k, 'v) rcu_node list \<Rightarrow> bool" where
  "heap_ok h \<longleftrightarrow> (\<forall>a < length h. n_seq (h ! a) = 0 \<and> (\<exists>xs. chain h (n_next (h ! a)) xs))"

definition rcu_shape :: "('k \<Rightarrow> nat) \<Rightarrow> ('k, 'v) rcu \<Rightarrow> bool" where
  "rcu_shape hash m \<longleftrightarrow>
     table m < length (tables m) \<and> (\<forall>t \<in> set (tables m). table_ok (nodes m) t) \<and> heap_ok (nodes m)
   \<and> (\<forall>i < buckets_n m. \<forall>xs. chain (nodes m) (bucket m i) xs \<longrightarrow> bucket_ok hash (buckets_n m) i (nodes m) xs)"

definition rcu_map :: "('k \<Rightarrow> nat) \<Rightarrow> ('k, 'v) rcu \<Rightarrow> 'k \<Rightarrow> 'v option" where
  "rcu_map hash m key = the (Get hash key m)"

definition rcu_inv :: "('k \<Rightarrow> nat) \<Rightarrow> ('k, 'v) rcu \<Rightarrow> bool" where
  "rcu_inv hash m \<longleftrightarrow> rcu_shape hash m \<and> count m = card (dom (rcu_map hash m))"

lemma shape_cur: "rcu_shape hash m \<Longrightarrow> table_ok (nodes m) (cur_table m)"
  by (simp add: rcu_shape_def)

lemma shape_bucket:
  assumes "rcu_shape hash m" and "i < buckets_n m"
  obtains xs where "chain (nodes m) (bucket m i) xs" and "bucket_ok hash (buckets_n m) i (nodes m) xs"
proof -
  have "bucket m i \<in> set (t_buckets (cur_table m))"
    using shape_cur [OF assms(1)] assms(2) by (simp add: table_ok_def)
  then obtain xs where "chain (nodes m) (bucket m i) xs" using shape_cur [OF assms(1)] unfolding table_ok_def by blast
  then show thesis using that assms unfolding rcu_shape_def by blast
qed

lemma Get_chain:
  assumes "rcu_shape hash m" and "chain (nodes m) (bucket m (hash key mod buckets_n m)) xs"
  shows "Get hash key m = Some (lookup (nodes m) xs key)" and "rcu_map hash m key = lookup (nodes m) xs key"
  using shape_cur [OF assms(1)] locate_lookup [OF assms(2) chain_length [OF assms(2)]]
  by (simp_all add: rcu_map_def Get_def table_ok_def)

lemma index_less: "rcu_shape hash m \<Longrightarrow> hash key mod buckets_n m < buckets_n m"
  using shape_cur by (fastforce simp: table_ok_def)

lemma finite_dom: "rcu_shape hash m \<Longrightarrow> finite (dom (rcu_map hash m))"
proof (rule finite_subset)
  assume s: "rcu_shape hash m"
  show "dom (rcu_map hash m) \<subseteq> n_key ` set (nodes m)"
  proof
    fix key assume "key \<in> dom (rcu_map hash m)"
    moreover obtain xs where xs: "chain (nodes m) (bucket m (hash key mod buckets_n m)) xs"
      using shape_bucket [OF s index_less [OF s]] by blast
    ultimately have "lookup (nodes m) xs key \<noteq> None" using Get_chain(2) [OF s xs] by (simp add: domIff)
    then obtain a where "a \<in> set xs" "n_key (nodes m ! a) = key" by (auto simp: lookup_None)
    then show "key \<in> n_key ` set (nodes m)" using chain_bounded [OF xs] by force
  qed
qed simp

lemma walks_chain: "walks_follow h h' key res \<Longrightarrow> \<exists>xs. chain h p xs \<Longrightarrow> \<exists>xs. chain h' p xs"
  unfolding walks_follow_def by blast

lemma walks_refl: "walks_follow h h key res"
  unfolding walks_follow_def by blast

lemma walks_followD:
  assumes "walks_follow h h' key res" and "chain h p xs"
  obtains xs' where "chain h' p xs'" "length xs' \<le> length xs"
    "\<And>key'. lookup h' xs' key' = lookup h xs key' \<or> key' = key \<and> lookup h' xs' key' = res"
  using assms unfolding walks_follow_def by blast

lemma walks_trans:
  assumes 1: "walks_follow g h key res" and 2: "walks_follow h k key res"
  shows "walks_follow g k key res"
  unfolding walks_follow_def
proof (intro allI impI)
  fix p xs assume "chain g p xs"
  then obtain ys where ys: "chain h p ys" "length ys \<le> length xs"
    "\<And>key'. lookup h ys key' = lookup g xs key' \<or> key' = key \<and> lookup h ys key' = res"
    using walks_followD [OF 1] by metis
  then obtain zs where zs: "chain k p zs" "length zs \<le> length ys"
    "\<And>key'. lookup k zs key' = lookup h ys key' \<or> key' = key \<and> lookup k zs key' = res"
    using walks_followD [OF 2] by metis
  have "lookup k zs key' = lookup g xs key' \<or> key' = key \<and> lookup k zs key' = res" for key'
    using ys(3) [of key'] zs(3) [of key'] by argo
  then show "\<exists>xs'. chain k p xs' \<and> length xs' \<le> length xs \<and>
      (\<forall>key'. lookup k xs' key' = lookup g xs key' \<or> key' = key \<and> lookup k xs' key' = res)"
    using zs(1,2) ys(2) by fastforce
qed

section \<open>Editing one bucket\<close>

text \<open>\<open>m'\<close> is \<open>m\<close> with the bucket \<open>idx\<close> showing the nodes \<open>ls\<close>.\<close>

definition edited :: "('k, 'v) rcu \<Rightarrow> ('k, 'v) rcu \<Rightarrow> nat \<Rightarrow> nat list \<Rightarrow> bool" where
  "edited m m' idx ls \<longleftrightarrow>
     table m' = table m \<and> length (nodes m') = length (nodes m) \<and> buckets_n m' = buckets_n m
   \<and> (\<forall>a < length (nodes m). n_key (nodes m' ! a) = n_key (nodes m ! a) \<and> n_value (nodes m' ! a) = n_value (nodes m ! a)
        \<and> n_seq (nodes m' ! a) = n_seq (nodes m ! a))
   \<and> chain (nodes m') (bucket m' idx) ls
   \<and> (\<forall>i js. i < buckets_n m \<longrightarrow> i \<noteq> idx \<longrightarrow> chain (nodes m) (bucket m i) js \<longrightarrow> chain (nodes m') (bucket m' i) js)
   \<and> count m' = count m \<and> generation m' = generation m \<and> retirements m' = retirements m
   \<and> length (tables m') = length (tables m) \<and> (\<forall>t < length (tables m). t \<noteq> table m \<longrightarrow> tables m' ! t = tables m ! t)"

lemma edited_size: "edited m m' idx ls \<Longrightarrow> buckets_n m' = buckets_n m"
  unfolding edited_def by blast

lemma edited_chain: "edited m m' idx ls \<Longrightarrow> chain (nodes m') (bucket m' idx) ls"
  unfolding edited_def by blast

lemma edited_other:
  "edited m m' idx ls \<Longrightarrow> i < buckets_n m \<Longrightarrow> i \<noteq> idx \<Longrightarrow> chain (nodes m) (bucket m i) js
    \<Longrightarrow> chain (nodes m') (bucket m' i) js"
  unfolding edited_def by blast

lemma set_bucket_edited:
  assumes s: "rcu_shape hash m" and "idx < buckets_n m" and "chain (nodes m) q ws"
  shows "edited m (set_bucket idx q m) idx ws"
  using assms shape_cur [OF s] by (simp add: edited_def set_bucket_def rcu_shape_def table_ok_def)

lemma set_next_edited:
  assumes s: "rcu_shape hash m" and idx: "idx < buckets_n m" and c: "chain (nodes m) (bucket m idx) (ys @ a # zs)"
    and q: "chain (nodes m) q ws" "a \<notin> set ws"
  shows "edited m (set_next a q m) idx (ys @ a # ws)"
proof -
  have b: "bucket_ok hash (buckets_n m) idx (nodes m) (ys @ a # zs)" using s idx c unfolding rcu_shape_def by blast
  have other: "chain (relink a q (nodes m)) (bucket m i) js"
    if i: "i < buckets_n m" "i \<noteq> idx" "chain (nodes m) (bucket m i) js" for i js
  proof -
    have "bucket_ok hash (buckets_n m) i (nodes m) js" using s i unfolding rcu_shape_def by blast
    then have "a \<notin> set js" using b i(2) by (auto simp: bucket_ok_def)
    then show ?thesis using chain_relink_other [OF i(3)] by simp
  qed
  show ?thesis using chain_relink [OF c q] other
    by (simp add: edited_def set_next_def relink_fields)
qed

lemma edited_shape:
  assumes s: "rcu_shape hash m" and e: "edited m m' idx ls" and w: "walks_follow (nodes m) (nodes m') key res"
    and idx: "idx < buckets_n m" and ls: "bucket_ok hash (buckets_n m) idx (nodes m) ls"
    and nxt: "\<And>a. a < length (nodes m) \<Longrightarrow> \<exists>xs. chain (nodes m') (n_next (nodes m' ! a)) xs"
    and len: "length (t_buckets (cur_table m')) = buckets_n m"
  shows "rcu_shape hash m'"
proof -
  have bnd: "set ls \<subseteq> {..<length (nodes m)}" using e chain_bounded unfolding edited_def by metis
  have cong: "bucket_ok hash n i (nodes m') xs = bucket_ok hash n i (nodes m) xs"
    if "set xs \<subseteq> {..<length (nodes m)}" for n i xs
  proof -
    have "n_key (nodes m' ! a) = n_key (nodes m ! a)" if "a \<in> set xs" for a
      using e that \<open>set xs \<subseteq> _\<close> unfolding edited_def by blast
    then show ?thesis unfolding bucket_ok_def by (simp cong: map_cong)
  qed
  have each: "\<exists>xs. chain (nodes m') (bucket m' i) xs \<and> bucket_ok hash (buckets_n m) i (nodes m') xs" if i: "i < buckets_n m" for i
  proof (cases "i = idx")
    case True
    then show ?thesis using e ls cong [OF bnd] unfolding edited_def by blast
  next
    case False
    obtain js where js: "chain (nodes m) (bucket m i) js" "bucket_ok hash (buckets_n m) i (nodes m) js"
      using shape_bucket [OF s i] by blast
    then show ?thesis using e i False cong [OF chain_bounded [OF js(1)]] unfolding edited_def by blast
  qed
  have tables: "table_ok (nodes m') (tables m' ! t)" if t: "t < length (tables m)" for t
  proof (cases "t = table m")
    case True
    have "\<exists>xs. chain (nodes m') p xs" if "p \<in> set (t_buckets (cur_table m'))" for p
      using each len that by (metis in_set_conv_nth)
    then have "table_ok (nodes m') (cur_table m')"
      using len shape_cur [OF s] edited_size [OF e] unfolding table_ok_def by simp
    then show ?thesis using e True unfolding edited_def by metis
  next
    case False
    have "table_ok (nodes m) (tables m ! t)" using s t by (simp add: rcu_shape_def)
    then show ?thesis using e t False walks_chain [OF w] unfolding edited_def table_ok_def by metis
  qed
  show ?thesis unfolding rcu_shape_def
  proof (intro conjI allI impI ballI)
    show "table m' < length (tables m')" using e s by (simp add: edited_def rcu_shape_def)
    show "table_ok (nodes m') t" if "t \<in> set (tables m')" for t
      using tables that e by (metis edited_def in_set_conv_nth)
    show "heap_ok (nodes m')" using e nxt s by (simp add: heap_ok_def edited_def rcu_shape_def)
    show "bucket_ok hash (buckets_n m') i (nodes m') xs"
      if "i < buckets_n m'" "chain (nodes m') (bucket m' i) xs" for i xs
      using each [of i] that e chain_unique by (metis edited_def)
  qed
qed

lemma edited_map:
  assumes s: "rcu_shape hash m" and e: "edited m m' idx ls" and s': "rcu_shape hash m'"
  shows "rcu_map hash m' key = (if hash key mod buckets_n m = idx then lookup (nodes m) ls key else rcu_map hash m key)"
proof -
  have cong: "lookup (nodes m') xs key = lookup (nodes m) xs key" if "set xs \<subseteq> {..<length (nodes m)}" for xs
    by (rule lookup_cong) (use e that in \<open>auto simp: edited_def\<close>)
  show ?thesis
  proof (cases "hash key mod buckets_n m = idx")
    case True
    then have c: "chain (nodes m') (bucket m' (hash key mod buckets_n m')) ls"
      using edited_chain [OF e] unfolding edited_size [OF e] by blast
    then show ?thesis using Get_chain(2) [OF s' c] True cong chain_bounded [OF c] e by (simp add: edited_def)
  next
    case False
    obtain js where js: "chain (nodes m) (bucket m (hash key mod buckets_n m)) js"
      using shape_bucket [OF s index_less [OF s]] by blast
    then have "chain (nodes m') (bucket m' (hash key mod buckets_n m')) js"
      using edited_other [OF e index_less [OF s] False] unfolding edited_size [OF e] by blast
    then show ?thesis using Get_chain(2) [OF s'] Get_chain(2) [OF s js] False cong [OF chain_bounded [OF js]] by simp
  qed
qed

lemma bucket_ok_Cons: "bucket_ok hash n i h (a # xs) \<longleftrightarrow> bucket_ok hash n i h xs
    \<and> hash (n_key (h ! a)) mod n = i \<and> n_key (h ! a) \<notin> (\<lambda>b. n_key (h ! b)) ` set xs"
  by (auto simp: bucket_ok_def)

lemma bucket_ok_cong:
  assumes "\<And>a. a \<in> set xs \<Longrightarrow> n_key (g ! a) = n_key (h ! a)"
  shows "bucket_ok hash n i g xs = bucket_ok hash n i h xs"
proof -
  have m: "map (\<lambda>a. n_key (g ! a)) xs = map (\<lambda>a. n_key (h ! a)) xs" using assms by (intro map_cong) auto
  show ?thesis unfolding bucket_ok_def m using assms by auto
qed

lemma alloc_shape:
  assumes s: "rcu_shape hash m" and x: "n_seq x = 0" "\<exists>xs. chain (nodes m) (n_next x) xs"
  defines "m1 \<equiv> m\<lparr>nodes := nodes m @ [x]\<rparr>"
  shows "rcu_shape hash m1" and "rcu_map hash m1 = rcu_map hash m"
proof -
  have ex: "\<exists>xs. chain (nodes m1) p xs" if "\<exists>xs. chain (nodes m) p xs" for p
    using that chain_append unfolding m1_def by fastforce
  have fields: "tables m1 = tables m" "table m1 = table m" by (simp_all add: m1_def)
  have old: "nodes m1 ! a = nodes m ! a" if "a < length (nodes m)" for a using that by (simp add: m1_def nth_append)
  have same: "chain (nodes m1) (bucket m i) xs \<and> bucket_ok hash (buckets_n m) i (nodes m1) xs"
    if c: "chain (nodes m) (bucket m i) xs" "bucket_ok hash (buckets_n m) i (nodes m) xs" for i xs
  proof -
    have "n_key (nodes m1 ! a) = n_key (nodes m ! a)" if "a \<in> set xs" for a
      using old chain_bounded [OF c(1)] that by auto
    then have "bucket_ok hash (buckets_n m) i (nodes m1) xs" using bucket_ok_cong [of xs "nodes m1" "nodes m"] c(2) by blast
    then show ?thesis using chain_append [OF c(1)] by (simp add: m1_def)
  qed
  show s1: "rcu_shape hash m1" unfolding rcu_shape_def fields
  proof (intro conjI allI impI ballI)
    show "table m < length (tables m)" using s by (simp add: rcu_shape_def)
    show "table_ok (nodes m1) t" if "t \<in> set (tables m)" for t
      using s that ex unfolding rcu_shape_def table_ok_def by blast
    show "heap_ok (nodes m1)" unfolding heap_ok_def
    proof (intro allI impI)
      fix a assume a: "a < length (nodes m1)"
      show "n_seq (nodes m1 ! a) = 0 \<and> (\<exists>xs. chain (nodes m1) (n_next (nodes m1 ! a)) xs)"
      proof (cases "a < length (nodes m)")
        case True
        then show ?thesis using s ex old unfolding rcu_shape_def heap_ok_def by simp
      next
        case False
        then have "nodes m1 ! a = x" using a by (simp add: m1_def less_Suc_eq)
        then show ?thesis using x ex by simp
      qed
    qed
    show "bucket_ok hash (buckets_n m) i (nodes m1) xs"
      if i: "i < buckets_n m" "chain (nodes m1) (bucket m i) xs" for i xs
      using same chain_unique [OF i(2)] shape_bucket [OF s i(1)] by metis
  qed
  show "rcu_map hash m1 = rcu_map hash m"
  proof
    fix key
    obtain xs where c: "chain (nodes m) (bucket m (hash key mod buckets_n m)) xs"
      using shape_bucket [OF s index_less [OF s]] by blast
    have "chain (nodes m1) (bucket m1 (hash key mod buckets_n m1)) xs"
      using chain_append [OF c, of "[x]"] by (simp add: m1_def)
    then have "rcu_map hash m1 key = lookup (nodes m1) xs key" by (rule Get_chain(2) [OF s1])
    also have "\<dots> = lookup (nodes m) xs key" by (rule lookup_cong) (use old chain_bounded [OF c] in auto)
    also have "\<dots> = rcu_map hash m key" using Get_chain(2) [OF s c] by simp
    finally show "rcu_map hash m1 key = rcu_map hash m key" .
  qed
qed

text \<open>
  One splice, as \<open>Put\<close> and \<open>Remove\<close> do it: the node \<open>c\<close> with the key and the rest \<open>zs\<close> of its list give
  way to \<open>ws\<close>.
\<close>

lemma link_after_spec:
  assumes s: "rcu_shape hash m" and idx: "idx = hash key mod buckets_n m"
    and c: "chain (nodes m) (bucket m idx) (ys @ c # zs)" and key: "n_key (nodes m ! c) = key"
    and prev: "prev = (if ys = [] then None else Some (last ys))"
    and q: "chain (nodes m) q ws" "set ws \<inter> set ys = {}"
    and ws: "lookup (nodes m) ws key = res" "\<And>key'. key' \<noteq> key \<Longrightarrow> lookup (nodes m) ws key' = lookup (nodes m) zs key'"
      "length ws \<le> Suc (length zs)"
    and ok: "bucket_ok hash (buckets_n m) idx (nodes m) (ys @ ws)"
  defines "m' \<equiv> link_after prev idx q m"
  shows "edited m m' idx (ys @ ws)" and "walks_follow (nodes m) (nodes m') key res" and "rcu_shape hash m'"
    and "rcu_map hash m' = (rcu_map hash m)(key := res)"
proof -
  have lt: "idx < buckets_n m" using index_less [OF s] idx by simp
  have b: "bucket_ok hash (buckets_n m) idx (nodes m) (ys @ c # zs)" using s lt c unfolding rcu_shape_def by blast
  have zs: "key \<notin> (\<lambda>b. n_key (nodes m ! b)) ` set zs" "lookup (nodes m) ys key = None"
    using b key by (auto simp: bucket_ok_def lookup_None)
  have "edited m m' idx (ys @ ws) \<and> walks_follow (nodes m) (nodes m') key res
      \<and> (\<forall>a < length (nodes m). \<exists>xs. chain (nodes m') (n_next (nodes m' ! a)) xs)
      \<and> length (t_buckets (cur_table m')) = buckets_n m"
  proof (cases "ys = []")
    case True
    then have m': "m' = set_bucket idx q m" by (simp add: m'_def prev link_after_def)
    have "edited m m' idx ws" unfolding m' by (rule set_bucket_edited [OF s lt q(1)])
    moreover have "nodes m' = nodes m" by (simp add: m' set_bucket_def)
    ultimately show ?thesis using walks_refl s shape_cur [OF s] True
      by (auto simp: m' set_bucket_def rcu_shape_def heap_ok_def table_ok_def)
  next
    case False
    define a where "a = last ys"
    have ys: "ys = butlast ys @ [a]" using False by (simp add: a_def)
    have m': "m' = set_next a q m" using False by (simp add: m'_def prev link_after_def a_def)
    have a: "a \<notin> set ws" using q(2) False by (auto simp: a_def)
    have ca: "chain (nodes m) (bucket m idx) (butlast ys @ a # c # zs)" using c ys by (metis append.assoc append_Cons append_Nil)
    then have at: "chain (nodes m) (Some a) (a # c # zs)" "a < length (nodes m)" using chain_split by blast+
    have e: "edited m m' idx (butlast ys @ a # ws)" unfolding m' by (rule set_next_edited [OF s lt ca q(1) a])
    have w: "walks_follow (nodes m) (nodes m') key res"
      unfolding m' set_next_def using walks_relink [OF at(1) q(1) a key zs(1) ws] by simp
    have "\<exists>xs. chain (nodes m') (n_next (nodes m' ! b)) xs" if b: "b < length (nodes m)" for b
    proof (cases "b = a")
      case True
      then show ?thesis using chain_relink_other [OF q(1) a] at(2) by (auto simp: m' set_next_def)
    next
      case False
      have "\<exists>xs. chain (nodes m) (n_next (nodes m ! b)) xs" using s b unfolding rcu_shape_def heap_ok_def by blast
      then show ?thesis using walks_chain [OF w] False by (simp add: m' set_next_def)
    qed
    moreover have "butlast ys @ a # ws = ys @ ws" using ys by (metis append.assoc append_Cons append_Nil)
    then have "edited m m' idx (ys @ ws)" using e by metis
    ultimately show ?thesis using w shape_cur [OF s] by (simp add: m' set_next_def table_ok_def)
  qed
  then show e: "edited m m' idx (ys @ ws)" and w: "walks_follow (nodes m) (nodes m') key res"
    and s': "rcu_shape hash m'"
    using edited_shape [OF s _ _ lt ok] by blast+
  show "rcu_map hash m' = (rcu_map hash m)(key := res)"
  proof
    fix k
    have "rcu_map hash m k = lookup (nodes m) (ys @ c # zs) k" if "hash k mod buckets_n m = idx"
      using Get_chain(2) [OF s] c that by blast
    then show "rcu_map hash m' k = ((rcu_map hash m)(key := res)) k"
      using edited_map [OF s e s', of k] ws zs(2) key idx
      by (auto simp: lookup_append lookup_Cons split: option.split)
  qed
qed

section \<open>The operations\<close>

text \<open>What a reader that is under way may rely on when \<open>m\<close> becomes \<open>m'\<close>.\<close>

definition follows :: "('k, 'v) rcu \<Rightarrow> ('k, 'v) rcu \<Rightarrow> 'k \<Rightarrow> 'v option \<Rightarrow> bool" where
  "follows m m' key res \<longleftrightarrow>
     (\<forall>t < length (tables m). tables m' ! t = tables m ! t \<or> t = table m \<and> table m' = table m)
   \<and> length (tables m) \<le> length (tables m') \<and> length (nodes m) \<le> length (nodes m')
   \<and> (\<forall>a < length (nodes m). n_key (nodes m' ! a) = n_key (nodes m ! a) \<and> n_value (nodes m' ! a) = n_value (nodes m ! a))
   \<and> walks_follow (nodes m) (nodes m') key res"

definition linked :: "('k, 'v) rcu \<Rightarrow> nat \<Rightarrow> bool" where
  "linked m a \<longleftrightarrow> (\<exists>i < buckets_n m. \<exists>xs. chain (nodes m) (bucket m i) xs \<and> a \<in> set xs)"

lemma edited_follows:
  assumes "edited (m\<lparr>nodes := nodes m @ g\<rparr>) m' idx ls" and "walks_follow (nodes m @ g) (nodes m') key res"
  shows "follows m (m'\<lparr>count := c, generation := n, retirements := r\<rparr>) key res"
  using assms walks_trans [OF walks_append assms(2)]
  unfolding follows_def edited_def by (auto simp: nth_append)

lemma edited_unlinks:
  assumes s: "rcu_shape hash m" and e: "edited m m' idx (ys @ ws)" and lt: "idx < buckets_n m"
    and c: "chain (nodes m) (bucket m idx) (ys @ c # zs)" "c \<notin> set ws"
  shows "linked m c" and "\<not> linked m' c"
proof -
  show "linked m c" using lt c(1) unfolding linked_def by force
  have b: "bucket_ok hash (buckets_n m) idx (nodes m) (ys @ c # zs)" using s lt c(1) unfolding rcu_shape_def by blast
  have "c \<notin> set xs" if x: "i < buckets_n m" "chain (nodes m') (bucket m' i) xs" for i xs
  proof (cases "i = idx")
    case True
    then have "xs = ys @ ws" using chain_unique [OF x(2)] edited_chain [OF e] by blast
    then show ?thesis using chain_distinct [OF c(1)] c(2) by auto
  next
    case False
    obtain js where js: "chain (nodes m) (bucket m i) js" "bucket_ok hash (buckets_n m) i (nodes m) js"
      using shape_bucket [OF s x(1)] by blast
    then have "xs = js" using chain_unique [OF x(2)] edited_other [OF e x(1) False] by blast
    then show ?thesis using js(2) b False by (auto simp: bucket_ok_def)
  qed
  then show "\<not> linked m' c" using edited_size [OF e] unfolding linked_def by metis
qed

lemma rcu_map_fields [simp]:
  "rcu_map hash (m\<lparr>count := c, generation := n, retirements := r\<rparr>) = rcu_map hash m"
  "rcu_shape hash (m\<lparr>count := c, generation := n, retirements := r\<rparr>) = rcu_shape hash m"
  "linked (m\<lparr>count := c, generation := n, retirements := r\<rparr>) = linked m"
  by (auto simp: rcu_map_def Get_def rcu_shape_def linked_def fun_eq_iff)

lemma located:
  assumes s: "rcu_shape hash m"
    and l: "locate (length (nodes m)) (nodes m) key None (bucket m (hash key mod buckets_n m)) = Some (prev, c)"
  obtains ys zs where "chain (nodes m) (bucket m (hash key mod buckets_n m)) (ys @ c # zs)"
    "bucket_ok hash (buckets_n m) (hash key mod buckets_n m) (nodes m) (ys @ c # zs)"
    "n_key (nodes m ! c) = key" "prev = (if ys = [] then None else Some (last ys))"
    "rcu_map hash m key = Some (n_value (nodes m ! c))"
proof -
  obtain xs where xs: "chain (nodes m) (bucket m (hash key mod buckets_n m)) xs"
    "bucket_ok hash (buckets_n m) (hash key mod buckets_n m) (nodes m) xs"
    using shape_bucket [OF s index_less [OF s]] by blast
  obtain ys zs where z: "xs = ys @ c # zs" "key \<notin> (\<lambda>a. n_key (nodes m ! a)) ` set ys" "n_key (nodes m ! c) = key"
    "prev = (if ys = [] then None else Some (last ys))"
    using locate_Some [OF xs(1) l] by blast
  have "lookup (nodes m) xs key = Some (n_value (nodes m ! c))"
    using locate_lookup [OF xs(1) chain_length [OF xs(1)], of key None] l by simp
  then show thesis using that xs z Get_chain(2) [OF s xs(1)] by metis
qed

lemma not_located:
  assumes s: "rcu_shape hash m"
    and l: "locate (length (nodes m)) (nodes m) key None (bucket m (hash key mod buckets_n m)) = None"
  obtains xs where "chain (nodes m) (bucket m (hash key mod buckets_n m)) xs"
    "bucket_ok hash (buckets_n m) (hash key mod buckets_n m) (nodes m) xs"
    "key \<notin> (\<lambda>a. n_key (nodes m ! a)) ` set xs" "rcu_map hash m key = None"
proof -
  obtain xs where xs: "chain (nodes m) (bucket m (hash key mod buckets_n m)) xs"
    "bucket_ok hash (buckets_n m) (hash key mod buckets_n m) (nodes m) xs"
    using shape_bucket [OF s index_less [OF s]] by blast
  have "key \<notin> (\<lambda>a. n_key (nodes m ! a)) ` set xs"
    using locate_None [OF xs(1) chain_length [OF xs(1)], of key None] l by blast
  then show thesis using that xs Get_chain(2) [OF s xs(1)] lookup_None [of "nodes m" xs key] by metis
qed

lemma Remove_spec:
  assumes s: "rcu_shape hash m"
  obtains m' where "Remove hash key m = Some (rcu_map hash m key \<noteq> None, m')" "rcu_shape hash m'"
    "rcu_map hash m' = (rcu_map hash m)(key := None)" "follows m m' key None"
    "count m' = (if rcu_map hash m key = None then count m else count m - 1)"
    "rcu_map hash m key = None \<longrightarrow> m' = m"
    "rcu_map hash m key \<noteq> None \<longrightarrow> (\<exists>c. retirements m' = retirements m @ [RetiredNode c] \<and> linked m c \<and> \<not> linked m' c)"
proof (cases "locate (length (nodes m)) (nodes m) key None (bucket m (hash key mod buckets_n m))")
  case None
  then have "rcu_map hash m key = None" using not_located [OF s] by blast
  moreover have "Remove hash key m = Some (False, m)"
    using None shape_cur [OF s] by (simp add: Remove_def table_ok_def Let_def)
  moreover have "follows m m key None" by (simp add: follows_def walks_refl)
  moreover have "(rcu_map hash m)(key := None) = rcu_map hash m" using calculation(1) by auto
  ultimately show thesis using that [of m] s by simp
next
  case (Some r)
  obtain prev c where r: "r = (prev, c)" by fastforce
  obtain ys zs where z: "chain (nodes m) (bucket m (hash key mod buckets_n m)) (ys @ c # zs)"
    "bucket_ok hash (buckets_n m) (hash key mod buckets_n m) (nodes m) (ys @ c # zs)"
    "n_key (nodes m ! c) = key" "prev = (if ys = [] then None else Some (last ys))"
    "rcu_map hash m key = Some (n_value (nodes m ! c))"
    using located [OF s Some [unfolded r]] by metis
  define q where "q = n_next (nodes m ! c)"
  define m1 where "m1 = link_after prev (hash key mod buckets_n m) q m"
  have cz: "chain (nodes m) q zs" using chain_split [OF z(1)] by (simp add: q_def)
  have disj: "set zs \<inter> set ys = {}" "c \<notin> set zs" using chain_distinct [OF z(1)] by auto
  have ok: "bucket_ok hash (buckets_n m) (hash key mod buckets_n m) (nodes m) (ys @ zs)"
    using z(2) by (simp add: bucket_ok_def)
  have none: "lookup (nodes m) zs key = None" using z(2,3) by (auto simp: lookup_None bucket_ok_def)
  have shorter: "length zs \<le> Suc (length zs)" by simp
  note L = link_after_spec [OF s refl z(1,3,4) cz disj(1) none refl shorter ok, folded m1_def]
  define m' where "m' = m1\<lparr>count := count m1 - 1, generation := generation m1 + 1,
      retirements := retirements m1 @ [RetiredNode c]\<rparr>"
  have keep: "count m1 = count m" "retirements m1 = retirements m" using L(1) by (simp_all add: edited_def)
  have "Remove hash key m = Some (True, m')"
    using Some shape_cur [OF s] by (simp add: Remove_def table_ok_def Let_def r m'_def m1_def q_def)
  moreover have "follows m m' key None"
    using edited_follows [of m "[]" m1 "hash key mod buckets_n m" "ys @ zs" key None] L(1,2) by (simp add: m'_def)
  moreover have "linked m c" "\<not> linked m1 c" using edited_unlinks [OF s L(1) index_less [OF s] z(1) disj(2)] by blast+
  ultimately show thesis using that [of m'] z(5) L(3,4) keep by (simp add: m'_def)
qed

lemma Put_link_spec:
  assumes s: "rcu_shape hash m"
  obtains m' where "Put_link hash key v m = Some m'" "rcu_shape hash m'"
    "rcu_map hash m' = (rcu_map hash m)(key \<mapsto> v)" "follows m m' key (Some v)"
    "count m' = (if rcu_map hash m key = None then count m + 1 else count m)"
    "rcu_map hash m key = None \<longrightarrow> retirements m' = retirements m"
    "rcu_map hash m key \<noteq> None \<longrightarrow> (\<exists>c. retirements m' = retirements m @ [RetiredNode c] \<and> linked m c \<and> \<not> linked m' c)"
proof (cases "locate (length (nodes m)) (nodes m) key None (bucket m (hash key mod buckets_n m))")
  case None
  obtain xs where xs: "chain (nodes m) (bucket m (hash key mod buckets_n m)) xs"
    "bucket_ok hash (buckets_n m) (hash key mod buckets_n m) (nodes m) xs"
    "key \<notin> (\<lambda>a. n_key (nodes m ! a)) ` set xs" "rcu_map hash m key = None"
    using not_located [OF s None] by metis
  let ?i = "hash key mod buckets_n m"
  define x where "x = new_node key v (bucket m ?i)"
  define m1 where "m1 = m\<lparr>nodes := nodes m @ [x]\<rparr>"
  define b where "b = length (nodes m)"
  have nx: "n_next x = bucket m ?i" "n_key x = key" "n_value x = v" "n_seq x = 0" by (simp_all add: x_def new_node_def)
  have A: "rcu_shape hash m1" "rcu_map hash m1 = rcu_map hash m"
    unfolding m1_def by (rule alloc_shape [OF s]; use nx xs(1) in auto)+
  have m1: "nodes m1 = nodes m @ [x]" "buckets_n m1 = buckets_n m" "nodes m1 ! b = x" "\<And>i. bucket m1 i = bucket m i"
    by (simp_all add: m1_def b_def)
  have c: "chain (nodes m1) (Some b) (b # xs)"
    using chain_append [OF xs(1), of "[x]"] nx by (simp add: m1 b_def)
  have i: "?i < buckets_n m1" using index_less [OF s] by (simp add: m1)
  define m2 where "m2 = set_bucket ?i (Some b) m1"
  have e: "edited m1 m2 ?i (b # xs)" unfolding m2_def by (rule set_bucket_edited [OF A(1) i c])
  have nodes2: "nodes m2 = nodes m1" by (simp add: m2_def set_bucket_def)
  have old: "n_key (nodes m1 ! a) = n_key (nodes m ! a)" "n_value (nodes m1 ! a) = n_value (nodes m ! a)" if "a \<in> set xs" for a
    using chain_bounded [OF xs(1)] that by (auto simp: m1 nth_append)
  have keys: "(\<lambda>a. n_key (nodes m1 ! a)) ` set xs = (\<lambda>a. n_key (nodes m ! a)) ` set xs"
    by (rule image_cong [OF refl]) (rule old(1))
  have ok: "bucket_ok hash (buckets_n m1) ?i (nodes m1) (b # xs)"
    unfolding bucket_ok_Cons
  proof (intro conjI)
    show "bucket_ok hash (buckets_n m1) ?i (nodes m1) xs"
      using xs(2) bucket_ok_cong [of xs "nodes m1" "nodes m"] old(1) unfolding m1(2) by blast
    show "hash (n_key (nodes m1 ! b)) mod buckets_n m1 = ?i" unfolding m1(2,3) nx ..
    show "n_key (nodes m1 ! b) \<notin> (\<lambda>b. n_key (nodes m1 ! b)) ` set xs"
      unfolding m1(3) nx keys by (rule xs(3))
  qed
  have "length (t_buckets (cur_table m2)) = buckets_n m1"
    using shape_cur [OF A(1)] A(1) by (simp add: m2_def set_bucket_def table_ok_def rcu_shape_def)
  then have s2: "rcu_shape hash m2"
    using A(1) by (intro edited_shape [OF A(1) e _ i ok, of key "Some v"])
      (auto simp: nodes2 walks_refl rcu_shape_def heap_ok_def)
  have "rcu_map hash m2 = (rcu_map hash m)(key \<mapsto> v)"
  proof
    fix k
    have "lookup (nodes m1) xs k = lookup (nodes m) xs k" by (rule lookup_cong) (use old in auto)
    moreover have "rcu_map hash m k = lookup (nodes m) xs k" if "hash k mod buckets_n m = ?i"
      using Get_chain(2) [OF s] xs(1) that by metis
    ultimately show "rcu_map hash m2 k = ((rcu_map hash m)(key \<mapsto> v)) k"
      using edited_map [OF A(1) e s2, of k] by (auto simp: m1(2,3) lookup_Cons nx A(2))
  qed
  moreover define m' where "m' = m2\<lparr>count := count m2 + 1, generation := generation m2 + 1, retirements := retirements m2\<rparr>"
  moreover have "Put_link hash key v m = Some m'"
    using None shape_cur [OF s] by (simp add: Put_link_def table_ok_def Let_def alloc_def m'_def m2_def m1_def b_def x_def)
  moreover have "follows m m' key (Some v)"
    unfolding m'_def by (rule edited_follows [where g = "[x]" and idx = "?i" and ls = "b # xs"])
      (use e nodes2 walks_refl in \<open>simp_all add: m1_def\<close>)
  moreover have "count m2 = count m" "retirements m2 = retirements m" by (simp_all add: m2_def set_bucket_def m1_def)
  ultimately show thesis using that [of m'] xs(4) s2 by simp
next
  case (Some r)
  obtain prev c where r: "r = (prev, c)" by fastforce
  let ?i = "hash key mod buckets_n m"
  obtain ys zs where z: "chain (nodes m) (bucket m ?i) (ys @ c # zs)"
    "bucket_ok hash (buckets_n m) ?i (nodes m) (ys @ c # zs)"
    "n_key (nodes m ! c) = key" "prev = (if ys = [] then None else Some (last ys))"
    "rcu_map hash m key = Some (n_value (nodes m ! c))"
    using located [OF s Some [unfolded r]] by metis
  define x where "x = new_node key v (n_next (nodes m ! c))"
  define m1 where "m1 = m\<lparr>nodes := nodes m @ [x]\<rparr>"
  define b where "b = length (nodes m)"
  have nx: "n_next x = n_next (nodes m ! c)" "n_key x = key" "n_value x = v" "n_seq x = 0"
    by (simp_all add: x_def new_node_def)
  have cz: "chain (nodes m) (n_next (nodes m ! c)) zs" using chain_split [OF z(1)] by simp
  have A: "rcu_shape hash m1" "rcu_map hash m1 = rcu_map hash m"
    unfolding m1_def by (rule alloc_shape [OF s]; use nx cz in auto)+
  have m1: "nodes m1 = nodes m @ [x]" "buckets_n m1 = buckets_n m" "nodes m1 ! b = x" "\<And>i. bucket m1 i = bucket m i"
    by (simp_all add: m1_def b_def)
  have bnd: "set (ys @ c # zs) \<subseteq> {..<b}" using chain_bounded [OF z(1)] by (simp add: b_def)
  have old: "n_key (nodes m1 ! a) = n_key (nodes m ! a)" if "a < b" for a using that by (simp add: m1 nth_append b_def)
  have z1: "chain (nodes m1) (bucket m1 (hash key mod buckets_n m1)) (ys @ c # zs)"
    using chain_append [OF z(1), of "[x]"] by (simp add: m1)
  have new: "chain (nodes m1) (Some b) (b # zs)"
    using chain_append [OF cz, of "[x]"] nx by (simp add: m1 b_def)
  have disj: "set (b # zs) \<inter> set ys = {}" "c \<notin> set (b # zs)" using chain_distinct [OF z(1)] bnd by auto
  have k1: "n_key (nodes m1 ! c) = key" using old bnd z(3) by auto
  have ok1: "bucket_ok hash (buckets_n m1) (hash key mod buckets_n m1) (nodes m1) (ys @ c # zs)"
    using A(1) z1 index_less [OF A(1)] unfolding rcu_shape_def by blast
  then have ok: "bucket_ok hash (buckets_n m1) (hash key mod buckets_n m1) (nodes m1) (ys @ b # zs)"
    using k1 nx by (auto simp: bucket_ok_def m1(3))
  have ws: "lookup (nodes m1) (b # zs) key = Some v"
    "\<And>k. k \<noteq> key \<Longrightarrow> lookup (nodes m1) (b # zs) k = lookup (nodes m1) zs k"
    "length (b # zs) \<le> Suc (length zs)"
    by (simp_all add: lookup_Cons m1(3) nx)
  define m2 where "m2 = link_after prev (hash key mod buckets_n m1) (Some b) m1"
  note L = link_after_spec [OF A(1) refl z1 k1 z(4) new disj(1) ws ok, folded m2_def]
  have keep: "count m2 = count m" "retirements m2 = retirements m" using L(1) by (simp_all add: edited_def m1_def)
  define m' where "m' = m2\<lparr>count := count m2, generation := generation m2 + 1,
      retirements := retirements m2 @ [RetiredNode c]\<rparr>"
  have "Put_link hash key v m = Some m'"
    using Some shape_cur [OF s]
    by (simp add: Put_link_def table_ok_def Let_def alloc_def m'_def m2_def m1_def b_def x_def r)
  moreover have "follows m m' key (Some v)"
    unfolding m'_def by (rule edited_follows [where g = "[x]" and ls = "ys @ b # zs"])
      (use L(1,2) in \<open>simp_all add: m1_def\<close>)
  moreover have "linked m1 c" "\<not> linked m2 c" using edited_unlinks [OF A(1) L(1) index_less [OF A(1)] z1 disj(2)] by blast+
  moreover have "linked m c" using z(1) index_less [OF s] unfolding linked_def by force
  ultimately show thesis using that [of m'] z(5) L(3,4) keep A(2) by (simp add: m'_def)
qed

section \<open>Resizing\<close>

definition copy_one :: "('k \<Rightarrow> nat) \<Rightarrow> nat \<Rightarrow> nat \<Rightarrow> ('k, 'v) rcu_node list \<times> nat option list
    \<Rightarrow> ('k, 'v) rcu_node list \<times> nat option list" where
  "copy_one hash n a hb =
     (let (h, bs) = hb; i = hash (n_key (h ! a)) mod n
      in (h @ [new_node (n_key (h ! a)) (n_value (h ! a)) (bs ! i)], bs[i := Some (length h)]))"

lemma copy_bucket_fold:
  assumes "chain h p xs" and "length xs \<le> n"
  shows "copy_bucket n hash N p (h, bs) = fold (copy_one hash N) xs (h, bs)"
  using assms
proof (induction n arbitrary: h p xs bs)
  case (Suc n)
  show ?case
  proof (cases xs)
    case (Cons a as)
    then have c: "p = Some a" "chain h (n_next (h ! a)) as" using Suc.prems(1) by auto
    then show ?thesis using Suc.IH [OF chain_append [OF c(2)]] Suc.prems(2) Cons
      by (simp add: copy_one_def Let_def)
  qed (use Suc.prems in auto)
qed simp

lemma copy_buckets_fold:
  assumes "list_all2 (chain h) ps xss" and "\<And>xs. xs \<in> set xss \<Longrightarrow> length xs \<le> n"
  shows "\<exists>g'. fold (\<lambda>b hb. copy_bucket n hash N b hb) ps (h @ g, bs) = fold (copy_one hash N) (concat xss) (h @ g, bs)"
  using assms
proof (induction ps xss arbitrary: g bs rule: list_all2_induct)
  case (Cons p ps xs xss)
  have grow: "\<exists>g'. fst (fold (copy_one hash N) as (h @ g, bs)) = h @ g'" for as g bs
  proof (induction as arbitrary: g bs)
    case (Cons a as)
    then show ?case by (simp add: copy_one_def Let_def)
  qed simp
  obtain g' bs' where g': "fold (copy_one hash N) xs (h @ g, bs) = (h @ g', bs')"
    using grow [of xs g bs] by (metis prod.collapse)
  have "copy_bucket n hash N p (h @ g, bs) = (h @ g', bs')"
    using copy_bucket_fold [OF chain_append [OF Cons.hyps(1)]] Cons.prems g' by simp
  then show ?case using Cons.IH [of g' bs'] Cons.prems g' by simp
qed simp

text \<open>The new buckets hold the pairs \<open>M\<close>, in nodes behind the old heap.\<close>

definition copied :: "('k \<Rightarrow> nat) \<Rightarrow> nat \<Rightarrow> ('k, 'v) rcu_node list \<Rightarrow> ('k, 'v) rcu_node list \<times> nat option list
    \<Rightarrow> ('k \<Rightarrow> 'v option) \<Rightarrow> bool" where
  "copied hash n h hb M \<longleftrightarrow>
     (\<exists>g. fst hb = h @ g \<and> (\<forall>x \<in> set g. n_seq x = 0 \<and> (\<exists>xs. chain (fst hb) (n_next x) xs)))
   \<and> length (snd hb) = n
   \<and> (\<forall>i < n. \<exists>xs. chain (fst hb) (snd hb ! i) xs \<and> bucket_ok hash n i (fst hb) xs
        \<and> (\<forall>key. hash key mod n = i \<longrightarrow> lookup (fst hb) xs key = M key))"

lemma copied_empty: "copied hash n h (h, replicate n None) Map.empty"
  by (auto simp: copied_def bucket_ok_def intro!: exI [of _ "[]"])

lemma copy_one_copied:
  assumes c: "copied hash n h hb M" and a: "a < length h" and new: "M (n_key (h ! a)) = None" and "0 < n"
  shows "copied hash n h (copy_one hash n a hb) (M(n_key (h ! a) \<mapsto> n_value (h ! a)))"
proof -
  obtain h1 bs where hb: "hb = (h1, bs)" by fastforce
  obtain g where g: "h1 = h @ g" "\<forall>x \<in> set g. n_seq x = 0 \<and> (\<exists>xs. chain h1 (n_next x) xs)" "length bs = n"
    using c unfolding copied_def hb by auto
  have ha: "h1 ! a = h ! a" using a g(1) by (simp add: nth_append)
  define k where "k = n_key (h ! a)"
  define v where "v = n_value (h ! a)"
  define i where "i = hash k mod n"
  have i: "i < n" using \<open>0 < n\<close> by (simp add: i_def)
  define x where "x = new_node k v (bs ! i)"
  have nx: "n_key x = k" "n_value x = v" "n_next x = bs ! i" "n_seq x = 0" by (simp_all add: x_def new_node_def)
  define h2 where "h2 = h1 @ [x]"
  have step: "copy_one hash n a hb = (h2, bs[i := Some (length h1)])"
    by (simp add: copy_one_def hb Let_def ha h2_def x_def i_def k_def v_def)
  have keep: "\<exists>ys. chain h2 (bs ! j) ys \<and> bucket_ok hash n j h2 ys \<and> (\<forall>key. hash key mod n = j \<longrightarrow> lookup h2 ys key = M key)"
    if j: "j < n" for j
  proof -
    obtain ys where ys: "chain h1 (bs ! j) ys" "bucket_ok hash n j h1 ys"
      "\<forall>key. hash key mod n = j \<longrightarrow> lookup h1 ys key = M key"
      using c j unfolding copied_def hb by auto
    have old: "h2 ! b = h1 ! b" if "b \<in> set ys" for b
      using chain_bounded [OF ys(1)] that by (auto simp: h2_def nth_append)
    have "bucket_ok hash n j h2 ys" using bucket_ok_cong [of ys h2 h1] old ys(2) by metis
    moreover have "lookup h2 ys key = lookup h1 ys key" for key by (rule lookup_cong) (simp add: old)
    moreover have "chain h2 (bs ! j) ys" unfolding h2_def by (rule chain_append [OF ys(1)])
    ultimately show ?thesis using ys(3) by metis
  qed
  obtain ys where ys: "chain h2 (bs ! i) ys" "bucket_ok hash n i h2 ys"
    "\<forall>key. hash key mod n = i \<longrightarrow> lookup h2 ys key = M key"
    using keep [OF i] by blast
  have x2: "h2 ! length h1 = x" by (simp add: h2_def)
  have "lookup h2 ys k = None" using ys(3) new by (simp add: i_def k_def)
  then have fresh: "k \<notin> (\<lambda>b. n_key (h2 ! b)) ` set ys" by (simp add: lookup_None)
  have "chain h2 (Some (length h1)) (length h1 # ys)" using ys(1) by (simp add: x2 nx h2_def)
  moreover have "bucket_ok hash n i h2 (length h1 # ys)"
    using ys(2) fresh by (simp add: bucket_ok_Cons x2 nx i_def)
  moreover have "lookup h2 (length h1 # ys) key = (M(k \<mapsto> v)) key" if "hash key mod n = i" for key
    using ys(3) that by (simp add: lookup_Cons x2 nx)
  ultimately have at: "\<exists>zs. chain h2 (bs[i := Some (length h1)] ! i) zs \<and> bucket_ok hash n i h2 zs
      \<and> (\<forall>key. hash key mod n = i \<longrightarrow> lookup h2 zs key = (M(k \<mapsto> v)) key)"
    using i g(3) by (intro exI [of _ "length h1 # ys"]) simp
  have buckets: "\<exists>zs. chain h2 (bs[i := Some (length h1)] ! j) zs \<and> bucket_ok hash n j h2 zs
      \<and> (\<forall>key. hash key mod n = j \<longrightarrow> lookup h2 zs key = (M(k \<mapsto> v)) key)" if j: "j < n" for j
  proof (cases "j = i")
    case True
    then show ?thesis using at by blast
  next
    case False
    then have "hash key mod n = j \<Longrightarrow> (M(k \<mapsto> v)) key = M key" for key by (auto simp: i_def)
    then show ?thesis using keep [OF j] False by simp
  qed
  have "\<forall>y \<in> set (g @ [x]). n_seq y = 0 \<and> (\<exists>xs. chain h2 (n_next y) xs)"
  proof -
    have "\<exists>xs. chain h2 p xs" if "\<exists>xs. chain h1 p xs" for p using that chain_append unfolding h2_def by blast
    then show ?thesis using g(2) ys(1) nx by auto
  qed
  then show ?thesis unfolding copied_def step using buckets g(1,3)
    by (auto simp: h2_def k_def v_def intro!: exI [of _ "g @ [x]"])
qed

lemma fold_copied:
  assumes "copied hash n h hb M" and "set as \<subseteq> {..<length h}" and "distinct (map (\<lambda>a. n_key (h ! a)) as)"
    and "\<And>a. a \<in> set as \<Longrightarrow> M (n_key (h ! a)) = None" and "0 < n"
  shows "copied hash n h (fold (copy_one hash n) as hb)
    (\<lambda>k. case lookup h as k of Some v \<Rightarrow> Some v | None \<Rightarrow> M k)"
  using assms
proof (induction as arbitrary: hb M)
  case (Cons a as)
  have "copied hash n h (copy_one hash n a hb) (M(n_key (h ! a) \<mapsto> n_value (h ! a)))"
    using Cons.prems by (intro copy_one_copied) auto
  moreover have "set as \<subseteq> {..<length h}" "distinct (map (\<lambda>a. n_key (h ! a)) as)" using Cons.prems(2,3) by auto
  moreover have "(M(n_key (h ! a) \<mapsto> n_value (h ! a))) (n_key (h ! b)) = None" if "b \<in> set as" for b
    using Cons.prems(3,4) that by (auto simp: image_iff)
  ultimately have "copied hash n h (fold (copy_one hash n) as (copy_one hash n a hb))
      (\<lambda>k. case lookup h as k of Some v \<Rightarrow> Some v | None \<Rightarrow> (M(n_key (h ! a) \<mapsto> n_value (h ! a))) k)"
    by (rule Cons.IH [OF _ _ _ _ Cons.prems(5)])
  moreover have "lookup h as (n_key (h ! a)) = None" using Cons.prems(3) by (auto simp: lookup_None)
  then have "(\<lambda>k. case lookup h as k of Some v \<Rightarrow> Some v | None \<Rightarrow> (M(n_key (h ! a) \<mapsto> n_value (h ! a))) k)
      = (\<lambda>k. case lookup h (a # as) k of Some v \<Rightarrow> Some v | None \<Rightarrow> M k)"
    by (auto simp: fun_eq_iff lookup_Cons split: option.split)
  ultimately show ?case by simp
qed simp

lemma lookup_iff:
  assumes "distinct (map (\<lambda>a. n_key (h ! a)) xs)"
  shows "lookup h xs k = Some v \<longleftrightarrow> (\<exists>a \<in> set xs. n_key (h ! a) = k \<and> n_value (h ! a) = v)"
  using assms by (auto simp: lookup_def comp_def image_iff dest!: map_of_SomeD intro!: map_of_is_SomeI)

lemma distinct_buckets:
  assumes "\<And>i. i < n \<Longrightarrow> bucket_ok hash N i h (X i)"
  shows "distinct (map (\<lambda>a. n_key (h ! a)) (concat (map X [0..<n])))"
  using assms
proof (induction n)
  case (Suc n)
  have "hash (n_key (h ! a)) mod N = i" if "a \<in> set (X i)" "i < Suc n" for a i
    using Suc.prems [OF that(2)] that(1) by (simp add: bucket_ok_def)
  then have "n_key (h ! a) \<noteq> n_key (h ! b)" if "a \<in> set (X i)" "i < n" "b \<in> set (X n)" for a b i
    using that by (metis less_SucI lessI less_irrefl)
  then have "(\<lambda>a. n_key (h ! a)) ` set (concat (map X [0..<n])) \<inter> (\<lambda>a. n_key (h ! a)) ` set (X n) = {}"
    by auto
  moreover have "distinct (map (\<lambda>a. n_key (h ! a)) (X n))" using Suc.prems [of n] by (simp add: bucket_ok_def)
  ultimately show ?case using Suc by simp
qed simp

lemma Resize_spec:
  assumes s: "rcu_shape hash m" and N: "0 < N"
  defines "m' \<equiv> Resize hash N m"
  shows "rcu_shape hash m'" and "rcu_map hash m' = rcu_map hash m" and "follows m m' key res"
    and "count m' = count m" and "retirements m' = retirements m @ [RetiredTable (table m)]" and "buckets_n m' = N"
proof -
  let ?h = "nodes m" and ?n = "buckets_n m"
  have cur: "length (t_buckets (cur_table m)) = ?n" using shape_cur [OF s] by (simp add: table_ok_def)
  obtain X where X: "\<And>i. i < ?n \<Longrightarrow> chain ?h (bucket m i) (X i) \<and> bucket_ok hash ?n i ?h (X i)"
  proof -
    have "\<forall>i. \<exists>xs. i < ?n \<longrightarrow> chain ?h (bucket m i) xs \<and> bucket_ok hash ?n i ?h xs" using shape_bucket [OF s] by blast
    then show thesis using that by metis
  qed
  define as where "as = concat (map X [0..<?n])"
  have all2: "list_all2 (chain ?h) (t_buckets (cur_table m)) (map X [0..<?n])"
    using X cur by (simp add: list_all2_conv_all_nth)
  have len: "length xs \<le> length ?h" if "xs \<in> set (map X [0..<?n])" for xs using X chain_length that by fastforce
  have sub: "set as \<subseteq> {..<length ?h}" using X chain_bounded unfolding as_def by fastforce
  have dist: "distinct (map (\<lambda>a. n_key (?h ! a)) as)" unfolding as_def by (rule distinct_buckets) (use X in blast)
  have look: "lookup ?h as k = rcu_map hash m k" for k
  proof -
    let ?i = "hash k mod ?n"
    have i: "?i < ?n" by (rule index_less [OF s])
    have sel: "a \<in> set (X ?i) \<longleftrightarrow> a \<in> set as" if "n_key (?h ! a) = k" for a
      using X i that unfolding as_def bucket_ok_def by fastforce
    have "lookup ?h as k = Some v \<longleftrightarrow> lookup ?h (X ?i) k = Some v" for v
      using lookup_iff [OF dist] lookup_iff [of ?h "X ?i"] X [OF i] sel unfolding bucket_ok_def by metis
    then have "lookup ?h as k = lookup ?h (X ?i) k" by (metis option.exhaust)
    then show ?thesis using Get_chain(2) [OF s] X [OF i] by metis
  qed
  obtain h' bs where hb: "fold (copy_one hash N) as (?h, replicate N None) = (h', bs)" by fastforce
  have "fold (\<lambda>b hb. copy_bucket (length ?h) hash N b hb) (t_buckets (cur_table m)) (?h, replicate N None) = (h', bs)"
    using copy_buckets_fold [OF all2 len, of hash N "[]" "replicate N None"] hb by (simp add: as_def)
  then have m': "m' = m\<lparr>nodes := h', tables := tables m @ [\<lparr>t_buckets = bs, t_size = N\<rparr>], table := length (tables m),
      retirements := retirements m @ [RetiredTable (table m)]\<rparr>"
    by (simp add: m'_def Resize_def Let_def new_table_def)
  have "copied hash N ?h (fold (copy_one hash N) as (?h, replicate N None))
      (\<lambda>k. case lookup ?h as k of Some v \<Rightarrow> Some v | None \<Rightarrow> Map.empty k)"
    by (rule fold_copied [OF copied_empty sub dist _ N]) simp
  moreover have "(\<lambda>k. case lookup ?h as k of Some v \<Rightarrow> Some v | None \<Rightarrow> Map.empty k) = rcu_map hash m"
    by (auto simp: look fun_eq_iff split: option.split)
  ultimately have c: "copied hash N ?h (h', bs) (rcu_map hash m)" by (simp only: hb)
  obtain g where g: "h' = ?h @ g" "\<forall>x \<in> set g. n_seq x = 0 \<and> (\<exists>xs. chain h' (n_next x) xs)" "length bs = N"
    using c unfolding copied_def by auto
  have new: "\<exists>xs. chain h' (bs ! i) xs \<and> bucket_ok hash N i h' xs
      \<and> (\<forall>key. hash key mod N = i \<longrightarrow> lookup h' xs key = rcu_map hash m key)" if "i < N" for i
    using c that unfolding copied_def by auto
  have ex: "\<exists>xs. chain h' p xs" if "\<exists>xs. chain ?h p xs" for p using that chain_append unfolding g(1) by blast
  have fields: "nodes m' = h'" "cur_table m' = \<lparr>t_buckets = bs, t_size = N\<rparr>" by (simp_all add: m')
  show s': "rcu_shape hash m'" unfolding rcu_shape_def
  proof (intro conjI allI impI ballI)
    show "table m' < length (tables m')" by (simp add: m')
    have "table_ok h' \<lparr>t_buckets = bs, t_size = N\<rparr>"
      using N g(3) new by (auto simp: table_ok_def in_set_conv_nth) blast
    moreover have "table_ok h' t" if "t \<in> set (tables m)" for t
      using s that ex unfolding rcu_shape_def table_ok_def by blast
    ultimately show "table_ok (nodes m') t" if "t \<in> set (tables m')" for t using that by (auto simp: m')
    have "n_seq x = 0 \<and> (\<exists>xs. chain h' (n_next x) xs)" if "x \<in> set ?h" for x
      using s that ex unfolding rcu_shape_def heap_ok_def by (metis in_set_conv_nth)
    then have "n_seq x = 0 \<and> (\<exists>xs. chain h' (n_next x) xs)" if "x \<in> set h'" for x
      using that g(1,2) by auto
    then show "heap_ok (nodes m')" unfolding heap_ok_def fields using nth_mem by blast
    show "bucket_ok hash (buckets_n m') i (nodes m') xs"
      if "i < buckets_n m'" "chain (nodes m') (bucket m' i) xs" for i xs
      using that new [of i] chain_unique unfolding fields by (metis rcu_table.select_convs)
  qed
  show "rcu_map hash m' = rcu_map hash m"
  proof
    fix k
    have "hash k mod N < N" using N by simp
    then obtain xs where xs: "chain h' (bs ! (hash k mod N)) xs" "lookup h' xs k = rcu_map hash m k"
      using new by blast
    then have "chain (nodes m') (bucket m' (hash k mod buckets_n m')) xs" unfolding fields by simp
    from Get_chain(2) [OF s' this] show "rcu_map hash m' k = rcu_map hash m k" using xs(2) by (simp add: fields)
  qed
  show "follows m m' key res" using walks_append by (auto simp: follows_def m' g(1) nth_append)
  show "count m' = count m" and "retirements m' = retirements m @ [RetiredTable (table m)]" and "buckets_n m' = N"
    by (simp_all add: m')
qed

lemma Put_grow_spec:
  assumes s: "rcu_shape hash m"
  shows "rcu_shape hash (Put_grow hash m)" and "rcu_map hash (Put_grow hash m) = rcu_map hash m"
    and "follows m (Put_grow hash m) key res" and "count (Put_grow hash m) = count m"
    and "retirements (Put_grow hash m) = retirements m
      @ (if count m \<ge> buckets_n m then [RetiredTable (table m)] else [])"
    and "buckets_n (Put_grow hash m) = (if count m \<ge> buckets_n m then 2 * buckets_n m else buckets_n m)"
proof -
  have "0 < buckets_n m" using shape_cur [OF s] by (simp add: table_ok_def)
  then have "0 < buckets_n m * 2" by simp
  note R = Resize_spec [OF s this]
  have "follows m m key res" by (simp add: follows_def walks_refl)
  then show "rcu_shape hash (Put_grow hash m)" and "rcu_map hash (Put_grow hash m) = rcu_map hash m"
    and "follows m (Put_grow hash m) key res" and "count (Put_grow hash m) = count m"
    and "retirements (Put_grow hash m) = retirements m
      @ (if count m \<ge> buckets_n m then [RetiredTable (table m)] else [])"
    and "buckets_n (Put_grow hash m) = (if count m \<ge> buckets_n m then 2 * buckets_n m else buckets_n m)"
    using R s by (simp_all add: Put_grow_def)
qed

section \<open>The map as a dictionary\<close>

datatype ('k, 'v) dict_op = OpPut 'k 'v | OpRemove 'k

fun dict_apply :: "('k, 'v) dict_op \<Rightarrow> ('k \<Rightarrow> 'v option) \<Rightarrow> 'k \<Rightarrow> 'v option" where
  "dict_apply (OpPut k v) M = M(k \<mapsto> v)"
| "dict_apply (OpRemove k) M = M(k := None)"

fun dict_run :: "('k \<Rightarrow> 'v \<Rightarrow> 's \<Rightarrow> 's option) \<Rightarrow> ('k \<Rightarrow> 's \<Rightarrow> (bool \<times> 's) option)
    \<Rightarrow> ('k, 'v) dict_op list \<Rightarrow> 's \<Rightarrow> 's option" where
  "dict_run put rem [] s = Some s"
| "dict_run put rem (OpPut k v # ops) s = (case put k v s of None \<Rightarrow> None | Some t \<Rightarrow> dict_run put rem ops t)"
| "dict_run put rem (OpRemove k # ops) s = (case rem k s of None \<Rightarrow> None | Some (b, t) \<Rightarrow> dict_run put rem ops t)"

locale dictionary =
  fixes get :: "'k \<Rightarrow> 's \<Rightarrow> 'v option option" and put :: "'k \<Rightarrow> 'v \<Rightarrow> 's \<Rightarrow> 's option"
    and rem :: "'k \<Rightarrow> 's \<Rightarrow> (bool \<times> 's) option" and size_of :: "'s \<Rightarrow> nat"
    and inv :: "'s \<Rightarrow> bool" and abs :: "'s \<Rightarrow> 'k \<Rightarrow> 'v option"
  assumes get_abs: "inv s \<Longrightarrow> get k s = Some (abs s k)"
    and put_abs: "inv s \<Longrightarrow> \<exists>t. put k v s = Some t \<and> inv t \<and> abs t = (abs s)(k \<mapsto> v)"
    and rem_abs: "inv s \<Longrightarrow> \<exists>t. rem k s = Some (abs s k \<noteq> None, t) \<and> inv t \<and> abs t = (abs s)(k := None)"
    and size_abs: "inv s \<Longrightarrow> size_of s = card (dom (abs s))"
begin

lemma ops_refine:
  assumes "inv s"
  shows "\<exists>t. dict_run put rem ops s = Some t \<and> inv t \<and> abs t = fold dict_apply ops (abs s)"
  using assms
proof (induction ops arbitrary: s)
  case (Cons x ops)
  show ?case
  proof (cases x)
    case (OpPut k v)
    obtain t where "put k v s = Some t" "inv t" "abs t = (abs s)(k \<mapsto> v)" using put_abs [OF Cons.prems] by blast
    then show ?thesis using Cons.IH [of t] OpPut by (simp del: fun_upd_apply)
  next
    case (OpRemove k)
    obtain t where "rem k s = Some (abs s k \<noteq> None, t)" "inv t" "abs t = (abs s)(k := None)"
      using rem_abs [OF Cons.prems] by blast
    then show ?thesis using Cons.IH [of t] OpRemove by (simp del: fun_upd_apply)
  qed
qed simp

lemma ops_observed:
  assumes "inv s"
  shows "\<exists>t. dict_run put rem ops s = Some t \<and> inv t \<and> (\<forall>k. get k t = Some (fold dict_apply ops (abs s) k))
    \<and> size_of t = card (dom (fold dict_apply ops (abs s)))"
  using ops_refine [OF assms] get_abs size_abs by metis

end

lemma Put_rcu_inv:
  assumes "rcu_inv hash m"
  shows "\<exists>m'. Put hash key v m = Some m' \<and> rcu_inv hash m' \<and> rcu_map hash m' = (rcu_map hash m)(key \<mapsto> v)"
proof -
  have s: "rcu_shape hash m" and n: "count m = card (dom (rcu_map hash m))" using assms by (simp_all add: rcu_inv_def)
  note G = Put_grow_spec [OF s]
  obtain m' where m': "Put_link hash key v (Put_grow hash m) = Some m'" "rcu_shape hash m'"
    "rcu_map hash m' = (rcu_map hash (Put_grow hash m))(key \<mapsto> v)"
    "count m' = (if rcu_map hash (Put_grow hash m) key = None then count (Put_grow hash m) + 1 else count (Put_grow hash m))"
    using Put_link_spec [OF G(1), of key v] by metis
  have "count m' = card (dom (rcu_map hash m'))"
    unfolding m'(3,4) G(2,4) n using finite_dom [OF s] by (auto simp: domIff insert_absorb)
  then show ?thesis using m' G(2) by (simp add: rcu_inv_def Put_def)
qed

lemma Remove_rcu_inv:
  assumes "rcu_inv hash m"
  shows "\<exists>m'. Remove hash key m = Some (rcu_map hash m key \<noteq> None, m') \<and> rcu_inv hash m'
    \<and> rcu_map hash m' = (rcu_map hash m)(key := None)"
proof -
  have s: "rcu_shape hash m" and n: "count m = card (dom (rcu_map hash m))" using assms by (simp_all add: rcu_inv_def)
  obtain m' where m': "Remove hash key m = Some (rcu_map hash m key \<noteq> None, m')" "rcu_shape hash m'"
    "rcu_map hash m' = (rcu_map hash m)(key := None)"
    "count m' = (if rcu_map hash m key = None then count m else count m - 1)"
    using Remove_spec [OF s, of key] by metis
  have "count m' = card (dom (rcu_map hash m'))"
    unfolding m'(3,4) n using finite_dom [OF s] by (auto simp: domIff card_Diff_singleton)
  then show ?thesis using m' by (simp add: rcu_inv_def)
qed

interpretation rcu_dict: dictionary "Get hash" "Put hash" "Remove hash" Size "rcu_inv hash" "rcu_map hash" for hash
proof
  show "Get hash k s = Some (rcu_map hash s k)" if "rcu_inv hash s" for k s
    using that Get_chain shape_bucket index_less unfolding rcu_inv_def by metis
  show "\<exists>t. Put hash k v s = Some t \<and> rcu_inv hash t \<and> rcu_map hash t = (rcu_map hash s)(k \<mapsto> v)"
    if "rcu_inv hash s" for k v s
    using Put_rcu_inv [OF that] .
  show "\<exists>t. Remove hash k s = Some (rcu_map hash s k \<noteq> None, t) \<and> rcu_inv hash t
      \<and> rcu_map hash t = (rcu_map hash s)(k := None)" if "rcu_inv hash s" for k s
    using Remove_rcu_inv [OF that] .
qed (simp add: rcu_inv_def Size_def)

lemma RcuHashMap_inv:
  "0 < n \<Longrightarrow> rcu_inv hash (RcuHashMap n :: ('a, 'b) rcu) \<and> rcu_map hash (RcuHashMap n :: ('a, 'b) rcu) = Map.empty"
proof -
  assume n: "0 < n"
  let ?m = "RcuHashMap n :: ('a, 'b) rcu"
  have "rcu_map hash ?m = Map.empty"
    using n by (auto simp: fun_eq_iff rcu_map_def RcuHashMap_def new_table_def Get_def)
  moreover have "\<exists>xs. chain ([] :: ('a, 'b) rcu_node list) None xs" by (intro exI [of _ "[]"]) simp
  then have "rcu_shape hash ?m"
    using n by (auto simp: rcu_shape_def RcuHashMap_def new_table_def table_ok_def heap_ok_def bucket_ok_def
        dest: chain_bounded)
  ultimately show ?thesis by (simp add: rcu_inv_def) (simp add: RcuHashMap_def)
qed

lemma delete_list_chain: "chain h p xs \<Longrightarrow> length xs \<le> n \<Longrightarrow> delete_list n h p = xs"
proof (induction n arbitrary: p xs)
  case (Suc n)
  then show ?case by (cases xs) auto
qed simp

lemma delete_map_spec:
  assumes "rcu_inv hash m"
  shows "distinct (delete_map m)" and "a \<in> set (delete_map m) \<longleftrightarrow> linked m a"
proof -
  have s: "rcu_shape hash m" using assms by (simp add: rcu_inv_def)
  let ?n = "buckets_n m"
  have cur: "length (t_buckets (cur_table m)) = ?n" using shape_cur [OF s] by (simp add: table_ok_def)
  have "\<forall>i. \<exists>xs. i < ?n \<longrightarrow> chain (nodes m) (bucket m i) xs \<and> bucket_ok hash ?n i (nodes m) xs"
    using shape_bucket [OF s] by blast
  then obtain X where X: "\<And>i. i < ?n \<Longrightarrow> chain (nodes m) (bucket m i) (X i) \<and> bucket_ok hash ?n i (nodes m) (X i)"
    by metis
  have "map (delete_list (length (nodes m)) (nodes m)) (t_buckets (cur_table m)) = map X [0..<?n]"
  proof (rule nth_equalityI)
    fix i assume "i < length (map (delete_list (length (nodes m)) (nodes m)) (t_buckets (cur_table m)))"
    then have i: "i < ?n" using cur by simp
    have "delete_list (length (nodes m)) (nodes m) (bucket m i) = X i"
      using X [OF i] chain_length delete_list_chain by blast
    then show "map (delete_list (length (nodes m)) (nodes m)) (t_buckets (cur_table m)) ! i = map X [0..<?n] ! i"
      using i cur by simp
  qed (simp add: cur)
  then have d: "delete_map m = concat (map X [0..<?n])" by (simp add: delete_map_def delete_table_def)
  show "distinct (delete_map m)"
    unfolding d using distinct_buckets [of ?n hash ?n "nodes m" X] X by (simp add: distinct_map)
  show "a \<in> set (delete_map m) \<longleftrightarrow> linked m a"
  proof -
    have "(\<exists>xs. chain (nodes m) (bucket m i) xs \<and> a \<in> set xs) \<longleftrightarrow> a \<in> set (X i)" if "i < ?n" for i
      using X [OF that] chain_unique by blast
    then have "linked m a \<longleftrightarrow> (\<exists>i < ?n. a \<in> set (X i))" unfolding linked_def by blast
    then show ?thesis unfolding d by auto
  qed
qed

section \<open>Properties\<close>

text \<open>
  C12. The map is a map. From a table with at least one bucket, every sequence of \<open>Put\<close> and
  \<open>Remove\<close> succeeds, across all resizes, and afterwards \<open>Get\<close> and \<open>Size\<close> answer like the finite map
  that the same sequence builds, for every hash function. The destructor then deletes exactly the nodes
  that are in the table, each once.
\<close>

theorem RcuHashMap_map:
  assumes "0 < n"
  shows "\<exists>m. dict_run (Put hash) (Remove hash) ops (RcuHashMap n) = Some m
    \<and> (\<forall>key. Get hash key m = Some (fold dict_apply ops Map.empty key))
    \<and> Size m = card (dom (fold dict_apply ops Map.empty))
    \<and> distinct (delete_map m) \<and> (\<forall>a. a \<in> set (delete_map m) \<longleftrightarrow> linked m a)"
  using rcu_dict.ops_observed [OF conjunct1 [OF RcuHashMap_inv [OF assms]], of hash ops]
    delete_map_spec [of hash]
  unfolding conjunct2 [OF RcuHashMap_inv [OF assms]] by blast

theorem RcuHashMap_map_witness:
  "\<exists>m. dict_run (Put (\<lambda>k. k)) (Remove (\<lambda>k. k)) [OpPut 1 ''a'', OpPut 3 ''b'', OpPut 1 ''c'', OpRemove 3] (RcuHashMap 1) = Some m
     \<and> Get (\<lambda>k. k) 1 m = Some (Some ''c'') \<and> Get (\<lambda>k. k) (3::nat) m = Some None \<and> Size m = 1"
  using RcuHashMap_map [of 1 "\<lambda>k. k" "[OpPut 1 ''a'', OpPut 3 ''b'', OpPut 1 ''c'', OpRemove (3::nat)]"]
  by (fastforce simp: domIff)

text \<open>A map made with no buckets never gets one: doubling zero is zero, and the modulo by it is undefined.\<close>

lemma RcuHashMap_zero_buckets: "Put hash key v (RcuHashMap 0) = None \<and> Get hash key (RcuHashMap 0) = None"
  by (simp add: Put_def Put_grow_def Put_link_def Get_def RcuHashMap_def new_table_def Resize_def Let_def)

end
