(* ===== verification/RcuReaders.thy ===== *)
theory RcuReaders
  imports RcuMap
begin

text \<open>
  \<open>RcuHashMap\<close> with any number of readers beside the writers: \<open>Get\<close> goes on load by load while \<open>Put\<close>
  and \<open>Remove\<close> of other threads take effect between its steps. \<open>Get\<close> is linearizable and its walk
  is never lengthened by writers.
\<close>

section \<open>Readers and writers\<close>

text \<open>
  \<open>writer\<close> is the \<open>Put\<close> that holds the lock and has done its resizing but not linked its node yet.
\<close>

record ('k, 'v) shared =
  mem :: "('k, 'v) rcu"
  writer :: "('k \<times> 'v) option"
  reader :: "tid \<Rightarrow> 'k option \<times> 'v reader"

datatype ('k, 'v) shared_event = BeginGet tid 'k | StepGet tid | BeginPut 'k 'v | EndPut | DoRemove 'k

fun shared_step :: "('k \<Rightarrow> nat) \<Rightarrow> ('k, 'v) shared \<Rightarrow> ('k, 'v) shared_event \<Rightarrow> ('k, 'v) shared option" where
  "shared_step hash s (BeginGet t key) = Some (s\<lparr>reader := (reader s)(t := (Some key, AtTable))\<rparr>)"
| "shared_step hash s (StepGet t) =
     (case reader s t of
        (Some key, r) \<Rightarrow>
          (case reader_step hash (mem s) key r of
             None \<Rightarrow> None
           | Some r' \<Rightarrow> Some (s\<lparr>reader := (reader s)(t := (Some key, r'))\<rparr>))
      | (None, r) \<Rightarrow> None)"
| "shared_step hash s (BeginPut key v) =
     (if writer s = None then Some (s\<lparr>mem := Put_grow hash (mem s), writer := Some (key, v)\<rparr>) else None)"
| "shared_step hash s EndPut =
     (case writer s of
        None \<Rightarrow> None
      | Some (key, v) \<Rightarrow>
          (case Put_link hash key v (mem s) of
             None \<Rightarrow> None
           | Some m \<Rightarrow> Some (s\<lparr>mem := m, writer := None\<rparr>)))"
| "shared_step hash s (DoRemove key) =
     (if writer s = None
      then (case Remove hash key (mem s) of None \<Rightarrow> None | Some (b, m) \<Rightarrow> Some (s\<lparr>mem := m\<rparr>))
      else None)"

definition shared_init :: "nat \<Rightarrow> ('k, 'v) shared" where
  "shared_init n = \<lparr>mem = RcuHashMap n, writer = None, reader = (\<lambda>_. (None, Outside))\<rparr>"

section \<open>What a walk would return\<close>

text \<open>\<open>heading hash m key r x n\<close>: from position \<open>r\<close> the walk of \<open>Get key\<close>, if nothing changed, would return
  \<open>x\<close> after looking at \<open>n\<close> nodes.\<close>

definition heading :: "('k \<Rightarrow> nat) \<Rightarrow> ('k, 'v) rcu \<Rightarrow> 'k \<Rightarrow> 'v reader \<Rightarrow> 'v option \<Rightarrow> nat \<Rightarrow> bool" where
  "heading hash m key r x n \<longleftrightarrow>
     (case r of
        Outside \<Rightarrow> False
      | AtTable \<Rightarrow> x = rcu_map hash m key
      | AtBucket t \<Rightarrow> t < length (tables m) \<and>
          (\<exists>xs. chain (nodes m) (t_buckets (tables m ! t) ! (hash key mod t_size (tables m ! t))) xs
             \<and> x = lookup (nodes m) xs key)
      | AtNode p \<Rightarrow> (\<exists>xs. chain (nodes m) p xs \<and> x = lookup (nodes m) xs key \<and> length xs = n)
      | Found a \<Rightarrow> a < length (nodes m) \<and> x = Some (n_value (nodes m ! a))
      | Returned y \<Rightarrow> x = y)"

text \<open>The writers leave every walk heading for the same value, or for the map's new value.\<close>

lemma heading_follows:
  assumes h: "heading hash m key r x n" and f: "follows m m' k res"
    and s: "rcu_shape hash m" and s': "rcu_shape hash m'" and M: "rcu_map hash m' = (rcu_map hash m)(k := res)"
  shows "\<exists>y n'. heading hash m' key r y n' \<and> n' \<le> n \<and> (y = x \<or> y = rcu_map hash m' key)"
proof -
  have keep: "n_key (nodes m' ! a) = n_key (nodes m ! a)" "n_value (nodes m' ! a) = n_value (nodes m ! a)"
    "a < length (nodes m')" if "a < length (nodes m)" for a
    using f that unfolding follows_def by auto
  have walk: "\<exists>xs'. chain (nodes m') p xs' \<and> length xs' \<le> length xs
      \<and> (lookup (nodes m') xs' key = lookup (nodes m) xs key \<or> lookup (nodes m') xs' key = rcu_map hash m' key)"
    if "chain (nodes m) p xs" for p xs
    using f that M unfolding follows_def walks_follow_def by (metis fun_upd_same)
  show ?thesis
  proof (cases r)
    case Outside
    then show ?thesis using h by (simp add: heading_def)
  next
    case AtTable
    then show ?thesis by (auto simp: heading_def)
  next
    case (AtBucket t)
    let ?b = "\<lambda>m. t_buckets (tables m ! t) ! (hash key mod t_size (tables m ! t))"
    obtain xs where t: "t < length (tables m)" and xs: "chain (nodes m) (?b m) xs" "x = lookup (nodes m) xs key"
      using h AtBucket by (auto simp: heading_def)
    have t': "t < length (tables m')" using f t by (simp add: follows_def)
    show ?thesis
    proof (cases "tables m' ! t = tables m ! t")
      case True
      then show ?thesis using walk [OF xs(1)] t' xs(2) AtBucket by (fastforce simp: heading_def)
    next
      case False
      then have tt: "table m' = t" using f t unfolding follows_def by metis
      obtain ys where "chain (nodes m') (bucket m' (hash key mod buckets_n m')) ys"
        using shape_bucket [OF s' index_less [OF s']] by blast
      then have "chain (nodes m') (?b m') ys \<and> rcu_map hash m' key = lookup (nodes m') ys key"
        using Get_chain(2) [OF s'] tt by blast
      then show ?thesis using t' AtBucket by (auto simp: heading_def)
    qed
  next
    case (AtNode p)
    then obtain xs where "chain (nodes m) p xs" "x = lookup (nodes m) xs key" "length xs = n"
      using h by (auto simp: heading_def)
    then show ?thesis using walk [of p xs] AtNode by (fastforce simp: heading_def)
  next
    case (Found a)
    then show ?thesis using h keep by (auto simp: heading_def)
  next
    case (Returned y)
    then show ?thesis using h by (auto simp: heading_def)
  qed
qed

fun in_walk :: "'v reader \<Rightarrow> bool" where
  "in_walk (AtNode p) = True"
| "in_walk (Found a) = True"
| "in_walk (Returned v) = True"
| "in_walk _ = False"

text \<open>How many steps a walk that has \<open>n\<close> nodes before it still takes.\<close>

fun walk_rank :: "'v reader \<Rightarrow> nat \<Rightarrow> nat" where
  "walk_rank (AtNode p) n = Suc n"
| "walk_rank (Found a) n = 1"
| "walk_rank _ n = 0"

text \<open>A step of the walk itself heads for the same value, and looks at one node less.\<close>

lemma heading_step:
  assumes s: "rcu_shape hash m" and h: "heading hash m key r x n" and st: "reader_step hash m key r = Some r'"
  shows "\<exists>n'. heading hash m key r' x n'
    \<and> (in_walk r \<longrightarrow> in_walk r' \<and> walk_rank r' n' < walk_rank r n)"
proof (cases r)
  case AtTable
  obtain xs where "chain (nodes m) (bucket m (hash key mod buckets_n m)) xs"
    using shape_bucket [OF s index_less [OF s]] by blast
  then show ?thesis using AtTable st h Get_chain(2) [OF s] s
    by (auto simp: reader_step_def heading_def rcu_shape_def)
next
  case (AtBucket t)
  then show ?thesis using st h by (auto simp: reader_step_def heading_def Let_def split: if_splits)
next
  case (AtNode p)
  obtain xs where xs: "chain (nodes m) p xs" "x = lookup (nodes m) xs key" "length xs = n"
    using h AtNode by (auto simp: heading_def)
  show ?thesis
  proof (cases xs)
    case Nil
    then show ?thesis using xs AtNode st by (auto simp: reader_step_def heading_def)
  next
    case (Cons a as)
    then show ?thesis using xs AtNode st
      by (intro exI [of _ "length as"]) (auto simp: reader_step_def heading_def lookup_Cons split: if_splits)
  qed
next
  case (Found a)
  then have "n_seq (nodes m ! a) = 0" using h s by (simp add: heading_def rcu_shape_def heap_ok_def)
  then show ?thesis using Found st h by (auto simp: reader_step_def heading_def)
qed (use st in \<open>simp_all add: reader_step_def\<close>)

lemma heading_enabled:
  assumes s: "rcu_shape hash m" and h: "heading hash m key r x n"
  shows "(\<exists>v. r = Returned v) \<or> (\<exists>r'. reader_step hash m key r = Some r')"
proof (cases r)
  case (AtBucket t)
  then have "table_ok (nodes m) (tables m ! t)" using h s by (simp add: heading_def rcu_shape_def)
  then show ?thesis using AtBucket by (simp add: reader_step_def table_ok_def Let_def)
next
  case (AtNode p)
  then show ?thesis by (cases p) (simp_all add: reader_step_def)
qed (use h in \<open>auto simp: reader_step_def heading_def\<close>)

section \<open>Runs\<close>

definition moves :: "('k \<Rightarrow> nat) \<Rightarrow> ('k, 'v) rcu \<Rightarrow> ('k, 'v) rcu \<Rightarrow> bool" where
  "moves hash m m' \<longleftrightarrow> rcu_shape hash m' \<and>
     (\<exists>k res. follows m m' k res \<and> rcu_map hash m' = (rcu_map hash m)(k := res))"

lemma shared_step_moves:
  assumes s: "rcu_shape hash (mem s)" and st: "shared_step hash s e = Some s'"
  shows "moves hash (mem s) (mem s')"
proof -
  have still: "moves hash (mem s) (mem s)"
    using s fun_upd_triv [of "rcu_map hash (mem s)"] unfolding moves_def follows_def
    by (metis order_refl walks_refl)
  show ?thesis
  proof (cases e)
    case (BeginGet t key)
    then show ?thesis using st still by auto
  next
    case (StepGet t)
    then have "mem s' = mem s" using st by (auto split: prod.splits option.splits)
    then show ?thesis using still by simp
  next
    case (BeginPut key v)
    then have "mem s' = Put_grow hash (mem s)" using st by (auto split: if_splits)
    then show ?thesis using Put_grow_spec [OF s] fun_upd_triv unfolding moves_def by metis
  next
    case EndPut
    then obtain key v m where "Put_link hash key v (mem s) = Some m" "mem s' = m"
      using st by (auto split: option.splits prod.splits)
    then show ?thesis using Put_link_spec [OF s, of key v] unfolding moves_def by (metis option.inject)
  next
    case (DoRemove key)
    then obtain b m where "Remove hash key (mem s) = Some (b, m)" "mem s' = m"
      using st by (auto split: option.splits prod.splits if_splits)
    then show ?thesis using Remove_spec [OF s, of key] unfolding moves_def by (metis option.inject prod.inject)
  qed
qed

lemma heading_moves:
  assumes "heading hash m key r x n" and "moves hash m m'" and "rcu_shape hash m"
  shows "\<exists>y n'. heading hash m' key r y n' \<and> n' \<le> n \<and> (y = x \<or> y = rcu_map hash m' key)"
  using assms heading_follows unfolding moves_def by metis

text \<open>What one event does to a reader that is under way.\<close>

lemma reader_follow:
  assumes s: "rcu_shape hash (mem s)" and st: "shared_step hash s e = Some s'" and nb: "\<forall>k. e \<noteq> BeginGet t k"
    and r: "reader s t = (Some key, r)" and h: "heading hash (mem s) key r x n"
  shows "\<exists>r' y n'. reader s' t = (Some key, r') \<and> heading hash (mem s') key r' y n'
    \<and> (y = x \<or> y = rcu_map hash (mem s') key)
    \<and> (in_walk r \<longrightarrow> in_walk r' \<and> walk_rank r' n' + (if e = StepGet t then 1 else 0) \<le> walk_rank r n)"
proof (cases "e = StepGet t")
  case True
  then obtain r' where r': "reader_step hash (mem s) key r = Some r'" "s' = s\<lparr>reader := (reader s)(t := (Some key, r'))\<rparr>"
    using st r by (auto split: option.splits)
  then show ?thesis using heading_step [OF s h r'(1)] True by force
next
  case False
  have "reader s' t = (Some key, r)"
  proof (cases e)
    case (StepGet u)
    then show ?thesis using False st r by (auto split: prod.splits option.splits)
  qed (use nb st r in \<open>auto split: if_splits option.splits prod.splits\<close>)
  moreover obtain y n' where y: "heading hash (mem s') key r y n'" "n' \<le> n" "y = x \<or> y = rcu_map hash (mem s') key"
    using heading_moves [OF h shared_step_moves [OF s st] s] by blast
  moreover have "walk_rank r n' \<le> walk_rank r n" using y(2) by (cases r) auto
  ultimately show ?thesis using False by auto
qed

lemma reader_track:
  assumes "rcu_shape hash (mem s)" and "run (shared_step hash) s es = Some s'" and "\<forall>k. BeginGet t k \<notin> set es"
    and "reader s t = (Some key, r)" and "heading hash (mem s) key r x n"
  shows "\<exists>r' y n'. reader s' t = (Some key, r') \<and> heading hash (mem s') key r' y n' \<and> rcu_shape hash (mem s')
    \<and> (y = x \<or> (\<exists>fs gs u. es = fs @ gs \<and> run (shared_step hash) s fs = Some u \<and> rcu_map hash (mem u) key = y))
    \<and> (in_walk r \<longrightarrow> in_walk r' \<and> walk_rank r' n' + count_list es (StepGet t) \<le> walk_rank r n)"
  using assms
proof (induction es arbitrary: s r x n)
  case Nil
  then show ?case by auto
next
  case (Cons e es)
  obtain u where u: "shared_step hash s e = Some u" "run (shared_step hash) u es = Some s'"
    using Cons.prems(2) by (auto split: option.splits)
  obtain r1 y1 n1 where 1: "reader u t = (Some key, r1)" "heading hash (mem u) key r1 y1 n1"
    "y1 = x \<or> y1 = rcu_map hash (mem u) key"
    "in_walk r \<longrightarrow> in_walk r1 \<and> walk_rank r1 n1 + (if e = StepGet t then 1 else 0) \<le> walk_rank r n"
    using reader_follow [OF Cons.prems(1) u(1) _ Cons.prems(4,5)] Cons.prems(3) by (metis list.set_intros(1))
  have su: "rcu_shape hash (mem u)" using shared_step_moves [OF Cons.prems(1) u(1)] by (simp add: moves_def)
  obtain r' y n' where 2: "reader s' t = (Some key, r')" "heading hash (mem s') key r' y n'" "rcu_shape hash (mem s')"
    "y = y1 \<or> (\<exists>fs gs v. es = fs @ gs \<and> run (shared_step hash) u fs = Some v \<and> rcu_map hash (mem v) key = y)"
    "in_walk r1 \<longrightarrow> in_walk r' \<and> walk_rank r' n' + count_list es (StepGet t) \<le> walk_rank r1 n1"
    using Cons.IH [OF su u(2) _ 1(1,2)] Cons.prems(3) by (metis list.set_intros(2))
  have "y = x \<or> (\<exists>fs gs v. e # es = fs @ gs \<and> run (shared_step hash) s fs = Some v \<and> rcu_map hash (mem v) key = y)"
    using 2(4)
  proof
    assume "\<exists>fs gs v. es = fs @ gs \<and> run (shared_step hash) u fs = Some v \<and> rcu_map hash (mem v) key = y"
    then obtain fs gs v where f: "es = fs @ gs" "run (shared_step hash) u fs = Some v" "rcu_map hash (mem v) key = y"
      by blast
    then have "e # es = (e # fs) @ gs" "run (shared_step hash) s (e # fs) = Some v" using u(1) by simp_all
    then show ?thesis using f(3) by blast
  next
    assume y: "y = y1"
    have "e # es = [e] @ es" "run (shared_step hash) s [e] = Some u" using u(1) by simp_all
    then show ?thesis using 1(3) y by metis
  qed
  then show ?case using 1(4) 2 by (intro exI [of _ r'] exI [of _ y] exI [of _ n']) auto
qed

lemma shared_shape:
  fixes s :: "('k, 'v) shared"
  assumes "0 < n" and "run (shared_step hash) (shared_init n) es = Some s"
  shows "rcu_shape hash (mem s)"
proof (rule run_invariant [where I = "\<lambda>s. rcu_shape hash (mem s)", OF _ _ assms(2)])
  show "rcu_shape hash (mem (shared_init n :: ('k, 'v) shared))"
    using RcuHashMap_inv [OF assms(1), of hash, where 'b = 'v] by (simp add: shared_init_def rcu_inv_def)
qed (use shared_step_moves in \<open>auto simp: moves_def\<close>)

lemma begin_track:
  assumes "0 < n" and "run (shared_step hash) (shared_init n) (pre @ BeginGet t key # mid) = Some s"
    and "\<forall>k. BeginGet t k \<notin> set mid"
  obtains u r y n' where "run (shared_step hash) (shared_init n) (pre @ [BeginGet t key]) = Some u"
    "reader s t = (Some key, r)" "heading hash (mem s) key r y n'" "rcu_shape hash (mem s)"
    "\<exists>fs gs v. mid = fs @ gs \<and> run (shared_step hash) u fs = Some v \<and> rcu_map hash (mem v) key = y"
proof -
  obtain w where w: "run (shared_step hash) (shared_init n) pre = Some w"
    "run (shared_step hash) w (BeginGet t key # mid) = Some s"
    using assms(2) by (auto simp: run_append split: option.splits)
  define u where "u = w\<lparr>reader := (reader w)(t := (Some key, AtTable))\<rparr>"
  have u: "run (shared_step hash) (shared_init n) (pre @ [BeginGet t key]) = Some u"
    "run (shared_step hash) u mid = Some s" "reader u t = (Some key, AtTable)"
    using w by (simp_all add: run_append u_def)
  have su: "rcu_shape hash (mem u)" using shared_shape [OF assms(1) u(1)] .
  have hu: "heading hash (mem u) key AtTable (rcu_map hash (mem u) key) 0" by (simp add: heading_def)
  obtain r y n' where r: "reader s t = (Some key, r)" "heading hash (mem s) key r y n'" "rcu_shape hash (mem s)"
    "y = rcu_map hash (mem u) key \<or>
      (\<exists>fs gs v. mid = fs @ gs \<and> run (shared_step hash) u fs = Some v \<and> rcu_map hash (mem v) key = y)"
    using reader_track [OF su u(2) assms(3) u(3) hu] by blast
  moreover have "run (shared_step hash) u [] = Some u" "mid = [] @ mid" by simp_all
  ultimately show thesis using that [OF u(1) r(1-3)] by metis
qed

section \<open>Properties\<close>

text \<open>
  C11. \<open>Get\<close> is linearizable: whatever any number of other readers and the writers do between its
  loads, resizes included, the value it returns is the value that the map had for the key at some
  moment between the call and the return.
\<close>

theorem RcuHashMap_linearizable:
  assumes "0 < n" and "run (shared_step hash) (shared_init n) (pre @ BeginGet t key # mid) = Some s"
    and "\<forall>k. BeginGet t k \<notin> set mid" and "reader s t = (Some key, Returned result)"
  shows "\<exists>fs gs v. mid = fs @ gs \<and> run (shared_step hash) (shared_init n) (pre @ BeginGet t key # fs) = Some v
    \<and> Get hash key (mem v) = Some result"
proof -
  obtain u r y n' where u: "run (shared_step hash) (shared_init n) (pre @ [BeginGet t key]) = Some u"
    "reader s t = (Some key, r)" "heading hash (mem s) key r y n'"
    "\<exists>fs gs v. mid = fs @ gs \<and> run (shared_step hash) u fs = Some v \<and> rcu_map hash (mem v) key = y"
    using begin_track [OF assms(1-3)] by metis
  then obtain fs gs v where v: "mid = fs @ gs" "run (shared_step hash) u fs = Some v" "rcu_map hash (mem v) key = result"
    using assms(4) by (auto simp: heading_def)
  have run: "run (shared_step hash) (shared_init n) (pre @ BeginGet t key # fs) = Some v"
    using u(1) v(2) by (auto simp: run_append split: option.splits)
  have "Get hash key (mem v) = Some result"
    using shared_shape [OF assms(1) run] v(3) Get_chain shape_bucket index_less by metis
  then show ?thesis using v(1) run by blast
qed

text \<open>A reader walks to a node that is replaced and moved by a resize meanwhile.\<close>

definition overlap :: "(nat, string) shared_event list" where
  "overlap = [StepGet 0, StepGet 0, BeginPut 2 ''b'', EndPut, BeginPut 1 ''c'', EndPut, StepGet 0, StepGet 0]"

lemma overlap_runs:
  "case run (shared_step (\<lambda>k. k)) (shared_init 1) ([BeginPut 1 ''a'', EndPut] @ BeginGet 0 1 # overlap) of
     None \<Rightarrow> False
   | Some s \<Rightarrow> reader s 0 = (Some 1, Returned (Some ''a'')) \<and> Get (\<lambda>k. k) 1 (mem s) = Some (Some ''c'')"
  by code_simp

theorem RcuHashMap_linearizable_witness:
  "\<exists>fs gs v. overlap = fs @ gs
     \<and> run (shared_step (\<lambda>k. k)) (shared_init 1) ([BeginPut 1 ''a'', EndPut] @ BeginGet 0 1 # fs) = Some v
     \<and> Get (\<lambda>k. k) 1 (mem v) = Some (Some ''a'')"
proof -
  obtain s where s: "run (shared_step (\<lambda>k. k)) (shared_init 1) ([BeginPut 1 ''a'', EndPut] @ BeginGet 0 1 # overlap) = Some s"
    "reader s 0 = (Some 1, Returned (Some ''a''))"
    using overlap_runs by (auto split: option.splits)
  show ?thesis by (rule RcuHashMap_linearizable [OF _ s(1) _ s(2)]) (simp_all add: overlap_def)
qed

text \<open>
  C13. \<open>Get\<close> is wait-free: once it has loaded its bucket, a call takes at most one step per node then
  allocated and one more, however the writers interleave, and until it has returned its next step is
  always possible.
\<close>

theorem RcuHashMap_wait_free:
  assumes "0 < n" and "run (shared_step hash) (shared_init n) (pre @ BeginGet t key # mid) = Some s"
    and "\<forall>k. BeginGet t k \<notin> set mid" and "reader s t = (Some key, AtNode p)"
    and "run (shared_step hash) s es = Some s'" and "\<forall>k. BeginGet t k \<notin> set es"
  shows "count_list es (StepGet t) \<le> length (nodes (mem s)) + 1
    \<and> ((\<exists>v. reader s' t = (Some key, Returned v)) \<or> shared_step hash s' (StepGet t) \<noteq> None)"
proof -
  obtain u y n' where u: "heading hash (mem s) key (AtNode p) y n'" "rcu_shape hash (mem s)"
    using begin_track [OF assms(1-3)] assms(4) by (metis prod.inject)
  then have "n' \<le> length (nodes (mem s))" using chain_length by (auto simp: heading_def)
  moreover obtain r x k where "reader s' t = (Some key, r)" "heading hash (mem s') key r x k" "rcu_shape hash (mem s')"
    "walk_rank r k + count_list es (StepGet t) \<le> walk_rank (AtNode p) n'"
    using reader_track [OF u(2) assms(5,6,4) u(1)] by auto
  ultimately show ?thesis using heading_enabled by fastforce
qed

theorem RcuHashMap_wait_free_witness:
  "\<exists>s s'. run (shared_step (\<lambda>k. k)) (shared_init 1) ([BeginPut 1 ''a'', EndPut] @ BeginGet 0 1 # [StepGet 0, StepGet 0]) = Some s
     \<and> run (shared_step (\<lambda>k. k)) s [StepGet 0, StepGet 0] = Some s'
     \<and> count_list [StepGet 0, StepGet 0] (StepGet 0 :: (nat, string) shared_event) \<le> length (nodes (mem s)) + 1"
proof -
  have "case run (shared_step (\<lambda>k. k)) (shared_init 1) ([BeginPut 1 ''a'', EndPut] @ BeginGet 0 1 # [StepGet 0, StepGet 0]) of
     None \<Rightarrow> False
   | Some s \<Rightarrow> reader s 0 = (Some 1, AtNode (Some 0)) \<and> run (shared_step (\<lambda>k. k)) s [StepGet 0, StepGet 0] \<noteq> None"
    by code_simp
  then obtain s s' where s: "run (shared_step (\<lambda>k. k)) (shared_init 1)
      ([BeginPut 1 ''a'', EndPut] @ BeginGet 0 1 # [StepGet 0, StepGet 0]) = Some s"
    "reader s 0 = (Some 1, AtNode (Some 0))" "run (shared_step (\<lambda>k. k)) s [StepGet 0, StepGet 0] = Some s'"
    by (auto split: option.splits)
  then show ?thesis using RcuHashMap_wait_free [OF _ s(1) _ s(2,3)] by auto
qed

end
