(* ===== verification/Ebr.thy ===== *)
theory Ebr
  imports Prelude
begin

text \<open>
  Epoch-based reclamation (\<open>ebr.cc\<close>, \<open>ebr.h\<close>). Thread control blocks live at addresses
  \<open>0, 1, ...\<close> in the order of their allocation; a new block is pushed in front of the list, so the
  list that starts at \<open>head_\<close> visits the addresses downwards from \<open>registered - 1\<close>. Every atomic load
  and store of the source is one step. With \<open>tso\<close> set, the store that publishes the local epoch goes
  through the store buffer of its thread, as an x86 \<open>mov\<close> does.
\<close>

section \<open>Data\<close>

record Batch =
  b_epoch :: u64
  b_nodes :: "nat list"

record ThreadControlBlock =
  local_epoch :: u64
  active :: bool
  retirement_batches :: "Batch list"

definition kEpochInactive :: u64 where
  "kEpochInactive = 0"

definition new_tcb :: ThreadControlBlock where
  "new_tcb = \<lparr>local_epoch = kEpochInactive, active = True, retirement_batches = []\<rparr>"

text \<open>
  Where a thread is inside an operation: between the load of the global epoch and the store of the
  local one (\<open>Entering\<close>), or in \<open>Gc\<close>: about to load the global epoch, about to load \<open>head_\<close>, at a
  block of the list, about to load the global epoch again, at the compare-exchange, or about to free.
\<close>

datatype pc = Idle | Entering u64 | GcStart | GcHead u64 | GcScan nat u64 | GcCheck u64 | GcCas u64 u64 | GcFree u64

record ebr =
  global_epoch :: u64
  registered :: nat
  tcb :: "nat \<Rightarrow> ThreadControlBlock"
  tls_tcb :: "tid \<Rightarrow> nat option"
  critical_depth :: "tid \<Rightarrow> int"
  pc_of :: "tid \<Rightarrow> pc"
  store_buffer :: "tid \<Rightarrow> (nat \<times> u64) list"
  deleted :: "nat list"

definition init_ebr :: ebr where
  "init_ebr = \<lparr>global_epoch = 1, registered = 0, tcb = (\<lambda>_. new_tcb), tls_tcb = (\<lambda>_. None),
     critical_depth = (\<lambda>_. 0), pc_of = (\<lambda>_. Idle), store_buffer = (\<lambda>_. []), deleted = []\<rparr>"

section \<open>Operations\<close>

definition upd_tcb :: "nat \<Rightarrow> (ThreadControlBlock \<Rightarrow> ThreadControlBlock) \<Rightarrow> ebr \<Rightarrow> ebr" where
  "upd_tcb i f s = s\<lparr>tcb := (tcb s)(i := f (tcb s i))\<rparr>"

definition goto :: "tid \<Rightarrow> pc \<Rightarrow> ebr \<Rightarrow> ebr" where
  "goto t p s = s\<lparr>pc_of := (pc_of s)(t := p)\<rparr>"

definition store_local :: "bool \<Rightarrow> tid \<Rightarrow> nat \<Rightarrow> u64 \<Rightarrow> ebr \<Rightarrow> ebr" where
  "store_local tso t i e s =
     (if tso then s\<lparr>store_buffer := (store_buffer s)(t := store_buffer s t @ [(i, e)])\<rparr>
      else upd_tcb i (\<lambda>b. b\<lparr>local_epoch := e\<rparr>) s)"

definition load_local :: "tid \<Rightarrow> nat \<Rightarrow> ebr \<Rightarrow> u64" where
  "load_local t i s =
     (case filter (\<lambda>(j, e). j = i) (store_buffer s t) of
        [] \<Rightarrow> local_epoch (tcb s i)
      | ws \<Rightarrow> snd (last ws))"

definition RegisterThread :: "tid \<Rightarrow> ebr \<Rightarrow> ebr" where
  "RegisterThread t s =
     (if tls_tcb s t \<noteq> None then s
      else s\<lparr>tcb := (tcb s)(registered s := new_tcb), tls_tcb := (tls_tcb s)(t \<mapsto> registered s),
             registered := Suc (registered s)\<rparr>)"

definition UnregisterThread :: "tid \<Rightarrow> ebr \<Rightarrow> ebr" where
  "UnregisterThread t s =
     (case tls_tcb s t of
        None \<Rightarrow> s
      | Some i \<Rightarrow>
          (upd_tcb i (\<lambda>b. b\<lparr>active := False, local_epoch := kEpochInactive\<rparr>) s)
            \<lparr>tls_tcb := (tls_tcb s)(t := None)\<rparr>)"

definition EnterCritical :: "tid \<Rightarrow> ebr \<Rightarrow> ebr" where
  "EnterCritical t s =
     (let s = RegisterThread t s;
          d = critical_depth s t;
          s = s\<lparr>critical_depth := (critical_depth s)(t := d + 1)\<rparr>
      in if d = 0 then goto t (Entering (global_epoch s)) s else s)"

definition ExitCritical :: "bool \<Rightarrow> tid \<Rightarrow> ebr \<Rightarrow> ebr" where
  "ExitCritical tso t s =
     (case tls_tcb s t of
        None \<Rightarrow> s
      | Some i \<Rightarrow>
          (let d = critical_depth s t - 1;
               s = s\<lparr>critical_depth := (critical_depth s)(t := d)\<rparr>
           in if d = 0 then store_local tso t i kEpochInactive s else s))"

definition IsInCritical :: "tid \<Rightarrow> ebr \<Rightarrow> bool" where
  "IsInCritical t s \<longleftrightarrow> critical_depth s t > 0"

definition kBatchThreshold :: nat where
  "kBatchThreshold = 64"

text \<open>The batch list after a retirement at epoch \<open>e\<close>.\<close>

definition add_to_batch :: "u64 \<Rightarrow> nat \<Rightarrow> Batch list \<Rightarrow> Batch list" where
  "add_to_batch e node bs =
     (let bs = (if bs = [] \<or> b_epoch (last bs) \<noteq> e then bs @ [\<lparr>b_epoch = e, b_nodes = []\<rparr>] else bs)
      in butlast bs @ [(last bs)\<lparr>b_nodes := b_nodes (last bs) @ [node]\<rparr>])"

definition Retire :: "tid \<Rightarrow> nat option \<Rightarrow> ebr \<Rightarrow> ebr" where
  "Retire t node s =
     (case node of
        None \<Rightarrow> s
      | Some n \<Rightarrow>
          (let s = RegisterThread t s; i = the (tls_tcb s t);
               bs = add_to_batch (global_epoch s) n (retirement_batches (tcb s i));
               s = upd_tcb i (\<lambda>b. b\<lparr>retirement_batches := bs\<rparr>) s
           in if length (b_nodes (last bs)) \<ge> kBatchThreshold then goto t GcStart s else s))"

text \<open>The last part of \<open>Gc\<close>, on the thread's own batches.\<close>

definition free_batches :: "tid \<Rightarrow> u64 \<Rightarrow> ebr \<Rightarrow> ebr" where
  "free_batches t min_epoch s =
     (case tls_tcb s t of
        None \<Rightarrow> s
      | Some i \<Rightarrow>
          (let bs = retirement_batches (tcb s i) in
           (upd_tcb i (\<lambda>b. b\<lparr>retirement_batches := filter (\<lambda>b. \<not> b_epoch b < min_epoch) bs\<rparr>) s)
             \<lparr>deleted := deleted s @ concat (map b_nodes (filter (\<lambda>b. b_epoch b < min_epoch) bs))\<rparr>))"

text \<open>One atomic step of \<open>EnterCritical\<close> or \<open>Gc\<close> of a thread that is inside it.\<close>

fun scan_block :: "tid \<Rightarrow> nat \<Rightarrow> u64 \<Rightarrow> ebr \<Rightarrow> u64" where
  "scan_block t i min_epoch s =
     (if active (tcb s i)
      then (let l = load_local t i s in if l \<noteq> kEpochInactive \<and> l < min_epoch then l else min_epoch)
      else min_epoch)"

definition continue :: "bool \<Rightarrow> tid \<Rightarrow> ebr \<Rightarrow> ebr" where
  "continue tso t s =
     (case pc_of s t of
        Idle \<Rightarrow> s
      | Entering e \<Rightarrow> goto t Idle (store_local tso t (the (tls_tcb s t)) e s)
      | GcStart \<Rightarrow> goto t (GcHead (global_epoch s)) s
      | GcHead m \<Rightarrow> goto t (GcScan (registered s) m) s
      | GcScan k m \<Rightarrow>
          (case k of 0 \<Rightarrow> goto t (GcCheck m) s | Suc i \<Rightarrow> goto t (GcScan i (scan_block t i m s)) s)
      | GcCheck m \<Rightarrow>
          (let g = global_epoch s in if m = g then goto t (GcCas g m) s else goto t (GcFree m) s)
      | GcCas g m \<Rightarrow>
          goto t (GcFree m) (if global_epoch s = g then s\<lparr>global_epoch := g + 1\<rparr> else s)
      | GcFree m \<Rightarrow> goto t Idle (free_batches t m s))"

text \<open>The oldest buffered store of a thread reaches memory.\<close>

definition drain :: "tid \<Rightarrow> ebr \<Rightarrow> ebr" where
  "drain t s =
     (case store_buffer s t of
        [] \<Rightarrow> s
      | (i, e) # ws \<Rightarrow>
          (upd_tcb i (\<lambda>b. b\<lparr>local_epoch := e\<rparr>) s)\<lparr>store_buffer := (store_buffer s)(t := ws)\<rparr>)"

section \<open>Threads that use the engine as it is meant to be used\<close>

text \<open>
  The life of a node: not yet allocated, reachable in a shared structure, unlinked by a thread that
  will retire it, retired. \<open>held t\<close> are the nodes thread \<open>t\<close> has a pointer to. A reader takes pointers
  to linked nodes inside an \<open>EbrGuard\<close> and gives them up when the outermost guard ends; a node is
  retired once, by the thread that unlinked it; a thread unregisters outside of guards.
\<close>

datatype node_status = Fresh | Linked | Unlinked tid | Retired

record client =
  sys :: ebr
  status :: "nat \<Rightarrow> node_status"
  held :: "tid \<Rightarrow> nat list"

datatype event =
    Register tid | Unregister tid | GuardBegin tid | GuardEnd tid | Collect tid | Continue tid | Drain tid
  | LinkNode nat | AcquireNode tid nat | UnlinkNode tid nat | RetireNode tid nat

fun client_step :: "bool \<Rightarrow> client \<Rightarrow> event \<Rightarrow> client option" where
  "client_step tso c (Register t) =
     (if pc_of (sys c) t = Idle then Some (c\<lparr>sys := RegisterThread t (sys c)\<rparr>) else None)"
| "client_step tso c (Unregister t) =
     (if pc_of (sys c) t = Idle \<and> \<not> IsInCritical t (sys c)
      then Some (c\<lparr>sys := UnregisterThread t (sys c)\<rparr>) else None)"
| "client_step tso c (GuardBegin t) =
     (if pc_of (sys c) t = Idle then Some (c\<lparr>sys := EnterCritical t (sys c)\<rparr>) else None)"
| "client_step tso c (GuardEnd t) =
     (if pc_of (sys c) t = Idle \<and> IsInCritical t (sys c)
      then Some (c\<lparr>sys := ExitCritical tso t (sys c),
                   held := (if critical_depth (sys c) t = 1 then (held c)(t := []) else held c)\<rparr>) else None)"
| "client_step tso c (Collect t) =
     (if pc_of (sys c) t = Idle then Some (c\<lparr>sys := goto t GcStart (sys c)\<rparr>) else None)"
| "client_step tso c (Continue t) =
     (if pc_of (sys c) t \<noteq> Idle then Some (c\<lparr>sys := continue tso t (sys c)\<rparr>) else None)"
| "client_step tso c (Drain t) =
     (if store_buffer (sys c) t \<noteq> [] then Some (c\<lparr>sys := drain t (sys c)\<rparr>) else None)"
| "client_step tso c (LinkNode n) =
     (if status c n = Fresh then Some (c\<lparr>status := (status c)(n := Linked)\<rparr>) else None)"
| "client_step tso c (AcquireNode t n) =
     (if pc_of (sys c) t = Idle \<and> IsInCritical t (sys c) \<and> status c n = Linked
      then Some (c\<lparr>held := (held c)(t := n # held c t)\<rparr>) else None)"
| "client_step tso c (UnlinkNode t n) =
     (if status c n = Linked then Some (c\<lparr>status := (status c)(n := Unlinked t)\<rparr>) else None)"
| "client_step tso c (RetireNode t n) =
     (if pc_of (sys c) t = Idle \<and> status c n = Unlinked t
      then Some (c\<lparr>sys := Retire t (Some n) (sys c), status := (status c)(n := Retired)\<rparr>) else None)"

definition init_client :: client where
  "init_client = \<lparr>sys = init_ebr, status = (\<lambda>_. Fresh), held = (\<lambda>_. [])\<rparr>"

section \<open>What the protocol keeps\<close>

definition nodes_of :: "ThreadControlBlock \<Rightarrow> nat list" where
  "nodes_of b = concat (map b_nodes (retirement_batches b))"

fun limit :: "pc \<Rightarrow> u64" where
  "limit (GcScan k m) = m"
| "limit (GcCheck m) = m"
| "limit (GcCas g m) = m"
| "limit (GcFree m) = m"
| "limit _ = 0"

fun to_scan :: "pc \<Rightarrow> nat" where
  "to_scan (GcScan k m) = k"
| "to_scan _ = 0"

fun entering :: "pc \<Rightarrow> bool" where
  "entering (Entering e) = True"
| "entering _ = False"

definition reading :: "ebr \<Rightarrow> tid \<Rightarrow> bool" where
  "reading s t \<longleftrightarrow> critical_depth s t > 0 \<and> \<not> entering (pc_of s t)"

text \<open>The state of the engine; \<open>k\<close> bounds the number of steps so far.\<close>

definition epochs_ok :: "nat \<Rightarrow> ebr \<Rightarrow> bool" where
  "epochs_ok k s \<longleftrightarrow>
     (\<forall>t. store_buffer s t = []) \<and> global_epoch s \<noteq> 0 \<and> unat (global_epoch s) \<le> Suc k
   \<and> (\<forall>t i. tls_tcb s t = Some i \<longrightarrow> i < registered s \<and> active (tcb s i))
   \<and> (\<forall>t t' i. tls_tcb s t = Some i \<longrightarrow> tls_tcb s t' = Some i \<longrightarrow> t = t')
   \<and> (\<forall>t. critical_depth s t \<ge> 0 \<and> (critical_depth s t > 0 \<longrightarrow> tls_tcb s t \<noteq> None))
   \<and> (\<forall>t i. tls_tcb s t = Some i \<longrightarrow> local_epoch (tcb s i) \<le> global_epoch s
        \<and> (reading s t \<longrightarrow> local_epoch (tcb s i) \<noteq> 0))
   \<and> (\<forall>t e. pc_of s t = Entering e \<longrightarrow> e \<noteq> 0 \<and> e \<le> global_epoch s \<and> critical_depth s t > 0)
   \<and> (\<forall>i. i \<ge> registered s \<longrightarrow> retirement_batches (tcb s i) = [])"

text \<open>
  Who holds what, for the nodes \<open>h t\<close> that thread \<open>t\<close> holds and the life \<open>st\<close> of the nodes: nothing held
  is deleted, or will be by a collection that is under way.
\<close>

definition holds_ok :: "(tid \<Rightarrow> nat list) \<Rightarrow> (nat \<Rightarrow> node_status) \<Rightarrow> ebr \<Rightarrow> bool" where
  "holds_ok h st s \<longleftrightarrow>
     (\<forall>t n. n \<in> set (h t) \<longrightarrow> reading s t \<and> st n \<noteq> Fresh \<and> n \<notin> set (deleted s))
   \<and> (\<forall>t n i j. \<forall>b \<in> set (retirement_batches (tcb s i)). n \<in> set (h t) \<longrightarrow> n \<in> set (b_nodes b) \<longrightarrow>
        tls_tcb s t = Some j \<longrightarrow> local_epoch (tcb s j) \<le> b_epoch b)
   \<and> (\<forall>t n i j u. \<forall>b \<in> set (retirement_batches (tcb s i)). n \<in> set (h t) \<longrightarrow> n \<in> set (b_nodes b) \<longrightarrow>
        tls_tcb s t = Some j \<longrightarrow> tls_tcb s u = Some i \<longrightarrow> b_epoch b < limit (pc_of s u) \<longrightarrow> j < to_scan (pc_of s u))"

lemma holds_okI:
  assumes "\<And>t n. n \<in> set (h t) \<Longrightarrow> critical_depth s t > 0" and "\<And>t n. n \<in> set (h t) \<Longrightarrow> \<not> entering (pc_of s t)"
    and "\<And>t n. n \<in> set (h t) \<Longrightarrow> st n \<noteq> Fresh" and "\<And>t n. n \<in> set (h t) \<Longrightarrow> n \<notin> set (deleted s)"
    and "\<And>t n i j b. n \<in> set (h t) \<Longrightarrow> b \<in> set (retirement_batches (tcb s i)) \<Longrightarrow> n \<in> set (b_nodes b) \<Longrightarrow>
        tls_tcb s t = Some j \<Longrightarrow> local_epoch (tcb s j) \<le> b_epoch b"
    and "\<And>t n i j b u. n \<in> set (h t) \<Longrightarrow> b \<in> set (retirement_batches (tcb s i)) \<Longrightarrow> n \<in> set (b_nodes b) \<Longrightarrow>
        tls_tcb s t = Some j \<Longrightarrow> tls_tcb s u = Some i \<Longrightarrow> b_epoch b < limit (pc_of s u) \<Longrightarrow> j < to_scan (pc_of s u)"
  shows "holds_ok h st s"
  unfolding holds_ok_def reading_def using assms by blast

lemma holds_okD:
  assumes "holds_ok h st s"
  shows "n \<in> set (h t) \<Longrightarrow> critical_depth s t > 0" and "n \<in> set (h t) \<Longrightarrow> \<not> entering (pc_of s t)"
    and "n \<in> set (h t) \<Longrightarrow> st n \<noteq> Fresh" and "n \<in> set (h t) \<Longrightarrow> n \<notin> set (deleted s)"
    and "n \<in> set (h t) \<Longrightarrow> b \<in> set (retirement_batches (tcb s i)) \<Longrightarrow> n \<in> set (b_nodes b) \<Longrightarrow>
        tls_tcb s t = Some j \<Longrightarrow> local_epoch (tcb s j) \<le> b_epoch b"
    and "n \<in> set (h t) \<Longrightarrow> b \<in> set (retirement_batches (tcb s i)) \<Longrightarrow> n \<in> set (b_nodes b) \<Longrightarrow>
        tls_tcb s t = Some j \<Longrightarrow> tls_tcb s u = Some i \<Longrightarrow> b_epoch b < limit (pc_of s u) \<Longrightarrow> j < to_scan (pc_of s u)"
  using assms unfolding holds_ok_def reading_def by blast+

text \<open>A node is in one batch or deleted, once, and only after it was retired.\<close>

definition once_ok :: "(nat \<Rightarrow> node_status) \<Rightarrow> ebr \<Rightarrow> bool" where
  "once_ok st s \<longleftrightarrow>
     distinct (deleted s) \<and> (\<forall>n \<in> set (deleted s). st n = Retired)
   \<and> (\<forall>i. distinct (nodes_of (tcb s i)) \<and> set (nodes_of (tcb s i)) \<inter> set (deleted s) = {}
          \<and> (\<forall>n \<in> set (nodes_of (tcb s i)). st n = Retired))
   \<and> (\<forall>i j. i \<noteq> j \<longrightarrow> set (nodes_of (tcb s i)) \<inter> set (nodes_of (tcb s j)) = {})"

lemma nodes_add_to_batch:
  "concat (map b_nodes (add_to_batch e n bs)) = concat (map b_nodes bs) @ [n]"
proof (cases bs rule: rev_cases)
  case Nil
  then show ?thesis by (simp add: add_to_batch_def)
next
  case (snoc cs b)
  then show ?thesis by (auto simp: add_to_batch_def butlast_append)
qed

lemma retired_add_to_batch:
  "(\<exists>b \<in> set (add_to_batch e n bs). b_epoch b = e' \<and> n' \<in> set (b_nodes b)) \<longleftrightarrow>
   (\<exists>b \<in> set bs. b_epoch b = e' \<and> n' \<in> set (b_nodes b)) \<or> e' = e \<and> n' = n"
proof (cases bs rule: rev_cases)
  case Nil
  then show ?thesis by (auto simp: add_to_batch_def butlast_append)
next
  case (snoc cs b)
  then show ?thesis by (auto simp: add_to_batch_def butlast_append)
qed

lemma epochs_okI:
  assumes "\<And>u. store_buffer s u = []" and "global_epoch s \<noteq> 0" and "unat (global_epoch s) \<le> Suc k"
    and "\<And>u i. tls_tcb s u = Some i \<Longrightarrow> i < registered s" and "\<And>u i. tls_tcb s u = Some i \<Longrightarrow> active (tcb s i)"
    and "\<And>u v i. tls_tcb s u = Some i \<Longrightarrow> tls_tcb s v = Some i \<Longrightarrow> u = v"
    and "\<And>u. critical_depth s u \<ge> 0" and "\<And>u. critical_depth s u > 0 \<Longrightarrow> tls_tcb s u \<noteq> None"
    and "\<And>u i. tls_tcb s u = Some i \<Longrightarrow> local_epoch (tcb s i) \<le> global_epoch s"
    and "\<And>u i. tls_tcb s u = Some i \<Longrightarrow> critical_depth s u > 0 \<Longrightarrow> \<not> entering (pc_of s u) \<Longrightarrow> local_epoch (tcb s i) \<noteq> 0"
    and "\<And>u e. pc_of s u = Entering e \<Longrightarrow> e \<noteq> 0" and "\<And>u e. pc_of s u = Entering e \<Longrightarrow> e \<le> global_epoch s"
    and "\<And>u e. pc_of s u = Entering e \<Longrightarrow> critical_depth s u > 0"
    and "\<And>i. i \<ge> registered s \<Longrightarrow> retirement_batches (tcb s i) = []"
  shows "epochs_ok k s"
  unfolding epochs_ok_def reading_def using assms by blast

lemma epochs_okD:
  assumes "epochs_ok k s"
  shows "store_buffer s u = []" and "global_epoch s \<noteq> 0" and "unat (global_epoch s) \<le> Suc k"
    and "tls_tcb s u = Some i \<Longrightarrow> i < registered s" and "tls_tcb s u = Some i \<Longrightarrow> active (tcb s i)"
    and "tls_tcb s u = Some i \<Longrightarrow> tls_tcb s v = Some i \<Longrightarrow> u = v"
    and "critical_depth s u \<ge> 0" and "critical_depth s u > 0 \<Longrightarrow> \<exists>i. tls_tcb s u = Some i"
    and "tls_tcb s u = Some i \<Longrightarrow> local_epoch (tcb s i) \<le> global_epoch s"
    and "tls_tcb s u = Some i \<Longrightarrow> critical_depth s u > 0 \<Longrightarrow> \<not> entering (pc_of s u) \<Longrightarrow> local_epoch (tcb s i) \<noteq> 0"
    and "pc_of s u = Entering e \<Longrightarrow> e \<noteq> 0" and "pc_of s u = Entering e \<Longrightarrow> e \<le> global_epoch s"
    and "pc_of s u = Entering e \<Longrightarrow> critical_depth s u > 0"
    and "i \<ge> registered s \<Longrightarrow> retirement_batches (tcb s i) = []"
  using assms unfolding epochs_ok_def reading_def by blast+

lemma register_tls: "\<exists>i. tls_tcb (RegisterThread t s) t = Some i"
  by (cases "tls_tcb s t") (simp_all add: RegisterThread_def)

lemma epochs_init: "epochs_ok 0 init_ebr"
  by (simp add: epochs_ok_def init_ebr_def new_tcb_def reading_def)

lemma epochs_mono: "epochs_ok k s \<Longrightarrow> epochs_ok (Suc k) s"
  by (auto simp: epochs_ok_def)

lemma epochs_register:
  assumes ok: "epochs_ok k s" and "pc_of s t = Idle"
  shows "epochs_ok k (RegisterThread t s)"
proof (cases "tls_tcb s t")
  case (Some i)
  then show ?thesis using ok by (simp add: RegisterThread_def)
next
  case None
  note D = epochs_okD [OF ok]
  have depth: "critical_depth s t = 0" using D(7) [of t] D(8) [of t] None by fastforce
  show ?thesis
    by (rule epochs_okI) (auto simp: RegisterThread_def None depth new_tcb_def kEpochInactive_def D(1-3,7,14)
        split: if_splits intro: D less_SucI dest: D(4,10,11))
qed

lemma epochs_goto:
  assumes ok: "epochs_ok k s" and "\<not> entering (pc_of s t)" and "\<not> entering p"
  shows "epochs_ok k (goto t p s)"
  using assms by (auto simp: epochs_ok_def goto_def reading_def)

lemma epochs_unregister:
  assumes ok: "epochs_ok k s" and "pc_of s t = Idle" and "\<not> IsInCritical t s"
  shows "epochs_ok k (UnregisterThread t s)"
proof (cases "tls_tcb s t")
  case None
  then show ?thesis using ok by (simp add: UnregisterThread_def)
next
  case (Some i)
  note D = epochs_okD [OF ok]
  have other: "tls_tcb s u = Some j \<Longrightarrow> u \<noteq> t \<Longrightarrow> j \<noteq> i" for u j using D(6) Some by blast
  show ?thesis
    using assms(2,3)
    by (intro epochs_okI)
      (auto simp: UnregisterThread_def Some upd_tcb_def kEpochInactive_def IsInCritical_def D(1-3,7,14)
        split: if_splits intro: D dest: other D(10,11))
qed

lemma epochs_enter:
  assumes "epochs_ok k s" and "pc_of s t = Idle"
  shows "epochs_ok k (EnterCritical t s)"
proof -
  define r where "r = RegisterThread t s"
  have ok: "epochs_ok k r" using epochs_register [OF assms] by (simp add: r_def)
  obtain i where i: "tls_tcb r t = Some i" using register_tls r_def by blast
  have idle: "pc_of r t = Idle" using assms(2) by (simp add: r_def RegisterThread_def)
  note D = epochs_okD [OF ok]
  have e: "EnterCritical t s = (let q = r\<lparr>critical_depth := (critical_depth r)(t := critical_depth r t + 1)\<rparr>
      in if critical_depth r t = 0 then goto t (Entering (global_epoch r)) q else q)"
    by (simp add: EnterCritical_def r_def Let_def)
  have nz: "critical_depth r t \<noteq> 0 \<Longrightarrow> local_epoch (tcb r i) \<noteq> 0"
    using D(10) [OF i] D(7) [of t] idle by fastforce
  have "critical_depth r t + 1 > 0" using D(7) [of t] by linarith
  with nz show ?thesis unfolding e
    by (intro epochs_okI) (auto simp: Let_def goto_def i idle D(1-3,7,14) split: if_splits intro: D dest: D(8,10,11))
qed

lemma epochs_exit:
  assumes ok: "epochs_ok k s" and "pc_of s t = Idle" and "IsInCritical t s"
  shows "epochs_ok k (ExitCritical False t s)"
proof (cases "tls_tcb s t")
  case None
  then show ?thesis using ok by (simp add: ExitCritical_def)
next
  case (Some i)
  note D = epochs_okD [OF ok]
  have other: "tls_tcb s u = Some j \<Longrightarrow> u \<noteq> t \<Longrightarrow> j \<noteq> i" for u j using D(6) Some by blast
  have nz: "local_epoch (tcb s i) \<noteq> 0" using D(10) [OF Some] assms(2,3) by (simp add: IsInCritical_def)
  show ?thesis
    using assms(2,3) nz
    by (intro epochs_okI)
      (auto simp: ExitCritical_def Some upd_tcb_def store_local_def kEpochInactive_def IsInCritical_def Let_def
        D(1-3,7,14) split: if_splits intro: D dest: other D(8,10,11))
qed

lemma epochs_batches:
  assumes "epochs_ok k s" and "i < registered s"
  shows "epochs_ok k (upd_tcb i (\<lambda>b. b\<lparr>retirement_batches := bs\<rparr>) s)"
proof -
  note D = epochs_okD [OF assms(1)]
  show ?thesis using assms(2)
    by (intro epochs_okI) (auto simp: upd_tcb_def D(1-3,7,14) split: if_splits intro: D dest: D(8,10,11))
qed

lemma epochs_retire:
  assumes "epochs_ok k s" and "pc_of s t = Idle"
  shows "epochs_ok k (Retire t x s)"
proof (cases x)
  case None
  then show ?thesis using assms(1) by (simp add: Retire_def)
next
  case (Some n)
  define r where "r = RegisterThread t s"
  have ok: "epochs_ok k r" using epochs_register [OF assms] by (simp add: r_def)
  obtain i where i: "tls_tcb r t = Some i" using register_tls r_def by blast
  have idle: "pc_of r t = Idle" using assms(2) by (simp add: r_def RegisterThread_def)
  have "epochs_ok k (upd_tcb i (\<lambda>b. b\<lparr>retirement_batches := bs\<rparr>) r)" for bs
    by (rule epochs_batches [OF ok epochs_okD(4) [OF ok i]])
  moreover have "pc_of (upd_tcb i f r) t = Idle" for f using idle by (simp add: upd_tcb_def)
  ultimately show ?thesis
    by (simp add: Retire_def Some Let_def i flip: r_def) (auto intro: epochs_goto)
qed

lemma epochs_free:
  assumes "epochs_ok k s"
  shows "epochs_ok k (free_batches t m s)"
proof (cases "tls_tcb s t")
  case None
  then show ?thesis using assms by (simp add: free_batches_def)
next
  case (Some i)
  have "epochs_ok k (upd_tcb i (\<lambda>b. b\<lparr>retirement_batches := bs\<rparr>) s)" for bs
    by (rule epochs_batches [OF assms epochs_okD(4) [OF assms Some]])
  then show ?thesis by (simp add: free_batches_def Some Let_def epochs_ok_def reading_def)
qed

lemma epochs_continue:
  assumes ok: "epochs_ok k s" and k: "Suc (Suc k) < 2 ^ 64"
  shows "epochs_ok (Suc k) (continue False t s)"
proof -
  note D = epochs_okD [OF ok]
  have go: "epochs_ok (Suc k) (goto t p s)" if "\<not> entering (pc_of s t)" "\<not> entering p" for p
    using epochs_mono [OF epochs_goto [OF ok that]] .
  show ?thesis
  proof (cases "pc_of s t")
    case Idle
    then show ?thesis using epochs_mono [OF ok] by (simp add: continue_def)
  next
    case (Entering e)
    then obtain i where i: "tls_tcb s t = Some i" using D(8,13) by blast
    have other: "tls_tcb s u = Some j \<Longrightarrow> u \<noteq> t \<Longrightarrow> j \<noteq> i" for u j using D(6) i by blast
    have e: "e \<noteq> 0" "e \<le> global_epoch s" using D(11,12) Entering by blast+
    have "epochs_ok k (continue False t s)"
      by (rule epochs_okI) (auto simp: continue_def Entering i goto_def store_local_def upd_tcb_def e D(1-3,7,14)
          split: if_splits intro: D dest: other D(8,10,11))
    then show ?thesis by (rule epochs_mono)
  next
    case (GcCas g m)
    show ?thesis
    proof (cases "global_epoch s = g")
      case False
      then show ?thesis using GcCas go by (simp add: continue_def)
    next
      case True
      have g: "unat (g + 1) = Suc (unat g)"
        using unat_add_u64 [of g 1] D(3) k True by simp
      then have le: "e \<le> global_epoch s \<Longrightarrow> e \<le> global_epoch s + 1" for e
        using True by (simp add: word_le_nat_alt)
      have "epochs_ok (Suc k) (s\<lparr>global_epoch := g + 1\<rparr>)"
        using D(3) g True
        by (intro epochs_okI) (auto simp: D(1,7,14) intro: D le D(9) [THEN le] D(12) [THEN le] dest: D(8,10,11))
      then show ?thesis using GcCas True by (simp add: continue_def epochs_goto)
    qed
  next
    case (GcFree m)
    have "epochs_ok k (free_batches t m s)" by (rule epochs_free [OF ok])
    moreover have "pc_of (free_batches t m s) = pc_of s"
      by (simp add: free_batches_def upd_tcb_def Let_def split: option.splits)
    ultimately have "epochs_ok k (goto t Idle (free_batches t m s))" using GcFree by (intro epochs_goto) auto
    then show ?thesis using GcFree by (simp add: continue_def epochs_mono)
  qed (use go in \<open>auto simp: continue_def Let_def simp del: scan_block.simps split: nat.splits\<close>)
qed

section \<open>Each operation keeps it\<close>

lemma nodes_ofI: "b \<in> set (retirement_batches x) \<Longrightarrow> n \<in> set (b_nodes b) \<Longrightarrow> n \<in> set (nodes_of x)"
  by (auto simp: nodes_of_def)

lemma once_okD:
  assumes "once_ok st s"
  shows "n \<in> set (deleted s) \<Longrightarrow> st n = Retired"
    and "b \<in> set (retirement_batches (tcb s i)) \<Longrightarrow> n \<in> set (b_nodes b) \<Longrightarrow> st n = Retired"
  using assms nodes_ofI unfolding once_ok_def by blast+

lemma holds_none: "holds_ok h st s \<Longrightarrow> \<not> critical_depth s t > 0 \<Longrightarrow> h t = []"
  using holds_okD(1) [of h st s _ t] by (cases "h t") auto

lemma holds_register:
  assumes E: "epochs_ok k s" and H: "holds_ok h st s" and "pc_of s t = Idle"
  shows "holds_ok h st (RegisterThread t s)"
proof (cases "tls_tcb s t")
  case (Some i)
  then show ?thesis using H by (simp add: RegisterThread_def)
next
  case None
  note D = epochs_okD [OF E] and H' = holds_okD [OF H]
  have depth: "critical_depth s t = 0" using D(7) [of t] D(8) [of t] None by fastforce
  have "h t = []" using holds_none [OF H, of t] depth by simp
  then show ?thesis using assms(3)
    by (intro holds_okI) (auto simp: RegisterThread_def None new_tcb_def split: if_splits intro: H' dest: H'(2,3,4) D(4))
qed

lemma holds_goto:
  assumes H: "holds_ok h st s" and "\<not> entering p \<or> h t = []"
    and "\<And>u n i j b. n \<in> set (h u) \<Longrightarrow> b \<in> set (retirement_batches (tcb s i)) \<Longrightarrow> n \<in> set (b_nodes b) \<Longrightarrow>
        tls_tcb s u = Some j \<Longrightarrow> tls_tcb s t = Some i \<Longrightarrow> b_epoch b < limit p \<Longrightarrow> j < to_scan p"
  shows "holds_ok h st (goto t p s)"
proof -
  note H' = holds_okD [OF H]
  show ?thesis using assms(2)
    by (intro holds_okI) (auto simp: goto_def split: if_splits intro: H' assms(3) dest: H'(2,3,4))
qed

lemma holds_unregister:
  assumes E: "epochs_ok k s" and H: "holds_ok h st s" and "\<not> IsInCritical t s"
  shows "holds_ok h st (UnregisterThread t s)"
proof (cases "tls_tcb s t")
  case None
  then show ?thesis using H by (simp add: UnregisterThread_def)
next
  case (Some i)
  note D = epochs_okD [OF E] and H' = holds_okD [OF H]
  have "h t = []" using holds_none [OF H, of t] assms(3) by (simp add: IsInCritical_def)
  then show ?thesis
    by (intro holds_okI) (auto simp: UnregisterThread_def Some upd_tcb_def kEpochInactive_def split: if_splits
        intro: H' dest: H'(2,3,4))
qed

lemma holds_enter:
  assumes E: "epochs_ok k s" and H: "holds_ok h st s" and "pc_of s t = Idle"
  shows "holds_ok h st (EnterCritical t s)"
proof -
  define r where "r = RegisterThread t s"
  have H1: "holds_ok h st r" unfolding r_def by (rule holds_register [OF assms])
  have ok: "epochs_ok k r" unfolding r_def by (rule epochs_register [OF assms(1,3)])
  note H' = holds_okD [OF H1]
  define q where "q = r\<lparr>critical_depth := (critical_depth r)(t := critical_depth r t + 1)\<rparr>"
  have "critical_depth r t + 1 > 0" using epochs_okD(7) [OF ok, of t] by linarith
  then have Hq: "holds_ok h st q"
    by (intro holds_okI) (auto simp: q_def intro: H' dest: H'(1,2,3,4))
  have "h t = []" if "critical_depth r t = 0" using holds_none [OF H1, of t] that by simp
  then show ?thesis
    using Hq by (auto simp: EnterCritical_def Let_def q_def simp flip: r_def intro!: holds_goto)
qed

lemma holds_exit:
  assumes E: "epochs_ok k s" and H: "holds_ok h st s" and "pc_of s t = Idle" and "IsInCritical t s"
  shows "holds_ok (if critical_depth s t = 1 then h(t := []) else h) st (ExitCritical False t s)"
proof -
  note D = epochs_okD [OF E] and H' = holds_okD [OF H]
  obtain i where i: "tls_tcb s t = Some i" using D(8) [of t] assms(4) by (auto simp: IsInCritical_def)
  have other: "tls_tcb s u = Some j \<Longrightarrow> u \<noteq> t \<Longrightarrow> j \<noteq> i" for u j using D(6) i by blast
  show ?thesis using assms(4)
    by (intro holds_okI)
      (auto simp: ExitCritical_def i upd_tcb_def store_local_def kEpochInactive_def IsInCritical_def Let_def
        split: if_splits intro: H' dest: H'(2,3,4) other)
qed

lemma holds_retire:
  assumes E: "epochs_ok k s" and H: "holds_ok h st s" and idle: "pc_of s t = Idle" and "st n = Unlinked t"
  shows "holds_ok h (st(n := Retired)) (Retire t (Some n) s)"
proof -
  define r where "r = RegisterThread t s"
  have H1: "holds_ok h st r" unfolding r_def by (rule holds_register [OF assms(1-3)])
  have ok: "epochs_ok k r" unfolding r_def by (rule epochs_register [OF assms(1,3)])
  have idle': "pc_of r t = Idle" using idle by (simp add: r_def RegisterThread_def)
  note D = epochs_okD [OF ok] and H' = holds_okD [OF H1]
  obtain i where i: "tls_tcb r t = Some i" using register_tls r_def by blast
  define bs where "bs = add_to_batch (global_epoch r) n (retirement_batches (tcb r i))"
  define q where "q = upd_tcb i (\<lambda>b. b\<lparr>retirement_batches := bs\<rparr>) r"
  have old: "(\<exists>b' \<in> set (retirement_batches (tcb r i)). b_epoch b' = b_epoch b \<and> m \<in> set (b_nodes b'))
      \<or> b_epoch b = global_epoch r" if "b \<in> set bs" "m \<in> set (b_nodes b)" for b m
    using that retired_add_to_batch [of "global_epoch r" n "retirement_batches (tcb r i)" "b_epoch b" m]
    unfolding bs_def by blast
  have le: "local_epoch (tcb r j) \<le> b_epoch b"
    if "m \<in> set (h u)" "b \<in> set bs" "m \<in> set (b_nodes b)" "tls_tcb r u = Some j" for u m j b
    using old [OF that(2,3)] H'(5) [OF that(1) _ _ that(4)] D(9) [OF that(4)] by metis
  have "holds_ok h (st(n := Retired)) q"
  proof (rule holds_okI)
    fix u m l j b
    assume a: "m \<in> set (h u)" "b \<in> set (retirement_batches (tcb q l))" "m \<in> set (b_nodes b)" "tls_tcb q u = Some j"
    then show "local_epoch (tcb q j) \<le> b_epoch b"
      using le H'(5) by (auto simp: q_def upd_tcb_def split: if_splits)
    fix v
    assume v: "tls_tcb q v = Some l" "b_epoch b < limit (pc_of q v)"
    then have "v \<noteq> t" using idle' by (auto simp: q_def upd_tcb_def)
    then have "l \<noteq> i" using D(6) [of t i v] i v(1) by (auto simp: q_def upd_tcb_def)
    then show "j < to_scan (pc_of q v)"
      using a v H'(6) by (auto simp: q_def upd_tcb_def split: if_splits)
  qed (auto simp: q_def upd_tcb_def dest: H'(1,2,3,4))
  then show ?thesis
    by (auto simp: Retire_def Let_def i bs_def q_def simp flip: r_def intro!: holds_goto)
qed

lemma continue_idle_store: "store_buffer s t = [] \<Longrightarrow> load_local t i s = local_epoch (tcb s i)"
  by (simp add: load_local_def)

lemma scan_block_le:
  assumes "active (tcb s i)" and "store_buffer s t = []"
    and "local_epoch (tcb s i) \<noteq> 0"
  shows "scan_block t i m s \<le> local_epoch (tcb s i)"
  using assms by (auto simp: continue_idle_store kEpochInactive_def Let_def)

lemma scan_block_mono: "scan_block t i m s \<le> m"
  by (auto simp: Let_def)

lemma holds_free:
  assumes E: "epochs_ok k s" and H: "holds_ok h st s" and pc: "pc_of s t = GcFree m"
  shows "holds_ok h st (free_batches t m s)"
proof (cases "tls_tcb s t")
  case None
  then show ?thesis using H by (simp add: free_batches_def)
next
  case (Some i)
  note H' = holds_okD [OF H] and D = epochs_okD [OF E]
  have kept: "\<not> b_epoch b < m"
    if a: "n \<in> set (h u)" "b \<in> set (retirement_batches (tcb s i))" "n \<in> set (b_nodes b)" for u n b
  proof
    assume "b_epoch b < m"
    moreover obtain j where "tls_tcb s u = Some j" using D(8) [OF H'(1) [OF a(1)]] by blast
    ultimately show False using H'(6) [OF a _ Some, of j] pc by simp
  qed
  show ?thesis
    by (intro holds_okI)
      (auto simp: free_batches_def Some Let_def upd_tcb_def split: if_splits intro: H' dest: H'(2,3,4) kept)
qed

lemma holds_continue:
  assumes E: "epochs_ok k s" and H: "holds_ok h st s"
  shows "holds_ok h st (continue False t s)"
proof -
  note D = epochs_okD [OF E] and H' = holds_okD [OF H]
  show ?thesis
  proof (cases "pc_of s t")
    case Idle
    then show ?thesis using H by (simp add: continue_def)
  next
    case (Entering e)
    then obtain i where i: "tls_tcb s t = Some i" using D(8,13) by blast
    have other: "tls_tcb s u = Some j \<Longrightarrow> u \<noteq> t \<Longrightarrow> j \<noteq> i" for u j using D(6) i by blast
    have "h t = []" using H'(2) [of _ t] Entering by (cases "h t") auto
    then show ?thesis
      by (intro holds_okI) (auto simp: continue_def Entering i goto_def store_local_def upd_tcb_def
          split: if_splits intro: H' dest: H'(2,3,4) other)
  next
    case GcStart
    then show ?thesis using H by (auto simp: continue_def intro!: holds_goto)
  next
    case (GcHead m)
    then show ?thesis using H D(4) by (auto simp: continue_def intro!: holds_goto)
  next
    case (GcScan k m)
    show ?thesis
    proof (cases k)
      case 0
      then show ?thesis using GcScan H by (auto simp: continue_def intro!: holds_goto dest: H'(6))
    next
      case (Suc l)
      have "j < l" if a: "n \<in> set (h u)" "b \<in> set (retirement_batches (tcb s i))" "n \<in> set (b_nodes b)"
        "tls_tcb s u = Some j" "tls_tcb s t = Some i" "b_epoch b < scan_block t l m s" for u n i j b
      proof -
        have "b_epoch b < m" using a(6) scan_block_mono by (rule less_le_trans)
        then have "j < Suc l" using H'(6) [OF a(1-5)] GcScan Suc by simp
        moreover have "j \<noteq> l"
        proof
          assume "j = l"
          have "scan_block t l m s \<le> local_epoch (tcb s j)"
            using scan_block_le [OF D(5) [OF a(4)] D(1)] D(10) [OF a(4)] H'(1,2) [OF a(1)] \<open>j = l\<close> by blast
          also have "\<dots> \<le> b_epoch b" by (rule H'(5) [OF a(1-4)])
          finally show False using a(6) by simp
        qed
        ultimately show ?thesis by simp
      qed
      then show ?thesis using GcScan Suc H
        by (auto simp: continue_def simp del: scan_block.simps intro!: holds_goto)
    qed
  next
    case (GcCheck m)
    then show ?thesis using H by (auto simp: continue_def Let_def intro!: holds_goto dest: H'(6))
  next
    case (GcCas g m)
    have "holds_ok h st (s\<lparr>global_epoch := e\<rparr>)" for e using H by (simp add: holds_ok_def reading_def)
    then show ?thesis using H GcCas by (auto simp: continue_def intro!: holds_goto dest: H'(6))
  next
    case (GcFree m)
    then show ?thesis using holds_free [OF E H GcFree] by (auto simp: continue_def intro!: holds_goto)
  qed
qed

section \<open>Every node is deleted at most once\<close>

lemma once_same:
  assumes "once_ok st s" and "\<And>i. retirement_batches (tcb s' i) = retirement_batches (tcb s i)"
    and "deleted s' = deleted s"
  shows "once_ok st s'"
  using assms by (simp add: once_ok_def nodes_of_def)

lemma once_status:
  assumes "once_ok st s" and "\<And>n. st n = Retired \<Longrightarrow> st' n = Retired"
  shows "once_ok st' s"
  using assms by (simp add: once_ok_def)

lemma register_batches:
  "epochs_ok k s \<Longrightarrow> retirement_batches (tcb (RegisterThread t s) i) = retirement_batches (tcb s i)"
  using epochs_okD(14) [of k s] by (auto simp: RegisterThread_def new_tcb_def)

lemma deleted_simps [simp]:
  "deleted (RegisterThread t s) = deleted s" "deleted (goto t p s) = deleted s" "tcb (goto t p s) = tcb s"
  "deleted (UnregisterThread t s) = deleted s" "deleted (EnterCritical t s) = deleted s"
  "deleted (ExitCritical tso t s) = deleted s"
  by (auto simp: RegisterThread_def goto_def UnregisterThread_def upd_tcb_def EnterCritical_def ExitCritical_def
      store_local_def Let_def split: option.splits)

lemma batches_simps:
  "retirement_batches (tcb (UnregisterThread t s) i) = retirement_batches (tcb s i)"
  "retirement_batches (tcb (EnterCritical t s) i) = retirement_batches (tcb (RegisterThread t s) i)"
  "retirement_batches (tcb (ExitCritical tso t s) i) = retirement_batches (tcb s i)"
  by (auto simp: UnregisterThread_def upd_tcb_def EnterCritical_def ExitCritical_def goto_def
      store_local_def Let_def split: option.splits)

lemma once_retire:
  assumes E: "epochs_ok k s" and O: "once_ok st s" and n: "st n = Unlinked t"
  shows "once_ok (st(n := Retired)) (Retire t (Some n) s)"
proof -
  define r where "r = RegisterThread t s"
  obtain i where i: "tls_tcb r t = Some i" using register_tls r_def by blast
  have O1: "once_ok st r" unfolding r_def by (rule once_same [OF O register_batches [OF E]]) simp
  have new: "n \<notin> set (deleted r)" "\<And>j. n \<notin> set (nodes_of (tcb r j))"
    using O1 n unfolding once_ok_def by fastforce+
  define bs where "bs = add_to_batch (global_epoch r) n (retirement_batches (tcb r i))"
  define q where "q = upd_tcb i (\<lambda>b. b\<lparr>retirement_batches := bs\<rparr>) r"
  have nodes: "nodes_of (tcb q j) = nodes_of (tcb r j) @ (if j = i then [n] else [])" for j
    by (simp add: q_def upd_tcb_def bs_def nodes_of_def nodes_add_to_batch)
  have del: "deleted q = deleted r" by (simp add: q_def upd_tcb_def)
  have "once_ok (st(n := Retired)) q"
    unfolding once_ok_def nodes del
  proof (intro conjI allI impI)
    show "set (nodes_of (tcb r j) @ (if j = i then [n] else [])) \<inter>
        set (nodes_of (tcb r l) @ (if l = i then [n] else [])) = {}" if "j \<noteq> l" for j l
      using O1 new(2) [of j] new(2) [of l] that unfolding once_ok_def by fastforce
  qed (use O1 new in \<open>auto simp: once_ok_def\<close>)
  then have "once_ok (st(n := Retired)) (goto t p q)" for p by (rule once_same) auto
  then show ?thesis using \<open>once_ok (st(n := Retired)) q\<close>
    by (auto simp: Retire_def Let_def i bs_def q_def simp flip: r_def)
qed

lemma distinct_split:
  "distinct (concat (map f xs)) \<Longrightarrow> distinct (concat (map f (filter P xs)))
     \<and> distinct (concat (map f (filter (\<lambda>x. \<not> P x) xs)))
     \<and> set (concat (map f (filter P xs))) \<inter> set (concat (map f (filter (\<lambda>x. \<not> P x) xs))) = {}"
proof (induction xs)
  case Nil
  then show ?case by simp
next
  case (Cons x xs)
  then show ?case by (cases "P x") auto
qed

lemma once_free:
  assumes O: "once_ok st s"
  shows "once_ok st (free_batches t m s)"
proof (cases "tls_tcb s t")
  case None
  then show ?thesis using O by (simp add: free_batches_def)
next
  case (Some i)
  define bs where "bs = retirement_batches (tcb s i)"
  define gone where "gone = concat (map b_nodes (filter (\<lambda>b. b_epoch b < m) bs))"
  define kept where "kept = concat (map b_nodes (filter (\<lambda>b. \<not> b_epoch b < m) bs))"
  let ?q = "free_batches t m s"
  have del: "deleted ?q = deleted s @ gone" by (simp add: free_batches_def Some gone_def bs_def Let_def)
  have nodes: "nodes_of (tcb ?q j) = (if j = i then kept else nodes_of (tcb s j))" for j
    by (simp add: free_batches_def Some kept_def bs_def Let_def upd_tcb_def nodes_of_def)
  have i: "nodes_of (tcb s i) = concat (map b_nodes bs)" by (simp add: nodes_of_def bs_def)
  have sub: "set gone \<subseteq> set (nodes_of (tcb s i))" "set kept \<subseteq> set (nodes_of (tcb s i))"
    by (auto simp: gone_def kept_def i)
  have "distinct (concat (map b_nodes bs))" using O i unfolding once_ok_def by metis
  then have dist: "distinct gone" "distinct kept" "set gone \<inter> set kept = {}"
    using distinct_split [of b_nodes bs "\<lambda>b. b_epoch b < m"] unfolding gone_def kept_def by blast+
  have disj: "set (nodes_of (tcb s i)) \<inter> set (deleted s) = {}" "\<forall>n \<in> set (nodes_of (tcb s i)). st n = Retired"
    "distinct (deleted s)" "\<forall>n \<in> set (deleted s). st n = Retired"
    and other: "\<And>j. j \<noteq> i \<Longrightarrow> set (nodes_of (tcb s i)) \<inter> set (nodes_of (tcb s j)) = {}"
    using O unfolding once_ok_def by blast+
  show ?thesis unfolding once_ok_def
  proof (intro conjI allI impI)
    show "distinct (deleted ?q)" using dist(1) disj(1,3) sub(1) by (auto simp: del)
    show "\<forall>n \<in> set (deleted ?q). st n = Retired" using disj(2,4) sub(1) by (auto simp: del)
    show "distinct (nodes_of (tcb ?q j))" for j using O dist(2) by (simp add: nodes once_ok_def)
    show "set (nodes_of (tcb ?q j)) \<inter> set (deleted ?q) = {}" for j
    proof (cases "j = i")
      case True
      then show ?thesis using disj(1) dist(3) sub by (auto simp: nodes del)
    next
      case False
      have "set (nodes_of (tcb s j)) \<inter> set (deleted s) = {}" using O unfolding once_ok_def by blast
      then show ?thesis using False other [OF False] sub(1) by (auto simp: nodes del)
    qed
    show "\<forall>n \<in> set (nodes_of (tcb ?q j)). st n = Retired" for j
      using O disj(2) sub(2) by (auto simp: nodes once_ok_def)
    show "set (nodes_of (tcb ?q j)) \<inter> set (nodes_of (tcb ?q l)) = {}" if "j \<noteq> l" for j l
    proof -
      have "set (nodes_of (tcb s j)) \<inter> set (nodes_of (tcb s l)) = {}" using O that unfolding once_ok_def by blast
      then show ?thesis using that other sub(2) by (auto simp: nodes)
    qed
  qed
qed

lemma once_continue:
  assumes "once_ok st s"
  shows "once_ok st (continue False t s)"
proof (cases "pc_of s t")
  case (GcFree m)
  have "once_ok st (goto t Idle (free_batches t m s))" by (rule once_same [OF once_free [OF assms]]) auto
  then show ?thesis by (simp add: continue_def GcFree)
qed (auto simp: continue_def store_local_def upd_tcb_def Let_def simp del: scan_block.simps split: nat.splits
    intro!: once_same [OF assms])

section \<open>Runs\<close>

definition client_inv :: "nat \<Rightarrow> client \<Rightarrow> bool" where
  "client_inv k c \<longleftrightarrow> epochs_ok k (sys c) \<and> holds_ok (held c) (status c) (sys c) \<and> once_ok (status c) (sys c)"

lemma holds_status:
  assumes "holds_ok h st s" and "\<And>n. st n \<noteq> Fresh \<Longrightarrow> st' n \<noteq> Fresh"
  shows "holds_ok h st' s"
  using assms by (simp add: holds_ok_def)

lemma holds_acquire:
  assumes H: "holds_ok h st s" and O: "once_ok st s" and "reading s t" and n: "st n = Linked"
  shows "holds_ok (h(t := n # h t)) st s"
proof -
  have fresh: "n \<notin> set (deleted s)" "b \<in> set (retirement_batches (tcb s i)) \<Longrightarrow> n \<notin> set (b_nodes b)" for b i
    using once_okD [OF O] n by fastforce+
  note H' = holds_okD [OF H]
  show ?thesis using assms(3) fresh n
    by (intro holds_okI) (auto simp: reading_def split: if_splits intro: H' dest: H'(2,3,4))
qed

lemma client_inv_step:
  assumes I: "client_inv k c" and step: "client_step False c e = Some d" and k: "Suc (Suc k) < 2 ^ 64"
  shows "client_inv (Suc k) d"
proof -
  have E: "epochs_ok k (sys c)" and H: "holds_ok (held c) (status c) (sys c)" and O: "once_ok (status c) (sys c)"
    using I by (simp_all add: client_inv_def)
  note inv = client_inv_def epochs_mono
  show ?thesis
  proof (cases e)
    case (Register t)
    then have "d = c\<lparr>sys := RegisterThread t (sys c)\<rparr>" "pc_of (sys c) t = Idle"
      using step by (auto split: if_splits)
    then show ?thesis
      using epochs_register [OF E] holds_register [OF E H] once_same [OF O register_batches [OF E] deleted_simps(1)]
      by (simp add: inv)
  next
    case (Unregister t)
    then have "d = c\<lparr>sys := UnregisterThread t (sys c)\<rparr>" "pc_of (sys c) t = Idle" "\<not> IsInCritical t (sys c)"
      using step by (auto split: if_splits)
    then show ?thesis
      using epochs_unregister [OF E] holds_unregister [OF E H] once_same [OF O batches_simps(1) deleted_simps(4)]
      by (simp add: inv)
  next
    case (GuardBegin t)
    then have "d = c\<lparr>sys := EnterCritical t (sys c)\<rparr>" "pc_of (sys c) t = Idle"
      using step by (auto split: if_splits)
    moreover have "once_ok (status c) (EnterCritical t (sys c))"
      by (rule once_same [OF O]) (simp_all add: batches_simps register_batches [OF E])
    ultimately show ?thesis using epochs_enter [OF E] holds_enter [OF E H] by (simp add: inv)
  next
    case (GuardEnd t)
    then have "d = c\<lparr>sys := ExitCritical False t (sys c),
        held := (if critical_depth (sys c) t = 1 then (held c)(t := []) else held c)\<rparr>"
      "pc_of (sys c) t = Idle" "IsInCritical t (sys c)"
      using step by (auto split: if_splits)
    then show ?thesis
      using epochs_exit [OF E] holds_exit [OF E H] once_same [OF O batches_simps(3) deleted_simps(6)]
      by (simp add: inv)
  next
    case (Collect t)
    then have d: "d = c\<lparr>sys := goto t GcStart (sys c)\<rparr>" "pc_of (sys c) t = Idle"
      using step by (auto split: if_splits)
    have "once_ok (status c) (goto t GcStart (sys c))" by (rule once_same [OF O]) simp_all
    then show ?thesis using d epochs_goto [OF E, of t GcStart] holds_goto [OF H, of GcStart t] by (simp add: inv)
  next
    case (Continue t)
    then have "d = c\<lparr>sys := continue False t (sys c)\<rparr>" using step by (auto split: if_splits)
    then show ?thesis
      using epochs_continue [OF E k] holds_continue [OF E H] once_continue [OF O] by (simp add: client_inv_def)
  next
    case (Drain t)
    then show ?thesis using step epochs_okD(1) [OF E] by simp
  next
    case (LinkNode n)
    then have d: "d = c\<lparr>status := (status c)(n := Linked)\<rparr>" "status c n = Fresh"
      using step by (auto split: if_splits)
    have "holds_ok (held c) ((status c)(n := Linked)) (sys c)" by (rule holds_status [OF H]) simp
    moreover have "once_ok ((status c)(n := Linked)) (sys c)" by (rule once_status [OF O]) (use d(2) in auto)
    ultimately show ?thesis using d(1) E by (simp add: inv)
  next
    case (AcquireNode t n)
    then have d: "d = c\<lparr>held := (held c)(t := n # held c t)\<rparr>" "status c n = Linked" "reading (sys c) t"
      using step by (auto simp: reading_def IsInCritical_def split: if_splits)
    then show ?thesis using holds_acquire [OF H O d(3,2)] E O by (simp add: inv)
  next
    case (UnlinkNode t n)
    then have d: "d = c\<lparr>status := (status c)(n := Unlinked t)\<rparr>" "status c n = Linked"
      using step by (auto split: if_splits)
    have "holds_ok (held c) ((status c)(n := Unlinked t)) (sys c)" by (rule holds_status [OF H]) simp
    moreover have "once_ok ((status c)(n := Unlinked t)) (sys c)" by (rule once_status [OF O]) (use d(2) in auto)
    ultimately show ?thesis using d(1) E by (simp add: inv)
  next
    case (RetireNode t n)
    then have d: "d = c\<lparr>sys := Retire t (Some n) (sys c), status := (status c)(n := Retired)\<rparr>"
      "pc_of (sys c) t = Idle" "status c n = Unlinked t"
      using step by (auto split: if_splits)
    then show ?thesis
      using epochs_retire [OF E d(2)] holds_retire [OF E H d(2,3)] once_retire [OF E O d(3)] by (simp add: inv)
  qed
qed

lemma client_inv_run:
  assumes "client_inv k c" and "run (client_step False) c es = Some d" and "Suc (k + length es) < 2 ^ 64"
  shows "client_inv (k + length es) d"
  using assms
proof (induction es arbitrary: k c)
  case Nil
  then show ?case by simp
next
  case (Cons e es)
  then obtain d' where "client_step False c e = Some d'" "run (client_step False) d' es = Some d"
    by (auto split: option.splits)
  then show ?case using Cons client_inv_step [OF Cons.prems(1), of e d'] Cons.IH [of "Suc k" d'] by simp
qed

lemma client_inv_init: "client_inv 0 init_client"
  using epochs_init by (auto simp: client_inv_def init_client_def init_ebr_def new_tcb_def nodes_of_def
      holds_ok_def once_ok_def)

section \<open>Properties\<close>


text \<open>A reader holds node 5 while another thread unlinks, retires and collects; then it leaves.\<close>

definition collection :: "tid \<Rightarrow> nat \<Rightarrow> event list" where
  "collection t n = Collect t # replicate (n + 6) (Continue t)"

definition reader_schedule :: "event list" where
  "reader_schedule = [LinkNode 5, GuardBegin 0, Continue 0, AcquireNode 0 5, UnlinkNode 1 5, RetireNode 1 5]
     @ collection 1 2 @ butlast (collection 1 2)"

lemma reader_schedule_runs:
  "case run (client_step False) init_client reader_schedule of
     None \<Rightarrow> False | Some c \<Rightarrow> held c 0 = [5] \<and> global_epoch (sys c) = 2 \<and> deleted (sys c) = []"
  by code_simp


section \<open>Progress\<close>

lemma scan_quiet:
  assumes "\<And>i. i < k \<Longrightarrow> active (tcb (sys c) i) \<Longrightarrow> local_epoch (tcb (sys c) i) = kEpochInactive"
    and "store_buffer (sys c) t = []"
  shows "run (client_step False) (c\<lparr>sys := goto t (GcScan k m) (sys c)\<rparr>) (replicate k (Continue t))
    = Some (c\<lparr>sys := goto t (GcScan 0 m) (sys c)\<rparr>)"
  using assms
proof (induction k)
  case 0
  then show ?case by simp
next
  case (Suc k)
  have "scan_block t k m (goto t (GcScan (Suc k) m) (sys c)) = m"
    using Suc.prems(1) [of k] Suc.prems(2) by (simp add: load_local_def goto_def)
  then show ?case
    using Suc by (simp add: continue_def goto_def del: scan_block.simps)
qed

lemma collection_quiet:
  assumes "pc_of (sys c) t = Idle" and "store_buffer (sys c) t = []"
    and "\<And>i. i < registered (sys c) \<Longrightarrow> active (tcb (sys c) i) \<Longrightarrow> local_epoch (tcb (sys c) i) = kEpochInactive"
  shows "run (client_step False) c (collection t (registered (sys c)))
    = Some (c\<lparr>sys := free_batches t (global_epoch (sys c)) ((sys c)\<lparr>global_epoch := global_epoch (sys c) + 1\<rparr>)\<rparr>)"
proof -
  let ?n = "registered (sys c)" and ?g = "global_epoch (sys c)"
  let ?c0 = "c\<lparr>sys := goto t (GcScan ?n ?g) (sys c)\<rparr>" and ?c1 = "c\<lparr>sys := goto t (GcScan 0 ?g) (sys c)\<rparr>"
  have split: "collection t ?n = [Collect t, Continue t, Continue t] @ replicate ?n (Continue t)
      @ [Continue t, Continue t, Continue t, Continue t]"
  proof -
    have "replicate (?n + 6) x = replicate 2 x @ replicate ?n x @ replicate 4 x" for x :: event
      by (simp flip: replicate_add)
    moreover have "replicate 2 x = [x, x]" "replicate 4 x = [x, x, x, x]" for x :: event
      by (simp_all add: eval_nat_numeral)
    ultimately show ?thesis by (simp add: collection_def)
  qed
  have "run (client_step False) c [Collect t, Continue t, Continue t] = Some ?c0"
    using assms(1) by (simp add: continue_def goto_def)
  moreover have "run (client_step False) ?c0 (replicate ?n (Continue t)) = Some ?c1"
    by (rule scan_quiet) (use assms in auto)
  moreover have "run (client_step False) ?c1 [Continue t, Continue t, Continue t, Continue t]
      = Some (c\<lparr>sys := free_batches t ?g ((sys c)\<lparr>global_epoch := ?g + 1\<rparr>)\<rparr>)"
    using assms(1)
    by (simp add: continue_def goto_def free_batches_def upd_tcb_def Let_def fun_upd_idem split: option.splits)
  ultimately show ?thesis unfolding split run_append by (simp only: option.case)
qed


definition after_reader :: "event list" where
  "after_reader = reader_schedule @ [GuardEnd 0]"


section \<open>What the engine does not promise\<close>

text \<open>
  With store buffers, the same client meets a use after free: the store of \<open>EnterCritical\<close> is still in
  the buffer of thread 0 when it takes its pointer, and the collector sees an inactive block. A
  sequentially consistent fence between the store and the first read would forbid it.
\<close>

lemma EnterCritical_needs_fence:
  "case run (client_step True) init_client
      ([LinkNode 5, GuardBegin 0, Continue 0, AcquireNode 0 5, UnlinkNode 1 5, RetireNode 1 5]
        @ collection 1 2 @ collection 1 2) of
     None \<Rightarrow> False | Some c \<Rightarrow> 5 \<in> set (held c 0) \<and> 5 \<in> set (deleted (sys c))"
  by code_simp

text \<open>
  A thread that unregisters inside a guard keeps its critical depth: the guard's end does nothing and
  every later guard of the thread finds a depth above zero and publishes no epoch.
\<close>

lemma UnregisterThread_in_guard:
  assumes "tls_tcb s t = Some i" and "critical_depth s t = 1"
  defines "u \<equiv> EnterCritical t (ExitCritical False t (UnregisterThread t s))"
  shows "IsInCritical t u" and "pc_of u t = pc_of s t" and "tls_tcb u t = Some (registered s)"
    and "local_epoch (tcb u (registered s)) = kEpochInactive"
proof -
  define r where "r = UnregisterThread t s"
  have r: "tls_tcb r t = None" "critical_depth r t = 1" "pc_of r t = pc_of s t" "registered r = registered s"
    using assms(1,2) by (simp_all add: r_def UnregisterThread_def upd_tcb_def)
  have "ExitCritical False t r = r" using r(1) by (simp add: ExitCritical_def)
  moreover have "critical_depth (RegisterThread t r) t = 1" using r(1,2) by (simp add: RegisterThread_def)
  ultimately have u: "u = (RegisterThread t r)\<lparr>critical_depth := (critical_depth (RegisterThread t r))(t := 1 + 1)\<rparr>"
    unfolding u_def r_def [symmetric] EnterCritical_def Let_def by simp
  show "IsInCritical t u" and "pc_of u t = pc_of s t" and "tls_tcb u t = Some (registered s)"
    and "local_epoch (tcb u (registered s)) = kEpochInactive"
    by (simp_all add: u IsInCritical_def RegisterThread_def r new_tcb_def)
qed

text \<open>The batches of a thread that unregisters are in no later collection of any thread.\<close>

lemma UnregisterThread_leaks:
  assumes "tls_tcb s t = Some i" and "\<And>u. u \<noteq> t \<Longrightarrow> tls_tcb s u \<noteq> Some i"
  shows "tls_tcb (UnregisterThread t s) u \<noteq> Some i"
    and "retirement_batches (tcb (UnregisterThread t s) i) = retirement_batches (tcb s i)"
  using assms by (auto simp: UnregisterThread_def upd_tcb_def)

end
