(* ===== verification/Fp.thy ===== *)
theory Fp
  imports Complex_Main Prelude
begin

text \<open>
  Floating point. The components that compute with \<open>float\<close> or \<open>double\<close> take the operations as a
  parameter, in the order in which the source applies them, so that what is proved of all
  \<open>fp\<close> holds bit for bit; \<open>flit\<close> is the value of a decimal literal. \<open>exact\<close> is arithmetic without
  rounding, for what the formulas mean.
\<close>

record 'f fp =
  fzero :: 'f
  fone :: 'f
  fhalf :: 'f
  fadd :: "'f \<Rightarrow> 'f \<Rightarrow> 'f"
  fsub :: "'f \<Rightarrow> 'f \<Rightarrow> 'f"
  fmul :: "'f \<Rightarrow> 'f \<Rightarrow> 'f"
  fdiv :: "'f \<Rightarrow> 'f \<Rightarrow> 'f"
  fless :: "'f \<Rightarrow> 'f \<Rightarrow> bool"
  fle :: "'f \<Rightarrow> 'f \<Rightarrow> bool"
  fnat :: "nat \<Rightarrow> 'f"
  flit :: "rat \<Rightarrow> 'f"

definition exact :: "'a :: linordered_field fp" where
  "exact = \<lparr>fzero = 0, fone = 1, fhalf = 1 / 2, fadd = (+), fsub = (-), fmul = (*), fdiv = (/),
            fless = (<), fle = (\<le>), fnat = of_nat, flit = of_rat\<rparr>"

lemma exact_simps [simp]:
  "fzero exact = 0" "fone exact = 1" "fhalf exact = 1 / 2" "fadd exact = (+)" "fsub exact = (-)"
  "fmul exact = (*)" "fdiv exact = (/)" "fless exact = (<)" "fle exact = (\<le>)" "fnat exact = of_nat"
  "flit exact = of_rat"
  by (simp_all add: exact_def)

text \<open>The inner loop of every matrix product: \<open>for (i = 0; i < n; ++i) sum += w[wo + i] * x[xo + i]\<close>.\<close>

definition mac :: "'f fp \<Rightarrow> 'f list \<Rightarrow> nat \<Rightarrow> 'f list \<Rightarrow> nat \<Rightarrow> nat list \<Rightarrow> 'f \<Rightarrow> 'f" where
  "mac F w wo x xo ks acc = fold (\<lambda>i s. fadd F s (fmul F (w ! (wo + i)) (x ! (xo + i)))) ks acc"

lemma mac_append: "mac F w wo x xo (ks @ js) s = mac F w wo x xo js (mac F w wo x xo ks s)"
  by (simp add: mac_def)

lemma fold_add_sum: "fold (\<lambda>i s. s + f i) [0..<n] (a :: 'a :: comm_monoid_add) = a + (\<Sum>i<n. f i)"
  by (induction n) (simp_all add: ac_simps)

lemma mac_exact: "mac exact w wo x xo [0..<n] a = a + (\<Sum>i<n. w ! (wo + i) * x ! (xo + i))"
  by (simp add: mac_def fold_add_sum)

text \<open>A loop that writes each element of a buffer.\<close>

lemma fold_update_length: "length (fold (\<lambda>i b. b[g i := f i]) ks b) = length b"
  by (induction ks arbitrary: b) auto

lemma fold_update_all: "fold (\<lambda>i b. b[i := f i]) [0..<n] b = map f [0..<min n (length b)] @ drop n b"
proof (induction n)
  case (Suc n)
  show ?case
  proof (cases "n < length b")
    case True
    then show ?thesis using Suc by (simp add: list_update_append upd_conv_take_nth_drop min_def Cons_nth_drop_Suc [symmetric])
  next
    case False
    then have "min (Suc n) (length b) = min n (length b)" by simp
    then show ?thesis using False Suc by (simp add: list_update_beyond)
  qed
qed simp

end
