(* ===== verification/Mlp.thy ===== *)
theory Mlp
  imports Fp
begin

text \<open>
  The two-layer perceptron, its backpropagation and the matrix kernels of
  \<open>episodes/ai/02_how_ai_learns/benchmark.cc\<close>. Buffers are lists that the loops update in place. The
  dimensions are natural numbers: the arrays of the program are far below the range of \<open>int\<close>.
\<close>

section \<open>TwoLayerMlp\<close>

record 'f mlp =
  in_dim :: nat
  hidden_dim :: nat
  out_dim :: nat
  w1 :: "'f list"
  w2 :: "'f list"
  grad_w1 :: "'f list"
  grad_w2 :: "'f list"

text \<open>The constructor; the draws of the random generator are a parameter.\<close>

definition TwoLayerMlp :: "'f fp \<Rightarrow> (nat \<Rightarrow> 'f) \<Rightarrow> (nat \<Rightarrow> 'f) \<Rightarrow> nat \<Rightarrow> nat \<Rightarrow> nat \<Rightarrow> 'f mlp" where
  "TwoLayerMlp F dist1 dist2 in_features hidden_units out_features =
     \<lparr>in_dim = in_features, hidden_dim = hidden_units, out_dim = out_features,
      w1 = map dist1 [0..<hidden_units * in_features], w2 = map dist2 [0..<out_features * hidden_units],
      grad_w1 = replicate (hidden_units * in_features) (fzero F),
      grad_w2 = replicate (out_features * hidden_units) (fzero F)\<rparr>"

definition forward_hidden :: "'f fp \<Rightarrow> 'f mlp \<Rightarrow> 'f list \<Rightarrow> 'f list \<Rightarrow> 'f list" where
  "forward_hidden F net x hidden_out =
     fold (\<lambda>h hidden_out.
             let s = mac F (w1 net) (h * in_dim net) x 0 [0..<in_dim net] (fzero F)
             in hidden_out[h := (if fless F (fzero F) s then s else fzero F)])
       [0..<hidden_dim net] hidden_out"

definition Forward :: "'f fp \<Rightarrow> 'f mlp \<Rightarrow> 'f list \<Rightarrow> 'f list \<Rightarrow> 'f list \<Rightarrow> 'f list \<Rightarrow> 'f \<times> 'f list \<times> 'f list" where
  "Forward F net x target hidden_out pred_out =
     (let hidden_out = forward_hidden F net x hidden_out;
          (loss, pred_out) =
            fold (\<lambda>k (loss, pred_out).
                    let s = mac F (w2 net) (k * hidden_dim net) hidden_out 0 [0..<hidden_dim net] (fzero F);
                        diff = fsub F s (target ! k)
                    in (fadd F loss (fmul F (fmul F (fhalf F) diff) diff), pred_out[k := s]))
              [0..<out_dim net] (fzero F, pred_out)
      in (fdiv F loss (fnat F (out_dim net)), hidden_out, pred_out))"

record 'f buffers =
  hidden_buf :: "'f list"
  pred_buf :: "'f list"
  delta_out_buf :: "'f list"
  delta_hid_buf :: "'f list"

text \<open>The first loop of \<open>BackwardReverseMode\<close>, over the outputs, and the second, over the hidden units.\<close>

definition backward_out_step :: "'f fp \<Rightarrow> 'f list \<Rightarrow> nat \<Rightarrow> 'f mlp \<times> 'f buffers \<Rightarrow> 'f mlp \<times> 'f buffers" where
  "backward_out_step F target k nb =
     (let (net, b) = nb;
          d = fmul F (fsub F (pred_buf b ! k) (target ! k)) (fdiv F (fone F) (fnat F (out_dim net)))
      in (net\<lparr>grad_w2 := fold (\<lambda>h g. g[k * hidden_dim net + h := fmul F d (hidden_buf b ! h)])
                           [0..<hidden_dim net] (grad_w2 net)\<rparr>,
          b\<lparr>delta_out_buf := (delta_out_buf b)[k := d]\<rparr>))"

definition upstream :: "'f fp \<Rightarrow> 'f mlp \<Rightarrow> 'f list \<Rightarrow> nat \<Rightarrow> 'f" where
  "upstream F net delta_out h =
     fold (\<lambda>k u. fadd F u (fmul F (w2 net ! (k * hidden_dim net + h)) (delta_out ! k))) [0..<out_dim net] (fzero F)"

definition backward_hidden_step :: "'f fp \<Rightarrow> 'f list \<Rightarrow> nat \<Rightarrow> 'f mlp \<times> 'f buffers \<Rightarrow> 'f mlp \<times> 'f buffers" where
  "backward_hidden_step F x h nb =
     (let (net, b) = nb in
      if fle F (hidden_buf b ! h) (fzero F)
      then (net, b\<lparr>delta_hid_buf := (delta_hid_buf b)[h := fzero F]\<rparr>)
      else
        let u = upstream F net (delta_out_buf b) h
        in (net\<lparr>grad_w1 := fold (\<lambda>i g. g[h * in_dim net + i := fmul F u (x ! i)]) [0..<in_dim net] (grad_w1 net)\<rparr>,
            b\<lparr>delta_hid_buf := (delta_hid_buf b)[h := u]\<rparr>))"

definition BackwardReverseMode :: "'f fp \<Rightarrow> 'f list \<Rightarrow> 'f list \<Rightarrow> 'f mlp \<times> 'f buffers \<Rightarrow> 'f mlp \<times> 'f buffers" where
  "BackwardReverseMode F x target nb =
     (let (net, b) = nb;
          (loss, hid, pred) = Forward F net x target (hidden_buf b) (pred_buf b)
      in fold (backward_hidden_step F x) [0..<hidden_dim net]
           (fold (backward_out_step F target) [0..<out_dim net] (net, b\<lparr>hidden_buf := hid, pred_buf := pred\<rparr>)))"

section \<open>Finite differences\<close>

text \<open>One weight is nudged, the loss computed anew, and the weight put back.\<close>

definition nudge_w1 :: "'f fp \<Rightarrow> 'f \<Rightarrow> 'f list \<Rightarrow> 'f list \<Rightarrow> 'f \<Rightarrow> nat \<Rightarrow> 'f mlp \<times> 'f list \<times> 'f list \<Rightarrow> 'f mlp \<times> 'f list \<times> 'f list" where
  "nudge_w1 F kEps x target base_loss idx s =
     (let (net, hid, pred) = s; orig = w1 net ! idx; net = net\<lparr>w1 := (w1 net)[idx := fadd F orig kEps]\<rparr>;
          (nudged, hid, pred) = Forward F net x target hid pred;
          net = net\<lparr>grad_w1 := (grad_w1 net)[idx := fdiv F (fsub F nudged base_loss) kEps]\<rparr>
      in (net\<lparr>w1 := (w1 net)[idx := orig]\<rparr>, hid, pred))"

definition nudge_w2 :: "'f fp \<Rightarrow> 'f \<Rightarrow> 'f list \<Rightarrow> 'f list \<Rightarrow> 'f \<Rightarrow> nat \<Rightarrow> 'f mlp \<times> 'f list \<times> 'f list \<Rightarrow> 'f mlp \<times> 'f list \<times> 'f list" where
  "nudge_w2 F kEps x target base_loss idx s =
     (let (net, hid, pred) = s; orig = w2 net ! idx; net = net\<lparr>w2 := (w2 net)[idx := fadd F orig kEps]\<rparr>;
          (nudged, hid, pred) = Forward F net x target hid pred;
          net = net\<lparr>grad_w2 := (grad_w2 net)[idx := fdiv F (fsub F nudged base_loss) kEps]\<rparr>
      in (net\<lparr>w2 := (w2 net)[idx := orig]\<rparr>, hid, pred))"

definition FiniteDifferences :: "'f fp \<Rightarrow> 'f \<Rightarrow> 'f list \<Rightarrow> 'f list \<Rightarrow> 'f mlp \<times> 'f list \<times> 'f list \<Rightarrow> 'f mlp \<times> 'f list \<times> 'f list" where
  "FiniteDifferences F kEps x target s =
     (let (net, hid, pred) = s; (base_loss, hid, pred) = Forward F net x target hid pred;
          s = fold (nudge_w1 F kEps x target base_loss) [0..<length (w1 net)] (net, hid, pred)
      in fold (nudge_w2 F kEps x target base_loss) [0..<length (w2 (fst s))] s)"

section \<open>Matrix kernels\<close>

text \<open>\<open>BM_PureSGD_Batch1_GEMV_64Samples\<close>: one dot product per sample and output.\<close>

definition gemv :: "'f fp \<Rightarrow> nat \<Rightarrow> nat \<Rightarrow> nat \<Rightarrow> 'f list \<Rightarrow> 'f list \<Rightarrow> 'f list \<Rightarrow> 'f list" where
  "gemv F kBatch kIn kOut w x out =
     fold (\<lambda>b out. fold (\<lambda>k out. out[b * kOut + k := mac F w (k * kIn) x (b * kIn) [0..<kIn] (fzero F)])
                     [0..<kOut] out)
       [0..<kBatch] out"

text \<open>\<open>BM_MiniBatch64_Tiled_GEMM_64Samples\<close>: tiles of \<open>kTile\<close> outputs and inputs.\<close>

definition gemm_tile :: "'f fp \<Rightarrow> nat \<Rightarrow> nat \<Rightarrow> nat \<Rightarrow> nat \<Rightarrow> nat \<Rightarrow> 'f list \<Rightarrow> 'f list \<Rightarrow> nat \<Rightarrow> 'f list \<Rightarrow> 'f list" where
  "gemm_tile F kIn kOut kTile o0 i0 w x b out =
     fold (\<lambda>k out. out[b * kOut + k := mac F w (k * kIn) x (b * kIn) [i0..<i0 + kTile] (out ! (b * kOut + k))])
       [o0..<o0 + kTile] out"

definition gemm_tiled :: "'f fp \<Rightarrow> nat \<Rightarrow> nat \<Rightarrow> nat \<Rightarrow> nat \<Rightarrow> 'f list \<Rightarrow> 'f list \<Rightarrow> 'f list \<Rightarrow> 'f list" where
  "gemm_tiled F kBatch kIn kOut kTile w x out =
     fold (\<lambda>o0 out. fold (\<lambda>i0 out. fold (gemm_tile F kIn kOut kTile o0 i0 w x) [0..<kBatch] out)
                      (map (\<lambda>n. n * kTile) [0..<(kIn + kTile - 1) div kTile]) out)
       (map (\<lambda>n. n * kTile) [0..<(kOut + kTile - 1) div kTile]) (map (\<lambda>_. fzero F) out)"

definition unfused :: "'f fp \<Rightarrow> nat \<Rightarrow> 'f list \<Rightarrow> 'f list \<Rightarrow> 'f list \<Rightarrow> 'f list \<Rightarrow> 'f list \<times> 'f list" where
  "unfused F kN z bias temp out =
     (let temp = fold (\<lambda>i temp. temp[i := fadd F (z ! i) (bias ! i)]) [0..<kN] temp
      in (temp, fold (\<lambda>i out. out[i := (if fless F (fzero F) (temp ! i) then temp ! i else fzero F)]) [0..<kN] out))"

definition fused :: "'f fp \<Rightarrow> nat \<Rightarrow> 'f list \<Rightarrow> 'f list \<Rightarrow> 'f list \<Rightarrow> 'f list" where
  "fused F kN z bias out =
     fold (\<lambda>i out. let v = fadd F (z ! i) (bias ! i) in out[i := (if fless F (fzero F) v then v else fzero F)])
       [0..<kN] out"

section \<open>Loops over rows\<close>

lemma row_index:
  assumes "h < n" and "h' < n"
  shows "k * n + h = k' * n + h' \<longleftrightarrow> k = k' \<and> h = (h' :: nat)"
proof
  assume e: "k * n + h = k' * n + h'"
  have "(k * n + h) div n = k" "(k' * n + h') div n = k'" "(k * n + h) mod n = h" "(k' * n + h') mod n = h'"
    using assms by (simp_all add: div_mult_self3)
  then show "k = k' \<and> h = h'" using e by metis
qed simp

lemma row_bound: "k < m \<Longrightarrow> h < n \<Longrightarrow> k * n + h < m * (n :: nat)"
proof -
  assume "k < m" "h < n"
  then have "Suc k * n \<le> m * n" by (intro mult_le_mono1) simp
  then show ?thesis using \<open>h < n\<close> by simp
qed

lemma fold_nth_hit:
  assumes "distinct (map g ks)" and "i \<in> set ks" and "g i < length b"
  shows "fold (\<lambda>i b. b[g i := f i]) ks b ! g i = f i"
  using assms
proof (induction ks arbitrary: b)
  case (Cons k ks)
  have miss: "fold (\<lambda>i b. b[g i := f i]) ks c ! p = c ! p" if "p \<notin> g ` set ks" for p c
    using that by (induction ks arbitrary: c) auto
  show ?case
  proof (cases "i = k")
    case True
    then have "g i \<notin> g ` set ks" using Cons.prems(1) by simp
    then show ?thesis using miss Cons.prems(3) True by simp
  next
    case False
    then show ?thesis using Cons by simp
  qed
qed simp

lemma fold_nth_miss: "p \<notin> g ` set ks \<Longrightarrow> fold (\<lambda>i b. b[g i := f i]) ks b ! p = b ! p"
  by (induction ks arbitrary: b) auto

section \<open>The forward pass\<close>

definition preact :: "'f fp \<Rightarrow> 'f mlp \<Rightarrow> 'f list \<Rightarrow> nat \<Rightarrow> 'f" where
  "preact F net x h = mac F (w1 net) (h * in_dim net) x 0 [0..<in_dim net] (fzero F)"

definition hidden_of :: "'f fp \<Rightarrow> 'f mlp \<Rightarrow> 'f list \<Rightarrow> 'f list" where
  "hidden_of F net x = map (\<lambda>h. if fless F (fzero F) (preact F net x h) then preact F net x h else fzero F) [0..<hidden_dim net]"

definition pred_of :: "'f fp \<Rightarrow> 'f mlp \<Rightarrow> 'f list \<Rightarrow> nat \<Rightarrow> 'f" where
  "pred_of F net x k = mac F (w2 net) (k * hidden_dim net) (hidden_of F net x) 0 [0..<hidden_dim net] (fzero F)"

definition loss_of :: "'f fp \<Rightarrow> 'f mlp \<Rightarrow> 'f list \<Rightarrow> 'f list \<Rightarrow> 'f" where
  "loss_of F net x target = fdiv F
     (fold (\<lambda>k l. let diff = fsub F (pred_of F net x k) (target ! k) in fadd F l (fmul F (fmul F (fhalf F) diff) diff))
        [0..<out_dim net] (fzero F)) (fnat F (out_dim net))"

lemma fold_pair:
  "fold (\<lambda>k (l, p). (g k l, p[k := f k])) ks (l, p) = (fold g ks l, fold (\<lambda>k p. p[k := f k]) ks p)"
  by (induction ks arbitrary: l p) auto

lemma Forward_spec:
  assumes "length hid = hidden_dim net" and "length pred = out_dim net"
  shows "Forward F net x target hid pred
    = (loss_of F net x target, hidden_of F net x, map (pred_of F net x) [0..<out_dim net])"
proof -
  have h: "forward_hidden F net x hid = hidden_of F net x"
    using assms(1) by (simp add: forward_hidden_def hidden_of_def preact_def Let_def fold_update_all)
  show ?thesis
    using assms(2)
    by (simp add: Forward_def h Let_def pred_of_def [symmetric] loss_of_def fold_pair fold_update_all)
qed

definition mlp_wf :: "'f mlp \<Rightarrow> bool" where
  "mlp_wf net \<longleftrightarrow> length (w1 net) = hidden_dim net * in_dim net \<and> length (w2 net) = out_dim net * hidden_dim net
     \<and> length (grad_w1 net) = hidden_dim net * in_dim net \<and> length (grad_w2 net) = out_dim net * hidden_dim net"

lemma preact_exact: "preact exact net x h = (\<Sum>i<in_dim net. w1 net ! (h * in_dim net + i) * x ! i)"
  by (simp add: preact_def mac_exact)

lemma hidden_exact: "h < hidden_dim net \<Longrightarrow> hidden_of exact net x ! h = max 0 (preact exact net x h)"
  by (simp add: hidden_of_def max_def)

lemma pred_exact:
  "pred_of exact net x k = (\<Sum>h<hidden_dim net. w2 net ! (k * hidden_dim net + h) * hidden_of exact net x ! h)"
  by (simp add: pred_of_def mac_exact)

lemma loss_exact:
  "loss_of exact net x target
     = (\<Sum>k<out_dim net. (pred_of exact net x k - target ! k)\<^sup>2 / 2) / of_nat (out_dim net)"
  by (simp add: loss_of_def Let_def fold_add_sum power2_eq_square)

section \<open>The backward pass\<close>

definition delta_of :: "'f fp \<Rightarrow> 'f mlp \<Rightarrow> 'f buffers \<Rightarrow> 'f list \<Rightarrow> nat \<Rightarrow> 'f" where
  "delta_of F net b target k = fmul F (fsub F (pred_buf b ! k) (target ! k)) (fdiv F (fone F) (fnat F (out_dim net)))"

text \<open>What the loops leave unchanged.\<close>

definition same_net :: "'f mlp \<Rightarrow> 'f mlp \<Rightarrow> bool" where
  "same_net n m \<longleftrightarrow> in_dim n = in_dim m \<and> hidden_dim n = hidden_dim m \<and> out_dim n = out_dim m \<and> w1 n = w1 m \<and> w2 n = w2 m
     \<and> length (grad_w1 n) = length (grad_w1 m) \<and> length (grad_w2 n) = length (grad_w2 m)"

lemma backward_out_prefix:
  assumes wf: "mlp_wf net" and len: "length (delta_out_buf b) = out_dim net" and "n \<le> out_dim net"
  shows "\<exists>net' b'. fold (backward_out_step F target) [0..<n] (net, b) = (net', b') \<and> same_net net' net \<and> grad_w1 net' = grad_w1 net
    \<and> hidden_buf b' = hidden_buf b \<and> pred_buf b' = pred_buf b \<and> delta_hid_buf b' = delta_hid_buf b
    \<and> length (delta_out_buf b') = out_dim net
    \<and> (\<forall>k < n. delta_out_buf b' ! k = delta_of F net b target k
        \<and> (\<forall>h < hidden_dim net. grad_w2 net' ! (k * hidden_dim net + h) = fmul F (delta_of F net b target k) (hidden_buf b ! h)))"
  using \<open>n \<le> out_dim net\<close>
proof (induction n)
  case 0
  then show ?case using len by (simp add: same_net_def)
next
  case (Suc n)
  let ?H = "hidden_dim net" and ?d = "delta_of F net b target"
  obtain net1 b1 where IH: "fold (backward_out_step F target) [0..<n] (net, b) = (net1, b1)" "same_net net1 net" "grad_w1 net1 = grad_w1 net"
    "hidden_buf b1 = hidden_buf b" "pred_buf b1 = pred_buf b" "delta_hid_buf b1 = delta_hid_buf b"
    "length (delta_out_buf b1) = out_dim net"
    "\<forall>k < n. delta_out_buf b1 ! k = ?d k \<and> (\<forall>h < ?H. grad_w2 net1 ! (k * ?H + h) = fmul F (?d k) (hidden_buf b ! h))"
    using Suc by (meson Suc_leD)
  define g where "g = fold (\<lambda>h g. g[n * ?H + h := fmul F (?d n) (hidden_buf b ! h)]) [0..<?H] (grad_w2 net1)"
  have s: "fold (backward_out_step F target) [0..<Suc n] (net, b) = (net1\<lparr>grad_w2 := g\<rparr>, b1\<lparr>delta_out_buf := (delta_out_buf b1)[n := ?d n]\<rparr>)"
    using IH(1,2,4,5) by (simp add: backward_out_step_def Let_def g_def delta_of_def same_net_def)
  have lg: "length (grad_w2 net1) = out_dim net * ?H" using IH(2) wf by (simp add: same_net_def mlp_wf_def)
  have hit: "g ! (n * ?H + h) = fmul F (?d n) (hidden_buf b ! h)" if "h < ?H" for h
    unfolding g_def by (rule fold_nth_hit) (use that Suc.prems lg row_bound in \<open>auto simp: inj_on_def distinct_map\<close>)
  have miss: "g ! (k * ?H + h) = grad_w2 net1 ! (k * ?H + h)" if "k < n" "h < ?H" for k h
    unfolding g_def by (rule fold_nth_miss) (use that row_index in fastforce)
  have "length g = length (grad_w2 net1)" by (simp add: g_def fold_update_length)
  then show ?case
    using s IH(2-8) hit miss Suc.prems by (auto simp: same_net_def less_Suc_eq)
qed

lemma backward_hidden_prefix:
  assumes wf: "mlp_wf net" and len: "length (delta_hid_buf b) = hidden_dim net" and "n \<le> hidden_dim net"
  shows "\<exists>net' b'. fold (backward_hidden_step F x) [0..<n] (net, b) = (net', b') \<and> same_net net' net \<and> grad_w2 net' = grad_w2 net
    \<and> hidden_buf b' = hidden_buf b \<and> delta_out_buf b' = delta_out_buf b \<and> length (delta_hid_buf b') = hidden_dim net
    \<and> (\<forall>h i. h < hidden_dim net \<longrightarrow> i < in_dim net \<longrightarrow> grad_w1 net' ! (h * in_dim net + i) =
          (if h < n \<and> \<not> fle F (hidden_buf b ! h) (fzero F) then fmul F (upstream F net (delta_out_buf b) h) (x ! i) else grad_w1 net ! (h * in_dim net + i)))"
  using \<open>n \<le> hidden_dim net\<close>
proof (induction n)
  case 0
  then show ?case using len by (simp add: same_net_def)
next
  case (Suc n)
  let ?I = "in_dim net"
  obtain net1 b1 where IH: "fold (backward_hidden_step F x) [0..<n] (net, b) = (net1, b1)" "same_net net1 net" "grad_w2 net1 = grad_w2 net"
    "hidden_buf b1 = hidden_buf b" "delta_out_buf b1 = delta_out_buf b" "length (delta_hid_buf b1) = hidden_dim net"
    "\<forall>h i. h < hidden_dim net \<longrightarrow> i < ?I \<longrightarrow> grad_w1 net1 ! (h * ?I + i) =
       (if h < n \<and> \<not> fle F (hidden_buf b ! h) (fzero F) then fmul F (upstream F net (delta_out_buf b) h) (x ! i) else grad_w1 net ! (h * ?I + i))"
    using Suc by (meson Suc_leD)
  show ?case
  proof (cases "fle F (hidden_buf b ! n) (fzero F)")
    case True
    then have "fold (backward_hidden_step F x) [0..<Suc n] (net, b) = (net1, b1\<lparr>delta_hid_buf := (delta_hid_buf b1)[n := fzero F]\<rparr>)"
      using IH(1,4) by (simp add: backward_hidden_step_def)
    then show ?thesis using IH(2-7) True by (auto simp: less_Suc_eq)
  next
    case False
    define g where "g = fold (\<lambda>i g. g[n * ?I + i := fmul F (upstream F net (delta_out_buf b) n) (x ! i)]) [0..<?I] (grad_w1 net1)"
    have s: "fold (backward_hidden_step F x) [0..<Suc n] (net, b) = (net1\<lparr>grad_w1 := g\<rparr>, b1\<lparr>delta_hid_buf := (delta_hid_buf b1)[n := upstream F net (delta_out_buf b) n]\<rparr>)"
      using IH(1,2,4,5) False by (simp add: backward_hidden_step_def Let_def g_def upstream_def same_net_def)
    have lg: "length (grad_w1 net1) = hidden_dim net * ?I" using IH(2) wf by (simp add: same_net_def mlp_wf_def)
    have hit: "g ! (n * ?I + i) = fmul F (upstream F net (delta_out_buf b) n) (x ! i)" if "i < ?I" for i
      unfolding g_def by (rule fold_nth_hit) (use that Suc.prems lg row_bound in \<open>auto simp: inj_on_def distinct_map\<close>)
    have miss: "g ! (h * ?I + i) = grad_w1 net1 ! (h * ?I + i)" if "h \<noteq> n" "i < ?I" for h i
      unfolding g_def by (rule fold_nth_miss) (use that row_index in fastforce)
    have "g ! (h * ?I + i) = (if h < Suc n \<and> \<not> fle F (hidden_buf b ! h) (fzero F) then fmul F (upstream F net (delta_out_buf b) h) (x ! i)
        else grad_w1 net ! (h * ?I + i))" if "h < hidden_dim net" "i < ?I" for h i
      using that hit [of i] miss [of h i] IH(7) False by (cases "h = n") (auto simp: less_Suc_eq)
    moreover have "length g = length (grad_w1 net1)" by (simp add: g_def fold_update_length)
    ultimately show ?thesis using s IH(2-6) by (auto simp: same_net_def)
  qed
qed

section \<open>What one nudged weight does to the loss\<close>

lemma hidden_of_length [simp]: "length (hidden_of F net x) = hidden_dim net"
  by (simp add: hidden_of_def)

lemma sum_delta_shift:
  fixes f :: "nat \<Rightarrow> 'a :: comm_ring_1"
  assumes "j < n"
  shows "(\<Sum>k<n. f k * (y k + (if k = j then c else 0))) = (\<Sum>k<n. f k * y k) + f j * c"
proof -
  have "(\<Sum>k<n. f k * (y k + (if k = j then c else 0))) = (\<Sum>k<n. f k * y k + (if k = j then f k * c else 0))"
    by (rule sum.cong) (auto simp: algebra_simps)
  then show ?thesis using assms by (simp add: sum.distrib sum.delta)
qed

lemma nudged_row:
  fixes w :: "'a :: comm_ring_1 list"
  assumes "length w = m * n" and "k < m" and "h < n" and "j < m"
  shows "(\<Sum>i<n. w[k * n + h := w ! (k * n + h) + c] ! (j * n + i) * y i)
    = (\<Sum>i<n. w ! (j * n + i) * y i) + (if j = k then c * y h else 0)"
proof -
  have "w[k * n + h := w ! (k * n + h) + c] ! (j * n + i) = w ! (j * n + i) + (if i = h then (if j = k then c else 0) else 0)"
    if "i < n" for i
    using that assms row_bound [OF assms(2,3)] row_index [OF assms(3) that, of k j] by (auto simp: nth_list_update)
  then have "(\<Sum>i<n. w[k * n + h := w ! (k * n + h) + c] ! (j * n + i) * y i)
      = (\<Sum>i<n. y i * (w ! (j * n + i) + (if i = h then (if j = k then c else 0) else 0)))"
    by (intro sum.cong) (auto simp: algebra_simps)
  also have "\<dots> = (\<Sum>i<n. y i * w ! (j * n + i)) + y h * (if j = k then c else 0)"
    by (rule sum_delta_shift [OF assms(3)])
  also have "\<dots> = (\<Sum>i<n. w ! (j * n + i) * y i) + (if j = k then c * y h else 0)"
    by (simp add: mult.commute)
  finally show ?thesis .
qed

text \<open>A change of the predictions by \<open>c\<close> changes the loss by its first and second order terms, exactly.\<close>

lemma loss_shift:
  fixes net net' :: "'a :: linordered_field mlp"
  assumes dims: "out_dim net' = out_dim net"
    and shift: "\<And>k. k < out_dim net \<Longrightarrow> pred_of exact net' x k = pred_of exact net x k + c k"
  shows "loss_of exact net' x t - loss_of exact net x t
    = ((\<Sum>k<out_dim net. (pred_of exact net x k - t ! k) * c k) + (\<Sum>k<out_dim net. (c k)\<^sup>2) / 2) / of_nat (out_dim net)"
proof -
  have "(\<Sum>k<out_dim net. (pred_of exact net' x k - t ! k)\<^sup>2 / 2) - (\<Sum>k<out_dim net. (pred_of exact net x k - t ! k)\<^sup>2 / 2)
      = (\<Sum>k<out_dim net. (pred_of exact net x k - t ! k) * c k + (c k)\<^sup>2 / 2)"
    unfolding sum_subtractf [symmetric]
    by (rule sum.cong) (auto simp: shift power2_eq_square field_simps)
  then show ?thesis
    unfolding loss_exact dims diff_divide_distrib [symmetric] by (simp add: sum.distrib flip: sum_divide_distrib)
qed

lemma loss_nudge_w2:
  fixes net :: "'a :: linordered_field mlp" and x t :: "'a list" and e :: 'a
  assumes wf: "mlp_wf net" and k: "k < out_dim net" and h: "h < hidden_dim net"
  defines "idx \<equiv> k * hidden_dim net + h" and "a \<equiv> hidden_of exact net x ! h"
  shows "loss_of exact (net\<lparr>w2 := (w2 net)[idx := w2 net ! idx + e]\<rparr>) x t - loss_of exact net x t
    = ((pred_of exact net x k - t ! k) * (e * a) + (e * a)\<^sup>2 / 2) / of_nat (out_dim net)"
proof -
  let ?net' = "net\<lparr>w2 := (w2 net)[idx := w2 net ! idx + e]\<rparr>"
  have same: "hidden_of exact ?net' x = hidden_of exact net x" by (simp add: hidden_of_def preact_def)
  have "pred_of exact ?net' x j = pred_of exact net x j + (if j = k then e * a else 0)" if "j < out_dim net" for j
    using nudged_row [of "w2 net" "out_dim net" "hidden_dim net" k h j e "\<lambda>i. hidden_of exact net x ! i"] wf k h that
    unfolding pred_exact same by (simp add: idx_def a_def mlp_wf_def)
  from loss_shift [OF _ this, of t] show ?thesis
    using k by (simp add: if_distrib [where f = "\<lambda>c. _ * c"] if_distrib [where f = "\<lambda>c. c ^ 2"] sum.delta cong: if_cong)
qed

lemma loss_nudge_w1:
  fixes net :: "'a :: linordered_field mlp" and x t :: "'a list" and e :: 'a
  assumes wf: "mlp_wf net" and h: "h < hidden_dim net" and i: "i < in_dim net"
  defines "idx \<equiv> h * in_dim net + i" and "z \<equiv> preact exact net x h"
    and "w \<equiv> \<lambda>k. w2 net ! (k * hidden_dim net + h)"
  defines "dz \<equiv> max 0 (z + e * x ! i) - max 0 z"
  shows "loss_of exact (net\<lparr>w1 := (w1 net)[idx := w1 net ! idx + e]\<rparr>) x t - loss_of exact net x t
    = ((\<Sum>k<out_dim net. (pred_of exact net x k - t ! k) * (w k * dz)) + (\<Sum>k<out_dim net. (w k * dz)\<^sup>2) / 2)
      / of_nat (out_dim net)"
proof (rule loss_shift)
  let ?net' = "net\<lparr>w1 := (w1 net)[idx := w1 net ! idx + e]\<rparr>"
  show "out_dim ?net' = out_dim net" by simp
  fix k assume k: "k < out_dim net"
  have pre: "preact exact ?net' x j = preact exact net x j + (if j = h then e * x ! i else 0)" if "j < hidden_dim net" for j
    using nudged_row [of "w1 net" "hidden_dim net" "in_dim net" h i j e "\<lambda>i. x ! i"] wf h i that
    unfolding preact_exact by (simp add: idx_def mlp_wf_def)
  have hid: "hidden_of exact ?net' x ! j = hidden_of exact net x ! j + (if j = h then dz else 0)" if "j < hidden_dim net" for j
    using that pre [OF that] hidden_exact [of j ?net' x] hidden_exact [of j net x] by (auto simp: dz_def z_def)
  have "pred_of exact ?net' x k
      = (\<Sum>j<hidden_dim net. w2 net ! (k * hidden_dim net + j) * (hidden_of exact net x ! j + (if j = h then dz else 0)))"
    unfolding pred_exact using hid by (simp cong: sum.cong_simp)
  then show "pred_of exact ?net' x k = pred_of exact net x k + w k * dz"
    using sum_delta_shift [OF h] unfolding pred_exact w_def by simp
qed

section \<open>The finite differences\<close>

lemma nudge_w1_fold:
  assumes "length hid = hidden_dim net" and "length pred = out_dim net" and "n \<le> length (grad_w1 net)"
    and "length (w1 net) = length (grad_w1 net)"
  shows "\<exists>g hid' pred'. fold (nudge_w1 F e x t base) [0..<n] (net, hid, pred) = (net\<lparr>grad_w1 := g\<rparr>, hid', pred')
    \<and> length hid' = hidden_dim net \<and> length pred' = out_dim net \<and> length g = length (grad_w1 net)
    \<and> (\<forall>i < n. g ! i = fdiv F (fsub F (loss_of F (net\<lparr>w1 := (w1 net)[i := fadd F (w1 net ! i) e]\<rparr>) x t) base) e)"
  using assms(3)
proof (induction n)
  case 0
  show ?case using assms
    by (rule_tac exI [of _ "grad_w1 net"], rule_tac exI [of _ hid], rule_tac exI [of _ pred]) simp
next
  case (Suc n)
  obtain g hid' pred' where IH: "fold (nudge_w1 F e x t base) [0..<n] (net, hid, pred) = (net\<lparr>grad_w1 := g\<rparr>, hid', pred')"
    "length hid' = hidden_dim net" "length pred' = out_dim net" "length g = length (grad_w1 net)"
    "\<forall>i < n. g ! i = fdiv F (fsub F (loss_of F (net\<lparr>w1 := (w1 net)[i := fadd F (w1 net ! i) e]\<rparr>) x t) base) e"
    using Suc by (meson Suc_leD)
  let ?m = "net\<lparr>grad_w1 := g, w1 := (w1 net)[n := fadd F (w1 net ! n) e]\<rparr>"
  let ?v = "fdiv F (fsub F (loss_of F (net\<lparr>w1 := (w1 net)[n := fadd F (w1 net ! n) e]\<rparr>) x t) base) e"
  have "loss_of F ?m x t = loss_of F (net\<lparr>w1 := (w1 net)[n := fadd F (w1 net ! n) e]\<rparr>) x t"
    by (simp add: loss_of_def pred_of_def hidden_of_def preact_def cong: if_cong)
  then have "nudge_w1 F e x t base n (net\<lparr>grad_w1 := g\<rparr>, hid', pred')
      = (net\<lparr>grad_w1 := g[n := ?v]\<rparr>, hidden_of F ?m x, map (pred_of F ?m x) [0..<out_dim net])"
    using Forward_spec [of hid' ?m pred'] IH(2,3) by (simp add: nudge_w1_def Let_def)
  then show ?case using IH Suc.prems
    by (rule_tac exI [of _ "g[n := ?v]"], rule_tac exI [of _ "hidden_of F ?m x"],
        rule_tac exI [of _ "map (pred_of F ?m x) [0..<out_dim net]"]) (auto simp: less_Suc_eq hidden_of_def)
qed

lemma nudge_w2_fold:
  assumes "length hid = hidden_dim net" and "length pred = out_dim net" and "n \<le> length (grad_w2 net)"
    and "length (w2 net) = length (grad_w2 net)"
  shows "\<exists>g hid' pred'. fold (nudge_w2 F e x t base) [0..<n] (net, hid, pred) = (net\<lparr>grad_w2 := g\<rparr>, hid', pred')
    \<and> length hid' = hidden_dim net \<and> length pred' = out_dim net \<and> length g = length (grad_w2 net)
    \<and> (\<forall>i < n. g ! i = fdiv F (fsub F (loss_of F (net\<lparr>w2 := (w2 net)[i := fadd F (w2 net ! i) e]\<rparr>) x t) base) e)"
  using assms(3)
proof (induction n)
  case 0
  show ?case using assms
    by (rule_tac exI [of _ "grad_w2 net"], rule_tac exI [of _ hid], rule_tac exI [of _ pred]) simp
next
  case (Suc n)
  obtain g hid' pred' where IH: "fold (nudge_w2 F e x t base) [0..<n] (net, hid, pred) = (net\<lparr>grad_w2 := g\<rparr>, hid', pred')"
    "length hid' = hidden_dim net" "length pred' = out_dim net" "length g = length (grad_w2 net)"
    "\<forall>i < n. g ! i = fdiv F (fsub F (loss_of F (net\<lparr>w2 := (w2 net)[i := fadd F (w2 net ! i) e]\<rparr>) x t) base) e"
    using Suc by (meson Suc_leD)
  let ?m = "net\<lparr>grad_w2 := g, w2 := (w2 net)[n := fadd F (w2 net ! n) e]\<rparr>"
  let ?v = "fdiv F (fsub F (loss_of F (net\<lparr>w2 := (w2 net)[n := fadd F (w2 net ! n) e]\<rparr>) x t) base) e"
  have "loss_of F ?m x t = loss_of F (net\<lparr>w2 := (w2 net)[n := fadd F (w2 net ! n) e]\<rparr>) x t"
    by (simp add: loss_of_def pred_of_def hidden_of_def preact_def cong: if_cong)
  then have "nudge_w2 F e x t base n (net\<lparr>grad_w2 := g\<rparr>, hid', pred')
      = (net\<lparr>grad_w2 := g[n := ?v]\<rparr>, hidden_of F ?m x, map (pred_of F ?m x) [0..<out_dim net])"
    using Forward_spec [of hid' ?m pred'] IH(2,3) by (simp add: nudge_w2_def Let_def)
  then show ?case using IH Suc.prems
    by (rule_tac exI [of _ "g[n := ?v]"], rule_tac exI [of _ "hidden_of F ?m x"],
        rule_tac exI [of _ "map (pred_of F ?m x) [0..<out_dim net]"]) (auto simp: less_Suc_eq hidden_of_def)
qed

definition buffers_ok :: "'f mlp \<Rightarrow> 'f buffers \<Rightarrow> bool" where
  "buffers_ok net b \<longleftrightarrow> length (hidden_buf b) = hidden_dim net \<and> length (pred_buf b) = out_dim net
     \<and> length (delta_out_buf b) = out_dim net \<and> length (delta_hid_buf b) = hidden_dim net"

lemma Backward_spec:
  fixes F :: "'f fp" and x t :: "'f list"
  assumes wf: "mlp_wf net" and b: "buffers_ok net b"
  defines "d \<equiv> \<lambda>k. fmul F (fsub F (pred_of F net x k) (t ! k)) (fdiv F (fone F) (fnat F (out_dim net)))"
  obtains net' b' where "BackwardReverseMode F x t (net, b) = (net', b')" "same_net net' net"
    "\<And>k h. k < out_dim net \<Longrightarrow> h < hidden_dim net \<Longrightarrow>
       grad_w2 net' ! (k * hidden_dim net + h) = fmul F (d k) (hidden_of F net x ! h)"
    "\<And>h i. h < hidden_dim net \<Longrightarrow> i < in_dim net \<Longrightarrow> grad_w1 net' ! (h * in_dim net + i) =
       (if fle F (hidden_of F net x ! h) (fzero F) then grad_w1 net ! (h * in_dim net + i)
        else fmul F (upstream F net (map d [0..<out_dim net]) h) (x ! i))"
proof -
  define b0 where "b0 = b\<lparr>hidden_buf := hidden_of F net x, pred_buf := map (pred_of F net x) [0..<out_dim net]\<rparr>"
  have lens: "length (delta_out_buf b0) = out_dim net" "length (delta_hid_buf b0) = hidden_dim net"
    using b by (simp_all add: b0_def buffers_ok_def)
  have d: "delta_of F net b0 t k = d k" if "k < out_dim net" for k using that by (simp add: delta_of_def b0_def d_def)
  obtain n1 b1 where 1: "fold (backward_out_step F t) [0..<out_dim net] (net, b0) = (n1, b1)" "same_net n1 net"
    "grad_w1 n1 = grad_w1 net" "hidden_buf b1 = hidden_buf b0" "delta_hid_buf b1 = delta_hid_buf b0"
    "length (delta_out_buf b1) = out_dim net"
    "\<forall>k < out_dim net. delta_out_buf b1 ! k = delta_of F net b0 t k
      \<and> (\<forall>h < hidden_dim net. grad_w2 n1 ! (k * hidden_dim net + h) = fmul F (delta_of F net b0 t k) (hidden_buf b0 ! h))"
    using backward_out_prefix [OF wf lens(1) order_refl, of F t] by blast
  have dims: "in_dim n1 = in_dim net" "hidden_dim n1 = hidden_dim net" "out_dim n1 = out_dim net" "w2 n1 = w2 net"
    using 1(2) by (simp_all add: same_net_def)
  have wf1: "mlp_wf n1" using wf 1(2) by (simp add: mlp_wf_def same_net_def)
  have l1: "length (delta_hid_buf b1) = hidden_dim n1" using lens(2) 1(5) dims by simp
  obtain n2 b2 where 2: "fold (backward_hidden_step F x) [0..<hidden_dim n1] (n1, b1) = (n2, b2)" "same_net n2 n1"
    "grad_w2 n2 = grad_w2 n1"
    "\<forall>h i. h < hidden_dim n1 \<longrightarrow> i < in_dim n1 \<longrightarrow> grad_w1 n2 ! (h * in_dim n1 + i) =
       (if h < hidden_dim n1 \<and> \<not> fle F (hidden_buf b1 ! h) (fzero F)
        then fmul F (upstream F n1 (delta_out_buf b1) h) (x ! i) else grad_w1 n1 ! (h * in_dim n1 + i))"
    using backward_hidden_prefix [OF wf1 l1 order_refl, of F x] by blast
  have "Forward F net x t (hidden_buf b) (pred_buf b)
      = (loss_of F net x t, hidden_of F net x, map (pred_of F net x) [0..<out_dim net])"
    using b by (intro Forward_spec) (simp_all add: buffers_ok_def)
  then have run: "BackwardReverseMode F x t (net, b) = (n2, b2)"
    using 1(1) 2(1) dims by (simp add: BackwardReverseMode_def b0_def)
  have deltas: "delta_out_buf b1 = map d [0..<out_dim net]" using 1(6,7) d by (intro nth_equalityI) auto
  have up: "upstream F n1 ds h = upstream F net ds h" for ds h by (simp add: upstream_def dims)
  show thesis
  proof (rule that [OF run])
    show "same_net n2 net" using 1(2) 2(2) by (simp add: same_net_def)
    show "grad_w2 n2 ! (k * hidden_dim net + h) = fmul F (d k) (hidden_of F net x ! h)"
      if "k < out_dim net" "h < hidden_dim net" for k h
      using 1(7) 2(3) d that by (simp add: b0_def)
    show "grad_w1 n2 ! (h * in_dim net + i) = (if fle F (hidden_of F net x ! h) (fzero F)
        then grad_w1 net ! (h * in_dim net + i) else fmul F (upstream F net (map d [0..<out_dim net]) h) (x ! i))"
      if "h < hidden_dim net" "i < in_dim net" for h i
      using 2(4) that 1(3,4) by (simp add: dims deltas up b0_def)
  qed
qed

lemma FiniteDifferences_spec:
  assumes wf: "mlp_wf net" and len: "length hid = hidden_dim net" "length pred = out_dim net"
  obtains fd hid' pred' where "FiniteDifferences F e x t (net, hid, pred) = (fd, hid', pred')"
    "w1 fd = w1 net" "w2 fd = w2 net"
    "\<And>i. i < length (w1 net) \<Longrightarrow> grad_w1 fd ! i = fdiv F (fsub F
       (loss_of F (net\<lparr>w1 := (w1 net)[i := fadd F (w1 net ! i) e]\<rparr>) x t) (loss_of F net x t)) e"
    "\<And>i. i < length (w2 net) \<Longrightarrow> grad_w2 fd ! i = fdiv F (fsub F
       (loss_of F (net\<lparr>w2 := (w2 net)[i := fadd F (w2 net ! i) e]\<rparr>) x t) (loss_of F net x t)) e"
proof -
  let ?base = "loss_of F net x t"
  let ?h0 = "hidden_of F net x" and ?p0 = "map (pred_of F net x) [0..<out_dim net]"
  have wl: "length (w1 net) = length (grad_w1 net)" "length (w2 net) = length (grad_w2 net)"
    using wf by (simp_all add: mlp_wf_def)
  obtain g1 h1 p1 where 1: "fold (nudge_w1 F e x t ?base) [0..<length (w1 net)] (net, ?h0, ?p0) = (net\<lparr>grad_w1 := g1\<rparr>, h1, p1)"
    "length h1 = hidden_dim net" "length p1 = out_dim net" "length g1 = length (grad_w1 net)"
    "\<forall>i < length (w1 net). g1 ! i = fdiv F (fsub F (loss_of F (net\<lparr>w1 := (w1 net)[i := fadd F (w1 net ! i) e]\<rparr>) x t) ?base) e"
    using nudge_w1_fold [of ?h0 net ?p0 "length (w1 net)" F e x t ?base] wl by auto
  let ?n1 = "net\<lparr>grad_w1 := g1\<rparr>"
  obtain g2 h2 p2 where 2: "fold (nudge_w2 F e x t ?base) [0..<length (w2 ?n1)] (?n1, h1, p1) = (?n1\<lparr>grad_w2 := g2\<rparr>, h2, p2)"
    "\<forall>i < length (w2 ?n1). g2 ! i = fdiv F (fsub F (loss_of F (?n1\<lparr>w2 := (w2 ?n1)[i := fadd F (w2 ?n1 ! i) e]\<rparr>) x t) ?base) e"
    using nudge_w2_fold [of h1 ?n1 p1 "length (w2 ?n1)" F e x t ?base] wl 1(2,3) by auto
  have "loss_of F (net\<lparr>grad_w1 := g1, w2 := v\<rparr>) x t = loss_of F (net\<lparr>w2 := v\<rparr>) x t" for v
    by (simp add: loss_of_def pred_of_def hidden_of_def preact_def cong: if_cong)
  then show thesis
    using that [of "?n1\<lparr>grad_w2 := g2\<rparr>" h2 p2] 1 2 Forward_spec [OF len, of F x t] by (simp add: FiniteDifferences_def)
qed

text \<open>The quotient that the finite differences form, for each of the two layers.\<close>

lemma quotient_w2:
  fixes net :: "'a :: linordered_field mlp" and x t :: "'a list" and e :: 'a
  assumes wf: "mlp_wf net" and e: "e \<noteq> 0" and out: "0 < out_dim net" and kh: "k < out_dim net" "h < hidden_dim net"
  defines "idx \<equiv> k * hidden_dim net + h"
  shows "(loss_of exact (net\<lparr>w2 := (w2 net)[idx := w2 net ! idx + e]\<rparr>) x t - loss_of exact net x t) / e
    = (pred_of exact net x k - t ! k) * (1 / of_nat (out_dim net)) * hidden_of exact net x ! h
      + e * (hidden_of exact net x ! h)\<^sup>2 / (2 * of_nat (out_dim net))"
  unfolding idx_def loss_nudge_w2 [OF wf kh] using e out by (simp add: field_simps power2_eq_square)

lemma quotient_w1:
  fixes net :: "'a :: linordered_field mlp" and x t :: "'a list" and e :: 'a
  assumes wf: "mlp_wf net" and e: "e \<noteq> 0" and out: "0 < out_dim net" and hi: "h < hidden_dim net" "i < in_dim net"
    and on: "0 < preact exact net x h" "0 < preact exact net x h + e * x ! i"
  defines "idx \<equiv> h * in_dim net + i"
  shows "(loss_of exact (net\<lparr>w1 := (w1 net)[idx := w1 net ! idx + e]\<rparr>) x t - loss_of exact net x t) / e
    = upstream exact net (map (\<lambda>k. (pred_of exact net x k - t ! k) * (1 / of_nat (out_dim net))) [0..<out_dim net]) h * x ! i
      + e * (x ! i)\<^sup>2 * (\<Sum>k<out_dim net. (w2 net ! (k * hidden_dim net + h))\<^sup>2) / (2 * of_nat (out_dim net))"
proof -
  let ?w = "\<lambda>k. w2 net ! (k * hidden_dim net + h)" and ?dist = "\<lambda>k. pred_of exact net x k - t ! k" and ?O = "of_nat (out_dim net) :: 'a"
  have dz: "max 0 (preact exact net x h + e * x ! i) - max 0 (preact exact net x h) = e * x ! i" using on by simp
  have up: "upstream exact net (map (\<lambda>k. ?dist k * (1 / ?O)) [0..<out_dim net]) h = (\<Sum>k<out_dim net. ?dist k * ?w k) / ?O"
    by (simp add: upstream_def fold_add_sum sum_divide_distrib mult.commute cong: sum.cong_simp)
  have s1: "(\<Sum>k<out_dim net. ?dist k * (?w k * (e * x ! i))) = (\<Sum>k<out_dim net. ?dist k * ?w k) * (e * x ! i)"
    by (simp add: sum_distrib_right mult.assoc)
  have s2: "(\<Sum>k<out_dim net. (?w k * (e * x ! i))\<^sup>2) = (\<Sum>k<out_dim net. (?w k)\<^sup>2) * (e * x ! i)\<^sup>2"
    by (simp add: sum_distrib_right power_mult_distrib)
  show ?thesis
    unfolding idx_def loss_nudge_w1 [OF wf hi] dz s1 s2 up using e out by (simp add: field_simps power2_eq_square)
qed

lemma quotient_w1_off:
  fixes net :: "'a :: linordered_field mlp" and x t :: "'a list" and e :: 'a
  assumes wf: "mlp_wf net" and hi: "h < hidden_dim net" "i < in_dim net"
    and off: "preact exact net x h \<le> 0" "preact exact net x h + e * x ! i \<le> 0"
  defines "idx \<equiv> h * in_dim net + i"
  shows "(loss_of exact (net\<lparr>w1 := (w1 net)[idx := w1 net ! idx + e]\<rparr>) x t - loss_of exact net x t) / e = 0"
proof -
  have dz: "max 0 (preact exact net x h + e * x ! i) - max 0 (preact exact net x h) = 0" using off by simp
  show ?thesis unfolding idx_def loss_nudge_w1 [OF wf hi] dz by simp
qed

section \<open>Properties\<close>

text \<open>
  C35. Backpropagation computes the gradient. In exact arithmetic, for every network, input and
  target, the one sweep of \<open>BackwardReverseMode\<close> gives what the finite differences of the benchmark
  give for a nudge \<open>e\<close>, up to the second-order term of the loss, which is stated exactly: for every
  weight of the second layer, and for every weight of the first layer whose hidden unit stays on. Both
  leave the weights as they were. For a unit that is off and stays off the difference is zero, but
  \<open>BackwardReverseMode\<close> does not write the entry: it keeps the gradient of an earlier sample.
\<close>

theorem Mlp_gradient:
  fixes net :: "'a :: linordered_field mlp" and x t :: "'a list"
  assumes wf: "mlp_wf net" and b: "buffers_ok net b" and e: "e \<noteq> 0" and out: "0 < out_dim net"
  shows "\<exists>net' b' fd hid pred. BackwardReverseMode exact x t (net, b) = (net', b')
    \<and> FiniteDifferences exact e x t (net, hidden_buf b, pred_buf b) = (fd, hid, pred)
    \<and> w1 fd = w1 net \<and> w2 fd = w2 net \<and> w1 net' = w1 net \<and> w2 net' = w2 net
    \<and> (\<forall>k < out_dim net. \<forall>h < hidden_dim net.
         grad_w2 fd ! (k * hidden_dim net + h) = grad_w2 net' ! (k * hidden_dim net + h)
           + e * (hidden_of exact net x ! h)\<^sup>2 / (2 * of_nat (out_dim net)))
    \<and> (\<forall>h < hidden_dim net. \<forall>i < in_dim net.
         (0 < preact exact net x h \<and> 0 < preact exact net x h + e * x ! i \<longrightarrow>
            grad_w1 fd ! (h * in_dim net + i) = grad_w1 net' ! (h * in_dim net + i)
              + e * (x ! i)\<^sup>2 * (\<Sum>k<out_dim net. (w2 net ! (k * hidden_dim net + h))\<^sup>2) / (2 * of_nat (out_dim net)))
       \<and> (preact exact net x h \<le> 0 \<and> preact exact net x h + e * x ! i \<le> 0 \<longrightarrow>
            grad_w1 fd ! (h * in_dim net + i) = 0 \<and> grad_w1 net' ! (h * in_dim net + i) = grad_w1 net ! (h * in_dim net + i)))"
proof -
  let ?H = "hidden_dim net" and ?I = "in_dim net" and ?O = "of_nat (out_dim net) :: 'a"
  let ?dist = "\<lambda>k. pred_of exact net x k - t ! k"
  obtain net' b' where B: "BackwardReverseMode exact x t (net, b) = (net', b')" "same_net net' net"
    "\<And>k h. k < out_dim net \<Longrightarrow> h < ?H \<Longrightarrow> grad_w2 net' ! (k * ?H + h) = ?dist k * (1 / ?O) * hidden_of exact net x ! h"
    "\<And>h i. h < ?H \<Longrightarrow> i < ?I \<Longrightarrow> grad_w1 net' ! (h * ?I + i) = (if hidden_of exact net x ! h \<le> 0 then grad_w1 net ! (h * ?I + i)
       else upstream exact net (map (\<lambda>k. ?dist k * (1 / ?O)) [0..<out_dim net]) h * x ! i)"
    by (rule Backward_spec [OF wf b, of exact x t]) simp
  have len: "length (hidden_buf b) = ?H" "length (pred_buf b) = out_dim net" using b by (simp_all add: buffers_ok_def)
  obtain fd hid pred where F: "FiniteDifferences exact e x t (net, hidden_buf b, pred_buf b) = (fd, hid, pred)"
    "w1 fd = w1 net" "w2 fd = w2 net"
    "\<And>i. i < length (w1 net) \<Longrightarrow> grad_w1 fd ! i
       = (loss_of exact (net\<lparr>w1 := (w1 net)[i := w1 net ! i + e]\<rparr>) x t - loss_of exact net x t) / e"
    "\<And>i. i < length (w2 net) \<Longrightarrow> grad_w2 fd ! i
       = (loss_of exact (net\<lparr>w2 := (w2 net)[i := w2 net ! i + e]\<rparr>) x t - loss_of exact net x t) / e"
    by (rule FiniteDifferences_spec [OF wf len, of exact e x t]) simp
  have ix: "h * ?I + i < length (w1 net)" if "h < ?H" "i < ?I" for h i using row_bound [OF that] wf by (simp add: mlp_wf_def)
  have ik: "k * ?H + h < length (w2 net)" if "k < out_dim net" "h < ?H" for k h using row_bound [OF that] wf by (simp add: mlp_wf_def)
  have second: "grad_w2 fd ! (k * ?H + h) = grad_w2 net' ! (k * ?H + h) + e * (hidden_of exact net x ! h)\<^sup>2 / (2 * ?O)"
    if kh: "k < out_dim net" "h < ?H" for k h
    unfolding F(5) [OF ik [OF kh]] B(3) [OF kh] by (rule quotient_w2 [OF wf e out kh])
  have first: "grad_w1 fd ! (h * ?I + i) = grad_w1 net' ! (h * ?I + i)
      + e * (x ! i)\<^sup>2 * (\<Sum>k<out_dim net. (w2 net ! (k * ?H + h))\<^sup>2) / (2 * ?O)"
    if hi: "h < ?H" "i < ?I" and on: "0 < preact exact net x h" "0 < preact exact net x h + e * x ! i" for h i
    using quotient_w1 [OF wf e out hi on, of t] hidden_exact [OF hi(1), of x] on
    unfolding F(4) [OF ix [OF hi]] B(4) [OF hi] by simp
  have off: "grad_w1 fd ! (h * ?I + i) = 0 \<and> grad_w1 net' ! (h * ?I + i) = grad_w1 net ! (h * ?I + i)"
    if hi: "h < ?H" "i < ?I" and off: "preact exact net x h \<le> 0" "preact exact net x h + e * x ! i \<le> 0" for h i
    using quotient_w1_off [OF wf hi off, of t] hidden_exact [OF hi(1), of x] off
    unfolding F(4) [OF ix [OF hi]] B(4) [OF hi] by simp
  show ?thesis using B(1,2) F(1-3) second first off by (auto simp: same_net_def)
qed

definition tiny_net :: "rat mlp" where
  "tiny_net = \<lparr>in_dim = 1, hidden_dim = 1, out_dim = 1, w1 = [1], w2 = [2], grad_w1 = [0], grad_w2 = [0]\<rparr>"

definition tiny_buffers :: "rat buffers" where
  "tiny_buffers = \<lparr>hidden_buf = [0], pred_buf = [0], delta_out_buf = [0], delta_hid_buf = [0]\<rparr>"

theorem Mlp_gradient_witness:
  "\<exists>net' b' fd hid pred. BackwardReverseMode exact [3] [1] (tiny_net, tiny_buffers) = (net', b')
     \<and> FiniteDifferences exact 1 [3] [1] (tiny_net, [0], [0]) = (fd, hid, pred)
     \<and> grad_w2 fd ! 0 = grad_w2 net' ! 0 + 9 / 2 \<and> grad_w1 fd ! 0 = grad_w1 net' ! 0 + 18"
proof -
  have wf: "mlp_wf tiny_net" "buffers_ok tiny_net tiny_buffers"
    by (simp_all add: mlp_wf_def buffers_ok_def tiny_net_def tiny_buffers_def)
  have out: "0 < out_dim tiny_net" by (simp add: tiny_net_def)
  have p: "preact exact tiny_net [3] 0 = 3" by (simp add: preact_exact tiny_net_def)
  have h: "hidden_of exact tiny_net [3] ! 0 = 3" using hidden_exact [of 0 tiny_net "[3]"] p by (simp add: tiny_net_def)
  have n: "hidden_dim tiny_net = 1" "in_dim tiny_net = 1" "out_dim tiny_net = 1" "w2 tiny_net = [2]"
    "hidden_buf tiny_buffers = [0]" "pred_buf tiny_buffers = [0]"
    by (simp_all add: tiny_net_def tiny_buffers_def)
  show ?thesis using Mlp_gradient [OF wf one_neq_zero out, of "[3]" "[1]"] h p unfolding n by fastforce
qed

end
