(* ===== verification/Kernels.thy ===== *)
theory Kernels
  imports Mlp
begin

text \<open>
  The matrix kernels of \<open>Mlp\<close>: the tiled product is the plain one, bit for bit, whatever the
  arithmetic, because every element is accumulated in the same order; likewise for the fused pass.
\<close>

section \<open>Nested loops\<close>

lemma fold_nested: "fold (\<lambda>a s. fold (\<lambda>b s. f (a, b) s) bs s) as s = fold f (List.product as bs) s"
proof (induction as arbitrary: s)
  case (Cons a as)
  have "fold (\<lambda>b s. f (a, b) s) bs s = fold f (map (Pair a) bs) s" for s
    by (induction bs arbitrary: s) auto
  then show ?case using Cons by simp
qed simp

text \<open>A loop in which every element is updated once, from its own old value.\<close>

lemma fold_own_length: "length (fold (\<lambda>j out. out[g j := f j (out ! g j)]) js out) = length out"
  by (induction js arbitrary: out) auto

lemma fold_own_miss: "p \<notin> g ` set js \<Longrightarrow> fold (\<lambda>j out. out[g j := f j (out ! g j)]) js out ! p = out ! p"
  by (induction js arbitrary: out) auto

lemma fold_own_hit:
  assumes "distinct (map g js)" and "j \<in> set js" and "g j < length out"
  shows "fold (\<lambda>j out. out[g j := f j (out ! g j)]) js out ! g j = f j (out ! g j)"
  using assms
proof (induction js arbitrary: out)
  case (Cons k js)
  show ?case
  proof (cases "j = k")
    case True
    then have "g j \<notin> g ` set js" using Cons.prems(1) by simp
    then show ?thesis using fold_own_miss [of "g j" g js f] Cons.prems(3) True by simp
  next
    case False
    then have "g k \<noteq> g j" using Cons.prems(1,2) by auto
    then show ?thesis using Cons False by simp
  qed
qed simp

definition cell :: "nat \<Rightarrow> nat \<times> nat \<Rightarrow> nat" where
  "cell n p = fst p * n + snd p"

lemma distinct_cells:
  assumes "distinct bs" and "distinct ks" and "\<And>k. k \<in> set ks \<Longrightarrow> k < n"
  shows "distinct (map (cell n) (List.product bs ks))"
proof -
  have "inj_on (cell n) (set (List.product bs ks))"
    using assms(3) row_index by (fastforce simp: inj_on_def cell_def)
  then show ?thesis using assms(1,2) by (simp add: distinct_map distinct_product)
qed

section \<open>The plain product\<close>

lemma gemv_cells:
  "gemv F kBatch kIn kOut w x out = fold (\<lambda>p out. out[cell kOut p :=
      mac F w (snd p * kIn) x (fst p * kIn) [0..<kIn] (fzero F)]) (List.product [0..<kBatch] [0..<kOut]) out"
  unfolding gemv_def by (subst fold_nested [symmetric]) (simp add: cell_def)

lemma gemv_nth:
  assumes "length out = kBatch * kOut" and "b < kBatch" and "k < kOut"
  shows "gemv F kBatch kIn kOut w x out ! (b * kOut + k) = mac F w (k * kIn) x (b * kIn) [0..<kIn] (fzero F)"
proof -
  have d: "distinct (map (cell kOut) (List.product [0..<kBatch] [0..<kOut]))" by (rule distinct_cells) auto
  have "cell kOut (b, k) < length out" using row_bound [OF assms(2,3)] assms(1) by (simp add: cell_def)
  from fold_nth_hit [OF d _ this] show ?thesis using assms(2,3) by (simp add: gemv_cells cell_def)
qed

lemma gemv_length: "length (gemv F kBatch kIn kOut w x out) = length out"
  by (simp add: gemv_cells fold_update_length)

section \<open>The tiled product\<close>

definition gemm_block :: "'f fp \<Rightarrow> nat \<Rightarrow> nat \<Rightarrow> nat \<Rightarrow> nat \<Rightarrow> 'f list \<Rightarrow> 'f list \<Rightarrow> nat \<Rightarrow> nat \<Rightarrow> 'f list \<Rightarrow> 'f list" where
  "gemm_block F kBatch kIn kOut kTile w x o0 i0 out =
     fold (gemm_tile F kIn kOut kTile o0 i0 w x) [0..<kBatch] out"

lemma gemm_block_cells:
  "gemm_block F kBatch kIn kOut kTile w x o0 i0 out = fold (\<lambda>p out. out[cell kOut p :=
      mac F w (snd p * kIn) x (fst p * kIn) [i0..<i0 + kTile] (out ! cell kOut p)])
      (List.product [0..<kBatch] [o0..<o0 + kTile]) out"
  unfolding gemm_block_def gemm_tile_def by (subst fold_nested [symmetric]) (simp add: cell_def)

lemma gemm_block_nth:
  assumes len: "length out = kBatch * kOut" and o0: "o0 + kTile \<le> kOut" and b: "b < kBatch" and k: "k < kOut"
  shows "gemm_block F kBatch kIn kOut kTile w x o0 i0 out ! (b * kOut + k) =
    (if o0 \<le> k \<and> k < o0 + kTile then mac F w (k * kIn) x (b * kIn) [i0..<i0 + kTile] (out ! (b * kOut + k))
     else out ! (b * kOut + k))"
proof (cases "o0 \<le> k \<and> k < o0 + kTile")
  case True
  have d: "distinct (map (cell kOut) (List.product [0..<kBatch] [o0..<o0 + kTile]))"
    using o0 by (intro distinct_cells) auto
  have "cell kOut (b, k) < length out" using row_bound [OF b k] len by (simp add: cell_def)
  from fold_own_hit [OF d _ this, where f = "\<lambda>p v. mac F w (snd p * kIn) x (fst p * kIn) [i0..<i0 + kTile] v"] show ?thesis using True b by (simp add: gemm_block_cells cell_def)
next
  case False
  have "cell kOut (b, k) \<notin> cell kOut ` set (List.product [0..<kBatch] [o0..<o0 + kTile])"
    using False row_index [OF k] o0 by (fastforce simp: cell_def)
  from fold_own_miss [OF this, where f = "\<lambda>p v. mac F w (snd p * kIn) x (fst p * kIn) [i0..<i0 + kTile] v"] show ?thesis
    unfolding if_not_P [OF False] by (simp add: gemm_block_cells cell_def)
qed

lemma gemm_block_length: "length (gemm_block F kBatch kIn kOut kTile w x o0 i0 out) = length out"
  unfolding gemm_block_cells
  by (rule fold_own_length [where f = "\<lambda>p v. mac F w (snd p * kIn) x (fst p * kIn) [i0..<i0 + kTile] v"])

lemma gemm_column:
  assumes len: "length out = kBatch * kOut" and o0: "o0 + kTile \<le> kOut" and b: "b < kBatch" and k: "k < kOut"
  shows "length (fold (gemm_block F kBatch kIn kOut kTile w x o0) (map (\<lambda>n. n * kTile) [0..<c]) out) = length out \<and> (fold (gemm_block F kBatch kIn kOut kTile w x o0) (map (\<lambda>n. n * kTile) [0..<c]) out) ! (b * kOut + k) =
    (if o0 \<le> k \<and> k < o0 + kTile then mac F w (k * kIn) x (b * kIn) [0..<c * kTile] (out ! (b * kOut + k))
     else out ! (b * kOut + k))"
proof (induction c)
  case 0
  then show ?case by (simp add: mac_def)
next
  case (Suc c)
  define q where "q = (fold (gemm_block F kBatch kIn kOut kTile w x o0) (map (\<lambda>n. n * kTile) [0..<c]) out)"
  have q: "length q = kBatch * kOut" using Suc len by (simp add: q_def)
  have "[0..<Suc c * kTile] = [0..<c * kTile] @ [c * kTile..<c * kTile + kTile]"
    by (metis add.commute le_add1 mult_Suc upt_add_eq_append zero_le)
  then show ?case
    using gemm_block_nth [OF q o0 b k, of F kIn w x "c * kTile"] Suc len
    by (auto simp: mac_append gemm_block_length simp flip: q_def)
qed

lemma gemm_columns:
  assumes len: "length out = kBatch * (a * kTile)" and b: "b < kBatch" and k: "k < a * kTile" and n: "n \<le> a"
  shows "length (fold (\<lambda>o0. fold (gemm_block F kBatch (c * kTile) (a * kTile) kTile w x o0) (map (\<lambda>n. n * kTile) [0..<c]))
      (map (\<lambda>n. n * kTile) [0..<n]) out) = length out \<and> (fold (\<lambda>o0. fold (gemm_block F kBatch (c * kTile) (a * kTile) kTile w x o0) (map (\<lambda>n. n * kTile) [0..<c]))
      (map (\<lambda>n. n * kTile) [0..<n]) out) ! (b * (a * kTile) + k) =
    (if k < n * kTile then mac F w (k * (c * kTile)) x (b * (c * kTile)) [0..<c * kTile] (out ! (b * (a * kTile) + k))
     else out ! (b * (a * kTile) + k))"
  using n
proof (induction n)
  case 0
  then show ?case by simp
next
  case (Suc n)
  let ?q = "fold (\<lambda>o0. fold (gemm_block F kBatch (c * kTile) (a * kTile) kTile w x o0) (map (\<lambda>n. n * kTile) [0..<c]))
      (map (\<lambda>n. n * kTile) [0..<n]) out"
  have IH: "length ?q = length out" "?q ! (b * (a * kTile) + k) =
    (if k < n * kTile then mac F w (k * (c * kTile)) x (b * (c * kTile)) [0..<c * kTile] (out ! (b * (a * kTile) + k))
     else out ! (b * (a * kTile) + k))"
    using Suc by auto
  have fit: "n * kTile + kTile \<le> a * kTile" using mult_le_mono1 [OF Suc.prems, of kTile] by simp
  have q: "length ?q = kBatch * (a * kTile)" using IH(1) len by simp
  note G = gemm_column [OF q fit b k, of F "c * kTile" w x c]
  have "Suc n * kTile = n * kTile + kTile" by simp
  then show ?case using G IH by (auto simp: not_less)
qed

section \<open>Properties\<close>

text \<open>
  C34. Optimised kernels compute the same bits. For any arithmetic, rounding included, and any sizes
  that are multiples of the tile, the tiled matrix product leaves the buffer exactly as the plain
  product does, whatever it held before; and the fused bias and activation pass gives what the
  three-pass version gives.
\<close>

theorem kernels_equivalent:
  assumes "0 < kTile" and "kOut = a * kTile" and "kIn = c * kTile"
    and "length out = kBatch * kOut" and "length out' = kBatch * kOut" and "length temp = kN"
  shows "gemm_tiled F kBatch kIn kOut kTile w x out = gemv F kBatch kIn kOut w x out'
    \<and> snd (unfused F kN z bias temp res) = fused F kN z bias res"
proof
  have tiled: "gemm_tiled F kBatch kIn kOut kTile w x out
      = fold (\<lambda>o0. fold (gemm_block F kBatch (c * kTile) (a * kTile) kTile w x o0) (map (\<lambda>n. n * kTile) [0..<c]))
          (map (\<lambda>n. n * kTile) [0..<a]) (map (\<lambda>_. fzero F) out)"
    unfolding gemm_tiled_def gemm_block_def assms(2,3) tile_count [OF assms(1)] ..
  have len0: "length (map (\<lambda>_. fzero F) out) = kBatch * (a * kTile)" using assms by simp
  show "gemm_tiled F kBatch kIn kOut kTile w x out = gemv F kBatch kIn kOut w x out'"
  proof (rule nth_equalityI)
    have "length (fold (\<lambda>o0. fold (gemm_block F kBatch (c * kTile) (a * kTile) kTile w x o0) js) os r) = length r" for js os r
    proof (induction os arbitrary: r)
      case (Cons o0 os)
      have "length (fold (gemm_block F kBatch (c * kTile) (a * kTile) kTile w x o0) js r) = length r"
        by (induction js arbitrary: r) (simp_all add: gemm_block_length)
      then show ?case using Cons by simp
    qed simp
    then show len: "length (gemm_tiled F kBatch kIn kOut kTile w x out) = length (gemv F kBatch kIn kOut w x out')"
      using assms(4,5) by (simp add: tiled gemv_length)
    fix i assume "i < length (gemm_tiled F kBatch kIn kOut kTile w x out)"
    then have i: "i < kBatch * kOut" using len assms(5) by (simp add: gemv_length)
    define b k where "b = i div kOut" and "k = i mod kOut"
    have "0 < kOut" using i by (cases kOut) auto
    then have bk: "i = b * kOut + k" "k < kOut" "b < kBatch"
      using i by (simp_all add: b_def k_def less_mult_imp_div_less)
    have "map (\<lambda>_. fzero F) out ! i = fzero F" using i assms(4) by simp
    then show "gemm_tiled F kBatch kIn kOut kTile w x out ! i = gemv F kBatch kIn kOut w x out' ! i"
      unfolding tiled using gemm_columns [OF len0 bk(3), of k a F c w x] gemv_nth [OF assms(5) bk(3,2), of F kIn w x] bk assms(2,3)
      by simp
  qed
  show "snd (unfused F kN z bias temp res) = fused F kN z bias res"
    using assms(6) by (simp add: unfused_def fused_def Let_def fold_update_all cong: if_cong)
qed

theorem kernels_equivalent_witness:
  "gemm_tiled exact 1 2 2 2 [1, 2, 3, 4] [5, 6] [0, 0] = gemv exact 1 2 2 [1, 2, 3, 4] [5, 6] [7, 7 :: rat]
   \<and> gemv exact 1 2 2 [1, 2, 3, 4] [5, 6] [7, 7 :: rat] = [17, 39]"
proof -
  have "gemv exact 1 2 2 [1, 2, 3, 4] [5, 6] [7, 7 :: rat] = [17, 39]"
    by (simp add: gemv_def mac_def upt_rec)
  then show ?thesis
    using kernels_equivalent [of 2 2 1 2 1 "[0, 0]" 1 "[7, 7]" "[]" 0 exact "[1, 2, 3, 4]" "[5, 6 :: rat]"] by simp
qed

end
