(* ===== verification/Exec.thy ===== *)
theory Exec
  imports Fp
begin

text \<open>
  Summation pipelines and the recursive filter: \<open>common/execution/execution_pipeline.h\<close> and
  \<open>common/execution/challenge.cc\<close>. Integers are 64-bit words; the loops over doubles take the
  floating-point operations as a parameter and apply them in the order of the source.
\<close>

text \<open>The indices of \<open>for (i = 0; i < limit; i += k)\<close>.\<close>

definition stride :: "nat \<Rightarrow> nat \<Rightarrow> nat list" where
  "stride k limit = map (\<lambda>n. n * k) [0..<(limit + k - 1) div k]"

section \<open>DependentPipeline\<close>

definition AccumulateHash :: "u64 list \<Rightarrow> u64" where
  "AccumulateHash data = fold (\<lambda>i acc. xor (acc * 33) (data ! i)) [0..<length data] 0"

definition Sum :: "u64 list \<Rightarrow> u64" where
  "Sum data = fold (\<lambda>i total. total + data ! i) [0..<length data] 0"

definition SumFloat :: "'f fp \<Rightarrow> 'f list \<Rightarrow> 'f" where
  "SumFloat F data = fold (\<lambda>i total. fadd F total (data ! i)) [0..<length data] (fzero F)"

section \<open>IndependentPipeline\<close>

definition Sum4Way :: "u64 list \<Rightarrow> u64" where
  "Sum4Way data =
     (let len = length data; unrolled_limit = len - len mod 4;
          (acc0, acc1, acc2, acc3) =
            fold (\<lambda>i (a0, a1, a2, a3). (a0 + data ! i, a1 + data ! (i + 1), a2 + data ! (i + 2), a3 + data ! (i + 3)))
              (stride 4 unrolled_limit) (0, 0, 0, 0);
          total = (acc0 + acc1) + (acc2 + acc3)
      in fold (\<lambda>i total. total + data ! i) [unrolled_limit..<len] total)"

definition Sum8Way :: "u64 list \<Rightarrow> u64" where
  "Sum8Way data =
     (let len = length data; unrolled_limit = len - len mod 8;
          (acc0, acc1, acc2, acc3, acc4, acc5, acc6, acc7) =
            fold (\<lambda>i (a0, a1, a2, a3, a4, a5, a6, a7).
                     (a0 + data ! i, a1 + data ! (i + 1), a2 + data ! (i + 2), a3 + data ! (i + 3),
                      a4 + data ! (i + 4), a5 + data ! (i + 5), a6 + data ! (i + 6), a7 + data ! (i + 7)))
              (stride 8 unrolled_limit) (0, 0, 0, 0, 0, 0, 0, 0);
          total = ((acc0 + acc1) + (acc2 + acc3)) + ((acc4 + acc5) + (acc6 + acc7))
      in fold (\<lambda>i total. total + data ! i) [unrolled_limit..<len] total)"

definition SumFloat4Way :: "'f fp \<Rightarrow> 'f list \<Rightarrow> 'f" where
  "SumFloat4Way F data =
     (let len = length data; unrolled_limit = len - len mod 4;
          (acc0, acc1, acc2, acc3) =
            fold (\<lambda>i (a0, a1, a2, a3). (fadd F a0 (data ! i), fadd F a1 (data ! (i + 1)),
                                        fadd F a2 (data ! (i + 2)), fadd F a3 (data ! (i + 3))))
              (stride 4 unrolled_limit) (fzero F, fzero F, fzero F, fzero F);
          total = fadd F (fadd F acc0 acc1) (fadd F acc2 acc3)
      in fold (\<lambda>i total. fadd F total (data ! i)) [unrolled_limit..<len] total)"

section \<open>The filter of the challenge\<close>

text \<open>The outputs \<open>y\<close> and their checksum; the timings of \<open>FilterResult\<close> are left out.\<close>

definition checksum_of :: "'f fp \<Rightarrow> 'f list \<Rightarrow> 'f" where
  "checksum_of F y = fold (\<lambda>val c. fadd F c val) y (fzero F)"

definition RunBaseline :: "'f fp \<Rightarrow> 'f list \<Rightarrow> 'f \<Rightarrow> 'f list \<times> 'f" where
  "RunBaseline F x alpha =
     (let n = length x;
          (prev, y) = fold (\<lambda>i (prev, y). let prev = fadd F (x ! i) (fmul F alpha prev) in (prev, y[i := prev]))
                        [0..<n] (fzero F, replicate n (fzero F))
      in (y, checksum_of F y))"

definition lookahead_step :: "'f fp \<Rightarrow> 'f list \<Rightarrow> 'f \<Rightarrow> nat \<Rightarrow> 'f \<times> 'f list \<Rightarrow> 'f \<times> 'f list" where
  "lookahead_step F x alpha i s =
     (let (y_prev, y) = s;
          a2 = fmul F alpha alpha; a3 = fmul F a2 alpha; a4 = fmul F a3 alpha;
          x0 = x ! i; x1 = x ! (i + 1); x2 = x ! (i + 2); x3 = x ! (i + 3);
          y0 = fadd F x0 (fmul F alpha y_prev);
          y1 = fadd F (fadd F x1 (fmul F alpha x0)) (fmul F a2 y_prev);
          y2 = fadd F (fadd F (fadd F x2 (fmul F alpha x1)) (fmul F a2 x0)) (fmul F a3 y_prev);
          y3 = fadd F (fadd F (fadd F (fadd F x3 (fmul F alpha x2)) (fmul F a2 x1)) (fmul F a3 x0)) (fmul F a4 y_prev)
      in (y3, y[i := y0, i + 1 := y1, i + 2 := y2, i + 3 := y3]))"

definition RunOptimizedChallenge :: "'f fp \<Rightarrow> 'f list \<Rightarrow> 'f \<Rightarrow> 'f list \<times> 'f" where
  "RunOptimizedChallenge F x alpha =
     (let n = length x; limit = n - n mod 4;
          s = fold (lookahead_step F x alpha) (stride 4 limit) (fzero F, replicate n (fzero F));
          (y_prev, y) = fold (\<lambda>i (y_prev, y). let y_prev = fadd F (x ! i) (fmul F alpha y_prev) in (y_prev, y[i := y_prev]))
                          [limit..<n] s
      in (y, checksum_of F y))"

section \<open>Strided loops\<close>

lemma stride_mult: "0 < k \<Longrightarrow> stride k (m * k) = map (\<lambda>n. n * k) [0..<m]"
  unfolding stride_def by (simp only: tile_count)

lemma limit_mult: "n - n mod k = (n div k) * (k :: nat)"
  by (simp add: minus_mod_eq_div_mult)

text \<open>A loop unrolled \<open>k\<close> times runs the plain loop over the indices below its limit.\<close>

lemma unrolled_loop:
  assumes k: "0 < k" and block: "\<And>n s. f (n * k) s = fold g [n * k..<n * k + k] s"
  shows "fold g [n - n mod k..<n] (fold f (stride k (n - n mod k)) s) = fold g [0..<n] s"
proof -
  have "fold f (stride k (n - n mod k)) s = fold g [0..<n - n mod k] s"
    unfolding limit_mult stride_mult [OF k] by (rule fold_blocks [OF block])
  moreover have "[0..<n] = [0..<n - n mod k] @ [n - n mod k..<n]"
    using upt_add_eq_append [of 0 "n - n mod k" "n mod k"] by simp
  ultimately show ?thesis by simp
qed

text \<open>Independent accumulators: their sum goes through the values of the single one.\<close>

lemma fold_view:
  assumes "\<And>i s. v (f i s) = g i (v s)"
  shows "v (fold f is s) = fold g is (v s)"
  by (induction "is" arbitrary: s) (simp_all add: assms)

lemma lanes_loop:
  fixes d :: "nat \<Rightarrow> 'a :: comm_monoid_add"
  assumes k: "0 < k" and lanes: "\<And>i s. v (f i s) = v s + (\<Sum>j\<leftarrow>[i..<i + k]. d j)"
  shows "fold (\<lambda>i t. t + d i) [n - n mod k..<n] (v (fold f (stride k (n - n mod k)) s)) = fold (\<lambda>i t. t + d i) [0..<n] (v s)"
proof -
  have total: "fold (\<lambda>i t. t + d i) js t = t + (\<Sum>j\<leftarrow>js. d j)" for js t
    by (induction js arbitrary: t) (simp_all add: ac_simps)
  have "v (fold f is s) = fold (\<lambda>i t. t + (\<Sum>j\<leftarrow>[i..<i + k]. d j)) is (v s)" for "is"
    by (rule fold_view) (rule lanes)
  then show ?thesis using unrolled_loop [OF k, of "\<lambda>i t. t + (\<Sum>j\<leftarrow>[i..<i + k]. d j)" "\<lambda>i t. t + d i" n "v s"] total by simp
qed

lemma upt_four: "[i..<i + 4] = [i, i + 1, i + 2, i + (3 :: nat)]"
  by (simp add: upt_rec)

lemma upt_eight: "[i..<i + 8] = [i, i + 1, i + 2, i + 3, i + 4, i + 5, i + 6, i + (7 :: nat)]"
  by (simp add: upt_rec)

section \<open>The hash\<close>

lemma fold_over_indices: "fold (\<lambda>i s. f (xs ! i) s) [0..<length xs] s = fold f xs s"
proof -
  have "fold f (map ((!) xs) [0..<length xs]) s = fold (\<lambda>i s. f (xs ! i) s) [0..<length xs] s"
    by (simp add: fold_map comp_def)
  then show ?thesis by (simp add: map_nth)
qed

lemma times_33_inj: "a * 33 = b * 33 \<Longrightarrow> a = (b :: u64)"
proof -
  assume "a * 33 = b * 33"
  then have "a * (33 * 1117984489315730401) = b * (33 * 1117984489315730401)" unfolding mult.assoc [symmetric] by (rule arg_cong)
  moreover have "33 * 1117984489315730401 = (1 :: u64)" by simp
  ultimately show "a = b" by (simp only: mult_1_right)
qed

lemma xor_cancel_right: "xor a c = xor b c \<Longrightarrow> a = (b :: u64)"
proof -
  assume "xor a c = xor b c"
  then have "xor a (xor c c) = xor b (xor c c)" unfolding xor.assoc [symmetric] by (rule arg_cong)
  then show "a = b" by simp
qed

lemma hash_fold_inj: "fold (\<lambda>d acc. xor (acc * 33) d) ys s = fold (\<lambda>d acc. xor (acc * 33) d) ys t \<Longrightarrow> s = (t :: u64)"
  by (induction ys arbitrary: s t) (auto dest: xor_cancel_right times_33_inj)

lemma hash_tells_apart: "AccumulateHash (xs @ a # ys) = AccumulateHash (xs @ b # ys) \<longleftrightarrow> a = b"
proof
  have h: "AccumulateHash zs = fold (\<lambda>d acc. xor (acc * 33) d) zs 0" for zs
    using fold_over_indices [of "\<lambda>d acc. xor (acc * 33) d"] by (simp add: AccumulateHash_def)
  assume "AccumulateHash (xs @ a # ys) = AccumulateHash (xs @ b # ys)"
  then have "xor (fold (\<lambda>d acc. xor (acc * 33) d) xs 0 * 33) a = xor (fold (\<lambda>d acc. xor (acc * 33) d) xs 0 * 33) b"
    unfolding h fold_append comp_def fold_simps by (rule hash_fold_inj)
  then show "a = b" unfolding xor.commute [of "_ * 33"] by (rule xor_cancel_right)
qed simp

section \<open>The lookahead filter\<close>

lemma RunOptimizedChallenge_exact:
  "RunOptimizedChallenge exact x alpha = RunBaseline exact x (alpha :: 'a :: linordered_field)"
proof -
  let ?step = "\<lambda>i (prev, y). let prev = fadd exact (x ! i) (fmul exact alpha prev) in (prev, y[i := prev])"
  have "lookahead_step exact x alpha (n * 4) s = fold ?step [n * 4..<n * 4 + 4] s" for n s
    unfolding upt_four by (cases s) (simp add: lookahead_step_def Let_def algebra_simps)
  then have "fold ?step [length x - length x mod 4..<length x]
      (fold (lookahead_step exact x alpha) (stride 4 (length x - length x mod 4)) s) = fold ?step [0..<length x] s" for s
    by (intro unrolled_loop) simp_all
  then show ?thesis by (simp add: RunOptimizedChallenge_def RunBaseline_def Let_def cong: if_cong)
qed

section \<open>Properties\<close>

text \<open>
  The optimised loops compute what the plain ones do. On 64-bit words, overflow included, the four- and
  eight-way sums return what the single accumulator returns, for every length; on doubles, when nothing
  rounds, the four-way sum does, and the lookahead filter of the challenge fills the same outputs and
  returns the same checksum as the serial baseline. And the hash over the dependent chain tells two streams
  of one length apart when they differ in one element.
\<close>

theorem execution_equivalences:
  "Sum4Way data = Sum data \<and> Sum8Way data = Sum data
   \<and> SumFloat4Way exact reals = SumFloat exact (reals :: 'a :: linordered_field list)
   \<and> RunOptimizedChallenge exact x alpha = RunBaseline exact x (alpha :: 'b :: linordered_field)
   \<and> (AccumulateHash (xs @ a # ys) = AccumulateHash (xs @ b # ys) \<longleftrightarrow> a = b)"
proof -
  have four: "Sum4Way data = Sum data"
    using lanes_loop [of 4 "\<lambda>(a0, a1, a2, a3). (a0 + a1) + (a2 + a3)"
        "\<lambda>i (a0, a1, a2, a3). (a0 + data ! i, a1 + data ! (i + 1), a2 + data ! (i + 2), a3 + data ! (i + 3))"
        "\<lambda>i. data ! i" "length data" "(0, 0, 0, 0)"]
    by (simp add: Sum4Way_def Sum_def Let_def upt_four split_beta)
  have eight: "Sum8Way data = Sum data"
    using lanes_loop [of 8 "\<lambda>(a0, a1, a2, a3, a4, a5, a6, a7). ((a0 + a1) + (a2 + a3)) + ((a4 + a5) + (a6 + a7))"
        "\<lambda>i (a0, a1, a2, a3, a4, a5, a6, a7).
           (a0 + data ! i, a1 + data ! (i + 1), a2 + data ! (i + 2), a3 + data ! (i + 3),
            a4 + data ! (i + 4), a5 + data ! (i + 5), a6 + data ! (i + 6), a7 + data ! (i + 7))"
        "\<lambda>i. data ! i" "length data" "(0, 0, 0, 0, 0, 0, 0, 0)"]
    by (simp add: Sum8Way_def Sum_def Let_def upt_eight split_beta)
  have float: "SumFloat4Way exact reals = SumFloat exact reals"
    using lanes_loop [of 4 "\<lambda>(a0, a1, a2, a3). (a0 + a1) + (a2 + a3)"
        "\<lambda>i (a0, a1, a2, a3). (a0 + reals ! i, a1 + reals ! (i + 1), a2 + reals ! (i + 2), a3 + reals ! (i + 3))"
        "\<lambda>i. reals ! i" "length reals" "(0, 0, 0, 0)"]
    by (simp add: SumFloat4Way_def SumFloat_def Let_def upt_four split_beta)
  show ?thesis using four eight float hash_tells_apart RunOptimizedChallenge_exact by blast
qed

end
