(* ===== verification/Jit.thy ===== *)
theory Jit
  imports Fp "HOL-Library.Multiset"
begin

text \<open>
  The three battles of \<open>common/cpp_vs_java_jit\<close>: polymorphic events against flat values, pointer
  arrays against columns, and the slab pool. A signed 64-bit integer is a word; \<open>signed_drop_bit\<close> is
  its \<open>>>\<close>. Loop counters are natural numbers, all far below \<open>2 ^ 64\<close>. What is timed or printed is left
  out.
\<close>


definition kBattle1BatchSize :: nat where "kBattle1BatchSize = 4096"
definition kBattle2OrderCount :: nat where "kBattle2OrderCount = 4000000"
definition kOrderFlagActiveBuy :: u32 where "kOrderFlagActiveBuy = 1"

section \<open>Battle 1: events\<close>

record order_result =
  notional :: i64
  fee_ticks :: i64

text \<open>\<open>FlatEvent\<close> has the fields of \<open>Event\<close> without its pointer to the virtual table.\<close>

record flat_event =
  price :: i64
  qty :: i64
  symbol_id :: u32
  type_tag :: u8

datatype event_class = LimitOrderEvent | CancelOrderEvent | ModifyOrderEvent | PeggedOrderEvent | MarketHaltEvent

record event = flat_event +
  vptr :: event_class

definition Event :: "event_class \<Rightarrow> i64 \<Rightarrow> i64 \<Rightarrow> u32 \<Rightarrow> u8 \<Rightarrow> event" where
  "Event c p q s t = \<lparr>price = p, qty = q, symbol_id = s, type_tag = t, vptr = c\<rparr>"

fun ProcessHeapAlloc_of :: "event_class \<Rightarrow> event \<Rightarrow> order_result" where
  "ProcessHeapAlloc_of LimitOrderEvent ev =
     (let gross = price ev * qty ev in \<lparr>notional = gross, fee_ticks = signed_drop_bit 10 gross\<rparr>)"
| "ProcessHeapAlloc_of CancelOrderEvent ev =
     (let gross = - (price ev * qty ev) in \<lparr>notional = gross, fee_ticks = 0\<rparr>)"
| "ProcessHeapAlloc_of ModifyOrderEvent ev =
     (let gross = price ev * (qty ev + 1) in \<lparr>notional = gross, fee_ticks = signed_drop_bit 9 gross\<rparr>)"
| "ProcessHeapAlloc_of PeggedOrderEvent ev =
     (let gross = (price ev + 2) * qty ev in \<lparr>notional = gross, fee_ticks = 1\<rparr>)"
| "ProcessHeapAlloc_of MarketHaltEvent ev =
     (let gross = xor (price ev * qty ev * 3) (ucast (symbol_id ev)) in \<lparr>notional = gross, fee_ticks = 0\<rparr>)"

fun ProcessNoAlloc_of :: "event_class \<Rightarrow> event \<Rightarrow> i64" where
  "ProcessNoAlloc_of LimitOrderEvent ev = (let gross = price ev * qty ev in gross - signed_drop_bit 10 gross)"
| "ProcessNoAlloc_of CancelOrderEvent ev = - (price ev * qty ev)"
| "ProcessNoAlloc_of ModifyOrderEvent ev = price ev * (qty ev + 1) - signed_drop_bit 9 (price ev * qty ev)"
| "ProcessNoAlloc_of PeggedOrderEvent ev = (price ev + 2) * qty ev"
| "ProcessNoAlloc_of MarketHaltEvent ev = xor (price ev * qty ev * 3) (ucast (symbol_id ev))"

text \<open>The virtual calls go through the pointer to the table.\<close>

definition ProcessHeapAlloc :: "event \<Rightarrow> order_result" where
  "ProcessHeapAlloc ev = ProcessHeapAlloc_of (vptr ev) ev"

definition ProcessNoAlloc :: "event \<Rightarrow> i64" where
  "ProcessNoAlloc ev = ProcessNoAlloc_of (vptr ev) ev"

definition MakeEventByType :: "u8 \<Rightarrow> i64 \<Rightarrow> i64 \<Rightarrow> u32 \<Rightarrow> event" where
  "MakeEventByType tag p q s =
     (if tag = 0 then Event LimitOrderEvent p q s tag
      else if tag = 1 then Event CancelOrderEvent p q s tag
      else if tag = 2 then Event ModifyOrderEvent p q s tag
      else if tag = 3 then Event PeggedOrderEvent p q s tag
      else Event MarketHaltEvent p q s tag)"

text \<open>The arena is a sequence of slots; constructing in place overwrites the slot.\<close>

definition ConstructEventInPlace :: "event option list \<Rightarrow> nat \<Rightarrow> u8 \<Rightarrow> i64 \<Rightarrow> i64 \<Rightarrow> u32 \<Rightarrow> event option list" where
  "ConstructEventInPlace arena slot tag p q s =
     (if tag = 0 then arena[slot := Some (Event LimitOrderEvent p q s tag)]
      else if tag = 1 then arena[slot := Some (Event CancelOrderEvent p q s tag)]
      else if tag = 2 then arena[slot := Some (Event ModifyOrderEvent p q s tag)]
      else if tag = 3 then arena[slot := Some (Event PeggedOrderEvent p q s tag)]
      else arena[slot := Some (Event MarketHaltEvent p q s tag)])"

definition ProcessInline :: "flat_event \<Rightarrow> i64" where
  "ProcessInline ev =
     (if type_tag ev = 0 then price ev * qty ev - signed_drop_bit 10 (price ev * qty ev)
      else if type_tag ev = 1 then - (price ev * qty ev)
      else if type_tag ev = 2 then price ev * (qty ev + 1) - signed_drop_bit 9 (price ev * qty ev)
      else if type_tag ev = 3 then (price ev + 2) * qty ev
      else xor (price ev * qty ev * 3) (ucast (symbol_id ev)))"

text \<open>\<open>RunBattle1Suite\<close>: the rings, and the accumulator of each of the three loops after \<open>ops\<close> events.\<close>

record battle1 =
  mono_tags :: "u8 list"
  mega_tags :: "u8 list"
  mono_ring :: "event list"
  bimodal_ring :: "event list"
  mega_ring :: "event list"
  flat_mono :: "flat_event list"
  flat_mega :: "flat_event list"

definition event_price :: "nat \<Rightarrow> i64" where "event_price i = of_nat (100 + and i 63)"
definition event_qty :: "nat \<Rightarrow> i64" where "event_qty i = of_nat (10 + and i 15)"

definition battle1_rings :: battle1 where
  "battle1_rings =
     (let is = [0..<kBattle1BatchSize];
          mono = (\<lambda>i. if i mod 1000 = 999 then 1 else 0); mega = (\<lambda>i. of_nat (i mod 5));
          make = (\<lambda>tag i. MakeEventByType (tag i) (event_price i) (event_qty i) 42);
          flat = (\<lambda>tag i. \<lparr>price = event_price i, qty = event_qty i, symbol_id = 42, type_tag = tag i\<rparr>)
      in \<lparr>mono_tags = map mono is, mega_tags = map mega is, mono_ring = map (make mono) is,
          bimodal_ring = map (make (\<lambda>i. of_nat (and i 1))) is, mega_ring = map (make mega) is,
          flat_mono = map (flat mono) is, flat_mega = map (flat mega) is\<rparr>)"

definition naive_loop :: "u8 list \<Rightarrow> nat \<Rightarrow> i64" where
  "naive_loop tags ops =
     fold (\<lambda>i acc. let tag = tags ! (and i (kBattle1BatchSize - 1));
                       ev = MakeEventByType tag (event_price i) (event_qty i) 42; res = ProcessHeapAlloc ev
                   in acc + (notional res - fee_ticks res))
       [0..<ops] 0"

definition virtual_loop :: "event list \<Rightarrow> nat \<Rightarrow> i64" where
  "virtual_loop ring ops = fold (\<lambda>i acc. acc + ProcessNoAlloc (ring ! (and i (kBattle1BatchSize - 1)))) [0..<ops] 0"

definition flat_loop :: "flat_event list \<Rightarrow> nat \<Rightarrow> i64" where
  "flat_loop ring ops = fold (\<lambda>i acc. acc + ProcessInline (ring ! (and i (kBattle1BatchSize - 1)))) [0..<ops] 0"

section \<open>Battle 2: orders\<close>

record order =
  order_id :: u64
  o_price :: i64
  o_qty :: i64
  o_symbol_id :: u32
  o_flags :: u32

definition battle2_order :: "nat \<Rightarrow> order" where
  "battle2_order i = \<lparr>order_id = of_nat i, o_price = of_nat (1000 + and i 1023), o_qty = of_nat (1 + and i 31),
                      o_symbol_id = of_nat (and i 255), o_flags = kOrderFlagActiveBuy\<rparr>"

text \<open>A pointer is the index of its order in \<open>storage\<close>; before the shuffle the pointers are in order.\<close>

definition battle2_storage :: "nat \<Rightarrow> order list" where
  "battle2_storage n = map battle2_order [0..<n]"

definition battle2_ptrs :: "nat \<Rightarrow> nat list" where
  "battle2_ptrs n = map (\<lambda>i. i) [0..<n]"

definition pointer_exposure :: "order list \<Rightarrow> nat list \<Rightarrow> nat \<Rightarrow> i64" where
  "pointer_exposure storage ptr_list n =
     fold (\<lambda>i total. let ord = storage ! (ptr_list ! i)
                     in if o_flags ord = kOrderFlagActiveBuy then total + o_price ord * o_qty ord else total)
       [0..<n] 0"

definition contiguous_exposure :: "order list \<Rightarrow> nat \<Rightarrow> i64" where
  "contiguous_exposure orders n =
     fold (\<lambda>i total. if o_flags (orders ! i) = kOrderFlagActiveBuy
                     then total + o_price (orders ! i) * o_qty (orders ! i) else total)
       [0..<n] 0"

record soa =
  prices :: "i64 list"
  qtys :: "i64 list"
  masks :: "i64 list"

definition OrderBookSoA :: "nat \<Rightarrow> soa" where
  "OrderBookSoA n =
     fold (\<lambda>i b. b\<lparr>prices := (prices b)[i := of_nat (1000 + and i 1023)], qtys := (qtys b)[i := of_nat (1 + and i 31)],
                   masks := (masks b)[i := - 1]\<rparr>)
       [0..<n] \<lparr>prices = replicate n 0, qtys = replicate n 0, masks = replicate n 0\<rparr>"

definition soa_exposure :: "soa \<Rightarrow> nat \<Rightarrow> i64" where
  "soa_exposure b n = fold (\<lambda>i total. total + and (prices b ! i * qtys b ! i) (masks b ! i)) [0..<n] 0"

section \<open>Battle 3: the slab pool\<close>

definition kSlabCapacity :: nat where "kSlabCapacity = 2097152"
definition kNumBatches :: nat where "kNumBatches = 50000"
definition kBatchMsgs :: nat where "kBatchMsgs = 256"

record slab_pool =
  slab :: "order list"
  cursor :: nat
  rolling_checksum :: u64

definition zero_order :: order where
  "zero_order = \<lparr>order_id = 0, o_price = 0, o_qty = 0, o_symbol_id = 0, o_flags = 0\<rparr>"

definition slab_init :: slab_pool where
  "slab_init = \<lparr>slab = replicate kSlabCapacity zero_order, cursor = 0, rolling_checksum = 0\<rparr>"

definition slab_message :: "nat \<Rightarrow> nat \<Rightarrow> slab_pool \<Rightarrow> slab_pool" where
  "slab_message b m s =
     (let slot = and (cursor s) (kSlabCapacity - 1); cur = Suc (cursor s);
          slab' = (slab s)[slot := \<lparr>order_id = of_nat cur, o_price = 1000 + of_nat (and m 63), o_qty = 10 + of_nat (and m 15),
                                    o_symbol_id = of_nat (and b 255), o_flags = kOrderFlagActiveBuy\<rparr>];
          match_slot = and (slot + 1024) (kSlabCapacity - 1)
      in \<lparr>slab = slab', cursor = cur,
          rolling_checksum = rolling_checksum s + o_price (slab' ! match_slot) * o_qty (slab' ! slot)\<rparr>)"

definition slab_run :: "nat \<Rightarrow> slab_pool" where
  "slab_run batches = fold (\<lambda>b. fold (slab_message b) [0..<kBatchMsgs]) [0..<batches] slab_init"

text \<open>The two loops over one event that follow, and the checksum that is reported.\<close>

definition inline_loop :: "flat_event \<Rightarrow> nat \<Rightarrow> i64 \<Rightarrow> i64" where
  "inline_loop ev ops acc = fold (\<lambda>_ acc. acc + ProcessInline ev) [0..<ops] acc"

definition RunBattle3 :: "nat \<Rightarrow> u64" where
  "RunBattle3 batches =
     (let warm_ev = \<lparr>price = 105, qty = 20, symbol_id = 42, type_tag = 0\<rparr>;
          rare_halt_ev = \<lparr>price = 105, qty = 20, symbol_id = 42, type_tag = 4\<rparr>;
          acc = inline_loop rare_halt_ev 1000 (inline_loop warm_ev 100000 0)
      in xor (rolling_checksum (slab_run batches)) acc)"

section \<open>Lemmas\<close>

lemma nat_and_mask: "and n (2 ^ k - 1) = n mod (2 ^ k :: nat)"
  by (simp add: take_bit_eq_mod [symmetric] take_bit_eq_mask mask_eq_exp_minus_1)

lemma nat_and_low:
  "and n 1 = n mod (2 :: nat)" "and n 15 = n mod (16 :: nat)" "and n 31 = n mod (32 :: nat)" "and n 63 = n mod (64 :: nat)"
  "and n 255 = n mod (256 :: nat)" "and n 1023 = n mod (1024 :: nat)" "and n 4095 = n mod (4096 :: nat)"
  "and n 2097151 = n mod (2097152 :: nat)"
  using nat_and_mask [of n 1] nat_and_mask [of n 4] nat_and_mask [of n 5] nat_and_mask [of n 6] nat_and_mask [of n 8]
    nat_and_mask [of n 10] nat_and_mask [of n 12] nat_and_mask [of n 21] by simp_all

lemma fold_add_list: "fold (\<lambda>i a. a + f i) is (a :: 'a :: comm_monoid_add) = a + (\<Sum>i\<leftarrow>is. f i)"
  by (induction "is" arbitrary: a) (simp_all add: ac_simps)

lemma flat_matches: "ProcessNoAlloc (MakeEventByType tag p q s)
  = ProcessInline \<lparr>price = p, qty = q, symbol_id = s, type_tag = tag\<rparr>"
  by (simp add: ProcessNoAlloc_def MakeEventByType_def ProcessInline_def Event_def Let_def)

text \<open>What the naive pipeline nets over the one without allocation: the fee it deducts differs for two classes.\<close>

definition fee_gap :: "u8 \<Rightarrow> i64 \<Rightarrow> i64 \<Rightarrow> i64" where
  "fee_gap tag p q =
     (if tag = 2 then signed_drop_bit 9 (p * q) - signed_drop_bit 9 (p * (q + 1)) else if tag = 3 then - 1 else 0)"

lemma naive_net:
  "notional (ProcessHeapAlloc (MakeEventByType tag p q s)) - fee_ticks (ProcessHeapAlloc (MakeEventByType tag p q s))
   = ProcessNoAlloc (MakeEventByType tag p q s) + fee_gap tag p q"
  by (simp add: ProcessHeapAlloc_def ProcessNoAlloc_def MakeEventByType_def fee_gap_def Event_def Let_def)

lemma in_place: "ConstructEventInPlace arena slot tag p q s = arena[slot := Some (MakeEventByType tag p q s)]"
  by (simp add: ConstructEventInPlace_def MakeEventByType_def)

lemma event_inputs_wrap [simp]: "event_price (i mod 4096) = event_price i" "event_qty (i mod 4096) = event_qty i"
  by (simp_all add: event_price_def event_qty_def nat_and_low mod_mod_cancel)

lemma ring_index [simp]: "and i (kBattle1BatchSize - 1) = i mod 4096"
  using nat_and_low(7) [of i] by (simp add: kBattle1BatchSize_def)

lemma ring_nth [simp]: "map f [0..<kBattle1BatchSize] ! (i mod 4096) = f (i mod 4096)"
  by (simp add: kBattle1BatchSize_def)

text \<open>Battle 2: every order is active, and each scan adds its product.\<close>

definition order_value :: "nat \<Rightarrow> nat" where
  "order_value i = (1000 + i mod 1024) * (1 + i mod 32)"

lemma scan_step: "(if o_flags (battle2_order i) = kOrderFlagActiveBuy
    then acc + o_price (battle2_order i) * o_qty (battle2_order i) else acc) = acc + of_nat (order_value i)"
  by (simp add: battle2_order_def order_value_def nat_and_low algebra_simps)

lemma storage_nth: "i < n \<Longrightarrow> battle2_storage n ! i = battle2_order i"
  by (simp add: battle2_storage_def)

lemma contiguous_sum: "contiguous_exposure (battle2_storage n) n = (\<Sum>i\<leftarrow>[0..<n]. of_nat (order_value i))"
proof -
  have "contiguous_exposure (battle2_storage n) n = fold (\<lambda>i total. total + of_nat (order_value i)) [0..<n] 0"
    unfolding contiguous_exposure_def by (rule fold_cong) (simp_all add: storage_nth scan_step cong: if_cong)
  then show ?thesis by (simp add: fold_add_list)
qed

lemma pointer_sum:
  assumes "mset ptrs = mset [0..<n]"
  shows "pointer_exposure (battle2_storage n) ptrs n = (\<Sum>i\<leftarrow>[0..<n]. of_nat (order_value i))"
proof -
  have len: "length ptrs = n" using assms mset_eq_length by fastforce
  have bound: "ptrs ! i < n" if "i < n" for i
    using that len mset_eq_setD [OF assms] by (metis atLeastLessThan_iff nth_mem set_upt)
  have "pointer_exposure (battle2_storage n) ptrs n = fold (\<lambda>i total. total + of_nat (order_value (ptrs ! i))) [0..<n] 0"
    unfolding pointer_exposure_def
    by (rule fold_cong) (simp_all add: storage_nth bound scan_step Let_def)
  also have "\<dots> = (\<Sum>i\<leftarrow>ptrs. of_nat (order_value i))"
    by (simp add: fold_add_list len [symmetric] interv_sum_list_conv_sum_set_nat sum_list_sum_nth atLeast0LessThan)
  also have "\<dots> = (\<Sum>i\<leftarrow>[0..<n]. of_nat (order_value i))"
  proof -
    have "(\<Sum>i\<leftarrow>is. of_nat (order_value i)) = (\<Sum>i\<in>#mset is. of_nat (order_value i) :: i64)" for "is"
      by (induction "is") simp_all
    then show ?thesis using assms by simp
  qed
  finally show ?thesis .
qed

lemma soa_fill: "OrderBookSoA n = \<lparr>prices = map (\<lambda>i. of_nat (1000 + and i 1023)) [0..<n],
    qtys = map (\<lambda>i. of_nat (1 + and i 31)) [0..<n], masks = map (\<lambda>_. - 1) [0..<n]\<rparr>"
proof -
  have cols: "fold (\<lambda>i b. b\<lparr>prices := (prices b)[i := f i], qtys := (qtys b)[i := g i], masks := (masks b)[i := h i]\<rparr>) is
      \<lparr>prices = x, qtys = y, masks = z\<rparr>
    = \<lparr>prices = fold (\<lambda>i b. b[i := f i]) is x, qtys = fold (\<lambda>i b. b[i := g i]) is y, masks = fold (\<lambda>i b. b[i := h i]) is z\<rparr>"
    for f g h "is" x y z by (induction "is" arbitrary: x y z) simp_all
  show ?thesis unfolding OrderBookSoA_def cols by (simp add: fold_update_all)
qed

lemma soa_sum: "soa_exposure (OrderBookSoA n) n = (\<Sum>i\<leftarrow>[0..<n]. of_nat (order_value i))"
proof -
  have "soa_exposure (OrderBookSoA n) n = fold (\<lambda>i total. total + of_nat (order_value i)) [0..<n] 0"
    unfolding soa_exposure_def soa_fill
    by (rule fold_cong) (auto simp: order_value_def nat_and_low algebra_simps)
  then show ?thesis by (simp add: fold_add_list)
qed

lemma exposure_fits:
  assumes "n \<le> kBattle2OrderCount"
  shows "sint ((\<Sum>i\<leftarrow>[0..<n]. of_nat (order_value i)) :: i64) = int (\<Sum>i<n. order_value i)"
proof -
  have "(\<Sum>i<n. order_value i) \<le> n * (2023 * 32)"
  proof -
    have "order_value i \<le> 2023 * 32" for i
      unfolding order_value_def by (intro mult_mono) (simp_all add: less_Suc_eq_le [symmetric])
    then show ?thesis using sum_bounded_above [of "{..<n}" order_value "2023 * 32"] by simp
  qed
  also have "\<dots> \<le> kBattle2OrderCount * (2023 * 32)" using assms by (rule mult_le_mono1)
  also have "\<dots> < 2 ^ 63" by (simp add: kBattle2OrderCount_def)
  finally have "int (\<Sum>i<n. order_value i) < int (2 ^ 63)" by (simp only: of_nat_less_iff)
  then have "sint (word_of_int (int (\<Sum>i<n. order_value i)) :: i64) = int (\<Sum>i<n. order_value i)"
    unfolding sint_sbintrunc' by (intro signed_take_bit_int_eq_self) (simp_all del: of_nat_sum)
  then show ?thesis by (simp add: interv_sum_list_conv_sum_set_nat atLeast0LessThan)
qed

text \<open>Battle 3: message \<open>t\<close> of the run is message \<open>t mod 256\<close> of batch \<open>t div 256\<close>.\<close>

lemma slab_run_flat: "slab_run batches = fold (\<lambda>t. slab_message (t div 256) (t mod 256)) [0..<batches * 256] slab_init"
proof -
  have "fold (slab_message b) [0..<256] s = fold (\<lambda>t. slab_message (t div 256) (t mod 256)) [b * 256..<b * 256 + 256] s" for b s
  proof -
    have "[b * 256..<b * 256 + 256] = map (\<lambda>m. b * 256 + m) [0..<256]"
      using map_add_upt [of "b * 256" 256] by (simp add: add.commute)
    moreover have "fold (slab_message b) [0..<256] s
        = fold (\<lambda>m. slab_message ((b * 256 + m) div 256) ((b * 256 + m) mod 256)) [0..<256] s"
      by (rule fold_cong) simp_all
    ultimately show ?thesis by (simp only: fold_map comp_def)
  qed
  then have "fold (\<lambda>x. fold (slab_message (x div 256)) [0..<256]) (map (\<lambda>b. b * 256) [0..<batches]) slab_init
      = fold (\<lambda>t. slab_message (t div 256) (t mod 256)) [0..<batches * 256] slab_init"
    by (intro fold_blocks) simp
  then show ?thesis by (simp add: slab_run_def kBatchMsgs_def fold_map comp_def)
qed

definition slab_price :: "nat \<Rightarrow> nat \<Rightarrow> i64" where
  "slab_price N k = (if k < N then 1000 + of_nat (k mod 64) else 0)"

definition match_value :: "nat \<Rightarrow> u64" where
  "match_value t = (if t + 1024 < kSlabCapacity then 0 else of_nat ((1000 + t mod 64) * (10 + t mod 16)))"

definition slab_inv :: "nat \<Rightarrow> slab_pool \<Rightarrow> bool" where
  "slab_inv N s \<longleftrightarrow> cursor s = N \<and> length (slab s) = kSlabCapacity
     \<and> (\<forall>k < kSlabCapacity. o_price (slab s ! k) = slab_price N k)
     \<and> rolling_checksum s = (\<Sum>t\<leftarrow>[0..<N]. match_value t)"

lemma slab_init_inv: "slab_inv 0 slab_init"
  by (simp add: slab_inv_def slab_init_def slab_price_def zero_order_def)

lemma slab_mask: "and i (kSlabCapacity - Suc 0) = i mod kSlabCapacity"
  using nat_and_low(8) [of i] by (simp add: kSlabCapacity_def)

lemma match_slot_price:
  "slab_price (Suc N) ((N mod kSlabCapacity + 1024) mod kSlabCapacity)
   = (if N + 1024 < kSlabCapacity then 0 else 1000 + of_nat (N mod 64))"
proof -
  have m: "(N mod kSlabCapacity + 1024) mod kSlabCapacity mod 64 = N mod 64"
  proof -
    have cancel: "x mod kSlabCapacity mod 64 = x mod 64" for x by (simp add: kSlabCapacity_def mod_mod_cancel)
    have "(N mod kSlabCapacity + 1024) mod 64 = (N mod kSlabCapacity mod 64 + 1024) mod 64" by (simp only: mod_add_left_eq)
    also have "\<dots> = (N mod 64 + 64 * 16) mod 64" by (simp only: cancel) simp
    also have "\<dots> = N mod 64" by (simp only: mod_mult_self2 mod_mod_trivial)
    finally show ?thesis by (simp only: cancel)
  qed
  show ?thesis
  proof (cases "N < kSlabCapacity")
    case True
    then have N: "N mod kSlabCapacity = N" by simp
    show ?thesis
    proof (cases "N + 1024 < kSlabCapacity")
      case True
      then show ?thesis unfolding N by (simp add: slab_price_def)
    next
      case False
      have "(N + 1024) mod kSlabCapacity = N + 1024 - kSlabCapacity"
        using False True by (simp add: le_mod_geq kSlabCapacity_def)
      moreover have "N + 1024 - kSlabCapacity < Suc N" using kSlabCapacity_def by linarith
      ultimately show ?thesis using m False unfolding N by (simp add: slab_price_def)
    qed
  next
    case False
    moreover have "(N mod kSlabCapacity + 1024) mod kSlabCapacity < kSlabCapacity" by (simp add: kSlabCapacity_def)
    ultimately have "(N mod kSlabCapacity + 1024) mod kSlabCapacity < Suc N" by linarith
    then show ?thesis using m False by (simp add: slab_price_def)
  qed
qed

lemma slab_step_inv:
  assumes "slab_inv N s"
  shows "slab_inv (Suc N) (slab_message (N div 256) (N mod 256) s)"
proof -
  let ?slot = "N mod kSlabCapacity" and ?s' = "slab_message (N div 256) (N mod 256) s"
  have S: "cursor s = N" "length (slab s) = kSlabCapacity" "rolling_checksum s = (\<Sum>t\<leftarrow>[0..<N]. match_value t)"
    "\<And>k. k < kSlabCapacity \<Longrightarrow> o_price (slab s ! k) = slab_price N k"
    using assms by (simp_all add: slab_inv_def)
  have cap: "0 < kSlabCapacity" by (simp add: kSlabCapacity_def)
  then have slot: "?slot < kSlabCapacity" by simp
  let ?o = "\<lparr>order_id = of_nat (Suc N), o_price = 1000 + of_nat (N mod 64), o_qty = 10 + of_nat (N mod 16),
             o_symbol_id = of_nat (N div 256 mod 256), o_flags = kOrderFlagActiveBuy\<rparr> :: order"
  have low: "and (N mod 256) 63 = N mod 64" "and (N mod 256) 15 = N mod 16"
    by (simp_all add: nat_and_low mod_mod_cancel)
  have run: "slab ?s' = (slab s)[?slot := ?o]" "cursor ?s' = Suc N"
    "rolling_checksum ?s' = rolling_checksum s + o_price (slab ?s' ! ((?slot + 1024) mod kSlabCapacity)) * o_qty ?o"
    using slot S(2) by (simp_all add: slab_message_def Let_def S(1) slab_mask low nat_and_low(5))
  have mid: "?slot mod 64 = N mod 64" by (simp add: kSlabCapacity_def mod_mod_cancel)
  have price: "o_price (slab ?s' ! k) = slab_price (Suc N) k" if k: "k < kSlabCapacity" for k
  proof (cases "k = ?slot")
    case True
    moreover have "?slot < Suc N" by (simp add: less_Suc_eq_le)
    ultimately show ?thesis using run(1) S(2) slot mid by (simp add: slab_price_def)
  next
    case False
    then have "k \<noteq> N" using k by auto
    then show ?thesis using False run(1) S(4) [OF k] by (auto simp: slab_price_def)
  qed
  have "o_price (slab ?s' ! ((?slot + 1024) mod kSlabCapacity)) * o_qty ?o = match_value N"
    using price [of "(?slot + 1024) mod kSlabCapacity"] cap match_slot_price [of N]
    by (simp add: match_value_def algebra_simps)
  then have "rolling_checksum ?s' = (\<Sum>t\<leftarrow>[0..<Suc N]. match_value t)" using run(3) S(3) by simp
  then show ?thesis using run(1,2) price S(2) by (simp add: slab_inv_def)
qed

lemma inline_loop_sum: "inline_loop ev ops acc = acc + of_nat ops * ProcessInline ev"
  unfolding inline_loop_def by (induction ops) (simp_all add: algebra_simps)

lemma slab_run_inv: "slab_inv (batches * 256) (slab_run batches)"
proof -
  have "slab_inv N (fold (\<lambda>t. slab_message (t div 256) (t mod 256)) [0..<N] slab_init)" for N
    by (induction N) (simp_all add: slab_init_inv slab_step_inv)
  then show ?thesis unfolding slab_run_flat .
qed

section \<open>Properties\<close>

text \<open>
  The three event pipelines. For every tag and every field the virtual call on a built event returns
  what the flat value returns, and building in an arena slot builds the same object. So the
  preallocated and the flat loops of battle 1 accumulate the same sum over any number of events, and
  on the traffic of two order classes the naive loop does as well. On the traffic of all five it does
  not: it deducts other fees for modified and pegged orders, by the sum stated here.
\<close>

theorem battle1_pipelines:
  "ProcessNoAlloc (MakeEventByType tag p q s) = ProcessInline \<lparr>price = p, qty = q, symbol_id = s, type_tag = tag\<rparr>
   \<and> ConstructEventInPlace arena slot tag p q s = arena[slot := Some (MakeEventByType tag p q s)]
   \<and> virtual_loop (mono_ring battle1_rings) ops = flat_loop (flat_mono battle1_rings) ops
   \<and> virtual_loop (mega_ring battle1_rings) ops = flat_loop (flat_mega battle1_rings) ops
   \<and> naive_loop (mono_tags battle1_rings) ops = virtual_loop (mono_ring battle1_rings) ops
   \<and> naive_loop (mega_tags battle1_rings) ops = virtual_loop (mega_ring battle1_rings) ops
       + (\<Sum>i\<leftarrow>[0..<ops]. fee_gap (of_nat (i mod 4096 mod 5)) (event_price i) (event_qty i))"
proof -
  note loops = naive_loop_def virtual_loop_def flat_loop_def fold_add_list Let_def
  have mono: "fee_gap (if c then 1 else 0) a b = 0" for c a b by (simp add: fee_gap_def)
  have r: "mono_tags battle1_rings = map (\<lambda>i. if i mod 1000 = 999 then 1 else 0) [0..<kBattle1BatchSize]"
    "mega_tags battle1_rings = map (\<lambda>i. of_nat (i mod 5)) [0..<kBattle1BatchSize]"
    "mono_ring battle1_rings = map (\<lambda>i. MakeEventByType (if i mod 1000 = 999 then 1 else 0) (event_price i) (event_qty i) 42) [0..<kBattle1BatchSize]"
    "mega_ring battle1_rings = map (\<lambda>i. MakeEventByType (of_nat (i mod 5)) (event_price i) (event_qty i) 42) [0..<kBattle1BatchSize]"
    "flat_mono battle1_rings = map (\<lambda>i. \<lparr>price = event_price i, qty = event_qty i, symbol_id = 42, type_tag = if i mod 1000 = 999 then 1 else 0\<rparr>) [0..<kBattle1BatchSize]"
    "flat_mega battle1_rings = map (\<lambda>i. \<lparr>price = event_price i, qty = event_qty i, symbol_id = 42, type_tag = of_nat (i mod 5)\<rparr>) [0..<kBattle1BatchSize]"
    by (simp_all add: battle1_rings_def Let_def)
  show ?thesis
    by (simp only: r ring_index ring_nth event_inputs_wrap loops flat_matches [symmetric] in_place naive_net mono
        sum_list_addf add_0_right add_0_left simp_thms)
qed

text \<open>
  The three exposure scans. Over any number of orders up to that of the battle, whatever order the
  shuffle puts the pointers in, the scan over pointers, the one over the packed orders and the masked one
  over columns return the same total; and the total is that of the integers, so nothing overflows.
\<close>

theorem battle2_exposures:
  assumes "mset ptrs = mset (battle2_ptrs n)" and "n \<le> kBattle2OrderCount"
  shows "pointer_exposure (battle2_storage n) ptrs n = contiguous_exposure (battle2_storage n) n
    \<and> soa_exposure (OrderBookSoA n) n = contiguous_exposure (battle2_storage n) n
    \<and> sint (contiguous_exposure (battle2_storage n) n) = (\<Sum>i<n. (1000 + int i mod 1024) * (1 + int i mod 32))"
proof -
  have "mset ptrs = mset [0..<n]" using assms(1) by (simp add: battle2_ptrs_def)
  moreover have "(\<Sum>i<n. (1000 + int i mod 1024) * (1 + int i mod 32)) = int (\<Sum>i<n. order_value i)"
    by (simp add: order_value_def zmod_int algebra_simps)
  ultimately show ?thesis
    by (simp only: pointer_sum soa_sum contiguous_sum exposure_fits [OF assms(2)])
qed

theorem battle2_exposures_witness:
  "pointer_exposure (battle2_storage 3) [2, 0, 1] 3 = contiguous_exposure (battle2_storage 3) 3
   \<and> sint (contiguous_exposure (battle2_storage 3) 3) = 1000 + 2002 + 3006"
proof -
  have "mset [2, 0, 1] = mset (battle2_ptrs 3)" by (simp add: battle2_ptrs_def upt_rec)
  moreover have "3 \<le> kBattle2OrderCount" by (simp add: kBattle2OrderCount_def)
  ultimately show ?thesis using battle2_exposures [of "[2, 0, 1]" 3] by (simp add: lessThan_nat_numeral lessThan_Suc)
qed

text \<open>
  C36. What the slab pool holds and what its lookups find. After any number of batches the cursor has
  counted every message, the pool still has its capacity (each index is masked into it), and the price
  in each slot is the one its last message wrote, or zero. The lookup of a neighbour reads memory that
  no message has written until the cursor comes within 1024 slots of the capacity, about two million
  messages; after that it finds an order with the price of the message itself. The checksum adds up
  exactly these products, and the reported one is its exclusive or with a constant.
\<close>

theorem battle3_slab:
  defines "matched n \<equiv> \<Sum>t\<leftarrow>[0..<n]. if t + 1024 < 2097152 then 0 else of_nat ((1000 + t mod 64) * (10 + t mod 16))"
  shows "cursor (slab_run batches) = batches * 256 \<and> length (slab (slab_run batches)) = 2097152
   \<and> (\<forall>k < 2097152. o_price (slab (slab_run batches) ! k) = (if k < batches * 256 then 1000 + of_nat (k mod 64) else 0))
   \<and> rolling_checksum (slab_run batches) = matched (batches * 256)
   \<and> RunBattle3 batches = xor (matched (batches * 256)) 216126000"
proof -
  have "inline_loop \<lparr>price = 105, qty = 20, symbol_id = 42, type_tag = 4\<rparr> 1000
      (inline_loop \<lparr>price = 105, qty = 20, symbol_id = 42, type_tag = 0\<rparr> 100000 0) = 216126000"
    by (simp add: inline_loop_sum ProcessInline_def)
  then show ?thesis
    using slab_run_inv [of batches]
    unfolding slab_inv_def slab_price_def match_value_def kSlabCapacity_def matched_def RunBattle3_def Let_def by auto
qed

theorem battle3_slab_witness:
  "cursor (slab_run 2) = 512 \<and> o_price (slab (slab_run 2) ! 65) = 1001 \<and> o_price (slab (slab_run 2) ! 512) = 0"
proof -
  have "65 < (2097152 :: nat)" "512 < (2097152 :: nat)" by simp_all
  then show ?thesis using battle3_slab [of 2] by simp
qed

end
