(* ===== verification/Measure.thy ===== *)
theory Measure
  imports Exec "HOL-Library.Multiset"
begin

text \<open>
  The data generators and the cache flush of \<open>common/measurement\<close> (\<open>entropy_generator.h\<close>,
  \<open>measurement_harness.h\<close>). The random distribution and \<open>std::shuffle\<close> are parameters; of the shuffle
  the code relies on its result being a permutation.
\<close>

section \<open>DatasetGenerator\<close>

text \<open>\<open>draw seed i\<close> is the draw number \<open>i\<close> of the distribution over the generator seeded with \<open>seed\<close>.\<close>

definition GenerateUniformRandom :: "(u32 \<Rightarrow> nat \<Rightarrow> 32 word) \<Rightarrow> nat \<Rightarrow> u32 \<Rightarrow> 32 word list" where
  "GenerateUniformRandom draw cnt seed = fold (\<lambda>i data. data[i := draw seed i]) [0..<cnt] (replicate cnt 0)"

definition GenerateSorted :: "(u32 \<Rightarrow> nat \<Rightarrow> 32 word) \<Rightarrow> nat \<Rightarrow> u32 \<Rightarrow> 32 word list" where
  "GenerateSorted draw cnt seed = sort_key sint (GenerateUniformRandom draw cnt seed)"

definition GeneratePointerChaseRing :: "(u32 list \<Rightarrow> u32 list) \<Rightarrow> nat \<Rightarrow> bool \<Rightarrow> u32 list" where
  "GeneratePointerChaseRing shuffle size_bytes randomized =
     (let num_elements = size_bytes div 4;
          num_elements = (if num_elements < 2 then 2 else num_elements);
          indices = map of_nat [0..<num_elements];
          indices = (if randomized then take 1 indices @ shuffle (drop 1 indices) else indices);
          next_ptrs = fold (\<lambda>i next_ptrs. next_ptrs[unat (indices ! i) := indices ! (i + 1)])
                        [0..<num_elements - 1] (replicate num_elements 0)
      in next_ptrs[unat (indices ! (num_elements - 1)) := indices ! 0])"

text \<open>A chase follows the pointers from element 0, as the benchmarks do.\<close>

definition chase :: "u32 list \<Rightarrow> nat \<Rightarrow> u32" where
  "chase ring k = ((\<lambda>p :: u32. ring ! unat p) ^^ k) 0"

section \<open>FlushCacheRange\<close>

text \<open>The addresses flushed, in order; each flushes the 64-byte line that holds it.\<close>

definition FlushCacheRange :: "nat \<Rightarrow> nat \<Rightarrow> nat list" where
  "FlushCacheRange ptr bytes = map (\<lambda>offset. ptr + offset) (stride 64 bytes)"

definition flushed :: "nat list \<Rightarrow> nat \<Rightarrow> bool" where
  "flushed addrs a \<longleftrightarrow> (\<exists>f \<in> set addrs. f div 64 = a div 64)"

section \<open>The ring is one cycle\<close>

lemma all_less_Suc: "(\<forall>i < Suc m. P i) \<longleftrightarrow> P m \<and> (\<forall>i < m. P i)"
  by (auto simp: less_Suc_eq)

lemma link_fold:
  assumes "distinct (map unat idx)" and "\<And>i. i < length idx \<Longrightarrow> unat (idx ! i) < length b" and "m < length idx"
  shows "(\<forall>i < m. fold (\<lambda>i b. b[unat (idx ! i) := idx ! (i + 1)]) [0..<m] b ! unat (idx ! i) = idx ! (i + 1))
    \<and> length (fold (\<lambda>i b. b[unat (idx ! i) := idx ! (i + 1)]) [0..<m] b) = length b"
  using assms(3)
proof (induction m)
  case (Suc m)
  have "unat (idx ! m) \<noteq> unat (idx ! i)" if "i < m" for i
    using assms(1) that Suc.prems by (auto simp: distinct_conv_nth)
  then show ?case using Suc assms(2) [of m] by (simp add: all_less_Suc)
qed simp

lemma chase_ring:
  assumes idx: "distinct (map unat idx)" "set (map unat idx) = {..<length idx}" "idx ! 0 = 0" "2 \<le> length idx"
    and ring: "ring = (fold (\<lambda>i b. b[unat (idx ! i) := idx ! (i + 1)]) [0..<length idx - 1] (replicate (length idx) 0))
      [unat (idx ! (length idx - 1)) := idx ! 0]"
  shows "k < length idx \<Longrightarrow> chase ring k = idx ! k" and "chase ring (length idx) = 0" and "length ring = length idx"
proof -
  let ?n = "length idx" and ?b = "fold (\<lambda>i b. b[unat (idx ! i) := idx ! (i + 1)]) [0..<length idx - 1] (replicate (length idx) 0)"
  have bound: "unat (idx ! i) < ?n" if "i < ?n" for i using idx(2) that nth_mem [of i "map unat idx"] by simp
  have L: "\<And>i. i < ?n - 1 \<Longrightarrow> ?b ! unat (idx ! i) = idx ! (i + 1)" "length ?b = ?n"
    using link_fold [OF idx(1), of "replicate ?n 0" "?n - 1"] bound idx(4) by auto
  then show "length ring = ?n" by (simp add: ring)
  have follow: "ring ! unat (idx ! i) = (if i = ?n - 1 then 0 else idx ! (i + 1))" if i: "i < ?n" for i
  proof (cases "i = ?n - 1")
    case True
    then show ?thesis using bound [OF i] L(2) idx(3) by (simp add: ring)
  next
    case False
    then have "unat (idx ! i) \<noteq> unat (idx ! (?n - 1))" using idx(1) i by (auto simp: distinct_conv_nth)
    then show ?thesis using False L(1) [of i] i by (simp add: ring)
  qed
  have steps: "chase ring k = idx ! k" if "k < ?n" for k
    using that
  proof (induction k)
    case (Suc k)
    moreover have "k \<noteq> ?n - 1" using Suc.prems by linarith
    ultimately show ?case using follow [of k] by (simp add: chase_def)
  qed (simp add: chase_def idx(3))
  then show "k < ?n \<Longrightarrow> chase ring k = idx ! k" .
  have "chase ring (Suc (?n - 1)) = 0" using steps [of "?n - 1"] follow [of "?n - 1"] idx(4) by (simp add: chase_def)
  moreover have "Suc (?n - 1) = ?n" using idx(4) by linarith
  ultimately show "chase ring ?n = 0" by (simp only:)
qed

lemma iota_unat: "n \<le> 2 ^ 32 \<Longrightarrow> map unat (map of_nat [0..<n] :: u32 list) = [0..<n]"
  by (intro nth_equalityI) (simp_all add: unat_of_nat)

text \<open>Sorting keeps the draws, and so their range.\<close>

lemma GenerateUniformRandom_draws: "GenerateUniformRandom draw cnt seed = map (draw seed) [0..<cnt]"
  by (simp add: GenerateUniformRandom_def fold_update_all)

lemma GenerateSorted_sorted:
  "sorted (map sint (GenerateSorted draw cnt seed)) \<and> mset (GenerateSorted draw cnt seed) = mset (map (draw seed) [0..<cnt])"
  by (simp add: GenerateSorted_def GenerateUniformRandom_draws)

section \<open>Properties\<close>

text \<open>
  The chase visits everything once. For every buffer size whose indices the \<open>int\<close> of \<open>std::iota\<close>
  can count and every permutation the shuffle picks, the ring has one element per index, at least two; following it from
  element 0 meets every element exactly once before it returns to 0: it is a single cycle, and no
  shorter one hides in it.
\<close>

theorem GeneratePointerChaseRing_cycle:
  fixes size_bytes :: nat and randomized :: bool
  assumes "size_bytes div 4 \<le> 2 ^ 31" and perm: "\<And>xs. mset (shuffle xs) = mset xs"
  defines "ring \<equiv> GeneratePointerChaseRing shuffle size_bytes randomized" and "n \<equiv> max 2 (size_bytes div 4)"
  shows "length ring = n \<and> bij_betw (\<lambda>k. unat (chase ring k)) {..<n} {..<n} \<and> chase ring n = 0"
proof -
  let ?iota = "map of_nat [0..<n] :: u32 list"
  define idx where "idx = (if randomized then take 1 ?iota @ shuffle (drop 1 ?iota) else ?iota)"
  have n: "2 \<le> n" "n \<le> 2 ^ 32" using assms(1) by (simp_all add: n_def)
  have ms: "mset idx = mset ?iota"
  proof -
    have "mset (take 1 ?iota @ shuffle (drop 1 ?iota)) = mset (take 1 ?iota @ drop 1 ?iota)" by (simp only: mset_append perm)
    then show ?thesis unfolding idx_def append_take_drop_id by simp
  qed
  then have len: "length idx = n" by (metis length_map length_upt minus_nat.diff_0 size_mset)
  have "mset (map unat idx) = mset [0..<n]" using ms iota_unat [OF n(2)] by (metis mset_map)
  then have d: "distinct (map unat idx)" "set (map unat idx) = {..<n}"
    by (metis distinct_upt mset_eq_imp_distinct_iff) (metis \<open>mset (map unat idx) = mset [0..<n]\<close> mset_eq_setD set_upt atLeast0LessThan)
  have first: "idx ! 0 = 0" using n by (simp add: idx_def nth_append)
  have num: "(if size_bytes div 4 < 2 then 2 else size_bytes div 4) = n" by (simp add: n_def)
  have ring: "ring = (fold (\<lambda>i b. b[unat (idx ! i) := idx ! (i + 1)]) [0..<length idx - 1] (replicate (length idx) 0))
      [unat (idx ! (length idx - 1)) := idx ! 0]"
    unfolding ring_def GeneratePointerChaseRing_def Let_def num idx_def [symmetric] len ..
  note R = chase_ring [OF d(1) _ first _ ring, unfolded len, OF d(2) n(1)]
  have "bij_betw ((!) (map unat idx)) {..<n} {..<n}" 
    by (rule bij_betw_nth [OF d(1)]) (simp_all only: length_map len d(2))
  moreover have "bij_betw (\<lambda>k. unat (chase ring k)) {..<n} {..<n} = bij_betw ((!) (map unat idx)) {..<n} {..<n}"
    by (rule bij_betw_cong) (simp add: R(1) len)
  ultimately have "bij_betw (\<lambda>k. unat (chase ring k)) {..<n} {..<n}" by blast
  then show ?thesis using R(2,3) by simp
qed

theorem GeneratePointerChaseRing_cycle_witness:
  "bij_betw (\<lambda>k. unat (chase (GeneratePointerChaseRing rev 16 True) k)) {..<4} {..<4}
   \<and> GeneratePointerChaseRing rev 16 True = [3, 0, 1, 2]"
proof -
  have "16 div 4 \<le> (2 ^ 31 :: nat)" by simp
  moreover have "mset (rev xs) = mset xs" for xs :: "u32 list" by simp
  moreover have "max 2 (16 div 4) = (4 :: nat)" by simp
  moreover have "GeneratePointerChaseRing rev 16 True = [3, 0, 1, 2]" by code_simp
  ultimately show ?thesis using GeneratePointerChaseRing_cycle [of 16 rev True] by simp
qed

text \<open>
  What the flush reaches. \<open>FlushCacheRange\<close> flushes every line of a buffer exactly when the buffer
  does not end in a line past its last multiple of 64 bytes: always when it starts on a line, but a
  buffer that starts inside a line can keep its last line in the cache.
\<close>

lemma FlushCacheRange_covers:
  "(\<forall>a. ptr \<le> a \<and> a < ptr + bytes \<longrightarrow> flushed (FlushCacheRange ptr bytes) a)
   \<longleftrightarrow> bytes = 0 \<or> ptr mod 64 + bytes \<le> 64 * ((bytes + 63) div 64)"
proof -
  have lines: "flushed (FlushCacheRange ptr bytes) a \<longleftrightarrow> (\<exists>j < (bytes + 63) div 64. ptr div 64 + j = a div 64)" for a
    by (simp add: flushed_def FlushCacheRange_def stride_def add.commute Bex_def)
  let ?n = "(bytes + 63) div 64"
  have reach: "flushed (FlushCacheRange ptr bytes) a \<longleftrightarrow> a div 64 < ptr div 64 + ?n" if "ptr \<le> a" for a
  proof -
    have "ptr div 64 \<le> a div 64" using that by (rule div_le_mono)
    then have "a div 64 = ptr div 64 + (a div 64 - ptr div 64)" by simp
    then show ?thesis unfolding lines by (metis nat_add_left_cancel_less)
  qed
  show ?thesis
  proof (cases "bytes = 0")
    case False
    let ?last = "ptr + bytes - 1"
    have "(\<forall>a. ptr \<le> a \<and> a < ptr + bytes \<longrightarrow> flushed (FlushCacheRange ptr bytes) a) \<longleftrightarrow> ?last div 64 < ptr div 64 + ?n"
    proof
      assume "\<forall>a. ptr \<le> a \<and> a < ptr + bytes \<longrightarrow> flushed (FlushCacheRange ptr bytes) a"
      then show "?last div 64 < ptr div 64 + ?n" using reach [of ?last] False by simp
    next
      assume r: "?last div 64 < ptr div 64 + ?n"
      have "a div 64 \<le> ?last div 64" if "a < ptr + bytes" for a using that by (intro div_le_mono) simp
      then show "\<forall>a. ptr \<le> a \<and> a < ptr + bytes \<longrightarrow> flushed (FlushCacheRange ptr bytes) a"
        using r reach by (metis le_less_trans)
    qed
    also have "\<dots> \<longleftrightarrow> ptr mod 64 + bytes \<le> 64 * ?n"
    proof -
      have "?last div 64 < ptr div 64 + ?n \<longleftrightarrow> ?last < (ptr div 64 + ?n) * 64"
        by (simp add: div_less_iff_less_mult)
      also have "\<dots> \<longleftrightarrow> 64 * (ptr div 64) + ptr mod 64 + bytes \<le> 64 * (ptr div 64) + 64 * ?n"
        unfolding mult_div_mod_eq using False by (simp add: algebra_simps) linarith
      finally show ?thesis unfolding add.assoc add_le_cancel_left .
    qed
    finally show ?thesis using False by simp
  qed auto
qed

lemma FlushCacheRange_example:
  "flushed (FlushCacheRange 128 100) 227 \<and> \<not> flushed (FlushCacheRange 60 8) 67"
proof -
  have "flushed (FlushCacheRange 128 100) 227" using FlushCacheRange_covers [of 128 100] by simp
  moreover have "\<not> flushed (FlushCacheRange 60 8) 67" by (simp add: flushed_def FlushCacheRange_def stride_def)
  ultimately show ?thesis ..
qed

end
