(* ===== verification/Mmu.thy ===== *)
theory Mmu
  imports Fp
begin

unbundle bit_operations_syntax

text \<open>
  The arenas of \<open>common/syscalls_traps_and_mmu\<close>: page touching, the prefaulted pool, the order book
  arena and the lookup test of its challenge. Addresses and sizes are 64-bit words, so what wraps wraps.
  The kernel is a parameter: \<open>os_mmap len\<close> is the address it maps \<open>len\<close> bytes at, or \<open>None\<close> when it
  refuses. Anonymous memory starts as zeros. \<open>madvise\<close> and \<open>mlock\<close> do not change contents.
\<close>

definition kPageSize4KiB :: u64 where "kPageSize4KiB = 4096"
definition kHugePageSize2MiB :: u64 where "kHugePageSize2MiB = 2 * 1024 * 1024"
definition kPagesPer2MiB :: u64 where "kPagesPer2MiB = kHugePageSize2MiB div kPageSize4KiB"

text \<open>\<open>(x + k - 1) & ~(k - 1)\<close>, and what a failed \<open>mmap\<close> returns.\<close>

definition round_up :: "u64 \<Rightarrow> u64 \<Rightarrow> u64" where
  "round_up k x = (x + k - 1) AND NOT (k - 1)"

definition MAP_FAILED :: u64 where "MAP_FAILED = - 1"

type_synonym mappings = "(u64 \<times> u64) list"

definition mmap :: "(u64 \<Rightarrow> u64 option) \<Rightarrow> u64 \<Rightarrow> mappings \<Rightarrow> u64 \<times> mappings" where
  "mmap os_mmap len maps = (case os_mmap len of None \<Rightarrow> (MAP_FAILED, maps) | Some a \<Rightarrow> (a, (a, len) # maps))"

definition munmap :: "u64 \<Rightarrow> u64 \<Rightarrow> mappings \<Rightarrow> mappings" where
  "munmap a len maps = remove1 (a, len) maps"

section \<open>TouchPages4KiB\<close>

definition TouchPages4KiB :: "u8 list \<Rightarrow> nat \<Rightarrow> u8 \<Rightarrow> u8 list" where
  "TouchPages4KiB buf num_pages v =
     fold (\<lambda>p buf. let cl_offset = (p AND 63) * 64 in buf[p * 4096 + cl_offset := v]) [0..<num_pages] buf"

section \<open>PrefaultedArenaPool\<close>

record arena_pool =
  pool_size :: u64
  pool_arena :: "u64 option"
  pool_bytes :: "u8 list"

definition PrefaultedArenaPool :: "(u64 \<Rightarrow> u64 option) \<Rightarrow> u64 \<Rightarrow> mappings \<Rightarrow> arena_pool \<times> mappings" where
  "PrefaultedArenaPool os_mmap bytes maps =
     (let sz = round_up kPageSize4KiB bytes; (p, maps) = mmap os_mmap sz maps
      in if p \<noteq> MAP_FAILED
         then (\<lparr>pool_size = sz, pool_arena = Some p, pool_bytes = replicate (unat sz) 1\<rparr>, maps)
         else (\<lparr>pool_size = sz, pool_arena = None, pool_bytes = []\<rparr>, maps))"

definition delete_pool :: "arena_pool \<Rightarrow> mappings \<Rightarrow> mappings" where
  "delete_pool pool maps = (case pool_arena pool of None \<Rightarrow> maps | Some a \<Rightarrow> munmap a (pool_size pool) maps)"

definition Acquire :: "arena_pool \<Rightarrow> u64 option" where
  "Acquire pool = pool_arena pool"

section \<open>OrderBookArena\<close>

record order_level_slot =
  next_slot_index :: u64
  price_ticks :: u64
  quantity_lots :: u64
  order_count :: u64
  timestamp_ns :: u64
  instrument_id :: u64
  venue_tag :: u64
  slot_checksum :: u64

record order_book_arena =
  raw_base :: u64
  raw_len :: u64
  arena_bytes :: u64
  slots_at :: u64
  slots :: "order_level_slot list"
  random_indices :: "nat list"

definition init_slot :: "nat \<Rightarrow> order_level_slot" where
  "init_slot i =
     (let price = 10000 + of_nat (i AND 0xFFFF); lots = 100 + of_nat (i AND 0xFF)
      in \<lparr>next_slot_index = of_nat i, price_ticks = price, quantity_lots = lots, order_count = 1 + of_nat (i AND 7),
          timestamp_ns = of_nat (i * 10), instrument_id = of_nat (i AND 0x3FF), venue_tag = 0x4E415344,
          slot_checksum = price XOR lots\<rparr>)"

definition zero_slot :: order_level_slot where
  "zero_slot = \<lparr>next_slot_index = 0, price_ticks = 0, quantity_lots = 0, order_count = 0, timestamp_ns = 0,
                instrument_id = 0, venue_tag = 0, slot_checksum = 0\<rparr>"

text \<open>\<open>page_dist a b i\<close> is draw number \<open>i\<close> from the uniform distribution over \<open>[a, b]\<close>.\<close>

definition OrderBookArena ::
  "(u64 \<Rightarrow> u64 option) \<Rightarrow> (u64 \<Rightarrow> u64 \<Rightarrow> nat \<Rightarrow> u64) \<Rightarrow> u64 \<Rightarrow> nat \<Rightarrow> mappings \<Rightarrow> order_book_arena \<times> mappings" where
  "OrderBookArena os_mmap page_dist total_bytes num_random_indices maps =
     (let total = round_up kHugePageSize2MiB total_bytes;
          alloc_len = total + kHugePageSize2MiB;
          (raw, maps) = mmap os_mmap alloc_len maps;
          aligned_addr = round_up kHugePageSize2MiB raw;
          num_slots = unat (total div 64);
          slots = fold (\<lambda>i slots. slots[i := init_slot i]) [0..<num_slots] (replicate num_slots zero_slot);
          num_pages = total div kPageSize4KiB;
          indices = fold (\<lambda>i ix. let p = page_dist 0 (num_pages - 1) i; cl_in_page = p AND 63
                                 in ix[i := unat (p * 64 + cl_in_page)])
                      [0..<num_random_indices] (replicate num_random_indices 0)
      in (\<lparr>raw_base = raw, raw_len = alloc_len, arena_bytes = total, slots_at = aligned_addr, slots = slots,
           random_indices = indices\<rparr>, maps))"

definition delete_arena :: "order_book_arena \<Rightarrow> mappings \<Rightarrow> mappings" where
  "delete_arena b maps =
     (if raw_base b \<noteq> 0 \<and> raw_base b \<noteq> MAP_FAILED then munmap (raw_base b) (raw_len b) maps else maps)"

section \<open>RunTlbLookupTest\<close>

record lookup_node =
  node_key :: u64
  node_value :: "64 word"

definition lookup_table :: "nat \<Rightarrow> lookup_node list" where
  "lookup_table num_nodes =
     fold (\<lambda>i table. table[i := \<lparr>node_key = of_nat i, node_value = of_nat (i * 3 + 1)\<rparr>]) [0..<num_nodes]
       (replicate num_nodes \<lparr>node_key = 0, node_value = 0\<rparr>)"

text \<open>The lookups; a read outside the table or the ring of probes has no value.\<close>

fun lookups :: "lookup_node list \<Rightarrow> u32 list \<Rightarrow> nat list \<Rightarrow> 64 word \<Rightarrow> (64 word) option" where
  "lookups table probes [] acc = Some acc"
| "lookups table probes (i # is) acc =
     (let j = unat ((of_nat i + (acc AND 0xFF)) AND (1048576 - 1 :: u64)) in
      if j < length probes \<and> unat (probes ! j) < length table
      then lookups table probes is (acc + node_value (table ! unat (probes ! j)))
      else None)"

definition RunTlbLookupTest :: "(nat \<Rightarrow> nat \<Rightarrow> nat \<Rightarrow> nat) \<Rightarrow> nat \<Rightarrow> nat \<Rightarrow> (64 word) option" where
  "RunTlbLookupTest draw table_bytes num_lookups =
     (let num_nodes = table_bytes div 64; kRing = 1048576;
          probes = fold (\<lambda>i probes. probes[i := of_nat (draw 0 (num_nodes - 1) i)]) [0..<kRing] (replicate kRing 0)
      in lookups (lookup_table num_nodes) probes [0..<num_lookups] 0)"

section \<open>Thread ids and clocks\<close>

text \<open>The \<open>thread_local\<close> of each thread, and the number of system calls made.\<close>

definition RawSyscallGettid :: "(tid \<Rightarrow> nat) \<Rightarrow> tid \<Rightarrow> nat \<Rightarrow> nat \<times> nat" where
  "RawSyscallGettid os_gettid t calls = (os_gettid t, Suc calls)"

definition CachedThreadId :: "(tid \<Rightarrow> nat) \<Rightarrow> tid \<Rightarrow> (tid \<Rightarrow> nat option) \<times> nat \<Rightarrow> nat \<times> (tid \<Rightarrow> nat option) \<times> nat" where
  "CachedThreadId os_gettid t s =
     (let (cached, calls) = s in
      case cached t of
        Some i \<Rightarrow> (i, cached, calls)
      | None \<Rightarrow> let (i, calls) = RawSyscallGettid os_gettid t calls in (i, cached(t \<mapsto> i), calls))"

definition now_ns :: "u64 \<times> u64 \<Rightarrow> u64" where
  "now_ns ts = fst ts * 1000000000 + snd ts"

section \<open>Rounding\<close>

lemma unat_round_up:
  assumes "n < 64" and "unat x + 2 ^ n \<le> 2 ^ 64"
  shows "unat (round_up (2 ^ n) x) = (unat x + 2 ^ n - 1) div 2 ^ n * 2 ^ n"
proof -
  have "unat (2 ^ n - 1 :: u64) = 2 ^ n - 1" using assms(1) by (simp add: unat_sub_if' unat_exp_u64)
  moreover have "(1 :: nat) \<le> 2 ^ n" by simp
  ultimately have "unat (x + (2 ^ n - 1)) = unat x + (2 ^ n - 1)"
    using assms(2) by (subst unat_add_u64) simp_all
  then have "unat (x + 2 ^ n - 1) = unat x + 2 ^ n - 1" by (simp add: algebra_simps)
  then show ?thesis using unat_and_not_mask [of "x + 2 ^ n - 1" n] by (simp add: round_up_def mask_eq_exp_minus_1)
qed

lemma round_up_facts:
  fixes x k :: nat
  assumes "0 < k"
  shows "k dvd (x + k - 1) div k * k" and "x \<le> (x + k - 1) div k * k" and "(x + k - 1) div k * k < x + k"
proof -
  have m: "(x + k - 1) div k * k + (x + k - 1) mod k = x + k - 1" by (rule div_mult_mod_eq)
  moreover have "(x + k - 1) mod k < k" using assms by simp
  ultimately show "x \<le> (x + k - 1) div k * k" "(x + k - 1) div k * k < x + k" using assms by linarith+
qed simp

lemma huge_is: "kHugePageSize2MiB = 2 ^ 21" "unat kHugePageSize2MiB = 2 ^ 21" "kPageSize4KiB = 2 ^ 12" "unat kPageSize4KiB = 2 ^ 12"
  by (simp_all add: kHugePageSize2MiB_def kPageSize4KiB_def)

lemma round_up_word:
  assumes "n < 64" and "unat x + 2 ^ n \<le> 2 ^ 64"
  shows "2 ^ n dvd unat (round_up (2 ^ n) x)" and "unat x \<le> unat (round_up (2 ^ n) x)"
    and "unat (round_up (2 ^ n) x) < unat x + 2 ^ n"
  unfolding unat_round_up [OF assms] by (rule round_up_facts, simp)+

lemmas huge_round = round_up_word [of 21, folded huge_is(1)]

text \<open>The pool rounds up to whole pages and gives back what it mapped.\<close>

lemma PrefaultedArenaPool_size:
  assumes "unat bytes + 2 ^ 12 \<le> 2 ^ 64" and "\<And>len. os_mmap len \<noteq> Some MAP_FAILED"
  shows "let (pool, maps') = PrefaultedArenaPool os_mmap bytes maps in
    2 ^ 12 dvd unat (pool_size pool) \<and> unat bytes \<le> unat (pool_size pool) \<and> unat (pool_size pool) < unat bytes + 2 ^ 12
    \<and> (\<forall>a. Acquire pool = Some a \<longrightarrow> pool_bytes pool = replicate (unat (pool_size pool)) 1) \<and> delete_pool pool maps' = maps"
proof -
  have "2 ^ 12 dvd unat (round_up kPageSize4KiB bytes) \<and> unat bytes \<le> unat (round_up kPageSize4KiB bytes)
      \<and> unat (round_up kPageSize4KiB bytes) < unat bytes + 2 ^ 12"
    unfolding huge_is using round_up_word [OF _ assms(1)] by simp
  then show ?thesis
    using assms(2) by (auto simp: PrefaultedArenaPool_def Acquire_def delete_pool_def munmap_def mmap_def Let_def
        split: option.splits)
qed

section \<open>The order book arena\<close>

lemma arena_slots: "fold (\<lambda>i slots. slots[i := init_slot i]) [0..<n] (replicate n zero_slot) = map init_slot [0..<n]"
  by (simp add: fold_update_all)

lemma word_and_63: "unat (p AND 63 :: u64) = unat p mod 64"
  using mask_is_mod [of 64 p] by (simp add: pow2_assert_def)

lemma page_index:
  assumes "unat p < pages" and "pages * 4096 \<le> 2 ^ 63"
  shows "unat (p * 64 + (p AND 63) :: u64) = unat p * 64 + unat p mod 64"
proof -
  have "unat p * 64 < 2 ^ 63" using assms by linarith
  then have "unat (p * 64) = unat p * 64" using unat_mult_lem [of p 64] by simp
  then show ?thesis using word_and_63 [of p] \<open>unat p * 64 < 2 ^ 63\<close> by (subst unat_add_u64) simp_all
qed

text \<open>Without a check of \<open>mmap\<close> a refused mapping makes the constructor write from address 0.\<close>

lemma OrderBookArena_unchecked:
  assumes "\<And>len. os_mmap len = None"
  shows "slots_at (fst (OrderBookArena os_mmap page_dist total_bytes n maps)) = 0"
  by (simp add: OrderBookArena_def mmap_def assms Let_def MAP_FAILED_def round_up_def kHugePageSize2MiB_def)

text \<open>For zero bytes the draws come from the whole range of \<open>size_t\<close>.\<close>

lemma OrderBookArena_zero:
  "slots (fst (OrderBookArena os_mmap page_dist 0 1 maps)) = []
   \<and> random_indices (fst (OrderBookArena os_mmap page_dist 0 1 maps))
     = [unat (page_dist 0 (- 1) 0 * 64 + (page_dist 0 (- 1) 0 AND 63))]"
  by (simp add: OrderBookArena_def Let_def split_beta round_up_def kHugePageSize2MiB_def kPageSize4KiB_def)

text \<open>Each page gets its byte at the cache line that its number picks, and nothing else changes.\<close>

lemma nat_and_63: "p AND 63 = p mod (64 :: nat)"
  using take_bit_eq_mask [of 6 p] by (simp add: mask_eq_exp_minus_1 take_bit_eq_mod)

lemma TouchPages4KiB_bytes:
  assumes "num_pages * 4096 \<le> length buf" and "j < length buf"
  shows "TouchPages4KiB buf num_pages v ! j
    = (if j div 4096 < num_pages \<and> j mod 4096 = (j div 4096) mod 64 * 64 then v else buf ! j)"
  using assms(1)
proof (induction num_pages)
  case (Suc m)
  have len: "length (TouchPages4KiB buf m v) = length buf"
    by (simp add: TouchPages4KiB_def Let_def fold_update_length)
  have step: "TouchPages4KiB buf (Suc m) v = (TouchPages4KiB buf m v)[m * 4096 + m mod 64 * 64 := v]"
    by (simp add: TouchPages4KiB_def Let_def nat_and_63)
  have low: "m mod 64 * 64 < 4096" using mod_less_divisor [of 64 m] by linarith
  then have "m * 4096 + m mod 64 * 64 = j \<longleftrightarrow> j div 4096 = m \<and> j mod 4096 = m mod 64 * 64"
  proof -
    have "(m * 4096 + m mod 64 * 64) div 4096 = m" "(m * 4096 + m mod 64 * 64) mod 4096 = m mod 64 * 64" using low by simp_all
    then show ?thesis using div_mult_mod_eq [of j 4096] by metis
  qed
  then show ?case using Suc len assms(2) step by (auto simp: nth_list_update less_Suc_eq)
qed (simp add: TouchPages4KiB_def)

text \<open>The lookup test reads only inside its table and its probes.\<close>

lemma lookups_in_bounds:
  assumes "length probes = 1048576" and "\<And>p. p \<in> set probes \<Longrightarrow> unat p < length table"
  shows "\<exists>acc'. lookups table probes is acc = Some acc'"
proof (induction "is" arbitrary: acc)
  case (Cons i "is")
  have "unat (x AND (1048576 - 1)) < 1048576" for x :: u64
    using mask_is_mod [of 1048576 x] by (simp add: pow2_assert_def)
  then show ?case using Cons assms by (simp add: Let_def del: diff_numeral_simps)
qed simp

lemma RunTlbLookupTest_in_bounds:
  assumes "64 \<le> table_bytes" and "table_bytes \<le> 2 ^ 38" and "\<And>a b i. a \<le> b \<Longrightarrow> a \<le> draw a b i \<and> draw a b i \<le> b"
  shows "\<exists>acc. RunTlbLookupTest draw table_bytes num_lookups = Some acc"
proof -
  let ?n = "table_bytes div 64"
  have n: "0 < ?n" "?n \<le> 2 ^ 32" using assms(1,2) div_le_mono [of table_bytes "2 ^ 38" 64] by (simp_all add: div_greater_zero_iff)
  have "draw 0 (?n - 1) i < ?n" for i using assms(3) [of 0 "?n - 1" i] n(1) by linarith
  then have "unat (of_nat (draw 0 (?n - 1) i) :: u32) < ?n" for i
    using le_less_trans [of _ "draw 0 (?n - 1) i" ?n] by (simp add: unat_of_nat)
  then show ?thesis unfolding RunTlbLookupTest_def Let_def
    by (intro lookups_in_bounds) (auto simp: fold_update_all fold_update_length lookup_table_def)
qed

text \<open>A thread asks the kernel for its id once.\<close>

lemma CachedThreadId_once:
  assumes "CachedThreadId os_gettid t (cached, calls) = (i, cached', calls')" and "\<forall>j. cached t = Some j \<longrightarrow> j = os_gettid t"
  shows "i = os_gettid t \<and> CachedThreadId os_gettid t (cached', calls') = (i, cached', calls')"
  using assms by (auto simp: CachedThreadId_def RawSyscallGettid_def split: option.splits)

section \<open>Properties\<close>

text \<open>
  The arena lies inside its mapping and the lookups inside the arena. When \<open>mmap\<close> succeeds and the
  size is neither zero nor near the end of the address space, the arena is the size rounded up to 2 MiB,
  starts at a multiple of 2 MiB, and ends before the mapping does; it is divided into slots without rest,
  each initialised; every precomputed index is a slot, at the cache line of its page that the page
  number picks; and the destructor gives the mapping back.
\<close>

theorem OrderBookArena_layout:
  fixes total_bytes :: u64
  assumes size: "total_bytes \<noteq> 0" "unat total_bytes \<le> 2 ^ 62"
    and mapped: "\<And>len. len \<noteq> 0 \<Longrightarrow> unat len \<le> 2 ^ 63 \<Longrightarrow> \<exists>a. os_mmap len = Some a \<and> a \<noteq> 0 \<and> unat a + unat len < 2 ^ 64"
    and draws: "\<And>a b i. a \<le> b \<Longrightarrow> a \<le> page_dist a b i \<and> page_dist a b i \<le> b"
    and run: "OrderBookArena os_mmap page_dist total_bytes n maps = (b, maps')"
  shows "unat total_bytes \<le> unat (arena_bytes b) \<and> unat (arena_bytes b) < unat total_bytes + 2 ^ 21
    \<and> 2 ^ 21 dvd unat (slots_at b) \<and> raw_base b \<le> slots_at b
    \<and> unat (slots_at b) + unat (arena_bytes b) \<le> unat (raw_base b) + unat (raw_len b)
    \<and> length (slots b) * 64 = unat (arena_bytes b) \<and> (\<forall>i < length (slots b). slots b ! i = init_slot i)
    \<and> length (random_indices b) = n
    \<and> (\<forall>j \<in> set (random_indices b). j < length (slots b) \<and> j mod 64 = (j div 64) mod 64)
    \<and> delete_arena b maps' = maps"
proof -
  define T where "T = round_up kHugePageSize2MiB total_bytes"
  have T: "2 ^ 21 dvd unat T" "unat total_bytes \<le> unat T" "unat T < unat total_bytes + 2 ^ 21"
    using huge_round [of total_bytes] size(2) unfolding T_def by simp_all
  have len: "unat (T + kHugePageSize2MiB) = unat T + 2 ^ 21"
    using T(3) size(2) unat_add_u64 [of T kHugePageSize2MiB] by (simp add: huge_is)
  then have "T + kHugePageSize2MiB \<noteq> 0" by (metis add_is_0 power_not_zero unsigned_0 zero_neq_numeral)
  then obtain raw where raw: "os_mmap (T + kHugePageSize2MiB) = Some raw" "raw \<noteq> 0" "unat raw + (unat T + 2 ^ 21) < 2 ^ 64"
    using mapped [of "T + kHugePageSize2MiB"] len T(3) size(2) by auto
  have A: "2 ^ 21 dvd unat (round_up kHugePageSize2MiB raw)" "unat raw \<le> unat (round_up kHugePageSize2MiB raw)"
    "unat (round_up kHugePageSize2MiB raw) < unat raw + 2 ^ 21"
    using huge_round [of raw] raw(3) by simp_all
  have pages: "unat (T div kPageSize4KiB) = unat T div 4096" "unat (T div 64) = unat T div 64"
    by (simp_all add: unat_div huge_is)
  obtain c where c: "unat T = 2097152 * c" using T(1) by (auto simp: dvd_def)
  have c0: "0 < c" using c T(2) size(1) by (cases c) (auto simp: unat_eq_0)
  have "T div kPageSize4KiB \<noteq> 0" using pages(1) c c0 by (auto simp: unat_eq_0)
  then have last: "unat (T div kPageSize4KiB - 1) = unat T div 4096 - 1" using pages(1) by (simp add: unat_minus_one)
  let ?ix = "\<lambda>i. let p = page_dist 0 (T div kPageSize4KiB - 1) i; cl = p AND 63 in unat (p * 64 + cl)"
  have ix: "?ix i < unat T div 64 \<and> ?ix i mod 64 = (?ix i div 64) mod 64" for i
  proof -
    let ?p = "page_dist 0 (T div kPageSize4KiB - 1) i"
    have "?p \<le> T div kPageSize4KiB - 1" using draws by simp
    then have p: "unat ?p < 512 * c" using last c c0 by (simp add: word_le_nat_alt)
    have "unat (?p * 64 + (?p AND 63)) = unat ?p * 64 + unat ?p mod 64"
      using p T(3) size(2) c by (intro page_index [of _ "512 * c"]) simp_all
    moreover have "unat ?p mod 64 < 64" by simp
    ultimately show ?thesis using p c by (simp add: Let_def)
  qed
  have b: "b = \<lparr>raw_base = raw, raw_len = T + kHugePageSize2MiB, arena_bytes = T, slots_at = round_up kHugePageSize2MiB raw,
      slots = map init_slot [0..<unat T div 64], random_indices = map ?ix [0..<n]\<rparr>"
    and m: "maps' = (raw, T + kHugePageSize2MiB) # maps"
    using run raw(1) by (simp_all add: OrderBookArena_def mmap_def Let_def T_def [symmetric] pages(2) arena_slots fold_update_all)
  have "raw \<noteq> MAP_FAILED" 
  proof
    assume "raw = MAP_FAILED"
    moreover have "unat (- 1 :: u64) = 2 ^ 64 - 1" by (simp add: unsigned_minus_1_eq_mask mask_eq_exp_minus_1)
    ultimately show False using raw(3) by (simp add: MAP_FAILED_def)
  qed
  then have "delete_arena b maps' = maps" using raw(2) by (simp add: b m delete_arena_def munmap_def)
  moreover have "length (slots b) * 64 = unat (arena_bytes b)" using c by (simp add: b)
  moreover have "raw_base b \<le> slots_at b" using A(2) by (simp add: b word_le_nat_alt)
  ultimately show ?thesis using T A len ix by (simp add: b)
qed

theorem OrderBookArena_layout_witness:
  "\<exists>b maps'. OrderBookArena (\<lambda>_. Some 0x7000) (\<lambda>a b i. b) 0x300000 2 [] = (b, maps')
     \<and> 2 ^ 21 dvd unat (slots_at b) \<and> length (random_indices b) = 2 \<and> delete_arena b maps' = []"
proof -
  obtain b maps' where run: "OrderBookArena (\<lambda>_. Some 0x7000) (\<lambda>a b i. b) 0x300000 2 [] = (b, maps')" by fastforce
  have "\<exists>a :: u64. Some 0x7000 = Some a \<and> a \<noteq> 0 \<and> unat a + unat len < 2 ^ 64" if "unat len \<le> 2 ^ 63" for len :: u64
    using that by simp
  then show ?thesis using OrderBookArena_layout [OF _ _ _ _ run] run by simp
qed

end
