(* ===== verification/Dispatch.thy ===== *)
theory Dispatch
  imports Fp "HOL-Library.Multiset"
begin

text \<open>
  Virtual classes against variants: \<open>common/dispatch/order_dispatcher.h\<close>, \<open>instrument_feed.h\<close>, and the
  data and the loops of \<open>dispatch_benchmark.cc\<close>. Prices are of any
  floating-point type; a quantity is converted to it, as the product of a \<open>double\<close> and a \<open>uint32_t\<close> does.
  The random draws are parameters.
\<close>

section \<open>Orders\<close>

text \<open>An object of a class derived from \<open>BaseOrder\<close>, and the variant of plain structs.\<close>

datatype 'f base_order = BuyLimitOrder u64 'f u32 | SellMarketOrder u64 u32 | CancelOrder u64

datatype 'f order_variant = BuyLimit u64 'f u32 | SellMarket u64 u32 | Cancel u64

fun Execute :: "'f fp \<Rightarrow> 'f \<Rightarrow> 'f base_order \<Rightarrow> 'f" where
  "Execute F current_price (BuyLimitOrder i limit_price quantity) =
     (if fle F current_price limit_price then fmul F limit_price (fnat F (unat quantity)) else fzero F)"
| "Execute F current_price (SellMarketOrder i quantity) = fmul F current_price (fnat F (unat quantity))"
| "Execute F current_price (CancelOrder i) = fzero F"

definition BuyLimit_Execute :: "'f fp \<Rightarrow> 'f \<Rightarrow> 'f \<Rightarrow> u32 \<Rightarrow> 'f" where
  "BuyLimit_Execute F current_price limit_price quantity =
     (if fle F current_price limit_price then fmul F limit_price (fnat F (unat quantity)) else fzero F)"

definition SellMarket_Execute :: "'f fp \<Rightarrow> 'f \<Rightarrow> u32 \<Rightarrow> 'f" where
  "SellMarket_Execute F current_price quantity = fmul F current_price (fnat F (unat quantity))"

fun ExecuteVariant :: "'f fp \<Rightarrow> 'f order_variant \<Rightarrow> 'f \<Rightarrow> 'f" where
  "ExecuteVariant F (BuyLimit i limit_price quantity) current_price = BuyLimit_Execute F current_price limit_price quantity"
| "ExecuteVariant F (SellMarket i quantity) current_price = SellMarket_Execute F current_price quantity"
| "ExecuteVariant F (Cancel i) current_price = fzero F"

definition DispatchOrder :: "'f fp \<Rightarrow> 'f order_variant \<Rightarrow> 'f \<Rightarrow> 'f" where
  "DispatchOrder F order current_price = ExecuteVariant F order current_price"

section \<open>Instruments\<close>

datatype 'f instrument = Stock u64 'f u32 | Bond u64 'f 'f | Option u64 'f 'f bool

datatype 'f instrument_variant = StockPOD u64 'f u32 | BondPOD u64 'f 'f | OptionPOD u64 'f 'f bool

fun Process :: "'f fp \<Rightarrow> 'f instrument \<Rightarrow> 'f" where
  "Process F (Stock i price volume) = fmul F price (fnat F (unat volume))"
| "Process F (Bond i face_value coupon_rate) = fmul F face_value (fadd F (fone F) coupon_rate)"
| "Process F (Option i strike premium is_call) = fadd F strike premium"

fun ProcessInstrument :: "'f fp \<Rightarrow> 'f instrument_variant \<Rightarrow> 'f" where
  "ProcessInstrument F (StockPOD i price volume) = fmul F price (fnat F (unat volume))"
| "ProcessInstrument F (BondPOD i face_value coupon_rate) = fmul F face_value (fadd F (fone F) coupon_rate)"
| "ProcessInstrument F (OptionPOD i strike premium is_call) = fadd F strike premium"

section \<open>The data of the benchmark\<close>

record 'f benchmark_data =
  oop_orders :: "'f base_order list"
  oop_orders_sorted :: "'f base_order list"
  dod_orders :: "'f order_variant list"
  dod_orders_sorted :: "'f order_variant list"
  oop_instruments :: "'f instrument list"
  dod_instruments :: "'f instrument_variant list"

definition kMarketPrice :: "'f fp \<Rightarrow> 'f" where
  "kMarketPrice F = flit F (15025 / 100)"

text \<open>One round of the first loop; the switch has no default.\<close>

definition push_order :: "nat \<Rightarrow> 'f \<Rightarrow> u32 \<Rightarrow> nat \<Rightarrow> 'f benchmark_data \<Rightarrow> 'f benchmark_data" where
  "push_order type limit qty i data =
     (let i = of_nat (i + 1) in
      if type = 0 then data\<lparr>oop_orders := oop_orders data @ [BuyLimitOrder i limit qty], dod_orders := dod_orders data @ [BuyLimit i limit qty]\<rparr>
      else if type = 1 then data\<lparr>oop_orders := oop_orders data @ [SellMarketOrder i qty], dod_orders := dod_orders data @ [SellMarket i qty]\<rparr>
      else if type = 2 then data\<lparr>oop_orders := oop_orders data @ [CancelOrder i], dod_orders := dod_orders data @ [Cancel i]\<rparr>
      else data)"

fun variant_index :: "'f order_variant \<Rightarrow> nat" where
  "variant_index (BuyLimit i p q) = 0"
| "variant_index (SellMarket i q) = 1"
| "variant_index (Cancel i) = 2"

fun rebuild_order :: "'f order_variant \<Rightarrow> 'f base_order" where
  "rebuild_order (BuyLimit i p q) = BuyLimitOrder i p q"
| "rebuild_order (SellMarket i q) = SellMarketOrder i q"
| "rebuild_order (Cancel i) = CancelOrder i"

definition push_instrument :: "'f fp \<Rightarrow> nat \<Rightarrow> nat \<Rightarrow> 'f benchmark_data \<Rightarrow> 'f benchmark_data" where
  "push_instrument F inst_type i data =
     (let i = of_nat (i + 1) in
      if inst_type = 0
      then data\<lparr>oop_instruments := oop_instruments data @ [Stock i (flit F (1825 / 10)) 200],
                dod_instruments := dod_instruments data @ [StockPOD i (flit F (1825 / 10)) 200]\<rparr>
      else if inst_type = 1
      then data\<lparr>oop_instruments := oop_instruments data @ [Bond i (flit F 1000) (flit F (48 / 1000))],
                dod_instruments := dod_instruments data @ [BondPOD i (flit F 1000) (flit F (48 / 1000))]\<rparr>
      else data\<lparr>oop_instruments := oop_instruments data @ [Option i (flit F 185) (flit F (38 / 10)) True],
                dod_instruments := dod_instruments data @ [OptionPOD i (flit F 185) (flit F (38 / 10)) True]\<rparr>)"

text \<open>
  The draws of the three distributions by number; the instruments go on with the types where the orders
  stopped. \<open>sort_key\<close> is stable, as \<open>std::stable_sort\<close> is.
\<close>

definition CreateBenchmarkData :: "'f fp \<Rightarrow> (nat \<Rightarrow> nat) \<Rightarrow> (nat \<Rightarrow> 'f) \<Rightarrow> (nat \<Rightarrow> u32) \<Rightarrow> nat \<Rightarrow> 'f benchmark_data" where
  "CreateBenchmarkData F type_dist price_dist qty_dist n =
     (let data = \<lparr>oop_orders = [], oop_orders_sorted = [], dod_orders = [], dod_orders_sorted = [],
                  oop_instruments = [], dod_instruments = []\<rparr>;
          data = fold (\<lambda>i. push_order (type_dist i) (price_dist i) (qty_dist i) i) [0..<n] data;
          data = data\<lparr>dod_orders_sorted := sort_key variant_index (dod_orders data)\<rparr>;
          data = fold (\<lambda>item data. data\<lparr>oop_orders_sorted := oop_orders_sorted data @ [rebuild_order item]\<rparr>)
                   (dod_orders_sorted data) data
      in fold (\<lambda>i. push_instrument F (type_dist (n + i)) i) [0..<n] data)"

section \<open>The timed loops\<close>

definition oop_total :: "'f fp \<Rightarrow> 'f base_order list \<Rightarrow> 'f" where
  "oop_total F orders = fold (\<lambda>order total_value. fadd F total_value (Execute F (kMarketPrice F) order)) orders (fzero F)"

definition variant_total :: "'f fp \<Rightarrow> 'f order_variant list \<Rightarrow> 'f" where
  "variant_total F orders = fold (\<lambda>order total_value. fadd F total_value (DispatchOrder F order (kMarketPrice F))) orders (fzero F)"

definition oop_feed_total :: "'f fp \<Rightarrow> 'f instrument list \<Rightarrow> 'f" where
  "oop_feed_total F instruments = fold (\<lambda>inst total_val. fadd F total_val (Process F inst)) instruments (fzero F)"

definition variant_feed_total :: "'f fp \<Rightarrow> 'f instrument_variant list \<Rightarrow> 'f" where
  "variant_feed_total F instruments = fold (\<lambda>inst total_val. fadd F total_val (ProcessInstrument F inst)) instruments (fzero F)"

section \<open>The challenge\<close>

text \<open>
  \<open>challenge.cc\<close>: payloads with a 16-byte symbol, and a visitor that takes them by value or by reference. A
  value parameter is a copy, which the visitor then reads.
\<close>

definition char_array16 :: "string \<Rightarrow> u8 list" where
  "char_array16 s = take 16 (map of_char s @ replicate 16 0)"

datatype 'f feed_variant = StockPayload u64 "u8 list" 'f u32 | BondPayload u64 "u8 list" 'f 'f
  | OptionPayload u64 "u8 list" 'f 'f bool

fun Process_payload :: "'f fp \<Rightarrow> 'f feed_variant \<Rightarrow> 'f" where
  "Process_payload F (StockPayload i symbol price volume) = fmul F price (fnat F (unat volume))"
| "Process_payload F (BondPayload i isin face_value coupon_rate) = fmul F face_value (fadd F (fone F) coupon_rate)"
| "Process_payload F (OptionPayload i underlying strike premium is_call) = fadd F strike premium"

definition CreateTestFeed :: "'f fp \<Rightarrow> (nat \<Rightarrow> nat) \<Rightarrow> nat \<Rightarrow> 'f feed_variant list" where
  "CreateTestFeed F type_dist n =
     fold (\<lambda>i feed. let type = type_dist i in
         if type = 0 then feed @ [StockPayload (of_nat (i + 1)) (char_array16 ''AAPL'') (flit F (18050 / 100)) 100]
         else if type = 1 then feed @ [BondPayload (of_nat (i + 1)) (char_array16 ''US10Y'') (flit F 1000) (flit F (45 / 1000))]
         else feed @ [OptionPayload (of_nat (i + 1)) (char_array16 ''AAPL240621C'') (flit F 185) (flit F (425 / 100)) True])
       [0..<n] []"

fun copy_payload :: "'f feed_variant \<Rightarrow> 'f feed_variant" where
  "copy_payload (StockPayload i symbol price volume) = StockPayload i (map (\<lambda>c. c) symbol) price volume"
| "copy_payload (BondPayload i isin face_value coupon_rate) = BondPayload i (map (\<lambda>c. c) isin) face_value coupon_rate"
| "copy_payload (OptionPayload i underlying strike premium is_call) = OptionPayload i (map (\<lambda>c. c) underlying) strike premium is_call"

definition AccidentalCopy_total :: "'f fp \<Rightarrow> 'f feed_variant list \<Rightarrow> 'f" where
  "AccidentalCopy_total F feed = fold (\<lambda>item t. fadd F t (Process_payload F (copy_payload item))) feed (fzero F)"

definition ConstRef_total :: "'f fp \<Rightarrow> 'f feed_variant list \<Rightarrow> 'f" where
  "ConstRef_total F feed = fold (\<lambda>item t. fadd F t (Process_payload F item)) feed (fzero F)"

section \<open>Lemmas\<close>

lemma dispatch_same: "DispatchOrder F v p = Execute F p (rebuild_order v)"
  by (cases v) (simp_all add: DispatchOrder_def BuyLimit_Execute_def SellMarket_Execute_def)

fun rebuild_instrument :: "'f instrument_variant \<Rightarrow> 'f instrument" where
  "rebuild_instrument (StockPOD i p v) = Stock i p v"
| "rebuild_instrument (BondPOD i f c) = Bond i f c"
| "rebuild_instrument (OptionPOD i s p c) = Option i s p c"

lemma process_same: "ProcessInstrument F v = Process F (rebuild_instrument v)"
  by (cases v) simp_all

lemma rebuilt_total: "oop_total F (map rebuild_order vs) = variant_total F vs"
  by (simp add: oop_total_def variant_total_def fold_map comp_def dispatch_same)

lemma rebuilt_feed_total: "oop_feed_total F (map rebuild_instrument vs) = variant_feed_total F vs"
  by (simp add: oop_feed_total_def variant_feed_total_def fold_map comp_def process_same)

definition orders_match :: "'f benchmark_data \<Rightarrow> bool" where
  "orders_match d \<longleftrightarrow> oop_orders d = map rebuild_order (dod_orders d)
     \<and> oop_instruments d = map rebuild_instrument (dod_instruments d)"

lemma push_order_match: "orders_match d \<Longrightarrow> orders_match (push_order ty p q i d)"
  by (simp add: orders_match_def push_order_def Let_def)

lemma push_instrument_match: "orders_match d \<Longrightarrow> orders_match (push_instrument F ty i d)"
  by (simp add: orders_match_def push_instrument_def Let_def)

lemma push_instrument_orders:
  "oop_orders (push_instrument F ty i d) = oop_orders d" "oop_orders_sorted (push_instrument F ty i d) = oop_orders_sorted d"
  "dod_orders (push_instrument F ty i d) = dod_orders d" "dod_orders_sorted (push_instrument F ty i d) = dod_orders_sorted d"
  by (simp_all add: push_instrument_def Let_def)

lemma fold_keeps: "(\<And>i d. P d \<Longrightarrow> P (f i d)) \<Longrightarrow> P d \<Longrightarrow> P (fold f is d)"
  by (induction "is" arbitrary: d) simp_all

lemma rebuild_loop:
  "fold (\<lambda>item data. data\<lparr>oop_orders_sorted := oop_orders_sorted data @ [rebuild_order item]\<rparr>) vs d
   = d\<lparr>oop_orders_sorted := oop_orders_sorted d @ map rebuild_order vs\<rparr>"
  by (induction vs arbitrary: d) simp_all

lemma push_order_sorted: "oop_orders_sorted (push_order ty p q i d) = oop_orders_sorted d"
  by (simp add: push_order_def Let_def)

lemma created:
  fixes F :: "'f fp" and type_dist :: "nat \<Rightarrow> nat" and price_dist :: "nat \<Rightarrow> 'f" and qty_dist :: "nat \<Rightarrow> u32" and n :: nat
  defines "d \<equiv> CreateBenchmarkData F type_dist price_dist qty_dist n"
  shows "orders_match d" and "dod_orders_sorted d = sort_key variant_index (dod_orders d)"
    and "oop_orders_sorted d = map rebuild_order (dod_orders_sorted d)"
proof -
  let ?empty = "\<lparr>oop_orders = [], oop_orders_sorted = [], dod_orders = [], dod_orders_sorted = [],
    oop_instruments = [], dod_instruments = []\<rparr> :: 'f benchmark_data"
  define d1 where "d1 = fold (\<lambda>i. push_order (type_dist i) (price_dist i) (qty_dist i) i) [0..<n] ?empty"
  define d2 where "d2 = d1\<lparr>dod_orders_sorted := sort_key variant_index (dod_orders d1),
    oop_orders_sorted := map rebuild_order (sort_key variant_index (dod_orders d1))\<rparr>"
  have m1: "orders_match d1" unfolding d1_def by (rule fold_keeps, erule push_order_match) (simp add: orders_match_def)
  have s1: "oop_orders_sorted d1 = []"
    unfolding d1_def by (rule fold_keeps [where P = "\<lambda>d. oop_orders_sorted d = []"]) (simp_all add: push_order_sorted)
  have d: "d = fold (\<lambda>i. push_instrument F (type_dist (n + i)) i) [0..<n] d2"
    by (simp add: d_def CreateBenchmarkData_def Let_def d1_def [symmetric] rebuild_loop s1 d2_def)
  have "orders_match d2" using m1 by (simp add: orders_match_def d2_def)
  then show "orders_match d" unfolding d by (rule fold_keeps [rotated]) (rule push_instrument_match)
  let ?P = "\<lambda>d. dod_orders_sorted d = sort_key variant_index (dod_orders d) \<and> oop_orders_sorted d = map rebuild_order (dod_orders_sorted d)"
  have "?P d" unfolding d by (rule fold_keeps) (simp_all add: push_instrument_orders d2_def)
  then show "dod_orders_sorted d = sort_key variant_index (dod_orders d)"
    "oop_orders_sorted d = map rebuild_order (dod_orders_sorted d)" by simp_all
qed

lemma exact_total: "variant_total exact vs = (\<Sum>v\<in>#mset vs. DispatchOrder exact v (kMarketPrice exact))"
proof -
  have "fold (\<lambda>v t. t + f v) vs a = a + (\<Sum>v\<in>#mset vs. f v)" for f and a :: 'a
    by (induction vs arbitrary: a) (simp_all add: ac_simps)
  then show ?thesis by (simp add: variant_total_def)
qed

lemma copy_same: "copy_payload item = item"
  by (cases item) simp_all

lemma copied_total: "AccidentalCopy_total F feed = ConstRef_total F feed"
  by (simp add: AccidentalCopy_total_def ConstRef_total_def copy_same)

lemma payload_values:
  "Process_payload exact (StockPayload i s (flit exact (361 / 2)) 100) = (18050 :: 'a :: linordered_field)"
  "Process_payload exact (BondPayload i s (flit exact 1000) (flit exact (9 / 200))) = (1045 :: 'a)"
  "Process_payload exact (OptionPayload i s (flit exact 185) (flit exact (17 / 4)) b) = (757 / 4 :: 'a)"
  by (simp_all add: of_rat_divide)

lemma ConstRef_total_snoc: "ConstRef_total exact (feed @ [item]) = ConstRef_total exact feed + Process_payload exact item"
  by (simp add: ConstRef_total_def)

lemma CreateTestFeed_Suc:
  "CreateTestFeed F type_dist (Suc n) = CreateTestFeed F type_dist n @
     [if type_dist n = 0 then StockPayload (of_nat (n + 1)) (char_array16 ''AAPL'') (flit F (18050 / 100)) 100
      else if type_dist n = 1 then BondPayload (of_nat (n + 1)) (char_array16 ''US10Y'') (flit F 1000) (flit F (45 / 1000))
      else OptionPayload (of_nat (n + 1)) (char_array16 ''AAPL240621C'') (flit F 185) (flit F (425 / 100)) True]"
  by (simp add: CreateTestFeed_def Let_def)

text \<open>The value of the challenge's feed without rounding, by the number of payloads of each kind.\<close>

lemma test_feed_total:
  assumes "\<And>i. type_dist i \<le> 2"
  shows "ConstRef_total exact (CreateTestFeed exact type_dist n)
      = (18050 * of_nat (card {i. i < n \<and> type_dist i = 0}) + 1045 * of_nat (card {i. i < n \<and> type_dist i = 1})
          + 757 / 4 * of_nat (card {i. i < n \<and> type_dist i = 2}) :: 'a :: linordered_field)
    \<and> length (CreateTestFeed exact type_dist n :: 'a feed_variant list) = n"
proof (induction n)
  case (Suc n)
  have s: "{i. i < Suc n \<and> type_dist i = k} = (if type_dist n = k then insert n {i. i < n \<and> type_dist i = k} else {i. i < n \<and> type_dist i = k})" for k
    by (auto simp: less_Suc_eq)
  have "type_dist n = 0 \<or> type_dist n = 1 \<or> type_dist n = 2" using assms [of n] by linarith
  then show ?case using Suc
    by (elim disjE) (simp_all add: s CreateTestFeed_Suc ConstRef_total_snoc payload_values algebra_simps del: Process_payload.simps exact_simps)
qed (simp add: ConstRef_total_def CreateTestFeed_def)

section \<open>Properties\<close>

text \<open>
  C38. Virtual and variant dispatch compute the same. For any arithmetic, any draws and any number of
  orders, the loop over heap objects and the loop over variants return the same bits, on the random and
  on the sorted orders and on the instruments. Sorting groups the orders by alternative and keeps
  their order within each; without rounding the sorted total is the random one. The visitor of the
  challenge that copies each payload returns the same bits as the one that does not.
\<close>

theorem dispatch_equivalent:
  fixes F :: "'f fp" and type_dist :: "nat \<Rightarrow> nat" and price_dist :: "nat \<Rightarrow> 'f" and qty_dist :: "nat \<Rightarrow> u32" and n :: nat
    and exact_prices :: "nat \<Rightarrow> 'a :: linordered_field"
  defines "d \<equiv> CreateBenchmarkData F type_dist price_dist qty_dist n"
    and "x \<equiv> CreateBenchmarkData exact type_dist exact_prices qty_dist n"
  shows "oop_total F (oop_orders d) = variant_total F (dod_orders d)
    \<and> oop_total F (oop_orders_sorted d) = variant_total F (dod_orders_sorted d)
    \<and> oop_feed_total F (oop_instruments d) = variant_feed_total F (dod_instruments d)
    \<and> sorted (map variant_index (dod_orders_sorted d))
    \<and> (filter (\<lambda>v. variant_index v = k) (dod_orders_sorted d) = filter (\<lambda>v. variant_index v = k) (dod_orders d))
    \<and> variant_total exact (dod_orders_sorted x) = variant_total exact (dod_orders x)
    \<and> AccidentalCopy_total F (CreateTestFeed F type_dist n) = ConstRef_total F (CreateTestFeed F type_dist n)"
proof -
  note D = created [of F type_dist price_dist qty_dist n, folded d_def]
  note X = created [of exact type_dist exact_prices qty_dist n, folded x_def]
  have "variant_total exact (dod_orders_sorted x) = variant_total exact (dod_orders x)"
    unfolding exact_total X(2) mset_sort ..
  moreover have "filter (\<lambda>v. variant_index v = k) (dod_orders_sorted d) = filter (\<lambda>v. variant_index v = k) (dod_orders d)"
    unfolding D(2) by (rule sort_key_stable)
  ultimately show ?thesis
    using D unfolding orders_match_def by (simp add: rebuilt_total rebuilt_feed_total copied_total)
qed

end
