(* ===== verification/LockTrials.thy ===== *)
theory LockTrials
  imports SpinLocks FutexLocks
begin

text \<open>
  \<open>RunLockTrial\<close> of \<open>common/locks_under_the_hood/challenge.cc\<close> on every lock of the repository.
\<close>

section \<open>Every lock under the trial\<close>

text \<open>
  The locks of \<open>SpinLocks\<close> and \<open>FutexLocks\<close> are interpretations of \<open>lock_protocol\<close>; what
  \<open>RunLockTrial\<close> does with a lock is proved there once.
\<close>

lemma bool_spin_trials:
  assumes "step \<in> {NaiveTASLock_step, TTASNoPauseLock_step, TTASPauseLock_step, Ep10TTASPauseLock_step, StdMutexWrapper_step}"
    and "RunLockTrial step spin_holds spin_releases (spin_init False) m n es = Some r"
  shows "r = (of_nat m * of_nat n, True)"
  using assms
  by (elim insertE emptyE) (auto dest: tas.RunLockTrial_ok ttas_np.RunLockTrial_ok ttas.RunLockTrial_ok
      ttas10.RunLockTrial_ok std_mtx.RunLockTrial_ok)

lemma cas_spin_trials:
  assumes "step \<in> {NaiveCasSpinlock_step, ReadBeforeCasSpinlock_step}"
    and "RunLockTrial step spin_holds spin_releases (spin_init 0) m n es = Some r"
  shows "r = (of_nat m * of_nat n, True)"
  using assms by (elim insertE emptyE) (auto dest: ncas.RunLockTrial_ok rbcas.RunLockTrial_ok)

lemma futex_trials:
  assumes "step \<in> {RawFutexMutex_step, AdaptiveFutexMutex_step, Cpp20AtomicWaitLock_step}"
    and "RunLockTrial step futex_holds futex_releases futex_init m n es = Some r"
  shows "r = (of_nat m * of_nat n, True)"
  using assms
  by (elim insertE emptyE) (auto dest: raw_futex.RunLockTrial_ok adaptive_futex.RunLockTrial_ok atomic_wait.RunLockTrial_ok)

lemma only_outcome:
  assumes "\<And>es r. f es = Some r \<Longrightarrow> r = y" and "\<exists>es r. f es = Some r" and "f [] = None"
  shows "range f = {None, Some y}"
proof -
  have "f es \<in> {None, Some y}" for es using assms(1) [of es] by (cases "f es") simp_all
  then have "range f \<subseteq> {None, Some y}" by (rule image_subsetI)
  moreover have "None \<in> range f" by (metis assms(3) rangeI)
  moreover have "Some y \<in> range f" using assms(1,2) by (metis rangeI)
  ultimately show ?thesis by blast
qed

lemma outcome: "range f = {None, Some y} \<Longrightarrow> f x \<noteq> None \<Longrightarrow> f x = Some y"
  by (metis empty_iff insert_iff rangeI)

lemma unjoined:
  assumes "0 < m" and "0 < n"
  shows "RunLockTrial step holds releases l m n [] = None"
  using assms by (auto simp: RunLockTrial_def trial_init_def all_joined_def list_all_iff)

lemmas solo_trials = tas_solo.RunLockTrial_completes ttas_np_solo.RunLockTrial_completes ttas_solo.RunLockTrial_completes
  ttas10_solo.RunLockTrial_completes std_mtx_solo.RunLockTrial_completes ncas_solo.RunLockTrial_completes
  rbcas_solo.RunLockTrial_completes raw_futex_solo.RunLockTrial_completes adaptive_futex_solo.RunLockTrial_completes
  atomic_wait_solo.RunLockTrial_completes

lemma trials_complete:
  "step \<in> {NaiveTASLock_step, TTASNoPauseLock_step, TTASPauseLock_step, Ep10TTASPauseLock_step, StdMutexWrapper_step}
    \<Longrightarrow> \<exists>es r. RunLockTrial step spin_holds spin_releases (spin_init False) m n es = Some r"
  "cas_step \<in> {NaiveCasSpinlock_step, ReadBeforeCasSpinlock_step}
    \<Longrightarrow> \<exists>es r. RunLockTrial cas_step spin_holds spin_releases (spin_init 0) m n es = Some r"
  "fstep \<in> {RawFutexMutex_step, AdaptiveFutexMutex_step, Cpp20AtomicWaitLock_step}
    \<Longrightarrow> \<exists>es r. RunLockTrial fstep futex_holds futex_releases futex_init m n es = Some r"
  by (elim insertE emptyE; simp only: solo_trials spin_free_init futex_free_init)+

lemma bool_spin_range:
  assumes "step \<in> {NaiveTASLock_step, TTASNoPauseLock_step, TTASPauseLock_step, Ep10TTASPauseLock_step, StdMutexWrapper_step}"
    and "0 < m" and "0 < n"
  shows "range (RunLockTrial step spin_holds spin_releases (spin_init False) m n) = {None, Some (of_nat m * of_nat n, True)}"
  by (rule only_outcome) (fact bool_spin_trials [OF assms(1)] trials_complete(1) [OF assms(1)] unjoined [OF assms(2,3)])+

lemma cas_spin_range:
  assumes "cas_step \<in> {NaiveCasSpinlock_step, ReadBeforeCasSpinlock_step}" and "0 < m" and "0 < n"
  shows "range (RunLockTrial cas_step spin_holds spin_releases (spin_init 0) m n) = {None, Some (of_nat m * of_nat n, True)}"
  by (rule only_outcome) (fact cas_spin_trials [OF assms(1)] trials_complete(2) [OF assms(1)] unjoined [OF assms(2,3)])+

lemma futex_range:
  assumes "fstep \<in> {RawFutexMutex_step, AdaptiveFutexMutex_step, Cpp20AtomicWaitLock_step}" and "0 < m" and "0 < n"
  shows "range (RunLockTrial fstep futex_holds futex_releases futex_init m n) = {None, Some (of_nat m * of_nat n, True)}"
  by (rule only_outcome) (fact futex_trials [OF assms(1)] trials_complete(3) [OF assms(1)] unjoined [OF assms(2,3)])+

text \<open>
  No lock loses an update. For every lock of the repository, any number of threads and of rounds, and
  every interleaving of the atomic steps of the lock with the separate load and store of the shared
  record, a trial that reaches its joins reports a final sequence equal to the number of operations and
  finds its invariants kept; and there is a run that reaches the joins.
\<close>

theorem RunLockTrial_valid:
  assumes "0 < m" and "0 < n"
  shows "(step \<in> {NaiveTASLock_step, TTASNoPauseLock_step, TTASPauseLock_step, Ep10TTASPauseLock_step, StdMutexWrapper_step} \<longrightarrow>
      range (RunLockTrial step spin_holds spin_releases (spin_init False) m n) = {None, Some (of_nat m * of_nat n, True)})
   \<and> (cas_step \<in> {NaiveCasSpinlock_step, ReadBeforeCasSpinlock_step} \<longrightarrow>
      range (RunLockTrial cas_step spin_holds spin_releases (spin_init 0) m n) = {None, Some (of_nat m * of_nat n, True)})
   \<and> (fstep \<in> {RawFutexMutex_step, AdaptiveFutexMutex_step, Cpp20AtomicWaitLock_step} \<longrightarrow>
      range (RunLockTrial fstep futex_holds futex_releases futex_init m n) = {None, Some (of_nat m * of_nat n, True)})"
  by (intro conjI impI) (erule bool_spin_range [OF _ assms] cas_spin_range [OF _ assms] futex_range [OF _ assms])+

theorem RunLockTrial_valid_witness:
  "RunLockTrial NaiveTASLock_step spin_holds spin_releases (spin_init False) 2 1
     [LockEv (Call 0), LockEv (Call 1), LockEv (Move 0), LoadState 0, LockEv (Move 1), StoreState 0, LockEv (Unlock 0),
      LockEv (Move 1), LoadState 1, StoreState 1, LockEv (Unlock 1)] = Some (2, True)"
proof -
  let ?es = "[LockEv (Call 0), LockEv (Call 1), LockEv (Move 0), LoadState 0, LockEv (Move 1), StoreState 0, LockEv (Unlock 0),
      LockEv (Move 1), LoadState 1, StoreState 1, LockEv (Unlock 1)]"
  have "RunLockTrial NaiveTASLock_step spin_holds spin_releases (spin_init False) 2 1 ?es \<noteq> None" by code_simp
  moreover have "range (RunLockTrial NaiveTASLock_step spin_holds spin_releases (spin_init False) 2 1) = {None, Some (2, True)}"
    using RunLockTrial_valid [of 2 1 NaiveTASLock_step] by simp
  ultimately show ?thesis by (rule outcome [rotated])
qed

text \<open>
  C20. Every lock of the repository gives mutual exclusion in every interleaving of any number of threads, with
  spurious failures of the weak compare-exchange and spurious wake-ups. The word of a futex lock is 0
  exactly when nobody holds the lock, and never anything but 0, 1 or 2.
\<close>

theorem locks_mutual_exclusion:
  assumes "step \<in> {NaiveTASLock_step, TTASNoPauseLock_step, TTASPauseLock_step, Ep10TTASPauseLock_step, StdMutexWrapper_step}"
    and "cas_step \<in> {NaiveCasSpinlock_step, ReadBeforeCasSpinlock_step}"
    and "fstep \<in> {RawFutexMutex_step, AdaptiveFutexMutex_step, Cpp20AtomicWaitLock_step}"
    and "run step (spin_init False) es = Some s" and "run cas_step (spin_init 0) fs = Some r" and "run fstep futex_init gs = Some w"
  shows "(spin_holds s t \<and> spin_holds s u \<longrightarrow> t = u) \<and> (spin_holds r t \<and> spin_holds r u \<longrightarrow> t = u)
    \<and> (futex_holds w t \<and> futex_holds w u \<longrightarrow> t = u) \<and> (word w = 0 \<longleftrightarrow> (\<forall>v. \<not> futex_holds w v)) \<and> word w \<in> {0, 1, 2}"
  using spinlocks_mutual_exclusion [OF assms(1,2,4,5), of t u] futex_mutual_exclusion [OF assms(3,6), of t u] by blast

theorem locks_mutual_exclusion_witness:
  "\<exists>s r w. run TTASPauseLock_step (spin_init False) [Call 0, Call 1, Move 0, Move 1, Move 1, Move 0] = Some s \<and> spin_holds s 1 \<and> \<not> spin_holds s 0
     \<and> run ReadBeforeCasSpinlock_step (spin_init 0) [Call 0, Call 1, Spurious 0, Move 1, Move 0] = Some r \<and> spin_holds r 1 \<and> \<not> spin_holds r 0
     \<and> run RawFutexMutex_step futex_init contended_futex = Some w \<and> futex_holds w 0 \<and> \<not> futex_holds w 1"
proof -
  obtain s where s: "run TTASPauseLock_step (spin_init False) [Call 0, Call 1, Move 0, Move 1, Move 1, Move 0] = Some s" "spin_holds s 1"
    by (simp add: spin_init_def spin_ops)
  obtain r where r: "run ReadBeforeCasSpinlock_step (spin_init 0) [Call 0, Call 1, Spurious 0, Move 1, Move 0] = Some r" "spin_holds r 1"
    by (simp add: spin_init_def spin_ops)
  obtain w where w: "run RawFutexMutex_step futex_init contended_futex = Some w" "futex_holds w 0"
    by (simp add: contended_futex_def RawFutexMutex_step_def futex_init_def futex_lock_def goto_def
        futex_holds_def spin_loop_def after_spin_def Let_def)
  show ?thesis
    using locks_mutual_exclusion [OF _ _ _ s(1) r(1) w(1), of 0 1] s r w by auto
qed

end
