(* ===== verification/RouteTrial.thy ===== *)
theory RouteTrial
  imports RouteCache
begin

text \<open>
  \<open>RunRouteCacheTrial\<close> of \<open>common/locks_under_the_hood/challenge.cc\<close> and of the episode 10 challenge:
  the threads read and update one cache, and every entry read is checked for tearing. What the trial
  asks of a cache is the locale \<open>tear_free_cache\<close>; the caches that keep its laws pass in every
  interleaving, and the other one can fail.
\<close>

section \<open>The trial\<close>

text \<open>
  What a step of a cache machine means to the thread that takes it: it starts or completes an update or
  a read, or goes on with one. \<open>who\<close> is the thread an event belongs to; the writer events of a cache with
  a writer mutex name none and belong to the thread that is updating.
\<close>

datatype 'v action = StartUpdate 'v | FinishUpdate | StartRead | FinishRead 'v | Continue

record 's route_trial =
  cache :: 's
  round :: "tid \<Rightarrow> nat"
  updating :: "tid \<Rightarrow> bool"
  torn_detected :: bool

text \<open>
  Thread \<open>t\<close> is in round \<open>i\<close> of its loop, from 1 to \<open>ops\<close>: it updates in the rounds \<open>writes\<close> says, in the
  others it reads and checks.
\<close>

definition route_loop_step :: "('s \<Rightarrow> 'e \<Rightarrow> 's option) \<Rightarrow> ('s \<Rightarrow> 'e \<Rightarrow> 's \<Rightarrow> 'v action) \<Rightarrow> ('e \<Rightarrow> tid option)
    \<Rightarrow> (tid \<Rightarrow> nat \<Rightarrow> bool) \<Rightarrow> (tid \<Rightarrow> nat \<Rightarrow> 'v) \<Rightarrow> ('v \<Rightarrow> bool) \<Rightarrow> nat \<Rightarrow> nat \<Rightarrow> 's route_trial \<Rightarrow> tid \<times> 'e \<Rightarrow> 's route_trial option" where
  "route_loop_step step kind who writes entry intact threads ops s te =
     (let (t, e) = te; i = round s t in
      if \<not> (t < threads \<and> i \<le> ops \<and> (case who e of Some u \<Rightarrow> u = t | None \<Rightarrow> writes t i)) then None
      else case step (cache s) e of
        None \<Rightarrow> None
      | Some c \<Rightarrow>
          (let s' = s\<lparr>cache := c\<rparr> in
           case kind (cache s) e c of
             StartUpdate v \<Rightarrow>
               if writes t i \<and> \<not> updating s t \<and> v = entry t i
               then Some (s'\<lparr>updating := (updating s)(t := True)\<rparr>) else None
           | FinishUpdate \<Rightarrow>
               if updating s t
               then Some (s'\<lparr>updating := (updating s)(t := False), round := (round s)(t := i + 1)\<rparr>) else None
           | StartRead \<Rightarrow> if \<not> writes t i then Some s' else None
           | FinishRead v \<Rightarrow>
               if \<not> writes t i
               then Some (s'\<lparr>torn_detected := torn_detected s \<or> \<not> intact v, round := (round s)(t := i + 1)\<rparr>)
               else None
           | Continue \<Rightarrow> if who e = None \<and> \<not> updating s t then None else Some s'))"

definition route_trial_init :: "'s \<Rightarrow> 's route_trial" where
  "route_trial_init c = \<lparr>cache = c, round = (\<lambda>_. 1), updating = (\<lambda>_. False), torn_detected = False\<rparr>"

text \<open>The verdict \<open>tear_free_ok\<close> after the joins; \<open>None\<close> is a schedule that does not reach them.\<close>

definition RunRouteLoop :: "('s \<Rightarrow> 'e \<Rightarrow> 's option) \<Rightarrow> ('s \<Rightarrow> 'e \<Rightarrow> 's \<Rightarrow> 'v action) \<Rightarrow> ('e \<Rightarrow> tid option)
    \<Rightarrow> (tid \<Rightarrow> nat \<Rightarrow> bool) \<Rightarrow> (tid \<Rightarrow> nat \<Rightarrow> 'v) \<Rightarrow> ('v \<Rightarrow> bool) \<Rightarrow> 's \<Rightarrow> nat \<Rightarrow> nat \<Rightarrow> (tid \<times> 'e) list \<Rightarrow> bool option" where
  "RunRouteLoop step kind who writes entry intact c threads ops sched =
     (case run (route_loop_step step kind who writes entry intact threads ops) (route_trial_init c) sched of
        None \<Rightarrow> None
      | Some s \<Rightarrow> if list_all (\<lambda>t. round s t = ops + 1) [0..<threads] then Some (\<not> torn_detected s) else None)"

text \<open>The challenge programs update in every hundredth round.\<close>

definition hundredth :: "tid \<Rightarrow> nat \<Rightarrow> bool" where
  "hundredth t i \<longleftrightarrow> i mod 100 = 0"

definition route_trial_step :: "('s \<Rightarrow> 'e \<Rightarrow> 's option) \<Rightarrow> ('s \<Rightarrow> 'e \<Rightarrow> 's \<Rightarrow> 'v action) \<Rightarrow> ('e \<Rightarrow> tid option)
    \<Rightarrow> (tid \<Rightarrow> nat \<Rightarrow> 'v) \<Rightarrow> ('v \<Rightarrow> bool) \<Rightarrow> nat \<Rightarrow> nat \<Rightarrow> 's route_trial \<Rightarrow> tid \<times> 'e \<Rightarrow> 's route_trial option" where
  "route_trial_step step kind who = route_loop_step step kind who hundredth"

definition RunRouteCacheTrial :: "('s \<Rightarrow> 'e \<Rightarrow> 's option) \<Rightarrow> ('s \<Rightarrow> 'e \<Rightarrow> 's \<Rightarrow> 'v action) \<Rightarrow> ('e \<Rightarrow> tid option)
    \<Rightarrow> (tid \<Rightarrow> nat \<Rightarrow> 'v) \<Rightarrow> ('v \<Rightarrow> bool) \<Rightarrow> 's \<Rightarrow> nat \<Rightarrow> nat \<Rightarrow> (tid \<times> 'e) list \<Rightarrow> bool option" where
  "RunRouteCacheTrial step kind who = RunRouteLoop step kind who hundredth"

section \<open>What the trial asks of a cache\<close>

locale tear_free_cache =
  fixes step :: "'s \<Rightarrow> 'e \<Rightarrow> 's option" and kind :: "'s \<Rightarrow> 'e \<Rightarrow> 's \<Rightarrow> 'v action"
    and fresh :: "'v \<Rightarrow> 's" and good :: "'v set \<Rightarrow> nat \<Rightarrow> 's \<Rightarrow> bool"
  assumes fresh_good: "v \<in> W \<Longrightarrow> good W 0 (fresh v)"
    and start_good: "good W k s \<Longrightarrow> step s e = Some s' \<Longrightarrow> kind s e s' = StartUpdate v \<Longrightarrow> v \<in> W \<Longrightarrow> good W (Suc k) s'"
    and other_good: "good W k s \<Longrightarrow> step s e = Some s' \<Longrightarrow> (\<And>v. kind s e s' \<noteq> StartUpdate v) \<Longrightarrow> good W k s'"
    and returns_written: "good W k s \<Longrightarrow> step s e = Some s' \<Longrightarrow> kind s e s' = FinishRead v \<Longrightarrow> k < 2 ^ 63 \<Longrightarrow> v \<in> W"
begin

definition started :: "nat \<Rightarrow> 's route_trial \<Rightarrow> nat" where
  "started threads s = (\<Sum>t<threads. round s t - 1 + (if updating s t then 1 else 0))"

definition trial_ok :: "(tid \<Rightarrow> nat \<Rightarrow> bool) \<Rightarrow> 'v set \<Rightarrow> nat \<Rightarrow> nat \<Rightarrow> 's route_trial \<Rightarrow> bool" where
  "trial_ok writes W threads ops s \<longleftrightarrow> \<not> torn_detected s \<and> (\<forall>t. 1 \<le> round s t \<and> round s t \<le> ops + 1)
     \<and> (\<exists>k \<le> started threads s. good W k (cache s)) \<and> (\<forall>t. updating s t \<longrightarrow> round s t \<le> ops \<and> writes t (round s t))"

lemma started_bound: "trial_ok writes W threads ops s \<Longrightarrow> started threads s \<le> threads * ops"
proof -
  assume ok: "trial_ok writes W threads ops s"
  have "round s t - 1 + (if updating s t then 1 else 0) \<le> ops" for t
  proof -
    have "1 \<le> round s t" "round s t \<le> ops + 1" "updating s t \<longrightarrow> round s t \<le> ops" using ok by (simp_all add: trial_ok_def)
    then show ?thesis by (cases "updating s t") simp_all
  qed
  then show ?thesis unfolding started_def using sum_bounded_above [of "{..<threads}" _ ops] by simp
qed

lemma started_at:
  assumes "t < threads" and "\<And>u. u \<noteq> t \<Longrightarrow> round s' u = round s u \<and> updating s' u = updating s u"
    and "round s' t - 1 + (if updating s' t then 1 else 0) = round s t - 1 + (if updating s t then 1 else 0) + d"
  shows "started threads s' = started threads s + d"
proof -
  let ?f = "\<lambda>s t. round s t - 1 + (if updating s t then 1 else 0)"
  have "(\<Sum>u \<in> {..<threads} - {t}. ?f s' u) = (\<Sum>u \<in> {..<threads} - {t}. ?f s u)"
    using assms(2) by (intro sum.cong) auto
  then show ?thesis
    unfolding started_def using assms(1,3) sum.remove [of "{..<threads}" t "?f s"] sum.remove [of "{..<threads}" t "?f s'"]
    by simp
qed

lemma loop_step_ok:
  assumes ok: "trial_ok writes W threads ops s" and W: "\<And>t i. entry t i \<in> W" "\<And>v. v \<in> W \<Longrightarrow> intact v"
    and small: "threads * ops < 2 ^ 63"
    and st: "route_loop_step step kind who writes entry intact threads ops s (t, e) = Some s'"
  shows "trial_ok writes W threads ops s'"
proof -
  let ?i = "round s t"
  obtain k where k: "k \<le> started threads s" "good W k (cache s)" using ok by (auto simp: trial_ok_def)
  have o: "\<not> torn_detected s" "\<And>u. 1 \<le> round s u \<and> round s u \<le> ops + 1" "\<And>u. updating s u \<Longrightarrow> round s u \<le> ops \<and> writes u (round s u)"
    using ok by (auto simp: trial_ok_def)
  have t: "t < threads" "?i \<le> ops" using st by (auto simp: route_loop_step_def Let_def split: if_splits)
  obtain c where c: "step (cache s) e = Some c"
    using st by (auto simp: route_loop_step_def Let_def split: if_splits option.splits)
  have same: "started threads (s\<lparr>cache := c\<rparr>) = started threads s" by (simp add: started_def)
  have goon: "good W k c" if "\<And>v. kind (cache s) e c \<noteq> StartUpdate v" by (rule other_good [OF k(2) c that])
  show ?thesis
  proof (cases "kind (cache s) e c")
    case (StartUpdate v)
    then have s': "\<not> updating s t" "v = entry t ?i" "writes t ?i" "s' = s\<lparr>cache := c, updating := (updating s)(t := True)\<rparr>"
      using st c by (auto simp: route_loop_step_def Let_def split: if_splits option.splits)
    have "started threads s' = started threads s + 1" using t(1) s'(1) by (intro started_at [of t]) (auto simp: s'(4))
    moreover have "good W (Suc k) c" using start_good [OF k(2) c StartUpdate] W(1) s'(2) by simp
    ultimately show ?thesis using k(1) o t(2) using s'(3) unfolding trial_ok_def by (auto simp: s'(4) intro!: exI [of _ "Suc k"])
  next
    case FinishUpdate
    then have s': "updating s t" "s' = s\<lparr>cache := c, updating := (updating s)(t := False), round := (round s)(t := ?i + 1)\<rparr>"
      using st c by (auto simp: route_loop_step_def Let_def split: if_splits option.splits)
    have "1 \<le> ?i" using o(2) by blast
    then have "started threads s' = started threads s + 0" using t(1) s'(1) by (intro started_at [of t]) (auto simp: s'(2))
    then show ?thesis using k(1) o t(2) goon FinishUpdate unfolding trial_ok_def by (auto simp: s'(2) intro!: exI [of _ k])
  next
    case StartRead
    then have "s' = s\<lparr>cache := c\<rparr>" using st c by (auto simp: route_loop_step_def Let_def split: if_splits option.splits)
    then show ?thesis using k(1) o goon StartRead same unfolding trial_ok_def by (auto intro!: exI [of _ k])
  next
    case (FinishRead v)
    then have s': "\<not> writes t ?i" "s' = s\<lparr>cache := c, torn_detected := torn_detected s \<or> \<not> intact v, round := (round s)(t := ?i + 1)\<rparr>"
      using st c by (auto simp: route_loop_step_def Let_def split: if_splits option.splits)
    have "k < 2 ^ 63" using k(1) started_bound [OF ok] small by linarith
    then have "v \<in> W" by (rule returns_written [OF k(2) c FinishRead])
    then have "intact v" by (rule W(2))
    have "1 \<le> ?i" using o(2) by blast
    then have "started threads s' = started threads s + 1" using t(1) using o(3) s'(1) by (intro started_at [of t]) (auto simp: s'(2))
    then show ?thesis
      using k(1) o t(2) goon FinishRead \<open>intact v\<close> s'(1) unfolding trial_ok_def by (auto simp: s'(2) intro!: exI [of _ k])
  next
    case Continue
    then have "s' = s\<lparr>cache := c\<rparr>" using st c by (auto simp: route_loop_step_def Let_def split: if_splits option.splits)
    then show ?thesis using k(1) o goon Continue same unfolding trial_ok_def by (auto intro!: exI [of _ k])
  qed
qed

lemma loop_passes:
  assumes W: "\<And>t i. intact (entry t i)" "intact v0" and small: "threads * ops < 2 ^ 63"
  shows "RunRouteLoop step kind who writes entry intact (fresh v0) threads ops sched \<in> {None, Some True}"
proof -
  let ?W = "insert v0 {v. \<exists>t i. v = entry t i}"
  have "trial_ok writes ?W threads ops s" if "run (route_loop_step step kind who writes entry intact threads ops) (route_trial_init (fresh v0)) sched = Some s" for s
  proof (rule run_invariant [where I = "trial_ok writes ?W threads ops", OF _ _ that])
    show "trial_ok writes ?W threads ops (route_trial_init (fresh v0))"
      using fresh_good [of v0 ?W] by (auto simp: trial_ok_def route_trial_init_def)
    show "trial_ok writes ?W threads ops s2" if "trial_ok writes ?W threads ops s1" "route_loop_step step kind who writes entry intact threads ops s1 te = Some s2" for s1 te s2
    proof (cases te)
      case (Pair t e)
      show ?thesis by (rule loop_step_ok [OF that(1) _ _ small that(2) [unfolded Pair]]) (use W in auto)
    qed
  qed
  then show ?thesis by (auto simp: RunRouteLoop_def trial_ok_def split: option.splits)
qed

lemma trial_passes:
  assumes "\<And>t i. intact (entry t i)" and "intact v0" and "threads * ops < 2 ^ 63"
  shows "RunRouteCacheTrial step kind who entry intact (fresh v0) threads ops sched \<in> {None, Some True}"
  unfolding RunRouteCacheTrial_def by (rule loop_passes [OF assms])

end

section \<open>The caches with a mutex\<close>

fun gc_who :: "'a gevent \<Rightarrow> tid option" where
  "gc_who (GEnterRead t) = Some t"
| "gc_who (GEnterWrite t new) = Some t"
| "gc_who (GField t i) = Some t"
| "gc_who (GLeave t) = Some t"

fun gc_kind :: "'a gcache \<Rightarrow> 'a gevent \<Rightarrow> 'a gcache \<Rightarrow> 'a list action" where
  "gc_kind s (GEnterRead t) s' = StartRead"
| "gc_kind s (GEnterWrite t new) s' = StartUpdate new"
| "gc_kind s (GField t i) s' = Continue"
| "gc_kind s (GLeave t) s' = (case gpcs s' t of GRet v \<Rightarrow> FinishRead v | _ \<Rightarrow> FinishUpdate)"

definition gc_writes :: "'a list set \<Rightarrow> 'a gcache \<Rightarrow> bool" where
  "gc_writes W s \<longleftrightarrow> (\<forall>t new todo. gpcs s t = GWrite new todo \<longrightarrow> new \<in> W \<and> length new = length (gentry s)
     \<and> (\<forall>i < length (gentry s). i \<in> set todo \<or> gentry s ! i = new ! i))"

definition gc_good :: "'a list set \<Rightarrow> nat \<Rightarrow> 'a gcache \<Rightarrow> bool" where
  "gc_good W k s \<longleftrightarrow> gc_inv s \<and> set (ghist s) \<subseteq> W \<and> gc_writes W s"

lemma gc_writes_step:
  assumes "gc_good W k s" and st: "gc_step excl s e = Some s'" and new: "\<And>v. gc_kind s e s' = StartUpdate v \<Longrightarrow> v \<in> W"
  shows "gc_good W k' s'"
proof -
  have inv: "gc_inv s" "set (ghist s) \<subseteq> W" "gc_writes W s" using assms(1) by (simp_all add: gc_good_def)
  have "set (ghist s') \<subseteq> W \<and> gc_writes W s'"
  proof (cases e)
    case (GField t i)
    show ?thesis
    proof (cases "gpcs s t")
      case (GWrite new' todo)
      then have "mtx s = Exclusive t" using gc_invD(2) [OF inv(1), of t] by simp
      then have out: "\<not> inside (gpcs s u)" if "u \<noteq> t" for u using alone_when_exclusive [OF inv(1) _ that] by blast
      have "new' \<in> W" "length new' = length (gentry s)" "\<forall>j < length (gentry s). j \<in> set todo \<or> gentry s ! j = new' ! j"
        using inv(3) GWrite by (auto simp: gc_writes_def)
      moreover have s': "s' = s\<lparr>gentry := (gentry s)[i := new' ! i], gpcs := (gpcs s)(t := GWrite new' (removeAll i todo))\<rparr>"
        using st GField GWrite by (auto split: if_splits)
      moreover have "gpcs s u \<noteq> GWrite v r" if "u \<noteq> t" for u v r using out [OF that] by (auto simp: inside_def)
      ultimately show ?thesis using inv(2) by (auto simp: gc_writes_def nth_update_total)
    qed (use st GField inv in \<open>fastforce simp: gc_writes_def split: if_splits\<close>)+
  next
    case (GLeave t)
    show ?thesis
    proof (cases "gpcs s t")
      case (GWrite new' todo)
      then have s': "todo = []" "s' = s\<lparr>mtx := unlock_mutex t (mtx s), gpcs := (gpcs s)(t := GOut), ghist := ghist s @ [gentry s]\<rparr>"
        using st GLeave by (auto split: if_splits)
      have new': "new' \<in> W" "length new' = length (gentry s)" "\<And>i. i < length (gentry s) \<Longrightarrow> gentry s ! i = new' ! i"
        using inv(3) GWrite s'(1) by (fastforce simp: gc_writes_def)+
      then have "gentry s = new'" by (intro nth_equalityI) simp_all
      then show ?thesis using inv new'(1) by (auto simp: s'(2) gc_writes_def)
    qed (use st GLeave inv in \<open>fastforce simp: gc_writes_def split: if_splits\<close>)+
  qed (use st new inv in \<open>fastforce simp: gc_writes_def split: option.splits if_splits\<close>)+
  moreover have "gc_inv s'" by (rule gc.step_inv [OF inv(1) st])
  ultimately show ?thesis by (simp add: gc_good_def)
qed

lemma gc_returns_written:
  assumes "gc_good W k s" and "gc_step excl s e = Some s'" and "gc_kind s e s' = FinishRead v"
  shows "v \<in> W"
proof -
  obtain t where t: "gpcs s' t = GRet v" using assms(3) by (cases e) (auto split: gpc.splits)
  have "gc_good W k s'" by (rule gc_writes_step [OF assms(1,2)]) (simp add: assms(3))
  then show ?thesis using gc_invD(2) [of s' t] t by (auto simp: gc_good_def)
qed

interpretation gc_trial: tear_free_cache "gc_step excl" gc_kind gc_init gc_good for excl
proof
  show "gc_good W 0 (gc_init v)" if "v \<in> W" for v :: "'a list" and W
    using that gc_init_inv [of v] by (simp add: gc_good_def gc_init_def gc_writes_def)
qed (auto intro: gc_writes_step gc_returns_written)

section \<open>The episode 10 cache\<close>

fun sq_who :: "'a sq_event \<Rightarrow> tid option" where
  "sq_who (EvRBegin t) = Some t"
| "sq_who (EvRField t i) = Some t"
| "sq_who (EvRCheck t) = Some t"
| "sq_who _ = None"

fun sq_kind :: "'a sq \<Rightarrow> 'a sq_event \<Rightarrow> 'a sq \<Rightarrow> 'a list action" where
  "sq_kind s (EvWBegin new) s' = StartUpdate new"
| "sq_kind s (EvWField i) s' = Continue"
| "sq_kind s EvWEnd s' = FinishUpdate"
| "sq_kind s (EvRBegin t) s' = StartRead"
| "sq_kind s (EvRField t i) s' = Continue"
| "sq_kind s (EvRCheck t) s' = (case readers s' t of RDone v \<Rightarrow> FinishRead v | _ \<Rightarrow> Continue)"

definition sq_good :: "'a list set \<Rightarrow> nat \<Rightarrow> 'a sq \<Rightarrow> bool" where
  "sq_good W k s \<longleftrightarrow> sq_inv 0 s \<and> set (history s) \<subseteq> W \<and> commits s + (if writer s = WIdle then 0 else 1) \<le> k
     \<and> (\<forall>l new todo. writer s = WBusy l new todo \<longrightarrow> new \<in> W)"

lemma sq_good_step:
  assumes "sq_good W k s" and st: "Ep10RouteCache_step s e = Some s'"
    and new: "\<And>v. sq_kind s e s' = StartUpdate v \<Longrightarrow> v \<in> W"
  shows "sq_good W (if \<exists>v. sq_kind s e s' = StartUpdate v then Suc k else k) s'"
proof -
  have inv: "sq_inv 0 s" "set (history s) \<subseteq> W" "commits s + (if writer s = WIdle then 0 else 1) \<le> k"
    "\<And>l new todo. writer s = WBusy l new todo \<Longrightarrow> new \<in> W"
    using assms(1) by (auto simp: sq_good_def)
  have i': "sq_inv 0 s'" using ep10.sq_step_inv [OF inv(1)] st by (simp add: Ep10RouteCache_step_def)
  show ?thesis
  proof (cases e)
    case (EvWBegin new')
    then show ?thesis using st new inv i' by (auto simp: sq_good_def Ep10RouteCache_step_def split: if_splits)
  next
    case EvWEnd
    then obtain l new' where w: "writer s = WBusy l new' []"
      using st by (auto simp: Ep10RouteCache_step_def split: wpc.splits if_splits)
    then have "payload s = new'" using inv(1) by (auto simp: sq_inv_def intro: nth_equalityI)
    then show ?thesis using st EvWEnd w inv i' by (auto simp: sq_good_def Ep10RouteCache_step_def)
  qed (use st inv i' in \<open>auto simp: sq_good_def Ep10RouteCache_step_def split: wpc.splits rpc.splits if_splits\<close>)
qed

lemma sq_returns_written:
  assumes "sq_good W k s" and "Ep10RouteCache_step s e = Some s'" and "sq_kind s e s' = FinishRead v" and "k < 2 ^ 63"
  shows "v \<in> W"
proof -
  obtain t where t: "readers s' t = RDone v" using assms(3) by (cases e) (auto split: rpc.splits)
  have "sq_good W k s'" using sq_good_step [OF assms(1,2)] assms(3) by simp
  then have "sq_inv 0 s'" "commits s' < 2 ^ 63" "set (history s') \<subseteq> W" using assms(4) by (auto simp: sq_good_def)
  moreover have "reader_ok 0 s' (RDone v)" using \<open>sq_inv 0 s'\<close> t unfolding sq_inv_def by metis
  ultimately show ?thesis by auto
qed

interpretation ep10_trial: tear_free_cache Ep10RouteCache_step sq_kind "sq_init 0" sq_good
proof
  show "sq_good W 0 (sq_init 0 v)" if "v \<in> W" for v :: "'a list" and W
    using that sq_init_inv [of 0 v] by (simp add: sq_good_def) (simp add: sq_init_def)
  show "sq_good W (Suc k) s'" if "sq_good W k s" "Ep10RouteCache_step s e = Some s'" "sq_kind s e s' = StartUpdate v" "v \<in> W"
    for W k s e s' and v :: "'a list"
    using sq_good_step [OF that(1,2)] that(3,4) by auto
  show "sq_good W k s'" if "sq_good W k s" "Ep10RouteCache_step s e = Some s'" "\<And>v. sq_kind s e s' \<noteq> StartUpdate v"
    for W k s e and s' :: "'a sq"
    using sq_good_step [OF that(1,2)] that(3) by auto
qed (rule sq_returns_written)

section \<open>What a lone thread completes\<close>

text \<open>
  \<open>reaches\<close> relates two states of a trial between operations (\<open>idle\<close>). Where a lone thread can complete its next
  round from every such state, the trial can be completed from it.
\<close>

definition reaches :: "('s route_trial \<Rightarrow> tid \<times> 'e \<Rightarrow> 's route_trial option) \<Rightarrow> ('s route_trial \<Rightarrow> bool)
    \<Rightarrow> 's route_trial \<Rightarrow> 's route_trial \<Rightarrow> bool" where
  "reaches step idle s s' \<longleftrightarrow> idle s' \<and> (torn_detected s \<longrightarrow> torn_detected s') \<and> (\<exists>es. run step s es = Some s')"

lemma reachesI: "run step s es = Some s' \<Longrightarrow> idle s' \<Longrightarrow> (torn_detected s \<Longrightarrow> torn_detected s') \<Longrightarrow> reaches step idle s s'"
  by (auto simp: reaches_def)

lemma reaches_refl: "idle s \<Longrightarrow> reaches step idle s s"
  by (rule reachesI [of _ _ "[]"]) simp_all

lemma reaches_trans:
  assumes "reaches step idle s s1" and "reaches step idle s1 s2"
  shows "reaches step idle s s2"
proof -
  obtain es fs where "run step s es = Some s1" "run step s1 fs = Some s2"
    using assms unfolding reaches_def by blast
  then have "run step s (es @ fs) = Some s2" by (simp add: run_append)
  then show ?thesis using assms unfolding reaches_def by blast
qed

lemma reaches_idle: "reaches step idle s s' \<Longrightarrow> idle s'"
  by (simp add: reaches_def)

locale solo_trial =
  fixes step :: "'s route_trial \<Rightarrow> tid \<times> 'e \<Rightarrow> 's route_trial option" and idle :: "'s route_trial \<Rightarrow> bool"
    and threads :: nat and ops :: nat
  assumes solo_op: "idle s \<Longrightarrow> t < threads \<Longrightarrow> round s t \<le> ops
    \<Longrightarrow> \<exists>s'. reaches step idle s s' \<and> round s' = (round s)(t := round s t + 1)"
begin

lemma solo_ops:
  assumes q: "idle s" and t: "t < threads" and d: "round s t + d \<le> ops + 1"
  shows "\<exists>s'. reaches step idle s s' \<and> round s' = (round s)(t := round s t + d)"
  using d
proof (induction d)
  case 0
  then show ?case using reaches_refl [of idle, OF q] by (intro exI [of _ s]) simp
next
  case (Suc d)
  then have "round s t + d \<le> ops + 1" by simp
  then obtain s1 where 1: "reaches step idle s s1" "round s1 = (round s)(t := round s t + d)" using Suc.IH by blast
  then have "round s1 t \<le> ops" using Suc.prems by simp
  then obtain s2 where 2: "reaches step idle s1 s2" "round s2 = (round s1)(t := round s1 t + 1)"
    using solo_op [OF reaches_idle [OF 1(1)] t] by blast
  show ?case using reaches_trans [OF 1(1) 2(1)] 1(2) 2(2) by (intro exI [of _ s2]) simp
qed

lemma finish_threads:
  assumes q: "idle s" and r: "\<And>t. round s t \<le> ops + 1" and k: "k \<le> threads"
  shows "\<exists>s'. reaches step idle s s' \<and> (\<forall>t. round s' t = (if t < k then ops + 1 else round s t))"
  using k
proof (induction k)
  case 0
  then show ?case using reaches_refl [of idle, OF q] by (intro exI [of _ s]) simp
next
  case (Suc k)
  then have "k \<le> threads" by simp
  then obtain s1 where 1: "reaches step idle s s1" "\<forall>t. round s1 t = (if t < k then ops + 1 else round s t)" using Suc.IH by blast
  have "round s1 k + (ops + 1 - round s1 k) = ops + 1" using 1(2) r [of k] by simp
  then obtain s2 where 2: "reaches step idle s1 s2" "round s2 = (round s1)(k := ops + 1)"
    using solo_ops [OF reaches_idle [OF 1(1)], of k "ops + 1 - round s1 k"] Suc.prems by auto
  have "round s2 t = (if t < Suc k then ops + 1 else round s t)" for t using 1(2) 2(2) by (simp add: less_Suc_eq)
  then show ?case using reaches_trans [OF 1(1) 2(1)] by (intro exI [of _ s2]) simp
qed

lemma completes:
  assumes "idle s" and "\<And>t. round s t \<le> ops + 1"
  shows "\<exists>sched s'. run step s sched = Some s' \<and> list_all (\<lambda>t. round s' t = ops + 1) [0..<threads]
    \<and> (torn_detected s \<longrightarrow> torn_detected s')"
proof -
  obtain s' where s': "reaches step idle s s'" "\<forall>t. round s' t = (if t < threads then ops + 1 else round s t)"
    using finish_threads [OF assms, of threads] by blast
  have "list_all (\<lambda>t. round s' t = ops + 1) [0..<threads]" using s'(2) by (simp add: list_all_iff)
  then show ?thesis using s'(1) unfolding reaches_def by blast
qed

end

lemma loop_goes_on:
  assumes "run step c es = Some c'" and "\<And>e c c'. e \<in> set es \<Longrightarrow> kind c e c' = Continue"
    and "\<And>e. e \<in> set es \<Longrightarrow> who e = Some t \<or> who e = None \<and> updating s t \<and> writes t (round s t)"
    and "t < threads" "round s t \<le> ops" "cache s = c"
  shows "run (route_loop_step step kind who writes entry intact threads ops) s (map (Pair t) es) = Some (s\<lparr>cache := c'\<rparr>)"
  using assms
proof (induction es arbitrary: s c)
  case (Cons e es)
  obtain c1 where c1: "step c e = Some c1" "run step c1 es = Some c'" using Cons.prems(1) by (auto split: option.splits)
  have "kind c e c1 = Continue" using Cons.prems(2) by simp
  then have "route_loop_step step kind who writes entry intact threads ops s (t, e) = Some (s\<lparr>cache := c1\<rparr>)"
    using c1(1) Cons.prems(3) [of e] Cons.prems(4-6) by (auto simp: route_loop_step_def Let_def split: option.splits)
  moreover have "run (route_loop_step step kind who writes entry intact threads ops) (s\<lparr>cache := c1\<rparr>) (map (Pair t) es)
      = Some (s\<lparr>cache := c1\<rparr>\<lparr>cache := c'\<rparr>)"
    by (rule Cons.IH [OF c1(2)]) (use Cons.prems in auto)
  ultimately show ?case by simp
qed simp

lemma loop_completes:
  assumes "solo_trial (route_loop_step step kind who writes entry intact m n) idle m n" and "idle (route_trial_init c)"
  shows "\<exists>sched b. RunRouteLoop step kind who writes entry intact c m n sched = Some b"
proof -
  have "round (route_trial_init c) t \<le> n + 1" for t by (simp add: route_trial_init_def)
  then obtain sched s' where "run (route_loop_step step kind who writes entry intact m n) (route_trial_init c) sched = Some s'"
      "list_all (\<lambda>t. round s' t = n + 1) [0..<m]"
    using solo_trial.completes [OF assms(1) assms(2)] by blast
  then show ?thesis by (intro exI [of _ sched]) (simp add: RunRouteLoop_def)
qed

text \<open>The caches with a mutex: a lone reader or writer takes the mutex, copies the fields in order and leaves.\<close>

definition gc_idle :: "nat \<Rightarrow> 'a gcache route_trial \<Rightarrow> bool" where
  "gc_idle len s \<longleftrightarrow> mtx (cache s) = Shared [] \<and> length (gentry (cache s)) = len
     \<and> (\<forall>t. \<not> inside (gpcs (cache s) t) \<and> \<not> updating s t)"

lemma gc_copy_out:
  "gpcs c t = GRead buf todo \<Longrightarrow> distinct todo \<Longrightarrow> \<exists>c' buf'. run (gc_step excl) c (map (GField t) todo) = Some c'
    \<and> mtx c' = mtx c \<and> gentry c' = gentry c \<and> gpcs c' = (gpcs c)(t := GRead buf' [])"
proof (induction todo arbitrary: c buf)
  case (Cons i todo)
  let ?c = "c\<lparr>gpcs := (gpcs c)(t := GRead (buf[i := Some (gentry c ! i)]) todo)\<rparr>"
  have "gc_step excl c (GField t i) = Some ?c" using Cons.prems by simp
  moreover obtain c' buf' where "run (gc_step excl) ?c (map (GField t) todo) = Some c'" "mtx c' = mtx c" "gentry c' = gentry c"
      "gpcs c' = (gpcs c)(t := GRead buf' [])"
    using Cons.IH [of ?c "buf[i := Some (gentry c ! i)]"] Cons.prems(2) by (auto simp: fun_eq_iff)
  ultimately show ?case by (intro exI [of _ c'] exI [of _ buf']) simp
qed (metis fun_upd_triv list.map_disc_iff run.simps(1))

lemma gc_copy_in:
  "gpcs c t = GWrite new todo \<Longrightarrow> distinct todo \<Longrightarrow> \<exists>c'. run (gc_step excl) c (map (GField t) todo) = Some c'
    \<and> mtx c' = mtx c \<and> length (gentry c') = length (gentry c) \<and> gpcs c' = (gpcs c)(t := GWrite new [])"
proof (induction todo arbitrary: c)
  case (Cons i todo)
  let ?c = "c\<lparr>gentry := (gentry c)[i := new ! i], gpcs := (gpcs c)(t := GWrite new todo)\<rparr>"
  have "gc_step excl c (GField t i) = Some ?c" using Cons.prems by simp
  moreover obtain c' where "run (gc_step excl) ?c (map (GField t) todo) = Some c'" "mtx c' = mtx c" "length (gentry c') = length (gentry c)"
      "gpcs c' = (gpcs c)(t := GWrite new [])"
    using Cons.IH [of ?c] Cons.prems(2) by (auto simp: fun_eq_iff)
  ultimately show ?case by (intro exI [of _ c']) simp
qed (auto intro!: exI [of _ c])

lemma gc_solo_op:
  fixes entry :: "tid \<Rightarrow> nat \<Rightarrow> 'a list"
  assumes q: "gc_idle len s" and t: "t < m" "round s t \<le> n" and len: "\<And>t i. length (entry t i) = len"
  shows "\<exists>s'. reaches (route_loop_step (gc_step excl) gc_kind gc_who writes entry intact m n) (gc_idle len) s s'
    \<and> round s' = (round s)(t := round s t + 1)"
proof -
  let ?step = "route_loop_step (gc_step excl) gc_kind gc_who writes entry intact m n"
  let ?c = "cache s" and ?fields = "map (GField t) [0..<len]"
  have idle: "mtx ?c = Shared []" "length (gentry ?c) = len" "\<not> inside (gpcs ?c t)" "\<not> updating s t" using q by (simp_all add: gc_idle_def)
  have fields: "run ?step s' (map (Pair t) ?fields) = Some (s'\<lparr>cache := c'\<rparr>)"
    if "run (gc_step excl) (cache s') ?fields = Some c'" "round s' t = round s t" for s' c'
    by (rule loop_goes_on [OF that(1)]) (use t that(2) in auto)
  show ?thesis
  proof (cases "writes t (round s t)")
    case True
    let ?new = "entry t (round s t)"
    let ?c1 = "?c\<lparr>mtx := Exclusive t, gpcs := (gpcs ?c)(t := GWrite ?new [0..<len])\<rparr>"
    let ?s1 = "s\<lparr>cache := ?c1, updating := (updating s)(t := True)\<rparr>"
    obtain c2 where c2: "run (gc_step excl) ?c1 ?fields = Some c2" "mtx c2 = Exclusive t" "length (gentry c2) = len"
        "gpcs c2 = (gpcs ?c)(t := GWrite ?new [])"
      using gc_copy_in [of ?c1 t ?new "[0..<len]" excl] idle(2) by auto
    let ?s3 = "s\<lparr>cache := c2\<lparr>mtx := Shared [], gpcs := (gpcs ?c)(t := GOut), ghist := ghist c2 @ [gentry c2]\<rparr>,
        updating := (updating s)(t := False), round := (round s)(t := round s t + 1)\<rparr>"
    have 1: "?step s (t, GEnterWrite t ?new) = Some ?s1" using idle True t len by (simp add: route_loop_step_def)
    have 2: "run ?step ?s1 (map (Pair t) ?fields) = Some (?s1\<lparr>cache := c2\<rparr>)" by (rule fields) (simp_all add: c2)
    have 3: "?step (?s1\<lparr>cache := c2\<rparr>) (t, GLeave t) = Some ?s3" using True t c2 by (simp add: route_loop_step_def)
    have "run ?step s ((t, GEnterWrite t ?new) # map (Pair t) ?fields @ [(t, GLeave t)]) = Some ?s3"
      by (simp only: run.simps run_append 1 2 3 option.case)
    then have "reaches ?step (gc_idle len) s ?s3" by (rule reachesI) (use q c2 in \<open>auto simp: gc_idle_def inside_def\<close>)
    then show ?thesis by (intro exI [of _ ?s3]) simp
  next
    case False
    let ?m = "if excl then Exclusive t else Shared [t]"
    let ?c1 = "?c\<lparr>mtx := ?m, gpcs := (gpcs ?c)(t := GRead (replicate len None) [0..<len])\<rparr>"
    let ?s1 = "s\<lparr>cache := ?c1\<rparr>"
    obtain c2 buf where c2: "run (gc_step excl) ?c1 ?fields = Some c2" "mtx c2 = ?m" "gentry c2 = gentry ?c"
        "gpcs c2 = (gpcs ?c)(t := GRead buf [])"
      using gc_copy_out [of ?c1 t "replicate len None" "[0..<len]" excl] by auto
    let ?s3 = "s\<lparr>cache := c2\<lparr>mtx := Shared [], gpcs := (gpcs ?c)(t := GRet (map the buf))\<rparr>,
        torn_detected := torn_detected s \<or> \<not> intact (map the buf), round := (round s)(t := round s t + 1)\<rparr>"
    have 1: "?step s (t, GEnterRead t) = Some ?s1" using idle False t by (simp add: route_loop_step_def)
    have 2: "run ?step ?s1 (map (Pair t) ?fields) = Some (?s1\<lparr>cache := c2\<rparr>)" by (rule fields) (simp_all add: c2)
    have 3: "?step (?s1\<lparr>cache := c2\<rparr>) (t, GLeave t) = Some ?s3" using False t c2 by (simp add: route_loop_step_def)
    have "run ?step s ((t, GEnterRead t) # map (Pair t) ?fields @ [(t, GLeave t)]) = Some ?s3"
      by (simp only: run.simps run_append 1 2 3 option.case)
    then have "reaches ?step (gc_idle len) s ?s3" by (rule reachesI) (use q c2 in \<open>auto simp: gc_idle_def inside_def\<close>)
    then show ?thesis by (intro exI [of _ ?s3]) simp
  qed
qed

lemma gc_loop_completes:
  assumes "\<And>t i. length (entry t i) = length v"
  shows "\<exists>sched b. RunRouteLoop (gc_step excl) gc_kind gc_who writes entry intact (gc_init v) m n sched = Some b"
proof -
  have "solo_trial (route_loop_step (gc_step excl) gc_kind gc_who writes entry intact m n) (gc_idle (length v)) m n"
    by unfold_locales (rule gc_solo_op [OF _ _ _ assms])
  moreover have "gc_idle (length v) (route_trial_init (gc_init v))"
    by (simp add: gc_idle_def route_trial_init_def gc_init_def inside_def)
  ultimately show ?thesis by (rule loop_completes)
qed

text \<open>The episode 10 cache: the writer holds the writer mutex, a reader meets an even counter that does not move.\<close>

definition sq_idle :: "nat \<Rightarrow> 'a sq route_trial \<Rightarrow> bool" where
  "sq_idle len s \<longleftrightarrow> even (ctr (cache s)) \<and> writer (cache s) = WIdle \<and> length (payload (cache s)) = len
     \<and> (\<forall>t. (readers (cache s) t = RIdle \<or> (\<exists>v. readers (cache s) t = RDone v)) \<and> \<not> updating s t)"

lemma sq_copy_out:
  "readers c t = RCopy st buf todo k \<Longrightarrow> distinct todo \<Longrightarrow> \<exists>c' buf'. run Ep10RouteCache_step c (map (EvRField t) todo) = Some c'
    \<and> ctr c' = ctr c \<and> writer c' = writer c \<and> payload c' = payload c \<and> readers c' = (readers c)(t := RCopy st buf' [] k)"
proof (induction todo arbitrary: c buf)
  case (Cons i todo)
  let ?c = "c\<lparr>readers := (readers c)(t := RCopy st (buf[i := Some (payload c ! i)]) todo k)\<rparr>"
  have "Ep10RouteCache_step c (EvRField t i) = Some ?c" using Cons.prems by (simp add: Ep10RouteCache_step_def)
  moreover obtain c' buf' where "run Ep10RouteCache_step ?c (map (EvRField t) todo) = Some c'" "ctr c' = ctr c" "writer c' = writer c"
      "payload c' = payload c" "readers c' = (readers c)(t := RCopy st buf' [] k)"
    using Cons.IH [of ?c "buf[i := Some (payload c ! i)]"] Cons.prems(2) by (auto simp: fun_eq_iff)
  ultimately show ?case by (intro exI [of _ c'] exI [of _ buf']) simp
qed (metis fun_upd_triv list.map_disc_iff run.simps(1))

lemma sq_copy_in:
  "writer c = WBusy l new todo \<Longrightarrow> distinct todo \<Longrightarrow> \<exists>c'. run Ep10RouteCache_step c (map EvWField todo) = Some c'
    \<and> ctr c' = ctr c \<and> writer c' = WBusy l new [] \<and> length (payload c') = length (payload c) \<and> readers c' = readers c"
proof (induction todo arbitrary: c)
  case (Cons i todo)
  let ?c = "c\<lparr>payload := (payload c)[i := new ! i], writer := WBusy l new todo\<rparr>"
  have "Ep10RouteCache_step c (EvWField i) = Some ?c" using Cons.prems by (simp add: Ep10RouteCache_step_def)
  moreover obtain c' where "run Ep10RouteCache_step ?c (map EvWField todo) = Some c'" "ctr c' = ctr c" "writer c' = WBusy l new []"
      "length (payload c') = length (payload c)" "readers c' = readers c"
    using Cons.IH [of ?c] Cons.prems(2) by auto
  ultimately show ?case by (intro exI [of _ c']) simp
qed (auto intro!: exI [of _ c])

lemma sq_solo_op:
  fixes entry :: "tid \<Rightarrow> nat \<Rightarrow> 'a list"
  assumes q: "sq_idle len s" and t: "t < m" "round s t \<le> n" and len: "\<And>t i. length (entry t i) = len"
  shows "\<exists>s'. reaches (route_loop_step Ep10RouteCache_step sq_kind sq_who writes entry intact m n) (sq_idle len) s s'
    \<and> round s' = (round s)(t := round s t + 1)"
proof -
  let ?step = "route_loop_step Ep10RouteCache_step sq_kind sq_who writes entry intact m n"
  let ?c = "cache s"
  have idle: "even (ctr ?c)" "writer ?c = WIdle" "length (payload ?c) = len" "\<not> updating s t"
    "readers ?c t = RIdle \<or> (\<exists>v. readers ?c t = RDone v)" using q by (simp_all add: sq_idle_def)
  note ev = route_loop_step_def Ep10RouteCache_step_def all_fields_def
  show ?thesis
  proof (cases "writes t (round s t)")
    case True
    let ?new = "entry t (round s t)"
    let ?c1 = "?c\<lparr>ctr := ctr ?c + 1, writer := WBusy (ctr ?c) ?new [0..<len]\<rparr>"
    let ?s1 = "s\<lparr>cache := ?c1, updating := (updating s)(t := True)\<rparr>"
    obtain c2 where c2: "run Ep10RouteCache_step ?c1 (map EvWField [0..<len]) = Some c2" "ctr c2 = ctr ?c + 1"
        "writer c2 = WBusy (ctr ?c) ?new []" "length (payload c2) = len" "readers c2 = readers ?c"
      using sq_copy_in [of ?c1 "ctr ?c" ?new "[0..<len]"] idle(3) by auto
    let ?s3 = "s\<lparr>cache := c2\<lparr>ctr := ctr ?c + 2, writer := WIdle, commits := Suc (commits c2), history := history c2 @ [payload c2]\<rparr>,
        updating := (updating s)(t := False), round := (round s)(t := round s t + 1)\<rparr>"
    have 1: "?step s (t, EvWBegin ?new) = Some ?s1" using idle True t len by (simp add: ev ep10_open_def)
    have 2: "run ?step ?s1 (map (Pair t) (map EvWField [0..<len])) = Some (?s1\<lparr>cache := c2\<rparr>)"
      by (rule loop_goes_on) (use c2(1) t True in auto)
    have 3: "?step (?s1\<lparr>cache := c2\<rparr>) (t, EvWEnd) = Some ?s3" using True t c2 by (simp add: ev ep10_close_def)
    have "run ?step s ((t, EvWBegin ?new) # map (Pair t) (map EvWField [0..<len]) @ [(t, EvWEnd)]) = Some ?s3"
      by (simp only: run.simps run_append 1 2 3 option.case)
    then have "reaches ?step (sq_idle len) s ?s3" by (rule reachesI) (use q c2 in \<open>auto simp: sq_idle_def\<close>)
    then show ?thesis by (intro exI [of _ ?s3]) simp
  next
    case False
    let ?c1 = "?c\<lparr>readers := (readers ?c)(t := RCopy (ctr ?c) (replicate len None) [0..<len] (commits ?c))\<rparr>"
    let ?s1 = "s\<lparr>cache := ?c1\<rparr>"
    obtain c2 buf where c2: "run Ep10RouteCache_step ?c1 (map (EvRField t) [0..<len]) = Some c2" "ctr c2 = ctr ?c" "writer c2 = WIdle"
        "payload c2 = payload ?c" "readers c2 = (readers ?c)(t := RCopy (ctr ?c) buf [] (commits ?c))"
      using sq_copy_out [of ?c1 t "ctr ?c" "replicate len None" "[0..<len]" "commits ?c"] idle(2) by (auto simp: fun_eq_iff)
    let ?s3 = "s\<lparr>cache := c2\<lparr>readers := (readers ?c)(t := RDone (map the buf))\<rparr>,
        torn_detected := torn_detected s \<or> \<not> intact (map the buf), round := (round s)(t := round s t + 1)\<rparr>"
    have 1: "?step s (t, EvRBegin t) = Some ?s1" using idle False t by (auto simp: ev ep10_may_copy_def and_one_odd)
    have 2: "run ?step ?s1 (map (Pair t) (map (EvRField t) [0..<len])) = Some (?s1\<lparr>cache := c2\<rparr>)"
      by (rule loop_goes_on) (use c2(1) t in auto)
    have 3: "?step (?s1\<lparr>cache := c2\<rparr>) (t, EvRCheck t) = Some ?s3"
      using False t c2 idle(1) by (simp add: ev ep10_accept_def ep10_may_copy_def and_one_odd)
    have "run ?step s ((t, EvRBegin t) # map (Pair t) (map (EvRField t) [0..<len]) @ [(t, EvRCheck t)]) = Some ?s3"
      by (simp only: run.simps run_append 1 2 3 option.case)
    then have "reaches ?step (sq_idle len) s ?s3" by (rule reachesI) (use q c2 in \<open>auto simp: sq_idle_def\<close>)
    then show ?thesis by (intro exI [of _ ?s3]) simp
  qed
qed

lemma sq_loop_completes:
  assumes "\<And>t i. length (entry t i) = length v"
  shows "\<exists>sched b. RunRouteLoop Ep10RouteCache_step sq_kind sq_who writes entry intact (sq_init 0 v) m n sched = Some b"
proof -
  have "solo_trial (route_loop_step Ep10RouteCache_step sq_kind sq_who writes entry intact m n) (sq_idle (length v)) m n"
    by unfold_locales (rule sq_solo_op [OF _ _ _ assms])
  moreover have "sq_idle (length v) (route_trial_init (sq_init 0 v))"
    by (simp add: sq_idle_def route_trial_init_def sq_init_def)
  ultimately show ?thesis by (rule loop_completes)
qed

lemma gc_trial_completes:
  assumes "\<And>t i. length (entry t i) = length v"
  shows "\<exists>sched b. RunRouteCacheTrial (gc_step excl) gc_kind gc_who entry intact (gc_init v) m n sched = Some b"
  unfolding RunRouteCacheTrial_def by (rule gc_loop_completes [OF assms])

lemma sq_trial_completes:
  assumes "\<And>t i. length (entry t i) = length v"
  shows "\<exists>sched b. RunRouteCacheTrial Ep10RouteCache_step sq_kind sq_who entry intact (sq_init 0 v) m n sched = Some b"
  unfolding RunRouteCacheTrial_def by (rule sq_loop_completes [OF assms])

section \<open>SeqlockRouteCache of locks_under_the_hood.h\<close>

fun rc_who :: "'a rc_event \<Rightarrow> tid option" where
  "rc_who (WrLoad t new) = Some t"
| "rc_who (WrOpen t) = Some t"
| "rc_who (WrField t i) = Some t"
| "rc_who (WrClose t) = Some t"
| "rc_who (RdCall t fresh) = Some t"
| "rc_who (RdSeq0 t) = Some t"
| "rc_who (RdField t i) = Some t"
| "rc_who (RdSeq1 t) = Some t"

definition rc_read_result :: "'a route_cache \<Rightarrow> tid \<Rightarrow> 'a list action" where
  "rc_read_result s t = (case rreaders s t of RRet v \<Rightarrow> FinishRead v | _ \<Rightarrow> Continue)"

fun rc_kind :: "'a route_cache \<Rightarrow> 'a rc_event \<Rightarrow> 'a route_cache \<Rightarrow> 'a list action" where
  "rc_kind s (WrLoad t new) s' = StartUpdate new"
| "rc_kind s (WrClose t) s' = FinishUpdate"
| "rc_kind s (RdCall t fresh) s' = StartRead"
| "rc_kind s (RdSeq0 t) s' = rc_read_result s' t"
| "rc_kind s (RdSeq1 t) s' = rc_read_result s' t"
| "rc_kind s (WrOpen t) s' = Continue"
| "rc_kind s (WrField t i) s' = Continue"
| "rc_kind s (RdField t i) s' = Continue"

definition route_entry :: "tid \<Rightarrow> nat \<Rightarrow> u64 list" where
  "route_entry t i = route_fields (trial_entry (of_nat t) (of_nat i))"

abbreviation seqlock_trial :: "nat \<Rightarrow> nat \<Rightarrow> u64 route_cache route_trial \<Rightarrow> tid \<times> u64 rc_event \<Rightarrow> u64 route_cache route_trial option" where
  "seqlock_trial \<equiv> route_trial_step rc_step rc_kind rc_who route_entry tear_free"

text \<open>Between two operations, when no thread is inside one.\<close>

definition quiet :: "u64 route_cache route_trial \<Rightarrow> bool" where
  "quiet s \<longleftrightarrow> even (rseq (cache s)) \<and> length (rentry (cache s)) = 4
     \<and> (\<forall>t. rwriters (cache s) t = WOut \<and> (rreaders (cache s) t = ROut \<or> (\<exists>v. rreaders (cache s) t = RRet v)) \<and> \<not> updating s t)"

definition solo_read :: "tid \<Rightarrow> (tid \<times> u64 rc_event) list" where
  "solo_read t = map (Pair t) [RdCall t old_fields, RdSeq0 t, RdField t 0, RdField t 1, RdField t 2, RdField t 3, RdSeq1 t]"

definition solo_update :: "tid \<Rightarrow> u64 list \<Rightarrow> (tid \<times> u64 rc_event) list" where
  "solo_update t new = map (Pair t) [WrLoad t new, WrOpen t, WrField t 0, WrField t 1, WrField t 2, WrField t 3, WrClose t]"

lemma four_fields: "length xs = 4 \<Longrightarrow> \<exists>a b c d. xs = [a, b, c, d]"
  by (auto simp: length_Suc_conv numeral_eq_Suc)

lemma old_fields_length: "length old_fields = 4"
  by (simp add: old_fields_def route_fields_def)

lemma solo_read_run:
  assumes q: "quiet s" and t: "t < m" "round s t \<le> n" "round s t mod 100 \<noteq> 0"
  shows "run (seqlock_trial m n) s (solo_read t) = Some (s\<lparr>
      cache := (cache s)\<lparr>rreaders := (rreaders (cache s))(t := RRet (rentry (cache s)))\<rparr>,
      torn_detected := torn_detected s \<or> \<not> tear_free (rentry (cache s)), round := (round s)(t := round s t + 1)\<rparr>)"
proof -
  obtain a b c d where abcd: "rentry (cache s) = [a, b, c, d]" using q four_fields [of "rentry (cache s)"] by (auto simp: quiet_def)
  obtain w x y z where old: "old_fields = [w, x, y, z]" using four_fields [OF old_fields_length] by blast
  have "\<not> odd (rseq (cache s))" "rreaders (cache s) t = ROut \<or> (\<exists>v. rreaders (cache s) t = RRet v)" using q by (auto simp: quiet_def)
  then show ?thesis using t
    by (auto simp: solo_read_def route_trial_step_def route_loop_step_def hundredth_def Let_def rc_read_result_def abcd old and_one_odd upt_rec)
qed

lemma solo_update_run:
  assumes q: "quiet s" and t: "t < m" "round s t \<le> n" "round s t mod 100 = 0"
  shows "run (seqlock_trial m n) s (solo_update t (route_entry t (round s t))) = Some (s\<lparr>
      cache := (cache s)\<lparr>rseq := rseq (cache s) + 2, rentry := route_entry t (round s t), rwriters := (rwriters (cache s))(t := WOut)\<rparr>,
      updating := (updating s)(t := False), round := (round s)(t := round s t + 1)\<rparr>)"
proof -
  obtain a b c d where abcd: "rentry (cache s) = [a, b, c, d]" using q four_fields [of "rentry (cache s)"] by (auto simp: quiet_def)
  obtain w x y z where new: "route_entry t (round s t) = [w, x, y, z]" by (simp add: route_entry_def route_fields_def)
  have "rwriters (cache s) t = WOut" "\<not> updating s t" using q by (auto simp: quiet_def)
  then show ?thesis using t
    by (auto simp: solo_update_def route_trial_step_def route_loop_step_def hundredth_def Let_def abcd new upt_rec)
qed

lemma seqlock_solo_op:
  assumes q: "quiet s" and t: "t < m" "round s t \<le> n"
  shows "\<exists>s'. reaches (seqlock_trial m n) quiet s s' \<and> round s' = (round s)(t := round s t + 1)"
proof (cases "round s t mod 100 = 0")
  case True
  have len: "length (route_entry t (round s t)) = 4" by (simp add: route_entry_def route_fields_def)
  show ?thesis
    by (rule exI, rule conjI, rule reachesI [OF solo_update_run [OF q t True]]) (use q len in \<open>auto simp: quiet_def\<close>)
next
  case False
  show ?thesis
    by (rule exI, rule conjI, rule reachesI [OF solo_read_run [OF q t False]]) (use q in \<open>auto simp: quiet_def\<close>)
qed

interpretation seqlock_solo: solo_trial "seqlock_trial m n" quiet m n for m n
  by unfold_locales (rule seqlock_solo_op)

lemma first_reads:
  assumes "1 < m" and "100 \<le> n" and "d \<le> 99"
  shows "\<exists>s. reaches (seqlock_trial m n) quiet (route_trial_init (rc_init old_fields)) s
    \<and> rentry (cache s) = old_fields \<and> round s = (\<lambda>_. 1)(0 := 1 + d)"
  using assms(3)
proof (induction d)
  case 0
  let ?s = "route_trial_init (rc_init old_fields)"
  have "quiet ?s" by (simp add: quiet_def route_trial_init_def rc_init_def old_fields_length)
  then show ?case using reaches_refl [of quiet ?s] by (intro exI [of _ ?s]) (auto simp: route_trial_init_def rc_init_def)
next
  case (Suc d)
  then have "d \<le> 99" by simp
  then obtain s where 1: "reaches (seqlock_trial m n) quiet (route_trial_init (rc_init old_fields)) s" "rentry (cache s) = old_fields"
    "round s = (\<lambda>_. 1)(0 := 1 + d)" using Suc.IH by blast
  have i: "round s 0 \<le> n" "round s 0 mod 100 \<noteq> 0" "0 < m" using Suc.prems assms(1,2) 1(3) by auto
  note run = solo_read_run [OF reaches_idle [OF 1(1)] i(3,1,2)]
  show ?case
    by (rule exI, rule conjI, rule reaches_trans [OF 1(1)], rule reachesI [OF run])
      (use 1 reaches_idle [OF 1(1)] in \<open>auto simp: quiet_def\<close>)
qed

text \<open>The read of thread 1 that meets the first update of thread 0.\<close>

definition torn_round :: "(tid \<times> u64 rc_event) list" where
  "torn_round =
     [(1, RdCall 1 old_fields), (1, RdSeq0 1), (0, WrLoad 0 (route_entry 0 100)), (0, WrOpen 0), (0, WrField 0 0),
      (1, RdField 1 0), (1, RdField 1 1), (1, RdField 1 2), (1, RdField 1 3), (1, RdSeq1 1), (1, RdSeq0 1),
      (0, WrField 0 1), (0, WrField 0 2), (0, WrField 0 3), (0, WrClose 0)]"

lemma torn_round_run:
  assumes q: "quiet s" and ent: "rentry (cache s) = old_fields" and r: "round s = (\<lambda>_. 1)(0 := 100)" and m: "1 < m" "100 \<le> n"
  shows "\<exists>s'. run (seqlock_trial m n) s torn_round = Some s' \<and> quiet s' \<and> torn_detected s' \<and> (\<forall>t. round s' t \<le> n + 1)"
proof -
  have old: "old_fields = [0x0A000001, 250, 100, 0x0A000001 XOR 250 XOR 100]"
    by (simp add: old_fields_def route_fields_def default_entry_def)
  have new: "route_entry 0 100 = [0x0A000065, 250, 200, 0x0A000065 XOR 250 XOR 200]"
    by (simp add: route_entry_def route_fields_def trial_entry_def Let_def)
  have idle: "\<not> odd (rseq (cache s))" "rwriters (cache s) 0 = WOut" "\<not> updating s 0"
    "rreaders (cache s) 1 = ROut \<or> (\<exists>v. rreaders (cache s) 1 = RRet v)"
    using q by (auto simp: quiet_def)
  have torn: "\<not> tear_free [0x0A000065, 250, 100, 0x0A000001 XOR 250 XOR 100]" by (simp add: tear_free_def)
  note ev = torn_round_def route_trial_step_def route_loop_step_def hundredth_def Let_def rc_read_result_def ent old new r and_one_odd upt_rec
  have run: "\<exists>s'. run (seqlock_trial m n) s torn_round = Some s' \<and> torn_detected s' \<and> even (rseq (cache s'))
      \<and> length (rentry (cache s')) = 4 \<and> updating s' = (updating s)(0 := False) \<and> round s' = (\<lambda>_. 1)(1 := 2, 0 := 101)
      \<and> rwriters (cache s') = (rwriters (cache s))(0 := WOut)
      \<and> rreaders (cache s') = (rreaders (cache s))(1 := RRet [0x0A000065, 250, 100, 0x0A000001 XOR 250 XOR 100])"
    using idle m torn by (auto simp: ev numeral_2_eq_2)
  then show ?thesis using q m by (fastforce simp: quiet_def)
qed

lemma SeqlockRouteCache_trial_fails:
  assumes m: "2 \<le> m" and n: "100 \<le> n"
  shows "\<exists>sched. RunRouteCacheTrial rc_step rc_kind rc_who route_entry tear_free (rc_init old_fields) m n sched = Some False"
proof -
  obtain s where 1: "reaches (seqlock_trial m n) quiet (route_trial_init (rc_init old_fields)) s" "rentry (cache s) = old_fields"
    "round s = (\<lambda>_. 1)(0 := 100)"
    using first_reads [of m n 99] m n by auto
  obtain s1 where 2: "run (seqlock_trial m n) s torn_round = Some s1" "quiet s1" "torn_detected s1" "\<And>t. round s1 t \<le> n + 1"
    using torn_round_run [OF reaches_idle [OF 1(1)] 1(2,3), of m n] m n by auto
  have 3: "reaches (seqlock_trial m n) quiet s s1" by (rule reachesI [where idle = quiet, OF 2(1,2)]) (rule 2(3))
  obtain s2 where 4: "reaches (seqlock_trial m n) quiet s1 s2" "\<forall>t. round s2 t = (if t < m then n + 1 else round s1 t)"
    using seqlock_solo.finish_threads [OF 2(2,4), of m m] by auto
  obtain sched where "run (seqlock_trial m n) (route_trial_init (rc_init old_fields)) sched = Some s2"
    using reaches_trans [OF reaches_trans [OF 1(1) 3] 4(1)] unfolding reaches_def by blast
  moreover have "torn_detected s2" using 4(1) 2(3) by (simp add: reaches_def)
  ultimately show ?thesis
    using 4(2) by (intro exI [of _ sched]) (simp add: RunRouteCacheTrial_def RunRouteLoop_def list_all_iff flip: route_trial_step_def)
qed

lemma loop_unfinished:
  assumes "0 < m" and "0 < n"
  shows "RunRouteLoop step kind who writes entry intact c m n [] = None"
  using assms by (auto simp: RunRouteLoop_def route_trial_init_def list_all_iff)

lemma unfinished:
  assumes "0 < m" and "0 < n"
  shows "RunRouteCacheTrial step kind who entry intact c m n [] = None"
  unfolding RunRouteCacheTrial_def by (rule loop_unfinished [OF assms])

lemma always_passes:
  assumes "f [] = None" and "\<And>sched. f sched \<in> {None, Some True}" and "\<exists>sched b. f sched = Some b"
  shows "range f = {None, Some True}"
proof -
  obtain sched where "f sched = Some True" using assms(2,3) by (metis empty_iff insertE option.distinct(1))
  then have "Some True \<in> range f" by (metis rangeI)
  moreover have "None \<in> range f" by (metis assms(1) rangeI)
  moreover have "range f \<subseteq> {None, Some True}" by (rule image_subsetI) (rule assms(2))
  ultimately show ?thesis by blast
qed

lemma route_entry_length: "length (route_entry t i) = length old_fields"
  by (simp add: route_entry_def route_fields_def old_fields_def)

lemma route_entry_intact: "tear_free (route_entry t i)" "tear_free old_fields"
  by (simp_all add: route_entry_def old_fields_def)

section \<open>Properties\<close>

text \<open>
  C23. The verdict of the routing-cache trial. With the caches that take a mutex, and with the episode 10 seqlock
  whose writers take one, no interleaving of any number of threads makes the trial report a torn entry (for the
  seqlock, as long as its counter does not wrap), and each trial has a run to the end. With \<open>SeqlockRouteCache\<close>
  of the header there is a run that does report one, for every trial of at least two threads and a hundred
  operations.
\<close>

theorem RunRouteCacheTrial_verdicts:
  assumes "m * n < 2 ^ 63" and "2 \<le> m" and "100 \<le> n"
  shows "range (RunRouteCacheTrial SharedMutexRouteCache_step gc_kind gc_who route_entry tear_free (gc_init old_fields) m n)
      = {None, Some True}
    \<and> range (RunRouteCacheTrial MutexRouteCache_step gc_kind gc_who route_entry tear_free (gc_init old_fields) m n) = {None, Some True}
    \<and> range (RunRouteCacheTrial Ep10RouteCache_step sq_kind sq_who route_entry tear_free (sq_init 0 old_fields) m n)
      = {None, Some True}
    \<and> Some False \<in> range (RunRouteCacheTrial rc_step rc_kind rc_who route_entry tear_free (rc_init old_fields) m n)"
  unfolding SharedMutexRouteCache_step_def MutexRouteCache_step_def
proof (intro conjI)
  have pos: "0 < m" "0 < n" using assms(2,3) by simp_all
  have gc: "range (RunRouteCacheTrial (gc_step excl) gc_kind gc_who route_entry tear_free (gc_init old_fields) m n) = {None, Some True}" for excl
    by (rule always_passes) (rule unfinished [OF pos] gc_trial.trial_passes [OF route_entry_intact assms(1)]
        gc_trial_completes [OF route_entry_length])+
  show "range (RunRouteCacheTrial (gc_step False) gc_kind gc_who route_entry tear_free (gc_init old_fields) m n) = {None, Some True}"
    "range (RunRouteCacheTrial (gc_step True) gc_kind gc_who route_entry tear_free (gc_init old_fields) m n) = {None, Some True}"
    by (rule gc)+
  show "range (RunRouteCacheTrial Ep10RouteCache_step sq_kind sq_who route_entry tear_free (sq_init 0 old_fields) m n) = {None, Some True}"
    by (rule always_passes) (rule unfinished [OF pos] ep10_trial.trial_passes [OF route_entry_intact assms(1)]
        sq_trial_completes [OF route_entry_length])+
  show "Some False \<in> range (RunRouteCacheTrial rc_step rc_kind rc_who route_entry tear_free (rc_init old_fields) m n)"
    using SeqlockRouteCache_trial_fails [OF assms(2,3)] by (metis rangeI)
qed

theorem RunRouteCacheTrial_verdicts_witness:
  "\<exists>sched. RunRouteCacheTrial rc_step rc_kind rc_who route_entry tear_free (rc_init old_fields) 16 50000 sched = Some False"
proof -
  have "Some False \<in> range (RunRouteCacheTrial rc_step rc_kind rc_who route_entry tear_free (rc_init old_fields) 16 50000)"
    using RunRouteCacheTrial_verdicts [of 16 50000] by simp
  then show ?thesis by (metis rangeE)
qed

end
