(* ===== verification/Ep10.thy ===== *)
theory Ep10
  imports RouteTrial LockTrials ShardedMap "HOL-Library.Monad_Syntax"
begin

text \<open>
  The challenge program of episode 10, whose routing entry, seqlock, \<open>TTASPauseLock\<close> and sharded map differ
  from \<open>common/locks_under_the_hood\<close>, and the exit code of both challenge programs as a function of what the
  schedules of their nine trials do. \<open>None\<close> is a run that does not reach the joins of a trial.
\<close>

section \<open>The episode 10 trials\<close>

record Ep10RouteEntry =
  upstream_ipv4 :: u32
  port :: u16
  weight16 :: u16
  version_epoch :: u64
  quota_bytes :: u64
  flags :: u64

definition ep10_default_entry :: Ep10RouteEntry where
  "ep10_default_entry = \<lparr>upstream_ipv4 = 0x0A000001, port = 8080, weight16 = 100, version_epoch = 1, quota_bytes = 1024, flags = 0\<rparr>"

definition ep10_fields :: "Ep10RouteEntry \<Rightarrow> u64 list" where
  "ep10_fields e = [ucast (upstream_ipv4 e), ucast (port e), ucast (weight16 e), version_epoch e, quota_bytes e, flags e]"

definition ep10_entry :: "tid \<Rightarrow> nat \<Rightarrow> Ep10RouteEntry" where
  "ep10_entry t i =
     (let ver = push_bit 32 (of_nat t) OR of_nat i
      in \<lparr>upstream_ipv4 = 0x0A000001, port = 8080, weight16 = 1, version_epoch = ver, quota_bytes = ver * 1024, flags = 0\<rparr>)"

definition ep10_entry_fields :: "tid \<Rightarrow> nat \<Rightarrow> u64 list" where
  "ep10_entry_fields t i = ep10_fields (ep10_entry t i)"

definition ep10_intact :: "u64 list \<Rightarrow> bool" where
  "ep10_intact snap \<longleftrightarrow> snap ! 4 = snap ! 3 * 1024"

text \<open>\<open>RunShardedMapTrial\<close>: every thread updates the shards of its own key sequence, under the mutex of the shard.\<close>

definition Ep10RunShardedMapTrial :: "nat \<Rightarrow> nat \<Rightarrow> tid list \<Rightarrow> (u64 \<times> bool) option" where
  "Ep10RunShardedMapTrial num_threads ops_per_thread sched =
     (if (\<forall>t \<in> set sched. t < num_threads) \<and> list_all (\<lambda>t. count_list sched t = ops_per_thread) [0..<num_threads]
      then let (keys, m) =
             fold (\<lambda>t (keys, m). let key = trial_key (keys ! t) in (keys[t := key], Ep10Update 64 key 1 m))
               sched (map (\<lambda>t. trial_seed (of_nat t)) [0..<num_threads], replicate 64 initial_state);
             total_seq = Ep10TotalSequence m
           in Some (total_seq, total_seq = of_nat num_threads * of_nat ops_per_thread)
      else None)"

section \<open>The two challenge programs\<close>

text \<open>The schedules of the nine trials.\<close>

record ('r, 'l) schedules =
  shared_sched :: "(tid \<times> u64 gevent) list"
  mutex_sched :: "(tid \<times> u64 gevent) list"
  seqlock_sched :: "(tid \<times> 'r) list"
  tas16_sched :: "spin_event trial_event list"
  ttas16_sched :: "'l trial_event list"
  sharded16_sched :: "tid list"
  ttas32_sched :: "'l trial_event list"
  futex32_sched :: "futex_event trial_event list"
  sharded32_sched :: "tid list"

text \<open>
  \<open>main\<close> runs the trials one after the other and returns 0 when the route trials found no torn entry and the lock
  and map trials found their invariants kept (\<open>all_valid\<close>).
\<close>

definition challenge_main :: "bool option \<Rightarrow> bool option \<Rightarrow> bool option \<Rightarrow> (u64 \<times> bool) option \<Rightarrow> (u64 \<times> bool) option
    \<Rightarrow> (u64 \<times> bool) option \<Rightarrow> (u64 \<times> bool) option \<Rightarrow> (u64 \<times> bool) option \<Rightarrow> (u64 \<times> bool) option \<Rightarrow> int option" where
  "challenge_main shared_trial mutex_trial seqlock_verdict tas16 ttas16 sharded16 ttas32 futex32 sharded32 = do {
     rw_shared \<leftarrow> shared_trial;
     rw_mutex \<leftarrow> mutex_trial;
     rw_seqlock \<leftarrow> seqlock_verdict;
     tas_16 \<leftarrow> tas16;
     ttas_16 \<leftarrow> ttas16;
     sharded_16 \<leftarrow> sharded16;
     ttas_32 \<leftarrow> ttas32;
     futex_32 \<leftarrow> futex32;
     sharded_32 \<leftarrow> sharded32;
     let all_valid = rw_shared \<and> rw_mutex \<and> rw_seqlock \<and> snd tas_16 \<and> snd ttas_16 \<and> snd sharded_16
       \<and> snd ttas_32 \<and> snd futex_32 \<and> snd sharded_32;
     Some (if all_valid then 0 else 1)
   }"

definition Ep10_challenge :: "(u64 sq_event, spin_event) schedules \<Rightarrow> int option" where
  "Ep10_challenge s = challenge_main
     (RunRouteCacheTrial SharedMutexRouteCache_step gc_kind gc_who ep10_entry_fields ep10_intact
       (gc_init (ep10_fields ep10_default_entry)) 16 50000 (shared_sched s))
     (RunRouteCacheTrial MutexRouteCache_step gc_kind gc_who ep10_entry_fields ep10_intact
       (gc_init (ep10_fields ep10_default_entry)) 16 50000 (mutex_sched s))
     (RunRouteCacheTrial Ep10RouteCache_step sq_kind sq_who ep10_entry_fields ep10_intact
       (sq_init 0 (ep10_fields ep10_default_entry)) 16 50000 (seqlock_sched s))
     (RunLockTrial NaiveTASLock_step spin_holds spin_releases (spin_init False) 16 20000 (tas16_sched s))
     (RunLockTrial Ep10TTASPauseLock_step spin_holds spin_releases (spin_init False) 16 20000 (ttas16_sched s))
     (Ep10RunShardedMapTrial 16 20000 (sharded16_sched s))
     (RunLockTrial Ep10TTASPauseLock_step spin_holds spin_releases (spin_init False) 32 20000 (ttas32_sched s))
     (RunLockTrial AdaptiveFutexMutex_step futex_holds futex_releases futex_init 32 20000 (futex32_sched s))
     (Ep10RunShardedMapTrial 32 20000 (sharded32_sched s))"

definition locks_challenge :: "(u64 rc_event, spin_event) schedules \<Rightarrow> int option" where
  "locks_challenge s = challenge_main
     (RunRouteCacheTrial SharedMutexRouteCache_step gc_kind gc_who route_entry tear_free (gc_init old_fields) 16 50000 (shared_sched s))
     (RunRouteCacheTrial MutexRouteCache_step gc_kind gc_who route_entry tear_free (gc_init old_fields) 16 50000 (mutex_sched s))
     (RunRouteCacheTrial rc_step rc_kind rc_who route_entry tear_free (rc_init old_fields) 16 50000 (seqlock_sched s))
     (RunLockTrial NaiveTASLock_step spin_holds spin_releases (spin_init False) 16 20000 (tas16_sched s))
     (RunLockTrial TTASPauseLock_step spin_holds spin_releases (spin_init False) 16 20000 (ttas16_sched s))
     (RunShardedMapTrial 64 16 20000 (sharded16_sched s))
     (RunLockTrial TTASPauseLock_step spin_holds spin_releases (spin_init False) 32 20000 (ttas32_sched s))
     (RunLockTrial AdaptiveFutexMutex_step futex_holds futex_releases futex_init 32 20000 (futex32_sched s))
     (RunShardedMapTrial 64 32 20000 (sharded32_sched s))"

section \<open>Their verdicts\<close>

lemma ep10_intact_entries: "ep10_intact (ep10_entry_fields t i)" "ep10_intact (ep10_fields ep10_default_entry)"
  by (simp_all add: ep10_intact_def ep10_entry_fields_def ep10_fields_def ep10_entry_def ep10_default_entry_def Let_def)

lemma ep10_fold:
  "length ps = 64 \<Longrightarrow> Ep10TotalSequence (snd (fold (\<lambda>t (keys, m). let key = trial_key (keys ! t)
      in (keys[t := key], Ep10Update 64 key 1 m)) sched (keys, ps))) = Ep10TotalSequence ps + of_nat (length sched)"
proof (induction sched arbitrary: keys ps)
  case (Cons t sched)
  have "pow2_assert (64 :: u64)" by (simp add: pow2_assert_def)
  then have "Ep10TotalSequence (Ep10Update 64 k 1 ps) = Ep10TotalSequence ps + 1" "length (Ep10Update 64 k 1 ps) = 64" for k
    using Ep10Update_spec [of 64 ps k 1] Cons.prems by simp_all
  then show ?case using Cons.IH by (simp add: Let_def)
qed simp

lemma Ep10RunShardedMapTrial_ok: "Ep10RunShardedMapTrial m n sched = Some r \<Longrightarrow> snd r"
proof -
  assume r: "Ep10RunShardedMapTrial m n sched = Some r"
  then have "length sched = m * n" by (intro length_by_counts) (auto simp: Ep10RunShardedMapTrial_def split: if_splits)
  moreover have "Ep10TotalSequence (replicate 64 initial_state) = 0"
    by (simp add: Ep10TotalSequence_def fold_sum initial_state_def map_replicate_const sum_list_replicate)
  ultimately show "snd r"
    using r ep10_fold [of "replicate 64 initial_state" sched]
    by (auto simp: Ep10RunShardedMapTrial_def Let_def case_prod_beta split: if_splits)
qed

lemma sharded_run:
  "RunShardedMapTrial 64 m n (concat (map (\<lambda>t. replicate n t) [0..<m])) \<noteq> None"
  "Ep10RunShardedMapTrial m n (concat (map (\<lambda>t. replicate n t) [0..<m])) \<noteq> None"
proof -
  have count: "count_list (concat (map (\<lambda>t. replicate n t) [0..<k])) t = (if t < k then n else 0)" for k t :: nat
  proof -
    have "count_list (replicate n u) t = (if u = t then n else 0)" for u by (induction n) auto
    then show ?thesis by (induction k) auto
  qed
  have "\<forall>t \<in> set (concat (map (\<lambda>t. replicate n t) [0..<m])). t < m" by auto
  then show "RunShardedMapTrial 64 m n (concat (map (\<lambda>t. replicate n t) [0..<m])) \<noteq> None"
    "Ep10RunShardedMapTrial m n (concat (map (\<lambda>t. replicate n t) [0..<m])) \<noteq> None"
    by (simp_all add: RunShardedMapTrial_def Ep10RunShardedMapTrial_def count list_all_iff Let_def case_prod_beta)
qed

lemma RunShardedMapTrial_ok: "RunShardedMapTrial 64 m n sched = Some r \<Longrightarrow> snd r"
  using ShardedMap_trial [of 64 m n sched] by (auto simp: pow2_assert_def)

text \<open>The outcomes of the trials of the two programs.\<close>

lemma route_trials:
  assumes "\<And>t i. length (entry t i) = length v" and "\<And>t i. intact (entry t i)" and "intact v"
  shows "range (RunRouteCacheTrial SharedMutexRouteCache_step gc_kind gc_who entry intact (gc_init v) 16 50000) = {None, Some True}"
    "range (RunRouteCacheTrial MutexRouteCache_step gc_kind gc_who entry intact (gc_init v) 16 50000) = {None, Some True}"
    "range (RunRouteCacheTrial Ep10RouteCache_step sq_kind sq_who entry intact (sq_init 0 v) 16 50000) = {None, Some True}"
  unfolding SharedMutexRouteCache_step_def MutexRouteCache_step_def
  by (rule always_passes; (rule unfinished gc_trial.trial_passes [OF assms(2,3)] ep10_trial.trial_passes [OF assms(2,3)]
      gc_trial_completes [OF assms(1)] sq_trial_completes [OF assms(1)]; simp))+

lemma lock_trials:
  assumes "0 < m" and "0 < n"
  shows "range (RunLockTrial NaiveTASLock_step spin_holds spin_releases (spin_init False) m n) = {None, Some (of_nat m * of_nat n, True)}"
    "range (RunLockTrial TTASPauseLock_step spin_holds spin_releases (spin_init False) m n) = {None, Some (of_nat m * of_nat n, True)}"
    "range (RunLockTrial Ep10TTASPauseLock_step spin_holds spin_releases (spin_init False) m n) = {None, Some (of_nat m * of_nat n, True)}"
    "range (RunLockTrial AdaptiveFutexMutex_step futex_holds futex_releases futex_init m n) = {None, Some (of_nat m * of_nat n, True)}"
  by (rule bool_spin_range [OF _ assms] futex_range [OF _ assms]; simp)+

lemma map_trials:
  "\<exists>sched r. RunShardedMapTrial 64 m n sched = Some r" "\<exists>sched r. Ep10RunShardedMapTrial m n sched = Some r"
  using sharded_run by blast+

lemma route_entry_ok: "length (ep10_entry_fields t i) = length (ep10_fields ep10_default_entry)"
  by (simp add: ep10_entry_fields_def ep10_fields_def)

lemma in_range: "range f = A \<Longrightarrow> f x \<in> A"
  by blast

lemma challenge_main_cases:
  assumes "r1 \<in> {None, Some True}" and "r2 \<in> {None, Some True}"
    and "l1 \<in> {None, Some (a1, True)}" and "l2 \<in> {None, Some (a2, True)}" and "l4 \<in> {None, Some (a4, True)}"
    and "l5 \<in> {None, Some (a5, True)}" and "\<And>r. l3 = Some r \<Longrightarrow> snd r" and "\<And>r. l6 = Some r \<Longrightarrow> snd r"
  shows "challenge_main r1 r2 r3 l1 l2 l3 l4 l5 l6 \<in> {None, map_option (\<lambda>ok. if ok then 0 else 1) r3}"
  using assms by (cases r3; cases l3; cases l6) (auto simp: challenge_main_def)

lemma challenge_main_runs:
  assumes "r1 = Some True" and "r2 = Some True" and "r3 = Some b"
    and "l1 = Some (a1, True)" and "l2 = Some (a2, True)" and "l4 = Some (a4, True)" and "l5 = Some (a5, True)"
    and "l3 = Some r" and "snd r" and "l6 = Some r'" and "snd r'"
  shows "challenge_main r1 r2 r3 l1 l2 l3 l4 l5 l6 = Some (if b then 0 else 1)"
  using assms by (simp add: challenge_main_def)

lemma Ep10_challenge_passes: "Ep10_challenge s \<in> {None, Some 0}"
proof -
  note route = route_trials [of ep10_entry_fields "ep10_fields ep10_default_entry" ep10_intact, OF route_entry_ok ep10_intact_entries]
  have 3: "RunRouteCacheTrial Ep10RouteCache_step sq_kind sq_who ep10_entry_fields ep10_intact
       (sq_init 0 (ep10_fields ep10_default_entry)) 16 50000 (seqlock_sched s) \<in> {None, Some True}" by (rule in_range [OF route(3)])
  have "Ep10_challenge s \<in> {None, map_option (\<lambda>ok. if ok then 0 else 1) (RunRouteCacheTrial Ep10RouteCache_step sq_kind sq_who
       ep10_entry_fields ep10_intact (sq_init 0 (ep10_fields ep10_default_entry)) 16 50000 (seqlock_sched s))}"
    unfolding Ep10_challenge_def
    by (rule challenge_main_cases) ((rule in_range, rule route lock_trials; simp) | erule Ep10RunShardedMapTrial_ok)+
  then show ?thesis using 3 by auto
qed

lemma locks_challenge_verdict:
  "locks_challenge s \<in> {None, map_option (\<lambda>ok. if ok then 0 else 1)
     (RunRouteCacheTrial rc_step rc_kind rc_who route_entry tear_free (rc_init old_fields) 16 50000 (seqlock_sched s))}"
proof -
  note route = route_trials [of route_entry old_fields tear_free, OF route_entry_length route_entry_intact]
  show ?thesis
    unfolding locks_challenge_def
    by (rule challenge_main_cases) ((rule in_range, rule route lock_trials; simp) | erule RunShardedMapTrial_ok)+
qed

text \<open>A run of every trial to its end, as one record of schedules.\<close>

lemma reached: "range f = {None, Some y} \<Longrightarrow> \<exists>x. f x = Some y"
  by (metis insertI1 insertI2 rangeE)

lemma Ep10_challenge_completes: "\<exists>s. Ep10_challenge s = Some 0"
proof -
  note route = route_trials [of ep10_entry_fields "ep10_fields ep10_default_entry" ep10_intact, OF route_entry_ok ep10_intact_entries]
  obtain s1 s2 s3 where r: "RunRouteCacheTrial SharedMutexRouteCache_step gc_kind gc_who ep10_entry_fields ep10_intact
       (gc_init (ep10_fields ep10_default_entry)) 16 50000 s1 = Some True"
     "RunRouteCacheTrial MutexRouteCache_step gc_kind gc_who ep10_entry_fields ep10_intact
       (gc_init (ep10_fields ep10_default_entry)) 16 50000 s2 = Some True"
     "RunRouteCacheTrial Ep10RouteCache_step sq_kind sq_who ep10_entry_fields ep10_intact
       (sq_init 0 (ep10_fields ep10_default_entry)) 16 50000 s3 = Some True"
    using route [THEN reached] by blast
  obtain t1 t2 t4 t5 where l: "RunLockTrial NaiveTASLock_step spin_holds spin_releases (spin_init False) 16 20000 t1 = Some (of_nat 16 * of_nat 20000, True)"
     "RunLockTrial Ep10TTASPauseLock_step spin_holds spin_releases (spin_init False) 16 20000 t2 = Some (of_nat 16 * of_nat 20000, True)"
     "RunLockTrial Ep10TTASPauseLock_step spin_holds spin_releases (spin_init False) 32 20000 t4 = Some (of_nat 32 * of_nat 20000, True)"
     "RunLockTrial AdaptiveFutexMutex_step futex_holds futex_releases futex_init 32 20000 t5 = Some (of_nat 32 * of_nat 20000, True)"
    using reached [OF lock_trials(1) [of 16 20000]] reached [OF lock_trials(3) [of 16 20000]] reached [OF lock_trials(3) [of 32 20000]]
      reached [OF lock_trials(4) [of 32 20000]] by auto
  obtain m1 m2 a1 a2 where m: "Ep10RunShardedMapTrial 16 20000 m1 = Some a1" "Ep10RunShardedMapTrial 32 20000 m2 = Some a2"
    using map_trials(2) by blast
  let ?s = "\<lparr>shared_sched = s1, mutex_sched = s2, seqlock_sched = s3, tas16_sched = t1, ttas16_sched = t2, sharded16_sched = m1,
    ttas32_sched = t4, futex32_sched = t5, sharded32_sched = m2\<rparr>"
  have "Ep10_challenge ?s = Some (if True then 0 else 1)"
    unfolding Ep10_challenge_def schedules.simps
    by (rule challenge_main_runs [OF r l m(1) Ep10RunShardedMapTrial_ok [OF m(1)] m(2) Ep10RunShardedMapTrial_ok [OF m(2)]])
  then show ?thesis by (intro exI [of _ ?s]) simp
qed

lemma locks_challenge_fails: "\<exists>s. locks_challenge s = Some 1"
proof -
  note route = route_trials [of route_entry old_fields tear_free, OF route_entry_length route_entry_intact]
  obtain s1 s2 where r: "RunRouteCacheTrial SharedMutexRouteCache_step gc_kind gc_who route_entry tear_free (gc_init old_fields) 16 50000 s1 = Some True"
     "RunRouteCacheTrial MutexRouteCache_step gc_kind gc_who route_entry tear_free (gc_init old_fields) 16 50000 s2 = Some True"
    using route(1,2) [THEN reached] by blast
  obtain s3 where s3: "RunRouteCacheTrial rc_step rc_kind rc_who route_entry tear_free (rc_init old_fields) 16 50000 s3 = Some False"
    using SeqlockRouteCache_trial_fails [of 16 50000] by auto
  obtain t1 t2 t4 t5 where l: "RunLockTrial NaiveTASLock_step spin_holds spin_releases (spin_init False) 16 20000 t1 = Some (of_nat 16 * of_nat 20000, True)"
     "RunLockTrial TTASPauseLock_step spin_holds spin_releases (spin_init False) 16 20000 t2 = Some (of_nat 16 * of_nat 20000, True)"
     "RunLockTrial TTASPauseLock_step spin_holds spin_releases (spin_init False) 32 20000 t4 = Some (of_nat 32 * of_nat 20000, True)"
     "RunLockTrial AdaptiveFutexMutex_step futex_holds futex_releases futex_init 32 20000 t5 = Some (of_nat 32 * of_nat 20000, True)"
    using reached [OF lock_trials(1) [of 16 20000]] reached [OF lock_trials(2) [of 16 20000]] reached [OF lock_trials(2) [of 32 20000]]
      reached [OF lock_trials(4) [of 32 20000]] by auto
  obtain m1 m2 a1 a2 where m: "RunShardedMapTrial 64 16 20000 m1 = Some a1" "RunShardedMapTrial 64 32 20000 m2 = Some a2"
    using map_trials(1) by blast
  let ?s = "\<lparr>shared_sched = s1, mutex_sched = s2, seqlock_sched = s3, tas16_sched = t1, ttas16_sched = t2, sharded16_sched = m1,
    ttas32_sched = t4, futex32_sched = t5, sharded32_sched = m2\<rparr>"
  have "locks_challenge ?s = Some (if False then 0 else 1)"
    unfolding locks_challenge_def schedules.simps
    by (rule challenge_main_runs [OF r s3 l m(1) RunShardedMapTrial_ok [OF m(1)] m(2) RunShardedMapTrial_ok [OF m(2)]])
  then show ?thesis by (intro exI [of _ ?s]) simp
qed

text \<open>
  C24. The exit codes of the two lock challenges. The episode 10 program returns 0 whenever its trials reach
  their joins, and they can: no interleaving makes it report a failure. The program over
  \<open>locks_under_the_hood.h\<close> returns what the trial of its \<open>SeqlockRouteCache\<close> says, all other trials pass, and
  there is an execution in which that trial detects a torn entry and the program returns 1.
\<close>

theorem lock_challenges_exit:
  "(Ep10_challenge s \<in> {None, Some 0}) \<and> (\<exists>s. Ep10_challenge s = Some 0)
   \<and> locks_challenge z \<in> {None, map_option (\<lambda>tear_free_ok. if tear_free_ok then 0 else 1)
       (RunRouteCacheTrial rc_step rc_kind rc_who route_entry tear_free (rc_init old_fields) 16 50000 (seqlock_sched z))}
   \<and> (\<exists>z. locks_challenge z = Some 1)"
  by (intro conjI Ep10_challenge_passes Ep10_challenge_completes locks_challenge_verdict locks_challenge_fails)

end
