(* ===== verification/Handoff.thy ===== *)
theory Handoff
  imports Litmus
begin

text \<open>
  \<open>RunProducerConsumerHandoff\<close> of the store-buffer challenge on x86-TSO, and the exit code of that program. The
  ring of 1024 slots is inlined in the two thread bodies, which differ from \<open>SpscRingBuffer\<close>: the indices are
  the loop counters, and a slot has two members that are stored one after the other.
\<close>

section \<open>The machine\<close>

text \<open>
  Stores of the producer wait in its buffer (\<open>StA\<close>, \<open>StB\<close> a member of a slot, \<open>StW\<close> the write index), those of the
  consumer are the read index. Neither thread loads what it stores, so its loads read memory. \<open>PWait i\<close> is the
  load of \<open>read_idx\<close> in the waiting loop of iteration \<open>i\<close>, \<open>CWait i\<close> that of \<open>write_idx\<close>.
\<close>

datatype pstore = StA nat u64 | StB nat u64 | StW u64

datatype handoff_ppc = PWait nat | PStA nat | PStB nat | PStW nat | PDone

datatype handoff_cpc = CWait nat | CLdA nat | CLdB nat u64 | CStR nat | CDone

record handoff =
  slot_a :: "nat \<Rightarrow> u64"
  slot_b :: "nat \<Rightarrow> u64"
  widx :: u64
  ridx :: u64
  pbuf :: "pstore list"
  cbuf :: "u64 list"
  ppc :: handoff_ppc
  cpc :: handoff_cpc
  csum :: u64

datatype handoff_event = Producer | Consumer | DrainProducer | DrainConsumer

definition ring_slot :: "nat \<Rightarrow> nat" where
  "ring_slot i = unat ((of_nat i - 1 :: u64) AND (1024 - 1))"

fun apply_store :: "pstore \<Rightarrow> handoff \<Rightarrow> handoff" where
  "apply_store (StA k v) s = s\<lparr>slot_a := (slot_a s)(k := v)\<rparr>"
| "apply_store (StB k v) s = s\<lparr>slot_b := (slot_b s)(k := v)\<rparr>"
| "apply_store (StW v) s = s\<lparr>widx := v\<rparr>"

text \<open>With \<open>seq_cst\<close> the store of an index is an \<open>xchg\<close>, which drains the buffer of its core.\<close>

definition drain_producer :: "handoff \<Rightarrow> handoff" where
  "drain_producer s = (fold apply_store (pbuf s) s)\<lparr>pbuf := []\<rparr>"

definition drain_consumer :: "handoff \<Rightarrow> handoff" where
  "drain_consumer s = (if cbuf s = [] then s else s\<lparr>ridx := last (cbuf s), cbuf := []\<rparr>)"

definition producer_move :: "bool \<Rightarrow> nat \<Rightarrow> handoff \<Rightarrow> handoff option" where
  "producer_move acquire_release messages s =
     (case ppc s of
        PWait i \<Rightarrow> Some (if of_nat i - 1 - ridx s \<ge> 1024 then s else s\<lparr>ppc := PStA i\<rparr>)
      | PStA i \<Rightarrow> Some (s\<lparr>pbuf := pbuf s @ [StA (ring_slot i) (of_nat i * 3)], ppc := PStB i\<rparr>)
      | PStB i \<Rightarrow> Some (s\<lparr>pbuf := pbuf s @ [StB (ring_slot i) (of_nat i XOR 0x5A5A5A5A)], ppc := PStW i\<rparr>)
      | PStW i \<Rightarrow>
          (let s' = s\<lparr>pbuf := pbuf s @ [StW (of_nat i)], ppc := (if i < messages then PWait (i + 1) else PDone)\<rparr>
           in Some (if acquire_release then s' else drain_producer s'))
      | PDone \<Rightarrow> None)"

definition consumer_move :: "bool \<Rightarrow> nat \<Rightarrow> handoff \<Rightarrow> handoff option" where
  "consumer_move acquire_release messages s =
     (case cpc s of
        CWait i \<Rightarrow> Some (if widx s < of_nat i then s else s\<lparr>cpc := CLdA i\<rparr>)
      | CLdA i \<Rightarrow> Some (s\<lparr>cpc := CLdB i (slot_a s (ring_slot i))\<rparr>)
      | CLdB i a \<Rightarrow> Some (s\<lparr>csum := csum s + (a XOR slot_b s (ring_slot i)), cpc := CStR i\<rparr>)
      | CStR i \<Rightarrow>
          (let s' = s\<lparr>cbuf := cbuf s @ [of_nat i], cpc := (if i < messages then CWait (i + 1) else CDone)\<rparr>
           in Some (if acquire_release then s' else drain_consumer s'))
      | CDone \<Rightarrow> None)"

fun handoff_step :: "bool \<Rightarrow> nat \<Rightarrow> handoff \<Rightarrow> handoff_event \<Rightarrow> handoff option" where
  "handoff_step acquire_release messages s Producer = producer_move acquire_release messages s"
| "handoff_step acquire_release messages s Consumer = consumer_move acquire_release messages s"
| "handoff_step acquire_release messages s DrainProducer =
     (case pbuf s of [] \<Rightarrow> None | b # bs \<Rightarrow> Some (apply_store b (s\<lparr>pbuf := bs\<rparr>)))"
| "handoff_step acquire_release messages s DrainConsumer =
     (case cbuf s of [] \<Rightarrow> None | r # rs \<Rightarrow> Some (s\<lparr>ridx := r, cbuf := rs\<rparr>))"

definition handoff_init :: "nat \<Rightarrow> handoff" where
  "handoff_init messages = \<lparr>slot_a = (\<lambda>_. 0), slot_b = (\<lambda>_. 0), widx = 0, ridx = 0, pbuf = [], cbuf = [],
     ppc = (if messages = 0 then PDone else PWait 1), cpc = (if messages = 0 then CDone else CWait 1), csum = 0\<rparr>"

text \<open>The checksum after both joins; \<open>None\<close> is a schedule that does not reach them.\<close>

definition RunProducerConsumerHandoff :: "bool \<Rightarrow> nat \<Rightarrow> handoff_event list \<Rightarrow> u64 option" where
  "RunProducerConsumerHandoff acquire_release messages es =
     (case run (handoff_step acquire_release messages) (handoff_init messages) es of
        None \<Rightarrow> None
      | Some s \<Rightarrow> if ppc s = PDone \<and> cpc s = CDone then Some (csum s) else None)"

section \<open>The invariant\<close>

text \<open>
  The stores of the producer are the sequence \<open>nth_store\<close>, three for every message. \<open>issued\<close> of them are out of
  the thread and the first \<open>d\<close> are in memory; the consumer has consumed \<open>q\<close> messages and the first \<open>r\<close> of its read
  indices are in memory. A message that is in memory and that the producer may not overwrite yet is intact.
\<close>

definition msg_a :: "nat \<Rightarrow> u64" where "msg_a i = of_nat i * 3"

definition msg_b :: "nat \<Rightarrow> u64" where "msg_b i = of_nat i XOR 0x5A5A5A5A"

definition nth_store :: "nat \<Rightarrow> pstore" where
  "nth_store j =
     (let i = j div 3 + 1
      in if j mod 3 = 0 then StA (ring_slot i) (msg_a i)
         else if j mod 3 = 1 then StB (ring_slot i) (msg_b i) else StW (of_nat i))"

fun issued :: "nat \<Rightarrow> handoff_ppc \<Rightarrow> nat" where
  "issued N (PWait i) = 3 * (i - 1)"
| "issued N (PStA i) = 3 * (i - 1)"
| "issued N (PStB i) = 3 * (i - 1) + 1"
| "issued N (PStW i) = 3 * (i - 1) + 2"
| "issued N PDone = 3 * N"

fun begun :: "nat \<Rightarrow> handoff_ppc \<Rightarrow> nat" where
  "begun N (PWait i) = i - 1"
| "begun N (PStA i) = i"
| "begun N (PStB i) = i"
| "begun N (PStW i) = i"
| "begun N PDone = N"

fun consumed :: "nat \<Rightarrow> handoff_cpc \<Rightarrow> nat" where
  "consumed N (CWait i) = i - 1"
| "consumed N (CLdA i) = i - 1"
| "consumed N (CLdB i a) = i - 1"
| "consumed N (CStR i) = i - 1"
| "consumed N CDone = N"

definition checksum :: "nat \<Rightarrow> u64" where
  "checksum n = (\<Sum>i = 1..n. msg_a i XOR msg_b i)"

fun ppc_ok :: "nat \<Rightarrow> handoff_ppc \<Rightarrow> bool" where
  "ppc_ok N (PWait i) = (1 \<le> i \<and> i \<le> N)"
| "ppc_ok N (PStA i) = (1 \<le> i \<and> i \<le> N)"
| "ppc_ok N (PStB i) = (1 \<le> i \<and> i \<le> N)"
| "ppc_ok N (PStW i) = (1 \<le> i \<and> i \<le> N)"
| "ppc_ok N PDone = True"

fun cpc_ok :: "nat \<Rightarrow> nat \<Rightarrow> u64 \<Rightarrow> handoff_cpc \<Rightarrow> bool" where
  "cpc_ok N p v (CWait i) = (1 \<le> i \<and> i \<le> N \<and> v = checksum (i - 1))"
| "cpc_ok N p v (CLdA i) = (1 \<le> i \<and> i \<le> N \<and> i \<le> p \<and> v = checksum (i - 1))"
| "cpc_ok N p v (CLdB i a) = (1 \<le> i \<and> i \<le> N \<and> i \<le> p \<and> v = checksum (i - 1) \<and> a = msg_a i)"
| "cpc_ok N p v (CStR i) = (1 \<le> i \<and> i \<le> N \<and> i \<le> p \<and> v = checksum i)"
| "cpc_ok N p v CDone = (N \<le> p \<and> v = checksum N)"

definition hand :: "nat \<Rightarrow> nat \<Rightarrow> nat \<Rightarrow> handoff \<Rightarrow> bool" where
  "hand N d r s \<longleftrightarrow> d \<le> issued N (ppc s) \<and> pbuf s = map nth_store [d..<issued N (ppc s)]
     \<and> r \<le> consumed N (cpc s) \<and> consumed N (cpc s) \<le> d div 3
     \<and> cbuf s = map of_nat [r + 1..<consumed N (cpc s) + 1]
     \<and> widx s = of_nat (d div 3) \<and> ridx s = of_nat r
     \<and> ppc_ok N (ppc s) \<and> begun N (ppc s) \<le> r + 1024 \<and> cpc_ok N (d div 3) (csum s) (cpc s)
     \<and> (\<forall>k. r < k \<and> 3 * (k - 1) < d \<longrightarrow> slot_a s (ring_slot k) = msg_a k)
     \<and> (\<forall>k. r < k \<and> 3 * (k - 1) + 1 < d \<longrightarrow> slot_b s (ring_slot k) = msg_b k)"

lemma ring_slot_mod:
  assumes "1 \<le> i" and "i < 2 ^ 64"
  shows "ring_slot i = (i - 1) mod 1024"
proof -
  obtain k where k: "i = Suc k" "k < 2 ^ 64" using assms by (cases i) auto
  then have "unat (of_nat k :: u64) = k" by (simp add: unsigned_of_nat take_bit_nat_eq_self)
  then show ?thesis using k(1) mask_is_mod [of 1024 "of_nat k"] by (simp add: ring_slot_def pow2_assert_def)
qed

lemma ring_slot_apart:
  assumes "r < k" and "k < j" and "j \<le> r + 1024" and "j < 2 ^ 64"
  shows "ring_slot k \<noteq> ring_slot j"
proof
  assume eq: "ring_slot k = ring_slot j"
  have "(r + (k - 1 - r)) mod 1024 = (r + (j - 1 - r)) mod 1024"
    using eq assms by (simp add: ring_slot_mod)
  then have "k - 1 - r = j - 1 - r" by (rule mod_window_inj [rotated 2]) (use assms in auto)
  then show False using assms by simp
qed

lemma issued_begun: "ppc_ok N p \<Longrightarrow> issued N p \<le> 3 * begun N p \<and> begun N p \<le> N"
  by (cases p) auto

lemma hand_init: "hand N 0 0 (handoff_init N)"
  by (auto simp: hand_def handoff_init_def checksum_def)

section \<open>Every step keeps it\<close>

lemma u64_of_nat_eq: "n < 2 ^ 64 \<Longrightarrow> unat (of_nat n :: u64) = n"
  by (simp add: unsigned_of_nat take_bit_nat_eq_self)

lemma wait_passes:
  assumes "1 \<le> i" and "r \<le> i - 1" and "i < 2 ^ 64" and "\<not> of_nat i - 1 - of_nat r \<ge> (1024 :: u64)"
  shows "i \<le> r + 1024"
proof -
  obtain k where k: "i = Suc (r + k)" using assms(1,2) by (metis One_nat_def Suc_pred' le_iff_add not_less_eq_eq order_less_le_trans zero_less_one)
  then have "(of_nat i - 1 - of_nat r :: u64) = of_nat k" by simp
  moreover have "unat (of_nat k :: u64) = k" using assms(3) k by (intro u64_of_nat_eq) simp
  ultimately show ?thesis using assms(4) k by (simp add: word_le_nat_alt)
qed

lemma consumer_ok_mono: "cpc_ok N p v c \<Longrightarrow> p \<le> p' \<Longrightarrow> cpc_ok N p' v c"
  by (cases c) auto

lemma apply_store_pbuf: "apply_store b (s\<lparr>pbuf := xs\<rparr>) = (apply_store b s)\<lparr>pbuf := xs\<rparr>"
  by (cases b) simp_all

lemma fold_apply_pbuf: "(fold apply_store bs (s\<lparr>pbuf := xs\<rparr>))\<lparr>pbuf := ys\<rparr> = (fold apply_store bs s)\<lparr>pbuf := ys\<rparr>"
  by (induction bs arbitrary: s) (simp_all add: apply_store_pbuf)

lemma hand_producer:
  assumes h: "hand N d r s" and N: "N < 2 ^ 64" and st: "producer_move True N s = Some s'"
  shows "hand N d r s'"
proof -
  have d: "d \<le> issued N (ppc s)" "pbuf s = map nth_store [d..<issued N (ppc s)]" "ppc_ok N (ppc s)" "begun N (ppc s) \<le> r + 1024"
    "r \<le> consumed N (cpc s)" "consumed N (cpc s) \<le> d div 3" "ridx s = of_nat r"
    using h by (simp_all add: hand_def)
  show ?thesis
  proof (cases "ppc s")
    case (PWait i)
    have i: "1 \<le> i" "i \<le> N" using d(3) PWait by simp_all
    have "r \<le> i - 1" using d(1,5,6) PWait by simp
    then have "\<not> of_nat i - 1 - ridx s \<ge> 1024 \<Longrightarrow> i \<le> r + 1024" using wait_passes [of i r] i N d(7) by simp
    then show ?thesis using h st PWait i by (auto simp: producer_move_def hand_def split: if_splits)
  next
    case (PStA i)
    then have "1 \<le> i" "(3 * (i - 1)) div 3 + 1 = i" using d(3) by auto
    then have "nth_store (3 * (i - 1)) = StA (ring_slot i) (of_nat i * 3)" by (simp add: nth_store_def Let_def msg_a_def)
    then show ?thesis using h st PStA by (auto simp: producer_move_def hand_def)
  next
    case (PStB i)
    then have "1 \<le> i" "(3 * (i - 1) + 1) div 3 + 1 = i" "(3 * (i - 1) + 1) mod 3 = 1" using d(3) by (auto simp: mod_Suc)
    then have "nth_store (3 * (i - 1) + 1) = StB (ring_slot i) (of_nat i XOR 0x5A5A5A5A)" by (simp add: nth_store_def Let_def msg_b_def)
    then show ?thesis using h st PStB by (auto simp: producer_move_def hand_def)
  next
    case (PStW i)
    then have i: "1 \<le> i" "i \<le> N" "(3 * (i - 1) + 2) div 3 + 1 = i" "(3 * (i - 1) + 2) mod 3 = 2" using d(3) by (auto simp: mod_Suc)
    then have w: "nth_store (3 * (i - 1) + 2) = StW (of_nat i)" by (simp add: nth_store_def Let_def)
    let ?p = "if i < N then PWait (i + 1) else PDone"
    have p: "issued N ?p = Suc (3 * (i - 1) + 2)" "begun N ?p = i" "ppc_ok N ?p" using i by auto
    have "s' = s\<lparr>pbuf := pbuf s @ [StW (of_nat i)], ppc := ?p\<rparr>" using st PStW by (simp add: producer_move_def)
    then show ?thesis using h PStW w p by (simp add: hand_def)
  qed (use st in \<open>simp add: producer_move_def\<close>)
qed

lemma hand_drain_producer:
  assumes h: "hand N d r s" and N: "N < 2 ^ 64" and b: "pbuf s = b # bs"
  shows "hand N (Suc d) r (apply_store b (s\<lparr>pbuf := bs\<rparr>))"
proof -
  let ?k = "d div 3 + 1"
  have lt: "d < issued N (ppc s)" using h b by (cases "d < issued N (ppc s)") (auto simp: hand_def)
  then have b': "b = nth_store d" "bs = map nth_store [Suc d..<issued N (ppc s)]"
    using h b by (simp_all add: hand_def upt_conv_Cons)
  have "ppc_ok N (ppc s)" "begun N (ppc s) \<le> r + 1024" using h by (simp_all add: hand_def)
  then have k: "?k \<le> r + 1024" "?k < 2 ^ 64" using lt issued_begun [of N "ppc s"] N by linarith+
  have apart: "ring_slot k \<noteq> ring_slot ?k" if "r < k" "k < ?k" for k by (rule ring_slot_apart [OF that k])
  have old: "slot_a s (ring_slot k) = msg_a k" if "r < k" "3 * (k - 1) < d" for k using h that by (simp add: hand_def)
  have old': "slot_b s (ring_slot k) = msg_b k" if "r < k" "3 * (k - 1) + 1 < d" for k using h that by (simp add: hand_def)
  have pc: "cpc_ok N (Suc d div 3) (csum s) (cpc s)" "consumed N (cpc s) \<le> Suc d div 3"
    using h consumer_ok_mono [of N "d div 3" "csum s" "cpc s" "Suc d div 3"] by (auto simp: hand_def div_le_mono intro: le_trans)
  note rest = h [unfolded hand_def]
  define m where "m = d div 3"
  consider (a) "d = 3 * m" | (b) "d = 3 * m + 1" | (w) "d = 3 * m + 2" unfolding m_def by linarith
  then show ?thesis
  proof cases
    case a
    then have b_is: "b = StA (ring_slot (m + 1)) (msg_a (m + 1))" by (simp add: b'(1) nth_store_def Let_def)
    have "((slot_a s)(ring_slot (m + 1) := msg_a (m + 1))) (ring_slot k) = msg_a k" if "r < k" "3 * (k - 1) < Suc d" for k
    proof (cases "k = m + 1")
      case False
      then have "k < m + 1" "3 * (k - 1) < d" using that a by simp_all
      then show ?thesis using apart [of k] old [of k] that(1) by (simp add: m_def)
    qed simp
    moreover have "slot_b s (ring_slot k) = msg_b k" if "r < k" "3 * (k - 1) + 1 < Suc d" for k
    proof -
      have "3 * (k - 1) + 1 < d" using that a by presburger
      then show ?thesis using old' that(1) by blast
    qed
    moreover have "Suc d div 3 = d div 3" using a by simp
    ultimately show ?thesis using rest pc lt by (simp add: hand_def b_is b'(2))
  next
    case b
    have "d mod 3 = 1" using b by presburger
    then have b_is: "b = StB (ring_slot (m + 1)) (msg_b (m + 1))" by (simp add: b'(1) nth_store_def Let_def m_def)
    have "((slot_b s)(ring_slot (m + 1) := msg_b (m + 1))) (ring_slot k) = msg_b k" if "r < k" "3 * (k - 1) + 1 < Suc d" for k
    proof (cases "k = m + 1")
      case False
      then have "k < m + 1" "3 * (k - 1) + 1 < d" using that b by simp_all
      then show ?thesis using apart [of k] old' [of k] that(1) by (simp add: m_def)
    qed simp
    moreover have "slot_a s (ring_slot k) = msg_a k" if "r < k" "3 * (k - 1) < Suc d" for k
    proof -
      have "3 * (k - 1) < d" using that b by presburger
      then show ?thesis using old that(1) by blast
    qed
    moreover have "Suc d div 3 = d div 3" using b by presburger
    ultimately show ?thesis using rest pc lt by (simp add: hand_def b_is b'(2))
  next
    case w
    have "d mod 3 = 2" using w by presburger
    then have b_is: "b = StW (of_nat (m + 1))" by (simp add: b'(1) nth_store_def Let_def m_def)
    have "Suc d div 3 = m + 1" using w by simp
    moreover have "slot_a s (ring_slot k) = msg_a k" if "r < k" "3 * (k - 1) < Suc d" for k
    proof -
      have "3 * (k - 1) < d" using that w by presburger
      then show ?thesis using old that(1) by blast
    qed
    moreover have "slot_b s (ring_slot k) = msg_b k" if "r < k" "3 * (k - 1) + 1 < Suc d" for k
    proof -
      have "3 * (k - 1) + 1 < d" using that w by presburger
      then show ?thesis using old' that(1) by blast
    qed
    ultimately show ?thesis using rest pc lt by (simp add: hand_def b_is b'(2))
  qed
qed

lemma hand_drain_all:
  "hand N d r s \<Longrightarrow> N < 2 ^ 64 \<Longrightarrow> \<exists>d'. hand N d' r (drain_producer s)"
proof (induction "length (pbuf s)" arbitrary: d s)
  case 0
  then have "drain_producer s = s" by (simp add: drain_producer_def)
  then show ?case using 0 by auto
next
  case (Suc n)
  then obtain b bs where b: "pbuf s = b # bs" by (cases "pbuf s") auto
  let ?s = "apply_store b (s\<lparr>pbuf := bs\<rparr>)"
  have "pbuf ?s = bs" by (cases b) simp_all
  moreover have "hand N (Suc d) r ?s" by (rule hand_drain_producer [OF Suc.prems b])
  ultimately have "\<exists>d'. hand N d' r (drain_producer ?s)" using Suc.hyps(1) [of ?s "Suc d"] Suc.hyps(2) b Suc.prems(2) by simp
  moreover have "drain_producer ?s = drain_producer s"
    using \<open>pbuf ?s = bs\<close> by (simp add: drain_producer_def b apply_store_pbuf fold_apply_pbuf)
  ultimately show ?case by simp
qed

lemma hand_producer_any:
  assumes h: "hand N d r s" and N: "N < 2 ^ 64" and st: "producer_move ar N s = Some s'"
  shows "\<exists>d'. hand N d' r s'"
proof (cases "\<exists>i. ppc s = PStW i \<and> \<not> ar")
  case True
  then obtain s1 where "producer_move True N s = Some s1" "s' = drain_producer s1"
    using st by (auto simp: producer_move_def Let_def)
  then show ?thesis using hand_drain_all [OF hand_producer [OF h N] N] by blast
next
  case False
  then have "producer_move True N s = Some s'" using st by (auto simp: producer_move_def Let_def split: handoff_ppc.splits)
  then show ?thesis using hand_producer [OF h N] by blast
qed

lemma checksum_Suc: "1 \<le> i \<Longrightarrow> checksum i = checksum (i - 1) + (msg_a i XOR msg_b i)"
  by (cases i) (simp_all add: checksum_def)

lemma hand_consumer_goto:
  "hand N d r s \<Longrightarrow> consumed N c = consumed N (cpc s) \<Longrightarrow> cpc_ok N (d div 3) v c \<Longrightarrow> hand N d r (s\<lparr>csum := v, cpc := c\<rparr>)"
  by (simp add: hand_def)

lemma hand_consumer:
  assumes h: "hand N d r s" and N: "N < 2 ^ 64" and st: "consumer_move True N s = Some s'"
  shows "hand N d r s'"
proof -
  have c: "cpc_ok N (d div 3) (csum s) (cpc s)" "r \<le> consumed N (cpc s)" "widx s = of_nat (d div 3)" using h by (simp_all add: hand_def)
  have a: "slot_a s (ring_slot i) = msg_a i" "slot_b s (ring_slot i) = msg_b i" if "r < i" "i \<le> d div 3" for i
  proof -
    have "3 * (i - 1) + 1 < d" using that by linarith
    then show "slot_a s (ring_slot i) = msg_a i" "slot_b s (ring_slot i) = msg_b i" using h that by (simp_all add: hand_def)
  qed
  show ?thesis
  proof (cases "cpc s")
    case (CWait i)
    have i: "1 \<le> i" "i \<le> N" using c(1) CWait by simp_all
    have "d \<le> issued N (ppc s)" "ppc_ok N (ppc s)" using h by (simp_all add: hand_def)
    then have "d div 3 < 2 ^ 64" using issued_begun [of N "ppc s"] N by linarith
    then have "\<not> widx s < of_nat i \<Longrightarrow> i \<le> d div 3" using i N c(3) by (simp add: word_less_nat_alt u64_of_nat_eq)
    moreover have "s' = (if widx s < of_nat i then s else s\<lparr>cpc := CLdA i\<rparr>)" using st CWait by (simp add: consumer_move_def)
    moreover have "hand N d r (s\<lparr>csum := csum s, cpc := CLdA i\<rparr>)" if "i \<le> d div 3"
      by (rule hand_consumer_goto [OF h]) (use c(1) CWait that in auto)
    ultimately show ?thesis using h by (cases "widx s < of_nat i") simp_all
  next
    case (CLdA i)
    then have "1 \<le> i" "r < i" "i \<le> d div 3" using c by auto
    then have "s' = s\<lparr>cpc := CLdB i (msg_a i)\<rparr>" using st CLdA a(1) [of i] by (simp add: consumer_move_def)
    moreover have "hand N d r (s\<lparr>csum := csum s, cpc := CLdB i (msg_a i)\<rparr>)"
      by (rule hand_consumer_goto [OF h]) (use c(1) CLdA in auto)
    ultimately show ?thesis by simp
  next
    case (CLdB i v)
    then have i: "1 \<le> i" "r < i" "i \<le> d div 3" using c by auto
    then have "s' = s\<lparr>csum := csum s + (v XOR msg_b i), cpc := CStR i\<rparr>" using st CLdB a(2) [of i] by (simp add: consumer_move_def)
    moreover have "cpc_ok N (d div 3) (csum s + (v XOR msg_b i)) (CStR i)" using c(1) CLdB checksum_Suc [OF i(1)] by simp
    ultimately show ?thesis using hand_consumer_goto [OF h, of "CStR i" "csum s + (v XOR msg_b i)"] CLdB by simp
  next
    case (CStR i)
    let ?c = "if i < N then CWait (i + 1) else CDone"
    have i: "1 \<le> i" "i \<le> N" "i \<le> d div 3" "csum s = checksum i" using c CStR by auto
    have ri: "r \<le> i" using c(2) CStR by simp
    from i have c': "consumed N ?c = i" "cpc_ok N (d div 3) (csum s) ?c" by auto
    have "[r + 1..<i + 1] = [r + 1..<i] @ [i]" using c(2) CStR i by simp
    moreover have "s' = s\<lparr>cbuf := cbuf s @ [of_nat i], cpc := ?c\<rparr>" using st CStR by (simp add: consumer_move_def)
    ultimately show ?thesis using h CStR c' i ri by (simp add: hand_def)
  qed (use st in \<open>simp add: consumer_move_def\<close>)
qed

lemma hand_read_idx:
  assumes h: "hand N d r s" and "r \<le> r'" "r' \<le> consumed N (cpc s)"
  shows "hand N d r' (s\<lparr>ridx := of_nat r', cbuf := map of_nat [r' + 1..<consumed N (cpc s) + 1]\<rparr>)"
  using assms by (auto simp: hand_def)

lemma hand_drain_consumer:
  assumes h: "hand N d r s"
  shows "\<exists>r'. hand N d r' (drain_consumer s)"
proof (cases "cbuf s = []")
  case False
  let ?q = "consumed N (cpc s)"
  have c: "cbuf s = map of_nat [r + 1..<?q + 1]" using h by (simp add: hand_def)
  then have "r < ?q" using False by (cases "r < ?q") auto
  moreover from this have "last (cbuf s) = of_nat ?q" using c by (simp add: last_map)
  ultimately show ?thesis using hand_read_idx [OF h, of ?q] False by (auto simp: drain_consumer_def)
qed (use h in \<open>auto simp: drain_consumer_def\<close>)

lemma hand_consumer_any:
  assumes h: "hand N d r s" and N: "N < 2 ^ 64" and st: "consumer_move ar N s = Some s'"
  shows "\<exists>r'. hand N d r' s'"
proof (cases "\<exists>i. cpc s = CStR i \<and> \<not> ar")
  case True
  then obtain s1 where "consumer_move True N s = Some s1" "s' = drain_consumer s1"
    using st by (auto simp: consumer_move_def Let_def)
  then show ?thesis using hand_drain_consumer [OF hand_consumer [OF h N]] by blast
next
  case False
  then have "consumer_move True N s = Some s'" using st by (auto simp: consumer_move_def Let_def split: handoff_cpc.splits)
  then show ?thesis using hand_consumer [OF h N] by blast
qed

lemma hand_step:
  assumes "N < 2 ^ 64" and "\<exists>d r. hand N d r s" and "handoff_step ar N s e = Some s'"
  shows "\<exists>d r. hand N d r s'"
proof -
  obtain d r where h: "hand N d r s" using assms(2) by blast
  show ?thesis
  proof (cases e)
    case Producer
    then have "producer_move ar N s = Some s'" using assms(3) by simp
    then show ?thesis using hand_producer_any [OF h assms(1)] by blast
  next
    case Consumer
    then have "consumer_move ar N s = Some s'" using assms(3) by simp
    then show ?thesis using hand_consumer_any [OF h assms(1)] by blast
  next
    case DrainProducer
    then show ?thesis using hand_drain_producer [OF h assms(1)] assms(3) by (auto split: list.splits)
  next
    case DrainConsumer
    then obtain v vs where c: "cbuf s = v # vs" "s' = s\<lparr>ridx := v, cbuf := vs\<rparr>" using assms(3) by (auto split: list.splits)
    let ?q = "consumed N (cpc s)"
    have "cbuf s = map of_nat [r + 1..<?q + 1]" using h by (simp add: hand_def)
    moreover from this have lt: "r < ?q" using c(1) by (cases "r < ?q") auto
    moreover have "[r + 1..<?q + 1] = (r + 1) # [r + 1 + 1..<?q + 1]" using lt by (simp add: upt_conv_Cons del: upt_Suc)
    ultimately have "v = of_nat (r + 1)" "vs = map of_nat [r + 1 + 1..<?q + 1]" using c(1) by (simp_all only: list.map list.inject)
    then have "hand N d (r + 1) s'" using hand_read_idx [OF h, of "r + 1"] lt c(2) by simp
    then show ?thesis by blast
  qed
qed

lemma handoff_checksum:
  assumes "N < 2 ^ 64"
  shows "RunProducerConsumerHandoff ar N es \<in> {None, Some (checksum N)}"
proof (cases "run (handoff_step ar N) (handoff_init N) es")
  case (Some s)
  have "\<exists>d r. hand N d r s"
    by (rule run_invariant [where I = "\<lambda>s. \<exists>d r. hand N d r s", OF _ _ Some]) (use hand_init hand_step [OF assms] in blast)+
  then show ?thesis using Some by (auto simp: RunProducerConsumerHandoff_def hand_def)
qed (simp add: RunProducerConsumerHandoff_def)

section \<open>The program\<close>

text \<open>
  Two litmus tests of 200,000 trials and two handoffs of 2,000,000 messages, \<open>seq_cst\<close> before acquire/release;
  \<open>valid\<close> compares the two checksums and wants no reordering under \<open>seq_cst\<close>.
\<close>

record store_buffer_schedules =
  relaxed_litmus :: "litmus_event list list"
  seq_cst_litmus :: "litmus_event list list"
  seq_cst_handoff :: "handoff_event list"
  acq_rel_handoff :: "handoff_event list"

definition store_buffer_challenge :: "store_buffer_schedules \<Rightarrow> int option" where
  "store_buffer_challenge s =
     (if length (relaxed_litmus s) = 200000 \<and> length (seq_cst_litmus s) = 200000
      then (case (RunStoreLoadLitmusTest False (relaxed_litmus s) 0 0, RunStoreLoadLitmusTest True (seq_cst_litmus s) 0 0,
              RunProducerConsumerHandoff False 2000000 (seq_cst_handoff s),
              RunProducerConsumerHandoff True 2000000 (acq_rel_handoff s)) of
          (Some relaxed, Some both_zero, Some checksum_seq_cst, Some checksum_acq_rel) \<Rightarrow>
            (let valid = checksum_seq_cst = checksum_acq_rel \<and> both_zero = 0 in Some (if valid then 0 else 1))
        | _ \<Rightarrow> None)
      else None)"

text \<open>One message after the other, with the buffers drained in between, is a run to the end.\<close>

definition one_message :: "bool \<Rightarrow> handoff_event list" where
  "one_message acquire_release =
     [Producer, Producer, Producer, Producer] @ (if acquire_release then [DrainProducer, DrainProducer, DrainProducer] else [])
     @ [Consumer, Consumer, Consumer, Consumer] @ (if acquire_release then [DrainConsumer] else [])"

definition between :: "nat \<Rightarrow> nat \<Rightarrow> handoff \<Rightarrow> bool" where
  "between N k s \<longleftrightarrow> pbuf s = [] \<and> cbuf s = [] \<and> widx s = of_nat k \<and> ridx s = of_nat k
     \<and> ppc s = (if k < N then PWait (k + 1) else PDone) \<and> cpc s = (if k < N then CWait (k + 1) else CDone)"

lemma one_message_run:
  assumes "between N k s" and "k < N" and "N < 2 ^ 64"
  shows "\<exists>s'. run (handoff_step ar N) s (one_message ar) = Some s' \<and> between N (Suc k) s'"
  using assms
  by (cases ar) (auto simp: between_def one_message_def producer_move_def consumer_move_def Let_def drain_producer_def
      drain_consumer_def)

lemma handoff_completes:
  assumes "N < 2 ^ 64"
  shows "\<exists>es. RunProducerConsumerHandoff ar N es = Some (checksum N)"
proof -
  have "\<exists>es s. run (handoff_step ar N) (handoff_init N) es = Some s \<and> between N k s" if "k \<le> N" for k
    using that
  proof (induction k)
    case 0
    have "between N 0 (handoff_init N)" by (simp add: between_def handoff_init_def)
    then show ?case by (intro exI [of _ "[]"] exI [of _ "handoff_init N"]) simp
  next
    case (Suc k)
    then obtain es s where es: "run (handoff_step ar N) (handoff_init N) es = Some s" "between N k s" by auto
    obtain s' where s': "run (handoff_step ar N) s (one_message ar) = Some s'" "between N (Suc k) s'"
      using one_message_run [OF es(2) _ assms] Suc.prems by auto
    show ?case using es(1) s' by (intro exI [of _ "es @ one_message ar"] exI [of _ s']) (simp add: run_append)
  qed
  then obtain es s where "run (handoff_step ar N) (handoff_init N) es = Some s" "between N N s" by blast
  then have "RunProducerConsumerHandoff ar N es = Some (csum s)" by (simp add: RunProducerConsumerHandoff_def between_def)
  then show ?thesis using handoff_checksum [OF assms, of ar es] by auto
qed

section \<open>Properties\<close>

text \<open>
  C26. The store-buffer challenge on x86-TSO. Every execution of a handoff that reaches its joins, with \<open>seq_cst\<close> or with
  acquire and release and however the store buffers drain, hands over every message intact and in order, so
  both checksums are the same number; with the litmus test under \<open>seq_cst\<close> the program returns 0 whenever
  it ends, and it can end. The messages are handed over through 1024 slots for any number of them below
  \<open>2 ^ 64\<close>.
\<close>

theorem store_buffer_challenge_exit:
  assumes "n < 2 ^ 64"
  shows "range (RunProducerConsumerHandoff acquire_release n) \<subseteq> {None, Some (\<Sum>i = 1..n. (of_nat i * 3) XOR (of_nat i XOR 0x5A5A5A5A))}
    \<and> Some (\<Sum>i = 1..n. (of_nat i * 3) XOR (of_nat i XOR 0x5A5A5A5A)) \<in> range (RunProducerConsumerHandoff acquire_release n)
    \<and> store_buffer_challenge s \<in> {None, Some 0} \<and> (\<exists>s. store_buffer_challenge s = Some 0)"
proof -
  have sum: "checksum n = (\<Sum>i = 1..n. (of_nat i * 3) XOR (of_nat i XOR 0x5A5A5A5A))" by (simp add: checksum_def msg_a_def msg_b_def)
  have "range (RunProducerConsumerHandoff acquire_release n) \<subseteq> {None, Some (checksum n)}"
    using handoff_checksum [OF assms] by (intro image_subsetI)
  moreover have "Some (checksum n) \<in> range (RunProducerConsumerHandoff acquire_release n)"
    using handoff_completes [OF assms] by (metis rangeI)
  moreover have "store_buffer_challenge s \<in> {None, Some 0}"
    using seq_cst_counts [of "seq_cst_litmus s" 0 0] handoff_checksum [of 2000000 False "seq_cst_handoff s"]
      handoff_checksum [of 2000000 True "acq_rel_handoff s"]
    by (auto simp: store_buffer_challenge_def split: option.splits)
  moreover have "\<exists>s. store_buffer_challenge s = Some 0"
  proof -
    obtain es fs where "RunProducerConsumerHandoff False 2000000 es = Some (checksum 2000000)"
        "RunProducerConsumerHandoff True 2000000 fs = Some (checksum 2000000)"
      using handoff_completes [of 2000000 False] handoff_completes [of 2000000 True] by auto
    then have "store_buffer_challenge \<lparr>relaxed_litmus = replicate 200000 [T0, Drain0, T0, T1, T1, Drain1],
        seq_cst_litmus = replicate 200000 [T0, T0, T1, T1], seq_cst_handoff = es, acq_rel_handoff = fs\<rparr> = Some 0"
      by (simp add: store_buffer_challenge_def ordered_counts seq_cst_completes)
    then show ?thesis by blast
  qed
  ultimately show ?thesis by (simp add: sum)
qed

theorem store_buffer_challenge_exit_witness:
  "Some (\<Sum>i = 1..1500. (of_nat i * 3) XOR (of_nat i XOR 0x5A5A5A5A)) \<in> range (RunProducerConsumerHandoff True 1500)"
  using store_buffer_challenge_exit [of 1500 True] by simp

end
