(* ===== verification/MesiChallenge.thy ===== *)
theory MesiChallenge
  imports LockTrials Counters ShardedMap "HOL-Library.Monad_Syntax"
begin

text \<open>
  The two challenge programs on cache-line contention: \<open>common/mesi_coherency/challenge.cc\<close> and the challenge of
  episode 09. Their phases run one after the other, each on its own shared data; the shared data at the end is
  the same in every interleaving, and it decides the integrity check and the exit code.
\<close>

section \<open>Running a phase\<close>

text \<open>
  \<open>RunParallelBench\<close> with a body whose iteration touches the shared data in one atomic operation: the schedule
  lists the iterations, and the phase ends when every thread has made its \<open>iters_per_thread\<close>.
\<close>

definition all_done :: "nat \<Rightarrow> nat \<Rightarrow> tid list \<Rightarrow> bool" where
  "all_done num_threads iters sched \<longleftrightarrow>
     list_all (\<lambda>t. t < num_threads) sched \<and> list_all (\<lambda>t. count_list sched t = iters) [0..<num_threads]"

definition RunParallelBench :: "nat \<Rightarrow> nat \<Rightarrow> (tid \<Rightarrow> 's \<Rightarrow> 's) \<Rightarrow> 's \<Rightarrow> tid list \<Rightarrow> 's option" where
  "RunParallelBench num_threads iters body s sched =
     (if all_done num_threads iters sched then Some (fold body sched s) else None)"

definition fetch_add_1 :: "tid \<Rightarrow> u64 \<Rightarrow> u64" where
  "fetch_add_1 tid v = v + 1"

text \<open>Episode 09: the batched counter, with \<open>local_rem\<close> of every thread.\<close>

definition batched_body :: "tid \<Rightarrow> u64 \<times> u64 list \<Rightarrow> u64 \<times> u64 list" where
  "batched_body tid s =
     (let (counter, rems) = s;
          (counter, rem) = (if rems ! tid = 0 then (counter + 64, 64) else (counter, rems ! tid))
      in (counter, rems[tid := rem - 1]))"

definition id_phase :: "tid list \<Rightarrow> u64 option" where
  "id_phase sched =
     (if all_done 16 500000 sched then map_option GlobalWatermark (run (id_call 64) (id_clients_init 16) sched) else None)"

definition batched_phase :: "tid list \<Rightarrow> u64 option" where
  "batched_phase sched = map_option fst (RunParallelBench 16 500000 batched_body (0, replicate 16 0) sched)"

definition sharded_body :: "tid \<Rightarrow> u64 list \<Rightarrow> u64 list" where
  "sharded_body tid counters = counters[tid := counters ! tid + 1]"

text \<open>The phases with a lock: every round takes the lock, records an execution in the ledger and releases.\<close>

definition LedgerBench :: "(u64 spin \<Rightarrow> spin_event \<Rightarrow> u64 spin option) \<Rightarrow> nat \<Rightarrow> nat \<Rightarrow> u64
    \<Rightarrow> spin_event trial_event list \<Rightarrow> SharedOrderBookLedger option" where
  "LedgerBench step num_threads rounds qty es =
     (case run (trial_step step spin_holds spin_releases (RecordExecution qty 10))
             (trial_init (spin_init 0) empty_ledger num_threads rounds) es of
        None \<Rightarrow> None
      | Some s \<Rightarrow> if all_joined s then Some (shared s) else None)"

text \<open>The magazine loop takes the lock only when its local magazine is empty; \<open>refills\<close> counts those rounds.\<close>

fun mag_loop :: "nat \<Rightarrow> u64 \<Rightarrow> nat \<Rightarrow> nat" where
  "mag_loop 0 local_mag refills = refills"
| "mag_loop (Suc i) local_mag refills =
     (let (local_mag, refills) = (if local_mag = 0 then (32, refills + 1) else (local_mag, refills))
      in mag_loop i (local_mag - 1) refills)"

section \<open>The programs\<close>

record mesi_schedules =
  one_thread :: "tid list"
  global16 :: "tid list"
  batched16 :: "tid list"
  sharded16 :: "tid list"
  cas1 :: "spin_event trial_event list"
  cas16 :: "spin_event trial_event list"
  pause16 :: "spin_event trial_event list"
  mag16 :: "spin_event trial_event list"
  split1 :: "tid list"
  aligned1 :: "tid list"

record mesi_final =
  global_counter :: u64
  batched_total :: u64
  sharded_counter :: "u64 list"
  naive_ledger :: SharedOrderBookLedger
  pause_ledger :: SharedOrderBookLedger
  mag_ledger :: SharedOrderBookLedger
  split_seq_no :: u64
  aligned_seq_no :: u64

definition mesi_phases :: "(tid list \<Rightarrow> u64 option) \<Rightarrow> (tid \<Rightarrow> u64 list \<Rightarrow> u64 list) \<Rightarrow> mesi_schedules \<Rightarrow> mesi_final option" where
  "mesi_phases batched shard_body s = do {
     _ \<leftarrow> RunParallelBench 1 500000 fetch_add_1 0 (one_thread s);
     global \<leftarrow> RunParallelBench 16 500000 fetch_add_1 0 (global16 s);
     watermark \<leftarrow> batched (batched16 s);
     counters \<leftarrow> RunParallelBench 16 500000 shard_body (replicate 64 0) (sharded16 s);
     _ \<leftarrow> LedgerBench NaiveCasSpinlock_step 1 50000 1 (cas1 s);
     naive \<leftarrow> LedgerBench NaiveCasSpinlock_step 16 50000 1 (cas16 s);
     pause \<leftarrow> LedgerBench ReadBeforeCasSpinlock_step 16 50000 1 (pause16 s);
     mag \<leftarrow> LedgerBench ReadBeforeCasSpinlock_step 16 (mag_loop 500000 0 0) 32 (mag16 s);
     split \<leftarrow> RunParallelBench 1 500000 fetch_add_1 0 (split1 s);
     aligned \<leftarrow> RunParallelBench 1 500000 fetch_add_1 0 (aligned1 s);
     Some \<lparr>global_counter = global, batched_total = watermark, sharded_counter = counters, naive_ledger = naive,
       pause_ledger = pause, mag_ledger = mag, split_seq_no = split, aligned_seq_no = aligned\<rparr>
   }"

definition mesi_exit :: "mesi_final \<Rightarrow> int" where
  "mesi_exit f =
     (let ok = ReadTotal (sharded_counter f) = of_nat (16 * 500000) \<and> batched_total f = of_nat (16 * 500000)
        \<and> split_seq_no f = 500000 \<and> aligned_seq_no f = 500000
      in if ok then 0 else 1)"

definition Ep09_exit :: "mesi_final \<Rightarrow> int" where
  "Ep09_exit f =
     (let ok = split_seq_no f = 500000 \<and> aligned_seq_no f = 500000
        \<and> ledger_sequence (pause_ledger f) = of_nat (16 * 50000)
      in if ok then 0 else 1)"

definition mesi_challenge :: "mesi_schedules \<Rightarrow> int option" where
  "mesi_challenge s = map_option mesi_exit (mesi_phases id_phase (\<lambda>tid. Increment 64 (of_nat tid) 1) s)"

definition Ep09_challenge :: "mesi_schedules \<Rightarrow> int option" where
  "Ep09_challenge s = map_option Ep09_exit (mesi_phases batched_phase sharded_body s)"

section \<open>What the phases leave\<close>

lemma done_length: "all_done m n sched \<Longrightarrow> length sched = m * n"
  unfolding all_done_def by (rule length_by_counts) (simp_all add: list_all_iff)

lemma done_count: "all_done m n sched \<Longrightarrow> count_list sched t = (if t < m then n else 0)"
  by (auto simp: all_done_def list_all_iff count_list_0_iff)

lemma done_threads: "all_done m n sched \<Longrightarrow> m \<le> k \<Longrightarrow> list_all (\<lambda>t. t < k) sched"
  by (auto simp: all_done_def list_all_iff)

lemma fetch_add_fold: "fold fetch_add_1 sched v = v + of_nat (length sched)"
  by (induction sched arbitrary: v) (simp_all add: fetch_add_1_def)

lemma fetch_add_phase: "RunParallelBench m n fetch_add_1 0 sched \<in> {None, Some (of_nat (m * n))}"
  using done_length [of m n sched] by (auto simp: RunParallelBench_def fetch_add_fold)

lemma sharded_fold:
  assumes "list_all (\<lambda>t. t < 64) sched" and "length ss = 64"
  shows "fold sharded_body sched ss = map (\<lambda>i. ss ! i + of_nat (count_list sched i)) [0..<64]"
  using assms
proof (induction sched arbitrary: ss)
  case Nil
  have "map ((!) ss) [0..<64] = ss" using map_nth [of ss] by (simp only: Nil.prems(2))
  then show ?case by (simp del: upt_Suc)
next
  case (Cons t sched)
  have "fold sharded_body sched (ss[t := ss ! t + 1]) = map (\<lambda>i. ss[t := ss ! t + 1] ! i + of_nat (count_list sched i)) [0..<64]"
    using Cons by simp
  also have "\<dots> = map (\<lambda>i. ss ! i + of_nat (count_list (t # sched) i)) [0..<64]"
    using Cons.prems by (auto simp: nth_list_update)
  finally show ?case by (simp add: sharded_body_def [of t ss])
qed

lemma Increment_sharded_body: "t < 64 \<Longrightarrow> Increment 64 (of_nat t) 1 = sharded_body t"
proof
  fix ss
  assume "t < 64"
  then have "unat (of_nat t :: u64) = t" by (simp add: unsigned_of_nat take_bit_nat_eq_self)
  then have "shard_index 64 (of_nat t) = t" using \<open>t < 64\<close> shard_index_mod [of 64 "of_nat t"] by (simp add: pow2_assert_def)
  then show "Increment 64 (of_nat t) 1 ss = sharded_body t ss" by (simp add: Increment_def sharded_body_def)
qed

definition final_shards :: "u64 list" where
  "final_shards = replicate 16 500000 @ replicate 48 0"

lemma sharded_phase:
  "RunParallelBench 16 500000 sharded_body (replicate 64 0) sched \<in> {None, Some final_shards}"
  "RunParallelBench 16 500000 (\<lambda>tid. Increment 64 (of_nat tid) 1) (replicate 64 0) sched \<in> {None, Some final_shards}"
proof -
  have fin: "fold sharded_body sched (replicate 64 0) = final_shards" if d: "all_done 16 500000 sched"
  proof -
    have small: "list_all (\<lambda>t. t < 64) sched" by (rule done_threads [OF d]) simp
    have "fold sharded_body sched (replicate 64 0)
        = map (\<lambda>i. replicate 64 0 ! i + of_nat (count_list sched i)) [0..<64]"
      by (rule sharded_fold [OF small]) simp
    also have "\<dots> = map (\<lambda>i. of_nat (if i < 16 then 500000 else 0)) [0..<64]"
      by (rule map_cong [OF refl]) (simp only: done_count [OF d] set_upt atLeastLessThan_iff nth_replicate add_0)
    also have "\<dots> = final_shards" by (rule nth_equalityI) (auto simp: final_shards_def nth_append)
    finally show ?thesis .
  qed
  then show "RunParallelBench 16 500000 sharded_body (replicate 64 0) sched \<in> {None, Some final_shards}"
    by (simp add: RunParallelBench_def)
  have "fold (\<lambda>tid. Increment 64 (of_nat tid) 1) sched ss = fold sharded_body sched ss" if "all_done 16 500000 sched" for ss
    using that by (intro fold_cong) (auto simp: all_done_def list_all_iff Increment_sharded_body)
  then show "RunParallelBench 16 500000 (\<lambda>tid. Increment 64 (of_nat tid) 1) (replicate 64 0) sched \<in> {None, Some final_shards}"
    using fin by (simp add: RunParallelBench_def)
qed

text \<open>The batched counter: a thread that has made \<open>k\<close> iterations has reserved whole batches.\<close>

definition unused :: "nat \<Rightarrow> nat" where "unused k = (64 - k mod 64) mod 64"

lemma unused_alt: "unused k = (if k mod 64 = 0 then 0 else 64 - k mod 64)"
  by (simp add: unused_def)

lemma unused_next: "unused (Suc k) = (if unused k = 0 then 63 else unused k - 1)"
proof -
  have "k mod 64 < 64" by simp
  then have "64 - k mod 64 \<noteq> 0" by linarith
  then show ?thesis by (auto simp: unused_alt mod_Suc)
qed

lemma unused_Suc: "Suc k + unused (Suc k) = k + unused k + (if unused k = 0 then 64 else 0)"
  by (simp add: unused_next)

lemma unused_less: "unused k < 64"
  by (simp add: unused_def)

lemma batched_fold:
  "list_all (\<lambda>t. t < 16) sched \<Longrightarrow> fold batched_body sched (0, replicate 16 0)
     = (of_nat (\<Sum>t<16. count_list sched t + unused (count_list sched t)), map (\<lambda>t. of_nat (unused (count_list sched t))) [0..<16])"
proof (induction sched rule: rev_induct)
  case Nil
  then show ?case by (simp add: unused_def map_replicate_const)
next
  case (snoc u sched)
  let ?c = "count_list sched" and ?c' = "count_list (sched @ [u])"
  let ?g = "\<lambda>k. k + unused k"
  have u: "u < 16" using snoc.prems by simp
  have c': "?c' t = (if t = u then Suc (?c t) else ?c t)" for t by simp
  have "(\<Sum>t<16. ?g (?c' t)) = ?g (?c' u) + (\<Sum>t \<in> {..<16} - {u}. ?g (?c' t))" using u by (intro sum.remove) auto
  also have "(\<Sum>t \<in> {..<16} - {u}. ?g (?c' t)) = (\<Sum>t \<in> {..<16} - {u}. ?g (?c t))" by (intro sum.cong) auto
  also have "?g (?c' u) = ?g (?c u) + (if unused (?c u) = 0 then 64 else 0)" using unused_Suc [of "?c u"] c' by simp
  finally have sum: "(\<Sum>t<16. ?g (?c' t)) = (\<Sum>t<16. ?g (?c t)) + (if unused (?c u) = 0 then 64 else 0)"
    using u sum.remove [of "{..<16}" u "\<lambda>t. ?g (?c t)"] by simp
  have z: "(of_nat (unused (?c u)) :: u64) = 0 \<longleftrightarrow> unused (?c u) = 0"
    using unused_less [of "?c u"] by (auto simp: word_of_nat_eq_0_iff dest: dvd_imp_le)
  have rems: "map (\<lambda>t. of_nat (unused (?c' t)) :: u64) [0..<16]
      = (map (\<lambda>t. of_nat (unused (?c t))) [0..<16])[u := (if unused (?c u) = 0 then 63 else of_nat (unused (?c u)) - 1)]"
    by (intro nth_equalityI) (auto simp: nth_list_update c' unused_next)
  have "fold batched_body (sched @ [u]) (0, replicate 16 0)
      = batched_body u (of_nat (\<Sum>t<16. ?g (?c t)), map (\<lambda>t. of_nat (unused (?c t))) [0..<16])"
    using snoc by simp
  also have "\<dots> = (of_nat (\<Sum>t<16. ?g (?c' t)), map (\<lambda>t. of_nat (unused (?c' t))) [0..<16])"
    unfolding sum rems using u by (simp add: batched_body_def z)
  finally show ?case .
qed

lemma batched_phases: "batched_phase sched \<in> {None, Some 8000512}" "id_phase sched \<in> {None, Some 8000512}"
proof -
  have "fst (fold batched_body sched (0, replicate 16 0)) = 8000512" if d: "all_done 16 500000 sched"
  proof -
    have "(\<Sum>t<16. count_list sched t + unused (count_list sched t)) = (\<Sum>t<16::nat. 500032 :: nat)"
      by (intro sum.cong) (simp_all add: done_count [OF d] unused_def)
    then show ?thesis using d batched_fold [of sched] by (simp add: all_done_def)
  qed
  then show "batched_phase sched \<in> {None, Some 8000512}"
    by (cases "fold batched_body sched (0, replicate 16 0)") (simp add: batched_phase_def RunParallelBench_def)
  show "id_phase sched \<in> {None, Some 8000512}"
  proof (cases "run (id_call 64) (id_clients_init 16) sched")
    case (Some s)
    then show ?thesis using watermark_after [OF Some] by (auto simp: id_phase_def all_done_def list_all_iff)
  qed (simp add: id_phase_def)
qed

text \<open>The ledgers: every round of every thread is recorded once.\<close>

lemma ledger_phase:
  "LedgerBench NaiveCasSpinlock_step m n qty es \<in> {None, Some ((RecordExecution qty 10 ^^ (m * n)) empty_ledger)}"
  "LedgerBench ReadBeforeCasSpinlock_step m n qty es \<in> {None, Some ((RecordExecution qty 10 ^^ (m * n)) empty_ledger)}"
  by (auto simp: LedgerBench_def dest: ncas.no_lost_update rbcas.no_lost_update split: option.splits)

lemma mag_loop_refills: "mag_loop n (of_nat r) refills = refills + (n + 31 - r) div 32" if "r \<le> 32"
  using that
proof (induction n arbitrary: r refills)
  case (Suc n)
  show ?case
  proof (cases r)
    case 0
    have "mag_loop n (of_nat 31) (refills + 1) = refills + 1 + (n + 31 - 31) div 32" by (rule Suc.IH) simp
    then show ?thesis using 0 by simp
  next
    case (Suc q)
    have "(of_nat (Suc q) :: u64) \<noteq> 0" using Suc.prems \<open>r = Suc q\<close> by (auto simp: word_of_nat_eq_0_iff simp del: of_nat_Suc dest: dvd_imp_le)
    moreover have "mag_loop n (of_nat q) refills = refills + (n + 31 - q) div 32" using Suc.IH Suc.prems \<open>r = Suc q\<close> by simp
    ultimately show ?thesis using \<open>r = Suc q\<close> by (simp add: Let_def)
  qed
qed simp

lemma ledger_run:
  "run (trial_step step spin_holds spin_releases (RecordExecution qty 10)) (trial_init (spin_init 0) empty_ledger m n) es = Some s
    \<Longrightarrow> all_joined s \<Longrightarrow> LedgerBench step m n qty es = Some (shared s)"
  by (simp add: LedgerBench_def)

lemma ledger_completes:
  "\<exists>es r. LedgerBench NaiveCasSpinlock_step m n qty es = Some r"
  "\<exists>es r. LedgerBench ReadBeforeCasSpinlock_step m n qty es = Some r"
proof -
  let ?s = "trial_init (spin_init 0) empty_ledger m n"
  have start: "spin_free 0 (lk ?s)" "pending ?s = (\<lambda>_. None)" by (simp_all add: trial_init_def spin_free_init)
  show "\<exists>es r. LedgerBench NaiveCasSpinlock_step m n qty es = Some r"
    using ncas_solo.solo_trial [OF start, of "RecordExecution qty 10"] ledger_run by blast
  show "\<exists>es r. LedgerBench ReadBeforeCasSpinlock_step m n qty es = Some r"
    using rbcas_solo.solo_trial [OF start, of "RecordExecution qty 10"] ledger_run by blast
qed

lemma bench_completes: "\<exists>sched. all_done m n sched"
proof -
  have "all_done m n (concat (replicate n [0..<m]))"
    using count_round_robin [of _ m n] by (auto simp: all_done_def list_all_iff)
  then show ?thesis by blast
qed

section \<open>What the programs return\<close>

definition mesi_result :: mesi_final where
  "mesi_result = \<lparr>global_counter = of_nat (16 * 500000), batched_total = 8000512, sharded_counter = final_shards,
     naive_ledger = (RecordExecution 1 10 ^^ (16 * 50000)) empty_ledger,
     pause_ledger = (RecordExecution 1 10 ^^ (16 * 50000)) empty_ledger,
     mag_ledger = (RecordExecution 32 10 ^^ (16 * 15625)) empty_ledger,
     split_seq_no = of_nat (1 * 500000), aligned_seq_no = of_nat (1 * 500000)\<rparr>"

lemma bind_outcome: "x \<in> {None, Some v} \<Longrightarrow> f v \<in> {None, Some w} \<Longrightarrow> Option.bind x f \<in> {None, Some w}"
  by (cases x) auto

lemma mag_refills: "mag_loop 500000 0 0 = 15625"
  using mag_loop_refills [of 0 500000 0] by simp

lemma mesi_phases_outcome:
  assumes "\<And>sched. batched sched \<in> {None, Some 8000512}"
    and "\<And>sched. RunParallelBench 16 500000 shard_body (replicate 64 0) sched \<in> {None, Some final_shards}"
  shows "mesi_phases batched shard_body s \<in> {None, Some mesi_result}"
  unfolding mesi_phases_def mag_refills mesi_result_def
  by (intro bind_outcome) (rule fetch_add_phase assms ledger_phase insertI2 insertI1)+

lemma mesi_phases_complete:
  assumes "\<exists>sched b. batched sched = Some b"
  shows "\<exists>s r. mesi_phases batched shard_body s = Some r"
proof -
  obtain a1 where 1: "all_done 1 500000 a1" using bench_completes by blast
  obtain a16 where 16: "all_done 16 500000 a16" using bench_completes by blast
  obtain ab b where b: "batched ab = Some b" using assms by blast
  obtain e1 r1 e2 r2 where n: "LedgerBench NaiveCasSpinlock_step 1 50000 1 e1 = Some r1" "LedgerBench NaiveCasSpinlock_step 16 50000 1 e2 = Some r2"
    using ledger_completes(1) by meson
  obtain e3 r3 e4 r4 where p: "LedgerBench ReadBeforeCasSpinlock_step 16 50000 1 e3 = Some r3"
      "LedgerBench ReadBeforeCasSpinlock_step 16 (mag_loop 500000 0 0) 32 e4 = Some r4"
    using ledger_completes(2) by meson
  let ?s = "\<lparr>one_thread = a1, global16 = a16, batched16 = ab, sharded16 = a16, cas1 = e1, cas16 = e2, pause16 = e3, mag16 = e4,
    split1 = a1, aligned1 = a1\<rparr>"
  have bench: "RunParallelBench 1 500000 body v a1 = Some (fold body a1 v)" "RunParallelBench 16 500000 body v a16 = Some (fold body a16 v)"
    for body and v :: u64 using 1 16 by (simp_all add: RunParallelBench_def)
  have shards: "RunParallelBench 16 500000 shard_body (replicate 64 0) a16 = Some (fold shard_body a16 (replicate 64 0))"
    using 16 by (simp add: RunParallelBench_def)
  have "\<exists>r. mesi_phases batched shard_body ?s = Some r"
    unfolding mesi_phases_def by (simp only: mesi_schedules.simps bench shards b n p bind.bind_lunit) simp
  then show ?thesis by blast
qed

lemma batched_complete: "\<exists>sched b. batched_phase sched = Some b" "\<exists>sched b. id_phase sched = Some b"
proof -
  obtain a where a: "all_done 16 500000 a" using bench_completes by blast
  then show "\<exists>sched b. batched_phase sched = Some b" by (auto simp: batched_phase_def RunParallelBench_def)
  obtain s where "run (id_call 64) (id_clients_init 16) a = Some s"
    using id_run_total [of a "id_clients_init 16" 64] a by (auto simp: all_done_def list_all_iff id_clients_init_def)
  then show "\<exists>sched b. id_phase sched = Some b" using a by (auto simp: id_phase_def)
qed

lemma sometimes: "(\<And>s. f s \<in> {None, Some y}) \<Longrightarrow> \<exists>s r. f s = Some r \<Longrightarrow> \<exists>s. f s = Some y"
  by (metis empty_iff insertE option.distinct(1))

lemma mesi_result_exits:
  "mesi_exit mesi_result = 1" "Ep09_exit mesi_result = 0"
  "total_Fill_qty (mag_ledger mesi_result) = 8000000" "rolling_notional (mag_ledger mesi_result) = 80000000"
proof -
  have totals: "ledger_sequence ((RecordExecution q p ^^ n) empty_ledger) = of_nat n" "total_Fill_qty ((RecordExecution q p ^^ n) empty_ledger) = of_nat n * q"
    "rolling_notional ((RecordExecution q p ^^ n) empty_ledger) = of_nat n * (q * p)" for q p :: u64 and n
    using RecordExecution_totals [where q = q and p = p and n = n and l = empty_ledger] by (simp_all add: empty_ledger_def)
  show "mesi_exit mesi_result = 1" by (simp add: mesi_exit_def mesi_result_def)
  show "Ep09_exit mesi_result = 0"
    unfolding Ep09_exit_def mesi_result_def mesi_final.simps totals by simp
  show "total_Fill_qty (mag_ledger mesi_result) = 8000000" "rolling_notional (mag_ledger mesi_result) = 80000000"
    unfolding mesi_result_def mesi_final.simps totals by simp_all
qed

section \<open>Properties\<close>

text \<open>
  C29. The shared data of the two cache-line challenges at the end is the same in every interleaving of every
  phase: no increment and no ledger entry is lost, and the batches leave the counter at 8,000,512. The check of
  \<open>common/mesi_coherency\<close> expects 8,000,000 there, so that program returns 1 whenever it ends, although every id
  is unique; the episode 09 program checks the headers and the ledger and always returns 0. Both can end.
\<close>

theorem mesi_challenges_exit:
  "mesi_phases id_phase (\<lambda>tid. Increment 64 (of_nat tid) 1) s \<in> {None, Some mesi_result}
   \<and> mesi_phases batched_phase sharded_body s \<in> {None, Some mesi_result}
   \<and> mesi_challenge s \<in> {None, Some 1} \<and> (\<exists>s. mesi_challenge s = Some 1)
   \<and> Ep09_challenge s \<in> {None, Some 0} \<and> (\<exists>s. Ep09_challenge s = Some 0)"
proof -
  have phases: "mesi_phases id_phase (\<lambda>tid. Increment 64 (of_nat tid) 1) s \<in> {None, Some mesi_result}"
    "mesi_phases batched_phase sharded_body s \<in> {None, Some mesi_result}" for s
    by (rule mesi_phases_outcome, rule batched_phases, rule sharded_phase)+
  then have exits: "mesi_challenge s \<in> {None, Some 1}" "Ep09_challenge s \<in> {None, Some 0}" for s
    using phases [of s] mesi_result_exits(1,2) by (auto simp: mesi_challenge_def Ep09_challenge_def)
  have "\<exists>s r. mesi_challenge s = Some r" "\<exists>s r. Ep09_challenge s = Some r"
    using mesi_phases_complete [OF batched_complete(2)] mesi_phases_complete [OF batched_complete(1)]
    by (simp_all add: mesi_challenge_def Ep09_challenge_def)
  then have "\<exists>s. mesi_challenge s = Some 1" "\<exists>s. Ep09_challenge s = Some 0"
    using sometimes [of mesi_challenge] sometimes [of Ep09_challenge] exits by auto
  then show ?thesis using phases exits by blast
qed

end
