(* ===== verification/Paging.thy ===== *)
theory Paging
  imports Mmu
begin

text \<open>
  The page-fault programs of \<open>common/syscalls_traps_and_mmu/challenge.cc\<close>: the modes of \<open>RunIsolatedPmuMode\<close> and the
  fault count of case 2. The memory of the kernel is a parameter; what the program relies on is
  \<open>demand_paging\<close>: a write to a page that is not resident is one minor fault and makes it resident,
  \<open>MAP_POPULATE\<close> maps resident pages, a plain mapping has none.
\<close>

section \<open>The kernel\<close>

record 'k paging =
  sys_mmap :: "bool \<Rightarrow> nat \<Rightarrow> 'k \<Rightarrow> u64 \<times> 'k"
  sys_munmap :: "u64 \<Rightarrow> nat \<Rightarrow> 'k \<Rightarrow> 'k"
  sys_nohugepage :: "u64 \<Rightarrow> nat \<Rightarrow> 'k \<Rightarrow> 'k"
  sys_mlock :: "u64 \<Rightarrow> nat \<Rightarrow> 'k \<Rightarrow> 'k"
  sys_munlock :: "u64 \<Rightarrow> nat \<Rightarrow> 'k \<Rightarrow> 'k"
  write_byte :: "u64 \<Rightarrow> u8 \<Rightarrow> 'k \<Rightarrow> 'k"
  GetMinorFaults :: "'k \<Rightarrow> int"

definition page_of :: "u64 \<Rightarrow> nat" where
  "page_of a = unat a div 4096"

definition pages_of :: "u64 \<Rightarrow> nat \<Rightarrow> nat set" where
  "pages_of a len = {unat a div 4096..<unat a div 4096 + len div 4096}"

definition demand_paging :: "'k paging \<Rightarrow> ('k \<Rightarrow> nat set) \<Rightarrow> bool" where
  "demand_paging K resident \<longleftrightarrow>
     (\<forall>k a v. GetMinorFaults K (write_byte K a v k) = GetMinorFaults K k + (if page_of a \<in> resident k then 0 else 1)
        \<and> resident (write_byte K a v k) = insert (page_of a) (resident k))
   \<and> (\<forall>populate len k a k'. len \<le> 2 ^ 30 \<and> sys_mmap K populate len k = (a, k') \<longrightarrow>
        unat a mod 4096 = 0 \<and> unat a + len < 2 ^ 64
        \<and> (if populate then pages_of a len \<subseteq> resident k'
           else GetMinorFaults K k' = GetMinorFaults K k \<and> pages_of a len \<inter> resident k' = {}))
   \<and> (\<forall>a len k. GetMinorFaults K (sys_munmap K a len k) = GetMinorFaults K k)
   \<and> (\<forall>a len k. GetMinorFaults K (sys_nohugepage K a len k) = GetMinorFaults K k
        \<and> resident (sys_nohugepage K a len k) = resident k)
   \<and> (\<forall>a len k. resident k \<subseteq> resident (sys_mlock K a len k))"

section \<open>The programs\<close>

text \<open>\<open>for (off = 0; off < kBytes2MiB; off += kPage4K) buf[off] = v;\<close>\<close>

definition write_pass :: "'k paging \<Rightarrow> u64 \<Rightarrow> u8 \<Rightarrow> 'k \<Rightarrow> 'k" where
  "write_pass K buf v k = fold (\<lambda>i. write_byte K (buf + of_nat (i * 4096)) v) [0..<512] k"

definition memset_1 :: "'k paging \<Rightarrow> u64 \<Rightarrow> nat \<Rightarrow> 'k \<Rightarrow> 'k" where
  "memset_1 K buf len k = fold (\<lambda>i. write_byte K (buf + of_nat i) 1) [0..<len] k"

definition kBytes2MiB :: nat where "kBytes2MiB = 2 * 2 ^ 20"

definition fault_pass :: "'k paging \<Rightarrow> 'k \<Rightarrow> 'k" where
  "fault_pass K k =
     (let (buf, k) = sys_mmap K False kBytes2MiB k;
          k = sys_nohugepage K buf kBytes2MiB k;
          k = write_pass K buf 0x42 k
      in sys_munmap K buf kBytes2MiB k)"

definition fault_2m :: "'k paging \<Rightarrow> 'k \<Rightarrow> int \<times> 'k" where
  "fault_2m K k =
     (let f0 = GetMinorFaults K k; k = (fault_pass K ^^ 500) k; f1 = GetMinorFaults K k in (f1 - f0, k))"

definition pool_2m :: "'k paging \<Rightarrow> 'k \<Rightarrow> int \<times> 'k" where
  "pool_2m K k =
     (let (buf, k) = sys_mmap K True kBytes2MiB k;
          k = sys_mlock K buf kBytes2MiB k;
          k = memset_1 K buf kBytes2MiB k;
          f0 = GetMinorFaults K k;
          k = (write_pass K buf 0x99 ^^ 500) k;
          f1 = GetMinorFaults K k
      in (f1 - f0, sys_munmap K buf kBytes2MiB (sys_munlock K buf kBytes2MiB k)))"

text \<open>
  The exit code, and the fault count it prints in the two fault modes; \<open>None\<close> would be a lookup outside its table.
\<close>

definition RunIsolatedPmuMode :: "'k paging \<Rightarrow> (nat \<Rightarrow> nat \<Rightarrow> nat \<Rightarrow> nat) \<Rightarrow> string \<Rightarrow> 'k \<Rightarrow> (int \<times> int option) option" where
  "RunIsolatedPmuMode K draw mode k =
     (let lookup = (\<lambda>bytes. map_option (\<lambda>_. (0, None)) (RunTlbLookupTest draw bytes 16000000))
      in if mode = ''fault_2m'' then Some (0, Some (fst (fault_2m K k)))
         else if mode = ''pool_2m'' then Some (0, Some (fst (pool_2m K k)))
         else if mode = ''4k_32m'' then lookup (32 * 2 ^ 20)
         else if mode = ''2m_32m'' then lookup (32 * 2 ^ 20)
         else if mode = ''4k_512m'' then lookup (512 * 2 ^ 20)
         else if mode = ''2m_512m'' then lookup (512 * 2 ^ 20)
         else Some (1, None))"

text \<open>Case 2 of \<open>main\<close>: the faults of the first and of the second write pass over a fresh mapping.\<close>

definition case2_iteration :: "'k paging \<Rightarrow> int \<times> 'k \<Rightarrow> int \<times> 'k" where
  "case2_iteration K s =
     (let (total_first_write_faults, k) = s;
          (buf, k) = sys_mmap K False kBytes2MiB k;
          k = sys_nohugepage K buf kBytes2MiB k;
          f0 = GetMinorFaults K k;
          k = write_pass K buf 0x42 k;
          f1 = GetMinorFaults K k;
          k = write_pass K buf 0x99 k
      in (total_first_write_faults + (f1 - f0), sys_munmap K buf kBytes2MiB k))"

definition case2_faults_per_call :: "'k paging \<Rightarrow> 'k \<Rightarrow> int" where
  "case2_faults_per_call K k = fst ((case2_iteration K ^^ 1000) (0, k)) div 1000"

section \<open>Counting faults\<close>

lemma demand_mmap:
  assumes "demand_paging K resident" and "len \<le> 2 ^ 30" and "sys_mmap K populate len k = (a, k')"
  shows "unat a mod 4096 = 0" and "unat a + len < 2 ^ 64"
    and "\<not> populate \<Longrightarrow> GetMinorFaults K k' = GetMinorFaults K k" and "\<not> populate \<Longrightarrow> pages_of a len \<inter> resident k' = {}"
    and "populate \<Longrightarrow> pages_of a len \<subseteq> resident k'"
proof -
  note d = assms(1) [unfolded demand_paging_def, THEN conjunct2, THEN conjunct1, rule_format, OF conjI [OF assms(2,3)]]
  show "unat a mod 4096 = 0" "unat a + len < 2 ^ 64" using d by blast+
  show "\<not> populate \<Longrightarrow> GetMinorFaults K k' = GetMinorFaults K k" "\<not> populate \<Longrightarrow> pages_of a len \<inter> resident k' = {}"
    "populate \<Longrightarrow> pages_of a len \<subseteq> resident k'" using d by (simp_all split: if_splits)
qed

lemma demand_keeps:
  assumes "demand_paging K resident"
  shows "GetMinorFaults K (sys_munmap K a len k) = GetMinorFaults K k"
    and "GetMinorFaults K (sys_nohugepage K a len k) = GetMinorFaults K k" and "resident (sys_nohugepage K a len k) = resident k"
    and "resident k \<subseteq> resident (sys_mlock K a len k)"
  using assms by (simp_all add: demand_paging_def)

lemma region_fits: "kBytes2MiB \<le> 2 ^ 30"
  by (simp add: kBytes2MiB_def)

lemma write_list:
  assumes "demand_paging K resident" and "distinct (map page_of as)"
  shows "GetMinorFaults K (fold (\<lambda>a. write_byte K a v) as k) = GetMinorFaults K k + int (card (page_of ` set as - resident k))
    \<and> resident (fold (\<lambda>a. write_byte K a v) as k) = resident k \<union> page_of ` set as"
  using assms(2)
proof (induction as arbitrary: k)
  case (Cons a as)
  let ?k = "write_byte K a v k"
  have w: "GetMinorFaults K ?k = GetMinorFaults K k + (if page_of a \<in> resident k then 0 else 1)" "resident ?k = insert (page_of a) (resident k)"
    using assms(1) by (simp_all add: demand_paging_def)
  have "page_of a \<notin> page_of ` set as" using Cons.prems by auto
  then have "page_of ` set as - insert (page_of a) (resident k) = page_of ` set as - resident k" by auto
  moreover have "page_of ` set (a # as) - resident k = (if page_of a \<in> resident k then page_of ` set as - resident k
      else insert (page_of a) (page_of ` set as - resident k))" by auto
  ultimately show ?case using Cons w \<open>page_of a \<notin> page_of ` set as\<close> by (auto simp: card_insert_if)
qed simp

lemma pass_pages:
  assumes "unat buf mod 4096 = 0" and "unat buf + kBytes2MiB < 2 ^ 64"
  shows "map page_of (map (\<lambda>i. buf + of_nat (i * 4096)) [0..<512]) = map (\<lambda>i. unat buf div 4096 + i) [0..<512]"
    and "pages_of buf kBytes2MiB = {unat buf div 4096..<unat buf div 4096 + 512}"
proof -
  have "page_of (buf + of_nat (i * 4096)) = unat buf div 4096 + i" if "i < 512" for i
  proof -
    have "unat (of_nat (i * 4096) :: u64) = i * 4096" using that by (simp only: unsigned_of_nat) (simp add: take_bit_nat_eq_self)
    then have "unat (buf + of_nat (i * 4096)) = unat buf + i * 4096"
      using assms(2) that unat_add_u64 [of buf "of_nat (i * 4096)"] by (simp only: kBytes2MiB_def) simp
    then show ?thesis using assms(1) by (simp add: page_of_def)
  qed
  then show "map page_of (map (\<lambda>i. buf + of_nat (i * 4096)) [0..<512]) = map (\<lambda>i. unat buf div 4096 + i) [0..<512]" by simp
qed (simp add: pages_of_def kBytes2MiB_def)

lemma write_pass_faults:
  assumes "demand_paging K resident" and "unat buf mod 4096 = 0" "unat buf + kBytes2MiB < 2 ^ 64"
  shows "GetMinorFaults K (write_pass K buf v k) = GetMinorFaults K k + int (card (pages_of buf kBytes2MiB - resident k))"
    "resident (write_pass K buf v k) = resident k \<union> pages_of buf kBytes2MiB"
proof -
  let ?as = "map (\<lambda>i. buf + of_nat (i * 4096)) [0..<512]"
  note p = pass_pages [OF assms(2,3)]
  have d: "distinct (map page_of ?as)" unfolding p(1) by (simp add: distinct_map inj_on_def)
  have "page_of ` set ?as = set (map page_of ?as)" by (simp only: set_map)
  also have "\<dots> = pages_of buf kBytes2MiB"
    unfolding p by (simp only: set_map set_upt image_add_atLeastLessThan' add.commute) (simp add: add.commute)
  finally have s: "page_of ` set ?as = pages_of buf kBytes2MiB" .
  have "write_pass K buf v k = fold (\<lambda>a. write_byte K a v) ?as k" by (simp add: write_pass_def fold_map comp_def)
  then show "GetMinorFaults K (write_pass K buf v k) = GetMinorFaults K k + int (card (pages_of buf kBytes2MiB - resident k))"
    "resident (write_pass K buf v k) = resident k \<union> pages_of buf kBytes2MiB"
    using write_list [OF assms(1) d, of v k] unfolding s by simp_all
qed

lemma fault_pass_faults:
  assumes "demand_paging K resident"
  shows "GetMinorFaults K (fault_pass K k) = GetMinorFaults K k + 512"
    and "case2_iteration K (n, k) = (n + 512, snd (case2_iteration K (n, k)))"
proof -
  obtain buf k1 where m: "sys_mmap K False kBytes2MiB k = (buf, k1)" by fastforce
  let ?k = "sys_nohugepage K buf kBytes2MiB k1"
  note b = demand_mmap(1,2) [OF assms region_fits m] demand_mmap(3,4) [OF assms region_fits m, simplified]
  note h = demand_keeps(2,3) [OF assms, of buf kBytes2MiB k1] demand_keeps(1) [OF assms]
  have "pages_of buf kBytes2MiB - resident ?k = pages_of buf kBytes2MiB" using b(4) h(2) by blast
  moreover have "card (pages_of buf kBytes2MiB) = 512" by (simp add: pages_of_def kBytes2MiB_def)
  ultimately have f: "GetMinorFaults K (write_pass K buf v ?k) = GetMinorFaults K ?k + 512" for v
    using write_pass_faults(1) [OF assms b(1,2), of v ?k] by simp
  show "GetMinorFaults K (fault_pass K k) = GetMinorFaults K k + 512" using m f b(3) h by (simp add: fault_pass_def)
  show "case2_iteration K (n, k) = (n + 512, snd (case2_iteration K (n, k)))" using m f by (simp add: case2_iteration_def Let_def)
qed

lemma fault_passes: "demand_paging K resident \<Longrightarrow> GetMinorFaults K ((fault_pass K ^^ n) k) = GetMinorFaults K k + 512 * int n"
  by (induction n) (simp_all add: fault_pass_faults(1))

lemma fault_2m_faults: "demand_paging K resident \<Longrightarrow> fst (fault_2m K k) = 256000"
  by (simp add: fault_2m_def Let_def fault_passes)

lemma case2_faults: "demand_paging K resident \<Longrightarrow> case2_faults_per_call K k = 512"
proof -
  assume p: "demand_paging K resident"
  have "fst ((case2_iteration K ^^ n) (0, k)) = 512 * int n" for n
  proof (induction n)
    case (Suc n)
    obtain m k' where "(case2_iteration K ^^ n) (0, k) = (m, k')" by fastforce
    then show ?case using Suc fault_pass_faults(2) [OF p, of m k'] by (metis comp_apply fst_conv funpow.simps(2) of_nat_Suc distrib_left mult.right_neutral add.commute)
  qed simp
  then show ?thesis by (simp add: case2_faults_per_call_def)
qed

lemma resident_fold: "demand_paging K resident \<Longrightarrow> resident k \<subseteq> resident (fold (\<lambda>i. write_byte K (f i) v) is k)"
proof (induction "is" arbitrary: k)
  case (Cons i "is")
  have "resident (write_byte K (f i) v k) = insert (page_of (f i)) (resident k)" using Cons.prems by (simp add: demand_paging_def)
  then show ?case using Cons.IH [OF Cons.prems, of "write_byte K (f i) v k"] by auto
qed simp

lemma prefaulted_passes:
  assumes p: "demand_paging K resident" and m: "sys_mmap K True kBytes2MiB k = (buf, k1)"
  shows "GetMinorFaults K ((write_pass K buf v ^^ n) (memset_1 K buf kBytes2MiB (sys_mlock K buf kBytes2MiB k1)))
    = GetMinorFaults K (memset_1 K buf kBytes2MiB (sys_mlock K buf kBytes2MiB k1))"
proof -
  note b = demand_mmap(1,2) [OF p region_fits m] demand_mmap(5) [OF p region_fits m TrueI]
  let ?k = "memset_1 K buf kBytes2MiB (sys_mlock K buf kBytes2MiB k1)"
  note demand_keeps(4) [OF p, of k1 buf kBytes2MiB]
  then have r: "pages_of buf kBytes2MiB \<subseteq> resident ?k"
    using b(3) resident_fold [OF p, of "sys_mlock K buf kBytes2MiB k1" "\<lambda>i. buf + of_nat i" 1 "[0..<kBytes2MiB]"] by (auto simp: memset_1_def)
  have "GetMinorFaults K ((write_pass K buf v ^^ n) ?k) = GetMinorFaults K ?k \<and> pages_of buf kBytes2MiB \<subseteq> resident ((write_pass K buf v ^^ n) ?k)"
  proof (induction n)
    case (Suc n)
    then have "pages_of buf kBytes2MiB - resident ((write_pass K buf v ^^ n) ?k) = {}" by blast
    then have "card (pages_of buf kBytes2MiB - resident ((write_pass K buf v ^^ n) ?k)) = 0" by (simp only: card.empty)
    then show ?case using Suc write_pass_faults [OF p b(1,2), of v "(write_pass K buf v ^^ n) ?k"] by simp
  qed (simp add: r)
  then show ?thesis ..
qed

lemma pool_2m_faults: "demand_paging K resident \<Longrightarrow> fst (pool_2m K k) = 0"
  by (cases "sys_mmap K True kBytes2MiB k") (simp add: pool_2m_def Let_def prefaulted_passes)

section \<open>A kernel\<close>

text \<open>A kernel with the assumed behaviour: it maps every region at the same address, on pages of its own.\<close>

definition small_paging :: "(nat set \<times> int) paging" where
  "small_paging = \<lparr>
     sys_mmap = (\<lambda>populate len k.
        (4096, (if populate then fst k \<union> pages_of 4096 len else fst k - pages_of 4096 len, snd k))),
     sys_munmap = (\<lambda>a len k. (fst k - pages_of a len, snd k)),
     sys_nohugepage = (\<lambda>a len k. k), sys_mlock = (\<lambda>a len k. k), sys_munlock = (\<lambda>a len k. k),
     write_byte = (\<lambda>a v k. (insert (page_of a) (fst k), snd k + (if page_of a \<in> fst k then 0 else 1))),
     GetMinorFaults = snd\<rparr>"

lemma small_paging_ok: "demand_paging small_paging fst"
  by (auto simp: demand_paging_def small_paging_def)

section \<open>Exit codes\<close>

lemma RunIsolatedPmuMode_modes:
  assumes "demand_paging K resident"
  shows "RunIsolatedPmuMode K draw ''fault_2m'' k = Some (0, Some (500 * 512))" and "RunIsolatedPmuMode K draw ''pool_2m'' k = Some (0, Some 0)"
  using fault_2m_faults [OF assms] pool_2m_faults [OF assms] by (simp_all add: RunIsolatedPmuMode_def Let_def)

lemma RunIsolatedPmuMode_lookups:
  assumes "\<And>a b i. a \<le> b \<Longrightarrow> a \<le> draw a b i \<and> draw a b i \<le> b" and "mode \<in> {''4k_32m'', ''2m_32m'', ''4k_512m'', ''2m_512m''}"
  shows "RunIsolatedPmuMode K draw mode k = Some (0, None)"
proof -
  have "\<exists>acc. RunTlbLookupTest draw (32 * 2 ^ 20) 16000000 = Some acc" "\<exists>acc. RunTlbLookupTest draw (512 * 2 ^ 20) 16000000 = Some acc"
    by (rule RunTlbLookupTest_in_bounds [OF _ _ assms(1)]; simp)+
  then obtain x y where "RunTlbLookupTest draw (32 * 2 ^ 20) 16000000 = Some x" "RunTlbLookupTest draw (512 * 2 ^ 20) 16000000 = Some y" by blast
  then show ?thesis using assms(2) by (auto simp: RunIsolatedPmuMode_def Let_def)
qed

lemma RunIsolatedPmuMode_unknown:
  "mode \<notin> {''fault_2m'', ''pool_2m'', ''4k_32m'', ''2m_32m'', ''4k_512m'', ''2m_512m''} \<Longrightarrow> RunIsolatedPmuMode K draw mode k = Some (1, None)"
  by (auto simp: RunIsolatedPmuMode_def Let_def)

end
