(* ===== verification/MmuBench.thy ===== *)
theory MmuBench
  imports Paging
begin

unbundle bit_operations_syntax

text \<open>
  \<open>common/syscalls_traps_and_mmu/syscalls_traps_and_mmu_benchmark.cc\<close>: the thread id beside a working set, the
  page-fault counters of its case file 2 and the order book of case file 3. The address space is the set
  of mapped addresses; where the kernel maps is a parameter. The loop of the benchmark library runs
  its body a number of times that is an argument.
\<close>

section \<open>Address space\<close>

datatype advice = MADV_HUGEPAGE | MADV_NOHUGEPAGE | MADV_COLLAPSE

record address_space =
  mapped :: "nat set"
  advised :: "(u64 \<times> u64 \<times> advice) list"

definition whole_pages :: "u64 \<Rightarrow> nat" where
  "whole_pages len = (unat len + 4095) div 4096 * 4096"

definition as_mmap :: "(address_space \<Rightarrow> u64 \<Rightarrow> u64 option) \<Rightarrow> u64 \<Rightarrow> address_space \<Rightarrow> u64 \<times> address_space" where
  "as_mmap os_mmap len vm = (case os_mmap vm len of None \<Rightarrow> (MAP_FAILED, vm)
     | Some a \<Rightarrow> (a, vm\<lparr>mapped := mapped vm \<union> {unat a..<unat a + whole_pages len}\<rparr>))"

text \<open>\<open>munmap\<close> wants the start of a page and a length, and takes whole pages.\<close>

definition as_munmap :: "u64 \<Rightarrow> u64 \<Rightarrow> address_space \<Rightarrow> address_space" where
  "as_munmap a len vm =
     (if unat a mod 4096 = 0 \<and> len \<noteq> 0 then vm\<lparr>mapped := mapped vm - {unat a..<unat a + whole_pages len}\<rparr> else vm)"

definition as_madvise :: "u64 \<Rightarrow> u64 \<Rightarrow> advice \<Rightarrow> address_space \<Rightarrow> address_space" where
  "as_madvise a len adv vm = vm\<lparr>advised := advised vm @ [(a, len, adv)]\<rparr>"

text \<open>A kernel maps whole free pages of the lower half of the address space, and not at address 0.\<close>

definition maps_free_pages :: "(address_space \<Rightarrow> u64 \<Rightarrow> u64 option) \<Rightarrow> bool" where
  "maps_free_pages os_mmap \<longleftrightarrow> (\<forall>vm len a. os_mmap vm len = Some a \<longrightarrow>
     a \<noteq> 0 \<and> unat a mod 4096 = 0 \<and> unat a + whole_pages len < 2 ^ 63 \<and> {unat a..<unat a + whole_pages len} \<inter> mapped vm = {})"

section \<open>AllocateOrderBookArena\<close>

record order_slot =
  order_id :: u64
  slot_price_ticks :: i64
  slot_quantity :: u64
  next_probe_idx :: u64
  padding :: "u8 list"

definition fresh_slot :: order_slot where
  "fresh_slot = \<lparr>order_id = 0, slot_price_ticks = 0, slot_quantity = 0, next_probe_idx = 0, padding = replicate 32 0\<rparr>"

definition fill_slot :: "nat \<Rightarrow> order_slot \<Rightarrow> order_slot" where
  "fill_slot i s = s\<lparr>order_id := of_nat i, slot_price_ticks := of_nat (i * 7 + 100), slot_quantity := 10, next_probe_idx := of_nat i\<rparr>"

text \<open>\<open>collapse\<close> says whether the headers define \<open>MADV_COLLAPSE\<close>; \<open>None\<close> is \<open>nullptr\<close>.\<close>

definition AllocateOrderBookArena ::
  "(address_space \<Rightarrow> u64 \<Rightarrow> u64 option) \<Rightarrow> bool \<Rightarrow> u64 \<Rightarrow> bool \<Rightarrow> address_space \<Rightarrow> (u64 \<times> order_slot list) option \<times> address_space" where
  "AllocateOrderBookArena os_mmap collapse total_bytes use_hugepages vm =
     (let raw_bytes = total_bytes + kHugePageSize2MiB;
          (raw, vm) = as_mmap os_mmap raw_bytes vm
      in if raw = MAP_FAILED then (None, vm)
         else let aligned_addr = round_up kHugePageSize2MiB raw;
                  lead_slop = aligned_addr - raw;
                  vm = (if 0 < lead_slop then as_munmap raw lead_slop vm else vm);
                  tail_slop = raw_bytes - lead_slop - total_bytes;
                  vm = (if 0 < tail_slop then as_munmap (aligned_addr + total_bytes) tail_slop vm else vm);
                  vm = as_madvise aligned_addr total_bytes (if use_hugepages then MADV_HUGEPAGE else MADV_NOHUGEPAGE) vm;
                  num_slots = unat (total_bytes div 64);
                  sl = fold (\<lambda>i sl. sl[i := fill_slot i (sl ! i)]) [0..<num_slots] (replicate num_slots fresh_slot);
                  vm = (if collapse \<and> use_hugepages then as_madvise aligned_addr total_bytes MADV_COLLAPSE vm else vm)
              in (Some (aligned_addr, sl), vm))"

section \<open>RunRandomLookupBenchmark\<close>

definition kRingSize :: nat where "kRingSize = 2 ^ 20"

definition probe_ring :: "(u64 \<Rightarrow> u64 \<Rightarrow> nat \<Rightarrow> u64) \<Rightarrow> (u64 \<Rightarrow> u64 \<Rightarrow> nat \<Rightarrow> u64) \<Rightarrow> u64 \<Rightarrow> u32 list" where
  "probe_ring page_dist slot_in_page_dist num_pages_4k =
     fold (\<lambda>i ring. let page = page_dist 0 (num_pages_4k - 1) i;
                        slot_offset = slot_in_page_dist 0 (kPageSize4KiB div 64 - 1) i
                    in ring[i := ucast (page * (kPageSize4KiB div 64) + slot_offset)])
       [0..<kRingSize] (replicate kRingSize 0)"

text \<open>One iteration; a read through a null pointer or outside the slots has no value.\<close>

definition book_lookup :: "(u64 \<times> order_slot list) option \<Rightarrow> u32 list \<Rightarrow> nat \<Rightarrow> i64 \<Rightarrow> i64 option" where
  "book_lookup book ring cursor tot =
     (let idx = unat (ring ! unat ((of_nat cursor + (tot AND 0xFF)) AND (of_nat kRingSize - 1) :: u64))
      in case book of None \<Rightarrow> None
         | Some (a, sl) \<Rightarrow> if idx < length sl then Some (tot + slot_price_ticks (sl ! idx)) else None)"

primrec book_lookups :: "(u64 \<times> order_slot list) option \<Rightarrow> u32 list \<Rightarrow> nat \<Rightarrow> i64 option" where
  "book_lookups book ring 0 = Some 0"
| "book_lookups book ring (Suc n) = (case book_lookups book ring n of None \<Rightarrow> None | Some tot \<Rightarrow> book_lookup book ring n tot)"

definition RunRandomLookupBenchmark ::
  "(address_space \<Rightarrow> u64 \<Rightarrow> u64 option) \<Rightarrow> bool \<Rightarrow> (u64 \<Rightarrow> u64 \<Rightarrow> nat \<Rightarrow> u64) \<Rightarrow> (u64 \<Rightarrow> u64 \<Rightarrow> nat \<Rightarrow> u64) \<Rightarrow>
   u64 \<Rightarrow> bool \<Rightarrow> nat \<Rightarrow> address_space \<Rightarrow> (i64 \<times> address_space) option" where
  "RunRandomLookupBenchmark os_mmap collapse page_dist slot_in_page_dist book_bytes use_hugepages iterations vm =
     (let (book, vm) = AllocateOrderBookArena os_mmap collapse book_bytes use_hugepages vm;
          ring = probe_ring page_dist slot_in_page_dist (book_bytes div kPageSize4KiB)
      in case book_lookups book ring iterations of None \<Rightarrow> None
         | Some tot \<Rightarrow> Some (tot, as_munmap (case book of None \<Rightarrow> 0 | Some (a, sl) \<Rightarrow> a) book_bytes vm))"

section \<open>Case file 1: the thread id beside a working set\<close>

definition touch_working_set :: "u64 list \<times> u64 \<Rightarrow> u64 list \<times> u64" where
  "touch_working_set s = fold (\<lambda>j (ws, acc). let i = j * 8 in (ws[i := ws ! i + 1], acc + ws ! i)) [0..<length (fst s) div 8] s"

definition kWorkingSet48KiB :: nat where "kWorkingSet48KiB = 48 * 1024"

type_synonym tid_state = "(tid \<Rightarrow> nat option) \<times> nat"

primrec WithCachedTid :: "(tid \<Rightarrow> nat) \<Rightarrow> tid \<Rightarrow> nat \<Rightarrow> tid_state \<Rightarrow> (u64 list \<times> u64) \<times> tid_state" where
  "WithCachedTid os_gettid t 0 s = ((replicate (kWorkingSet48KiB div 8) 1, 0), s)"
| "WithCachedTid os_gettid t (Suc n) s =
     (let (w, s) = WithCachedTid os_gettid t n s; (ws, acc) = touch_working_set w; (i, s) = CachedThreadId os_gettid t s
      in ((ws, acc + of_nat i), s))"

primrec WithRawSyscall :: "(tid \<Rightarrow> nat) \<Rightarrow> tid \<Rightarrow> nat \<Rightarrow> nat \<Rightarrow> (u64 list \<times> u64) \<times> nat" where
  "WithRawSyscall os_gettid t 0 calls = ((replicate (kWorkingSet48KiB div 8) 1, 0), calls)"
| "WithRawSyscall os_gettid t (Suc n) calls =
     (let (w, calls) = WithRawSyscall os_gettid t n calls; (ws, acc) = touch_working_set w; (i, calls) = RawSyscallGettid os_gettid t calls
      in ((ws, acc + of_nat i), calls))"

section \<open>Case file 2: minor faults\<close>

definition Mmap2MiB_VirtualAllocOnly :: "'k paging \<Rightarrow> nat \<Rightarrow> 'k \<Rightarrow> int" where
  "Mmap2MiB_VirtualAllocOnly K iterations k =
     GetMinorFaults K (((\<lambda>k. let (p, k) = sys_mmap K False kBytes2MiB k in sys_munmap K p kBytes2MiB k) ^^ iterations) k) - GetMinorFaults K k"

definition Mmap2MiB_FirstWritePass :: "'k paging \<Rightarrow> nat \<Rightarrow> 'k \<Rightarrow> int" where
  "Mmap2MiB_FirstWritePass K iterations k =
     GetMinorFaults K (((\<lambda>k. let (buf, k) = sys_mmap K False kBytes2MiB k;
                                 k = sys_nohugepage K buf kBytes2MiB k;
                                 k = write_pass K buf 0x42 k
                             in sys_munmap K buf kBytes2MiB k) ^^ iterations) k) - GetMinorFaults K k"

definition PrefaultedArena2MiB_SecondWritePass :: "'k paging \<Rightarrow> nat \<Rightarrow> 'k \<Rightarrow> int" where
  "PrefaultedArena2MiB_SecondWritePass K iterations k =
     (let (buf, k) = sys_mmap K True kBytes2MiB k;
          k = sys_mlock K buf kBytes2MiB k;
          k = memset_1 K buf kBytes2MiB k;
          faults_before = GetMinorFaults K k;
          k = (write_pass K buf 0x42 ^^ iterations) k
      in GetMinorFaults K k - faults_before)"

section \<open>Faults\<close>

lemma benchmark_faults:
  assumes "demand_paging K resident"
  shows "Mmap2MiB_VirtualAllocOnly K n k = 0" and "Mmap2MiB_FirstWritePass K n k = 512 * int n"
    and "PrefaultedArena2MiB_SecondWritePass K n k = 0"
proof -
  have "GetMinorFaults K (let (p, k) = sys_mmap K False kBytes2MiB k in sys_munmap K p kBytes2MiB k) = GetMinorFaults K k" for k
    using demand_mmap(3) [OF assms region_fits, of False k] demand_keeps(1) [OF assms]
    by (cases "sys_mmap K False kBytes2MiB k") simp
  then have "GetMinorFaults K (((\<lambda>k. let (p, k) = sys_mmap K False kBytes2MiB k in sys_munmap K p kBytes2MiB k) ^^ n) k) = GetMinorFaults K k"
    by (induction n) simp_all
  then show "Mmap2MiB_VirtualAllocOnly K n k = 0" by (simp add: Mmap2MiB_VirtualAllocOnly_def)
  show "Mmap2MiB_FirstWritePass K n k = 512 * int n"
    unfolding Mmap2MiB_FirstWritePass_def fault_pass_def [symmetric] using fault_passes [OF assms, of n k] by simp
  show "PrefaultedArena2MiB_SecondWritePass K n k = 0"
    by (cases "sys_mmap K True kBytes2MiB k") (simp add: PrefaultedArena2MiB_SecondWritePass_def Let_def prefaulted_passes [OF assms])
qed

section \<open>The working set\<close>

text \<open>A pass over a working set whose cache lines all start with \<open>v\<close> adds \<open>v\<close> once per line.\<close>

lemma touch_lines:
  assumes "m \<le> length ws div 8" and "\<forall>j < length ws div 8. ws ! (j * 8) = v"
  shows "\<exists>ws'. fold (\<lambda>j (ws, acc). let i = j * 8 in (ws[i := ws ! i + 1], acc + ws ! i)) [0..<m] (ws, acc) = (ws', acc + of_nat m * v)
    \<and> length ws' = length ws \<and> (\<forall>j < length ws div 8. ws' ! (j * 8) = (if j < m then v + 1 else v))"
  using assms(1)
proof (induction m)
  case (Suc m)
  then obtain ws' where w: "fold (\<lambda>j (ws, acc). let i = j * 8 in (ws[i := ws ! i + 1], acc + ws ! i)) [0..<m] (ws, acc) = (ws', acc + of_nat m * v)"
    "length ws' = length ws" "\<forall>j < length ws div 8. ws' ! (j * 8) = (if j < m then v + 1 else v)" by auto
  have "ws' ! (m * 8) = v" "m * 8 < length ws'" using w(2,3) Suc.prems by auto
  then have "fold (\<lambda>j (ws, acc). let i = j * 8 in (ws[i := ws ! i + 1], acc + ws ! i)) [0..<Suc m] (ws, acc)
      = (ws'[m * 8 := v + 1], acc + of_nat (Suc m) * v)" using w(1) by (simp add: Let_def algebra_simps)
  moreover have "\<forall>j < length ws div 8. ws'[m * 8 := v + 1] ! (j * 8) = (if j < Suc m then v + 1 else v)"
    using w(2,3) \<open>m * 8 < length ws'\<close> by (auto simp: nth_list_update less_Suc_eq)
  ultimately show ?case using w(2) by auto
qed (simp add: assms)

lemma touch_working_set:
  assumes "\<forall>j < length ws div 8. ws ! (j * 8) = v"
  shows "\<exists>ws'. touch_working_set (ws, acc) = (ws', acc + of_nat (length ws div 8) * v)
    \<and> length ws' = length ws \<and> (\<forall>j < length ws' div 8. ws' ! (j * 8) = v + 1)"
  using touch_lines [OF order_refl assms, of acc] by (auto simp: touch_working_set_def)

lemma with_raw_syscall:
  "\<exists>ws. WithRawSyscall os_gettid t n calls = ((ws, of_nat (768 * \<Sum>{..n} + n * os_gettid t)), calls + n)
    \<and> length ws = 6144 \<and> (\<forall>j < 768. ws ! (j * 8) = 1 + of_nat n)"
proof (induction n)
  case (Suc n)
  then obtain ws where w: "WithRawSyscall os_gettid t n calls = ((ws, of_nat (768 * \<Sum>{..n} + n * os_gettid t)), calls + n)"
    "length ws = 6144" "\<forall>j < length ws div 8. ws ! (j * 8) = 1 + of_nat n" by auto
  then obtain ws' where "touch_working_set (ws, of_nat (768 * \<Sum>{..n} + n * os_gettid t))
      = (ws', of_nat (768 * \<Sum>{..n} + n * os_gettid t) + of_nat 768 * (1 + of_nat n))"
    "length ws' = 6144" "\<forall>j < 768. ws' ! (j * 8) = 1 + of_nat n + 1"
    using touch_working_set [OF w(3)] by fastforce
  then show ?case using w(1) by (simp add: RawSyscallGettid_def Let_def algebra_simps)
qed (simp add: kWorkingSet48KiB_def)

lemma with_cached_tid:
  "fst (WithCachedTid os_gettid t n (Map.empty, calls)) = fst (WithRawSyscall os_gettid t n calls)
   \<and> snd (WithCachedTid os_gettid t n (Map.empty, calls)) = (if n = 0 then (Map.empty, calls) else ([t \<mapsto> os_gettid t], Suc calls))"
proof (induction n)
  case (Suc n)
  obtain w calls' where "WithRawSyscall os_gettid t n calls = (w, calls')" by fastforce
  moreover obtain ws acc where "touch_working_set w = (ws, acc)" by fastforce
  moreover obtain x y where "WithCachedTid os_gettid t n (Map.empty, calls) = (x, y)" by (rule prod.exhaust)
  ultimately show ?case using Suc by (auto simp: CachedThreadId_def RawSyscallGettid_def)
qed simp

section \<open>The arena\<close>

lemma fill_slots: "fold (\<lambda>i sl. sl[i := fill_slot i (sl ! i)]) [0..<n] (replicate n fresh_slot) = map (\<lambda>i. fill_slot i fresh_slot) [0..<n]"
proof -
  have "fold (\<lambda>i sl. sl[i := fill_slot i (sl ! i)]) [0..<m] (replicate n fresh_slot)
      = map (\<lambda>i. fill_slot i fresh_slot) [0..<m] @ replicate (n - m) fresh_slot" if "m \<le> n" for m
    using that
  proof (induction m)
    case (Suc m)
    then have "n - m = Suc (n - Suc m)" by simp
    then show ?case using Suc by (simp add: nth_append list_update_append)
  qed simp
  then show ?thesis by simp
qed

lemma whole_pages_exact: "unat len mod 4096 = 0 \<Longrightarrow> whole_pages len = unat len"
  by (auto simp: whole_pages_def)

lemma unmapped_pages:
  assumes "unat a mod 4096 = 0" and "unat len mod 4096 = 0"
  shows "mapped (as_munmap a len vm) = mapped vm - {unat a..<unat a + unat len}"
proof (cases "len = 0")
  case False
  then show ?thesis using assms by (simp add: as_munmap_def whole_pages_exact)
qed (simp add: as_munmap_def)

text \<open>
  What is left of a mapping of \<open>n + 2\<close> MiB at a page \<open>r\<close>, once the parts before and after the aligned \<open>n\<close>
  bytes are given back.
\<close>

lemma trimmed:
  fixes r a n h :: nat
  assumes "r \<le> a" and "a < r + h" and "{r..<r + (n + h)} \<inter> M = {}"
  shows "M \<union> {r..<r + (n + h)} - {r..<a} - {a + n..<a + n + (h - (a - r))} = M \<union> {a..<a + n}"
  using assms by (auto simp: disjoint_iff)

lemma page_of_huge: "2 ^ 21 dvd unat x \<Longrightarrow> unat x mod 4096 = 0" for x :: u64
  using dvd_trans [of "2 ^ 12" "2 ^ 21" "unat x"] by (simp add: le_imp_power_dvd)

lemma maybe_munmap: "(if 0 < len then as_munmap a len vm else vm) = as_munmap a len vm"
  by (simp add: as_munmap_def word_neq_0_conv [symmetric])

lemma advised_munmap [simp]: "advised (as_munmap a len vm) = advised vm"
  by (simp add: as_munmap_def)

lemma advice_only [simp]: "mapped (as_madvise a len adv vm) = mapped vm" "advised (as_madvise a len adv vm) = advised vm @ [(a, len, adv)]"
  by (simp_all add: as_madvise_def)

text \<open>The two parts that are given back are whole pages, and the aligned part lies between them.\<close>

lemma arena_trim:
  fixes tot raw :: u64
  defines "a \<equiv> round_up kHugePageSize2MiB raw"
  assumes tot: "2 ^ 21 dvd unat tot" and raw: "unat raw mod 4096 = 0" "unat raw + (unat tot + 2 ^ 21) < 2 ^ 63"
    and free: "{unat raw..<unat raw + (unat tot + 2 ^ 21)} \<inter> mapped vm = {}"
  shows "2 ^ 21 dvd unat a \<and> unat raw \<le> unat a \<and> unat a < unat raw + 2 ^ 21
    \<and> mapped (as_munmap (a + tot) (tot + kHugePageSize2MiB - (a - raw) - tot) (as_munmap raw (a - raw)
        (vm\<lparr>mapped := mapped vm \<union> {unat raw..<unat raw + (unat tot + 2 ^ 21)}\<rparr>)))
      = mapped vm \<union> {unat a..<unat a + unat tot}"
proof -
  have A: "2 ^ 21 dvd unat a" "unat raw \<le> unat a" "unat a < unat raw + 2 ^ 21"
    using huge_round [of raw] raw(2) by (simp_all add: a_def)
  have lead: "unat (a - raw) = unat a - unat raw" using A(2) by (simp add: unat_sub word_le_nat_alt)
  have "tot + kHugePageSize2MiB - (a - raw) - tot = kHugePageSize2MiB - (a - raw)" by simp
  moreover have "unat (kHugePageSize2MiB - (a - raw)) = 2 ^ 21 - (unat a - unat raw)"
    using A lead by (subst unat_sub) (auto simp: word_le_nat_alt huge_is)
  ultimately have tail: "unat (tot + kHugePageSize2MiB - (a - raw) - tot) = 2 ^ 21 - (unat a - unat raw)" by (simp only:)
  have lead_page: "unat (a - raw) mod 4096 = 0"
    unfolding lead using page_of_huge [OF A(1)] raw(1) by (simp add: mod_eq_0_iff_dvd dvd_diff_nat)
  have "(4096 :: nat) dvd 2 ^ 21" by simp
  then have tail_page: "unat (tot + kHugePageSize2MiB - (a - raw) - tot) mod 4096 = 0"
    unfolding tail using lead_page lead by (metis dvd_diff_nat mod_eq_0_iff_dvd)
  have endp: "unat (a + tot) = unat a + unat tot" using A raw(2) by (subst unat_add_u64) simp_all
  have end_page: "unat (a + tot) mod 4096 = 0"
    unfolding endp using page_of_huge [OF A(1)] page_of_huge [OF tot] by (simp add: mod_add_left_eq [symmetric])
  have lead_end: "unat raw + unat (a - raw) = unat a" using lead A(2) by simp
  have "mapped vm \<union> {unat raw..<unat raw + (unat tot + 2 ^ 21)} - {unat raw..<unat a}
        - {unat a + unat tot..<unat a + unat tot + (2 ^ 21 - (unat a - unat raw))} = mapped vm \<union> {unat a..<unat a + unat tot}"
    by (rule trimmed) (use A free in auto)
  moreover have "mapped (vm\<lparr>mapped := m\<rparr>) = m" for m by simp
  ultimately show ?thesis
    unfolding unmapped_pages [OF end_page tail_page] unmapped_pages [OF raw(1) lead_page] lead_end endp tail
    using A by (intro conjI) (simp_all only:)
qed

lemma AllocateOrderBookArena_result:
  fixes tot :: u64
  assumes os: "maps_free_pages os_mmap" and tot: "2 ^ 21 dvd unat tot" "unat tot \<le> 2 ^ 38"
    and raw: "os_mmap vm (tot + kHugePageSize2MiB) = Some raw"
  shows "\<exists>a vm'. AllocateOrderBookArena os_mmap collapse tot use_hugepages vm
       = (Some (a, map (\<lambda>i. fill_slot i fresh_slot) [0..<unat tot div 64]), vm')
    \<and> 2 ^ 21 dvd unat a \<and> a \<noteq> 0
    \<and> mapped vm' = mapped vm \<union> {unat a..<unat a + unat tot} \<and> {unat a..<unat a + unat tot} \<inter> mapped vm = {}
    \<and> advised vm' = advised vm @ (a, tot, if use_hugepages then MADV_HUGEPAGE else MADV_NOHUGEPAGE)
        # (if collapse \<and> use_hugepages then [(a, tot, MADV_COLLAPSE)] else [])"
proof -
  have len: "unat (tot + kHugePageSize2MiB) = unat tot + 2 ^ 21" using tot(2) unat_add_u64 [of tot kHugePageSize2MiB] by (simp add: huge_is)
  have whole: "whole_pages (tot + kHugePageSize2MiB) = unat tot + 2 ^ 21"
    using page_of_huge [OF tot(1)] len whole_pages_exact [of "tot + kHugePageSize2MiB"] by (simp add: mod_add_left_eq [symmetric])
  have r: "raw \<noteq> 0" "unat raw mod 4096 = 0" "unat raw + (unat tot + 2 ^ 21) < 2 ^ 63"
    "{unat raw..<unat raw + (unat tot + 2 ^ 21)} \<inter> mapped vm = {}"
    using os raw unfolding maps_free_pages_def whole [symmetric] by blast+
  have ok: "raw \<noteq> MAP_FAILED"
  proof
    assume "raw = MAP_FAILED"
    then have "unat raw = 2 ^ 64 - 1" by (simp add: MAP_FAILED_def unsigned_minus_1_eq_mask mask_eq_exp_minus_1)
    then show False using r(3) by simp
  qed
  note t = arena_trim [OF tot(1) r(2-4)]
  have n: "unat (tot div 64) = unat tot div 64" by (simp add: unat_div)
  let ?a = "round_up kHugePageSize2MiB raw"
  define vm2 where "vm2 = as_munmap (?a + tot) (tot + kHugePageSize2MiB - (?a - raw) - tot) (as_munmap raw (?a - raw)
        (vm\<lparr>mapped := mapped vm \<union> {unat raw..<unat raw + (unat tot + 2 ^ 21)}\<rparr>))"
  have vm2: "mapped vm2 = mapped vm \<union> {unat ?a..<unat ?a + unat tot}" "advised vm2 = advised vm"
    using t unfolding vm2_def by (blast, simp)
  have run: "AllocateOrderBookArena os_mmap collapse tot use_hugepages vm = (Some (?a, map (\<lambda>i. fill_slot i fresh_slot) [0..<unat tot div 64]),
      (let vm = as_madvise ?a tot (if use_hugepages then MADV_HUGEPAGE else MADV_NOHUGEPAGE) vm2
       in if collapse \<and> use_hugepages then as_madvise ?a tot MADV_COLLAPSE vm else vm))"
    unfolding AllocateOrderBookArena_def Let_def as_mmap_def raw option.case prod.case if_not_P [OF ok] maybe_munmap whole fill_slots n vm2_def ..
  have "?a \<noteq> 0" using t r(1) by (auto simp: unat_eq_0)
  moreover have "{unat ?a..<unat ?a + unat tot} \<inter> mapped vm = {}"
    using t r(4) by (auto simp: disjoint_iff)
  ultimately show ?thesis unfolding run using t vm2 by (auto simp: Let_def simp del: add_diff_cancel_left')
qed

section \<open>The lookups\<close>

lemma probe_ring_in_bounds:
  assumes tot: "2 ^ 21 dvd unat tot" "tot \<noteq> 0" "unat tot \<le> 2 ^ 38"
    and page: "\<And>a b i. a \<le> b \<Longrightarrow> a \<le> page_dist a b i \<and> page_dist a b i \<le> b"
    and offset: "\<And>a b i. a \<le> b \<Longrightarrow> a \<le> slot_in_page_dist a b i \<and> slot_in_page_dist a b i \<le> b"
  shows "length (probe_ring page_dist slot_in_page_dist (tot div kPageSize4KiB)) = kRingSize
    \<and> (\<forall>p \<in> set (probe_ring page_dist slot_in_page_dist (tot div kPageSize4KiB)). unat p < unat tot div 64)"
proof -
  obtain c where c: "unat tot = 2097152 * c" using tot(1) by (auto simp: dvd_def)
  have c0: "0 < c" using c tot(2) by (cases c) (auto simp: unat_eq_0)
  have n: "unat (tot div kPageSize4KiB) = 512 * c" using c by (simp add: unat_div huge_is)
  then have "tot div kPageSize4KiB \<noteq> 0" using c0 by (auto simp: unat_eq_0)
  then have last: "unat (tot div kPageSize4KiB - 1) = 512 * c - 1" using n by (simp add: unat_minus_one)
  have in_page: "kPageSize4KiB div 64 = (64 :: u64)" by (simp add: kPageSize4KiB_def)
  have "unat (ucast (page_dist 0 (tot div kPageSize4KiB - 1) i * 64 + slot_in_page_dist 0 (64 - 1) i) :: u32) < unat tot div 64" for i
  proof -
    let ?p = "page_dist 0 (tot div kPageSize4KiB - 1) i" and ?s = "slot_in_page_dist 0 (64 - 1) i"
    have "?p \<le> tot div kPageSize4KiB - 1" "?s \<le> 63" using page offset [of 0 63 i] by simp_all
    then have p: "unat ?p < 512 * c" "unat ?s \<le> 63" using last c0 by (simp_all add: word_le_nat_alt)
    have "unat (?p * 64) = unat ?p * 64" using p(1) c tot(3) unat_mult_lem [of ?p 64] by simp
    then have "unat (?p * 64 + ?s) = unat ?p * 64 + unat ?s" using p c tot(3) by (subst unat_add_u64) simp_all
    then have "unat (?p * 64 + ?s) < unat tot div 64" using p c by simp
    moreover have "unat (ucast (?p * 64 + ?s) :: u32) \<le> unat (?p * 64 + ?s)" by (simp add: unsigned_ucast_eq take_bit_nat_less_eq_self)
    ultimately show ?thesis by simp
  qed
  then show ?thesis by (auto simp: probe_ring_def Let_def in_page fold_update_all)
qed

lemma book_lookups_in_bounds:
  assumes "length ring = kRingSize" and "\<And>p. p \<in> set ring \<Longrightarrow> unat p < length sl"
  shows "\<exists>s. book_lookups (Some (a, sl)) ring n = Some s"
proof (induction n)
  case (Suc n)
  have "unat (x AND (of_nat kRingSize - 1)) < length ring" for x :: u64
    using mask_is_mod [of 1048576 x] assms(1) by (simp add: pow2_assert_def kRingSize_def)
  then show ?case using Suc assms(2) by (auto simp: book_lookup_def Let_def)
qed simp

lemma null_book: "book_lookups None ring n = (if n = 0 then Some 0 else None)"
  by (induction n) (simp_all add: book_lookup_def Let_def)

text \<open>A kernel that maps one region, at the second page.\<close>

definition one_region :: "address_space \<Rightarrow> u64 \<Rightarrow> u64 option" where
  "one_region vm len = (if mapped vm = {} \<and> unat len \<le> 2 ^ 40 then Some 4096 else None)"

lemma one_region_ok: "maps_free_pages one_region"
  unfolding maps_free_pages_def
proof (intro allI impI)
  fix vm len a
  assume "one_region vm len = Some a"
  then have a: "mapped vm = {}" "unat len \<le> 2 ^ 40" "a = 4096" by (simp_all add: one_region_def split: if_splits)
  have "whole_pages len \<le> unat len + 4095" by (simp add: whole_pages_def)
  then show "a \<noteq> 0 \<and> unat a mod 4096 = 0 \<and> unat a + whole_pages len < 2 ^ 63 \<and> {unat a..<unat a + whole_pages len} \<inter> mapped vm = {}"
    using a by simp
qed

section \<open>Properties\<close>



text \<open>
  C32. The order book of the benchmark. For a size that is a multiple of 2 MiB, up to 256 GiB: when \<open>mmap\<close>
  succeeds, the arena starts at a multiple of 2 MiB on memory that was free, every slot has the contents the
  code writes, and of the larger mapping exactly the arena stays mapped, which is what the advice is given
  for; no lookup reads outside it, whatever the random draws and the number of iterations, and at the end the
  address space is what it was. When \<open>mmap\<close> fails, the allocation returns a null pointer and changes nothing,
  and the benchmark, which does not check it, reads through it in its first iteration.
\<close>

theorem order_book_benchmark:
  fixes tot :: u64
  assumes "maps_free_pages os_mmap" and "2 ^ 21 dvd unat tot" "tot \<noteq> 0" "unat tot \<le> 2 ^ 38"
    and "\<And>a b i. a \<le> b \<Longrightarrow> a \<le> page_dist a b i \<and> page_dist a b i \<le> b"
    and "\<And>a b i. a \<le> b \<Longrightarrow> a \<le> slot_in_page_dist a b i \<and> slot_in_page_dist a b i \<le> b"
  shows "case os_mmap vm (tot + kHugePageSize2MiB) of
      Some raw \<Rightarrow>
        (\<exists>a vm'. AllocateOrderBookArena os_mmap collapse tot use_hugepages vm
             = (Some (a, map (\<lambda>i. fill_slot i fresh_slot) [0..<unat tot div 64]), vm')
           \<and> 2 ^ 21 dvd unat a \<and> a \<noteq> 0
           \<and> mapped vm' = mapped vm \<union> {unat a..<unat a + unat tot} \<and> {unat a..<unat a + unat tot} \<inter> mapped vm = {}
           \<and> advised vm' = advised vm @ (a, tot, if use_hugepages then MADV_HUGEPAGE else MADV_NOHUGEPAGE)
               # (if collapse \<and> use_hugepages then [(a, tot, MADV_COLLAPSE)] else []))
        \<and> (\<exists>s vm'. RunRandomLookupBenchmark os_mmap collapse page_dist slot_in_page_dist tot use_hugepages iterations vm = Some (s, vm')
             \<and> mapped vm' = mapped vm)
    | None \<Rightarrow> AllocateOrderBookArena os_mmap collapse tot use_hugepages vm = (None, vm)
        \<and> RunRandomLookupBenchmark os_mmap collapse page_dist slot_in_page_dist tot use_hugepages (Suc iterations) vm = None"
proof (cases "os_mmap vm (tot + kHugePageSize2MiB)")
  case None
  then have "AllocateOrderBookArena os_mmap collapse tot use_hugepages vm = (None, vm)"
    by (simp add: AllocateOrderBookArena_def as_mmap_def)
  then show ?thesis using None by (simp add: RunRandomLookupBenchmark_def null_book del: book_lookups.simps)
next
  case (Some raw)
  note ring = probe_ring_in_bounds [OF assms(2-6)]
  obtain a vm' where A: "AllocateOrderBookArena os_mmap collapse tot use_hugepages vm
      = (Some (a, map (\<lambda>i. fill_slot i fresh_slot) [0..<unat tot div 64]), vm')" "2 ^ 21 dvd unat a"
    "mapped vm' = mapped vm \<union> {unat a..<unat a + unat tot}" "{unat a..<unat a + unat tot} \<inter> mapped vm = {}"
    using AllocateOrderBookArena_result [OF assms(1,2,4) Some] by blast
  have "\<exists>s. book_lookups (Some (a, map (\<lambda>i. fill_slot i fresh_slot) [0..<unat tot div 64]))
      (probe_ring page_dist slot_in_page_dist (tot div kPageSize4KiB)) iterations = Some s"
    by (rule book_lookups_in_bounds) (use ring in auto)
  moreover have "mapped (as_munmap a tot vm') = mapped vm"
    unfolding unmapped_pages [OF page_of_huge [OF A(2)] page_of_huge [OF assms(2)]] A(3) using A(4) by blast
  ultimately have "\<exists>s vm''. RunRandomLookupBenchmark os_mmap collapse page_dist slot_in_page_dist tot use_hugepages iterations vm
      = Some (s, vm'') \<and> mapped vm'' = mapped vm"
    by (auto simp: RunRandomLookupBenchmark_def A(1))
  then show ?thesis using AllocateOrderBookArena_result [OF assms(1,2,4) Some] Some by simp
qed

theorem order_book_benchmark_witness:
  "(\<exists>s vm'. RunRandomLookupBenchmark one_region True (\<lambda>a b i. b) (\<lambda>a b i. a) 0x400000 True 1000 \<lparr>mapped = {}, advised = []\<rparr>
      = Some (s, vm') \<and> mapped vm' = {})
   \<and> RunRandomLookupBenchmark one_region True (\<lambda>a b i. b) (\<lambda>a b i. a) 0x400000 True 1000 \<lparr>mapped = {0}, advised = []\<rparr> = None"
  using order_book_benchmark [OF one_region_ok, where tot = "0x400000" and page_dist = "\<lambda>a b i. b" and slot_in_page_dist = "\<lambda>a b i. a"
      and vm = "\<lparr>mapped = {}, advised = []\<rparr>" and collapse = True and use_hugepages = True and iterations = 1000]
    order_book_benchmark [OF one_region_ok, where tot = "0x400000" and page_dist = "\<lambda>a b i. b" and slot_in_page_dist = "\<lambda>a b i. a"
      and vm = "\<lparr>mapped = {0}, advised = []\<rparr>" and collapse = True and use_hugepages = True and iterations = 999]
  by (simp add: one_region_def kHugePageSize2MiB_def)

text \<open>
  Caching the thread id changes nothing but the number of system calls: after any number of iterations the
  two working-set benchmarks have the same words and the same accumulator, which is the sum of the 768 words
  of each pass, one higher each time, and of the thread id once per iteration, modulo 2 ^ 64; the
  cached one has made one system call if it ran at all, the other one for each iteration.
\<close>

theorem working_set_equivalent:
  "fst (WithCachedTid os_gettid t n (Map.empty, calls)) = fst (WithRawSyscall os_gettid t n calls)
   \<and> snd (fst (WithRawSyscall os_gettid t n calls)) = of_nat (384 * n * (n + 1) + n * os_gettid t)
   \<and> snd (snd (WithCachedTid os_gettid t n (Map.empty, calls))) = calls + (if n = 0 then 0 else 1)
   \<and> snd (WithRawSyscall os_gettid t n calls) = calls + n"
proof -
  have "768 * \<Sum>{..n} = 384 * n * (n + 1)"
    by (induction n) (simp_all add: algebra_simps)
  then show ?thesis using with_raw_syscall [of os_gettid t n calls] with_cached_tid [of os_gettid t n calls] by auto
qed

end
