(* ===== verification/MeasureBench.thy ===== *)
theory MeasureBench
  imports Measure
begin

text \<open>
  The loops of \<open>common/measurement/measurement_benchmark.cc\<close> and \<open>challenge.cc\<close> on the data of \<open>Measure\<close>: the
  branching and the branchless sum over random and sorted data, the pointer chase, and the work with
  its setup inside and outside of the loop.
\<close>

section \<open>Branches\<close>

definition kBranchArraySize :: nat where "kBranchArraySize = 16384"
definition kDataSize :: nat where "kDataSize = 8192"

text \<open>One iteration; the 32-bit elements are widened.\<close>

definition branch_sum :: "32 word list \<Rightarrow> nat \<Rightarrow> i64" where
  "branch_sum data n = fold (\<lambda>i acc. if 0 < sint (data ! i) then acc + scast (data ! i) else acc) [0..<n] 0"

definition branchless_sum :: "32 word list \<Rightarrow> nat \<Rightarrow> i64" where
  "branchless_sum data n = fold (\<lambda>i acc. acc + (if 0 < sint (data ! i) then scast (data ! i) else 0)) [0..<n] 0"

definition BM_Branch_PredictableSorted :: "(u32 \<Rightarrow> nat \<Rightarrow> 32 word) \<Rightarrow> i64" where
  "BM_Branch_PredictableSorted draw = branch_sum (GenerateSorted draw kBranchArraySize 1337) kBranchArraySize"

definition BM_Branch_UnpredictableRandom :: "(u32 \<Rightarrow> nat \<Rightarrow> 32 word) \<Rightarrow> i64" where
  "BM_Branch_UnpredictableRandom draw = branch_sum (GenerateUniformRandom draw kBranchArraySize 1337) kBranchArraySize"

definition BM_Branch_BranchlessCmov :: "(u32 \<Rightarrow> nat \<Rightarrow> 32 word) \<Rightarrow> i64" where
  "BM_Branch_BranchlessCmov draw = branchless_sum (GenerateUniformRandom draw kBranchArraySize 1337) kBranchArraySize"

text \<open>The pattern of the challenge has 64-bit elements.\<close>

definition branch_pattern :: "i64 list" where
  "branch_pattern = fold (\<lambda>i pattern. pattern[i := (if i mod 2 = 0 then 1 else - 1)]) [0..<kDataSize] (replicate kDataSize 0)"

definition Trap3_PredictablePattern :: i64 where
  "Trap3_PredictablePattern = fold (\<lambda>i acc. if 0 < sint (branch_pattern ! i) then acc + branch_pattern ! i else acc) [0..<kDataSize] 0"

definition Trap3_FixedWithEntropy :: "(u32 \<Rightarrow> nat \<Rightarrow> 32 word) \<Rightarrow> i64" where
  "Trap3_FixedWithEntropy draw = branch_sum (GenerateUniformRandom draw kDataSize 1337) kDataSize"

section \<open>Setup inside and outside of the loop\<close>

text \<open>The accumulator of each iteration.\<close>

definition filled_buffer :: "i64 list" where
  "filled_buffer = fold (\<lambda>i buffer. buffer[i := of_nat (i * 3)]) [0..<1024] (replicate 1024 0)"

definition accumulate :: "i64 list \<Rightarrow> i64" where
  "accumulate buffer = fold (\<lambda>x acc. acc + x) buffer 0"

definition Trap2_SetupPollution :: "nat \<Rightarrow> i64 list" where
  "Trap2_SetupPollution iterations = map (\<lambda>_. let buffer = filled_buffer in accumulate buffer) [0..<iterations]"

definition Trap2_Fixed :: "nat \<Rightarrow> i64 list" where
  "Trap2_Fixed iterations = (let buffer = filled_buffer in map (\<lambda>_. accumulate buffer) [0..<iterations])"

section \<open>The pointer chase\<close>

text \<open>The element at which the chase stands after each iteration of 100 steps; a read outside the ring has no value.\<close>

definition chase_step :: "u32 list \<Rightarrow> u32 option \<Rightarrow> u32 option" where
  "chase_step ring p = (case p of None \<Rightarrow> None | Some c \<Rightarrow> if unat c < length ring then Some (ring ! unat c) else None)"

definition RunPointerChase :: "(u32 list \<Rightarrow> u32 list) \<Rightarrow> nat \<Rightarrow> nat \<Rightarrow> u32 option" where
  "RunPointerChase shuffle buffer_bytes iterations =
     (let ring = GeneratePointerChaseRing shuffle buffer_bytes True
      in ((\<lambda>curr. (chase_step ring ^^ 100) curr) ^^ iterations) (Some 0))"

section \<open>Sums\<close>

lemma branch_sum_list: "length data = n \<Longrightarrow> branch_sum data n = (\<Sum>x\<leftarrow>data. if 0 < sint x then scast x else 0)"
proof -
  have f: "fold (\<lambda>i acc. if 0 < sint (data ! i) then acc + scast (data ! i) else acc) is a
      = a + (\<Sum>i\<leftarrow>is. if 0 < sint (data ! i) then scast (data ! i) else 0 :: i64)" for "is" a
    by (induction "is" arbitrary: a) (simp_all add: ac_simps)
  assume "length data = n"
  then have "map (\<lambda>i. if 0 < sint (data ! i) then scast (data ! i) else 0 :: i64) [0..<n] = map (\<lambda>x. if 0 < sint x then scast x else 0) data"
    by (intro nth_equalityI) simp_all
  then show ?thesis unfolding branch_sum_def f by simp
qed

lemma branchless_same: "branchless_sum data n = branch_sum data n"
proof -
  have "(\<lambda>i acc. acc + (if 0 < sint (data ! i) then scast (data ! i) else 0 :: i64))
      = (\<lambda>i acc. if 0 < sint (data ! i) then acc + scast (data ! i) else acc)" by (intro ext) simp
  then show ?thesis by (simp add: branchless_sum_def branch_sum_def)
qed

lemma sum_list_as_mset: "sum_list (map f xs) = (\<Sum>x\<in>#mset xs. f x)"
  by (induction xs) simp_all

lemma branch_sum_mset:
  assumes "mset xs = mset ys"
  shows "branch_sum xs (length xs) = branch_sum ys (length ys)"
  unfolding branch_sum_list [OF refl] sum_list_as_mset assms ..

text \<open>The sum as an integer: 64 bits are enough for the draws of the generator.\<close>

lemma widened: "(if 0 < sint x then scast x else 0 :: i64) = word_of_int (max 0 (sint x))" for x :: "32 word"
proof -
  have m: "max 0 k = (if 0 < k then k else 0)" for k :: int by simp
  have e: "scast x = (word_of_int (sint x) :: i64)" by (rule of_int_sint [symmetric])
  show ?thesis unfolding m e by (cases "0 < sint x") (simp_all only: if_True if_False of_int_0)
qed

lemma sum_list_of_int: "(\<Sum>x\<leftarrow>xs. word_of_int (f x)) = (word_of_int (\<Sum>x\<leftarrow>xs. f x) :: i64)"
  by (induction xs) simp_all

lemma branch_sum_int:
  assumes "\<And>x. x \<in> set data \<Longrightarrow> sint x \<le> 100000" and "length data \<le> 2 ^ 32"
  shows "sint (branch_sum data (length data)) = (\<Sum>x\<leftarrow>data. max 0 (sint x))"
    and "0 \<le> sint (branch_sum data (length data))" and "sint (branch_sum data (length data)) \<le> 100000 * int (length data)"
proof -
  let ?s = "\<Sum>x\<leftarrow>data. max 0 (sint x)"
  have w: "branch_sum data (length data) = word_of_int ?s" unfolding branch_sum_list [OF refl] widened sum_list_of_int ..
  have lo: "0 \<le> ?s" by (rule sum_list_nonneg) auto
  have "?s \<le> (\<Sum>x\<leftarrow>data. 100000)" by (rule sum_list_mono) (use assms(1) in auto)
  then have hi: "?s \<le> 100000 * int (length data)" by (simp only: sum_list_triv of_nat_mult mult.commute)
  have "sint (word_of_int ?s :: i64) = ?s"
  proof -
    have "int (length data) \<le> 4294967296" using assms(2) by simp
    then have "?s < 9223372036854775808" "- 9223372036854775808 \<le> ?s" using lo hi by linarith+
    then show ?thesis by (simp add: signed_of_int signed_take_bit_int_eq_self)
  qed
  then show "sint (branch_sum data (length data)) = (\<Sum>x\<leftarrow>data. max 0 (sint x))"
    "0 \<le> sint (branch_sum data (length data))" "sint (branch_sum data (length data)) \<le> 100000 * int (length data)"
    using w lo hi by simp_all
qed

lemma alternating_sum: "Trap3_PredictablePattern = 4096"
proof -
  have p: "branch_pattern ! i = (if i mod 2 = 0 then 1 else - 1)" if "i < kDataSize" for i
    using that by (simp add: branch_pattern_def fold_update_all)
  have h: "fold (\<lambda>i acc. if 0 < sint (branch_pattern ! i) then acc + branch_pattern ! i else acc) [0..<2 * m] 0 = (of_nat m :: i64)"
    if "2 * m \<le> kDataSize" for m
    using that
  proof (induction m)
    case (Suc m)
    have "[0..<2 * Suc m] = [0..<2 * m] @ [2 * m, Suc (2 * m)]" by simp
    then show ?case using Suc p [of "2 * m"] p [of "Suc (2 * m)"] by simp
  qed simp
  have k: "kDataSize = 2 * 4096" by (simp add: kDataSize_def)
  show ?thesis unfolding Trap3_PredictablePattern_def k h [of 4096, unfolded k, OF order_refl] by (simp only: of_nat_numeral)
qed

section \<open>Setup\<close>

lemma filled_sum: "accumulate filled_buffer = 1571328"
proof -
  have a: "filled_buffer = map (\<lambda>i. of_nat (i * 3)) [0..<1024]" by (simp add: filled_buffer_def fold_update_all del: upt_Suc)
  have b: "fold (\<lambda>x acc. acc + x) (map (\<lambda>i. of_nat (i * 3)) [0..<n]) 0 = (of_nat (3 * \<Sum>{..<n}) :: i64)" for n
    by (induction n) (simp_all add: lessThan_Suc algebra_simps)
  have "2 * \<Sum>{..<n} = n * (n - 1)" for n :: nat
    by (induction n) (simp_all add: lessThan_Suc algebra_simps)
  from this [of 1024] have c: "3 * \<Sum>{..<1024} = (1571328 :: nat)" by simp
  show ?thesis unfolding accumulate_def a b c by (simp only: of_nat_numeral)
qed

section \<open>Chases\<close>

lemma chase_add: "chase ring (j + k) = ((\<lambda>p. ring ! unat p) ^^ j) (chase ring k)"
  by (simp add: chase_def funpow_add)

lemma chase_periodic:
  assumes "chase ring n = 0"
  shows "chase ring k = chase ring (k mod n)"
proof -
  have "chase ring (j + q * n) = chase ring j" for j q
  proof (induction q)
    case (Suc q)
    have "chase ring (j + Suc q * n) = chase ring ((j + q * n) + n)" by (simp add: ac_simps)
    also have "\<dots> = chase ring (j + q * n)" unfolding chase_add [of ring "j + q * n" n] assms by (simp add: chase_def)
    finally show ?case using Suc by simp
  qed simp
  from this [of "k mod n" "k div n"] show ?thesis by simp
qed

lemma chase_steps:
  assumes "\<And>k. unat (chase ring k) < length ring"
  shows "(chase_step ring ^^ m) (Some (chase ring k)) = Some (chase ring (k + m))"
proof (induction m)
  case (Suc m)
  have "chase ring (k + Suc m) = ring ! unat (chase ring (k + m))" by (simp add: chase_def)
  then show ?case using Suc assms [of "k + m"] by (simp add: chase_step_def)
qed simp

section \<open>Properties\<close>

text \<open>
  C40. The pointer chase. For every buffer size whose indices the \<open>int\<close> of \<open>std::iota\<close> can count and every permutation
  the shuffle picks, the ring is a single cycle over all its elements, at least two: following it from element 0
  meets each exactly once before it returns to 0. So the benchmark never reads outside the ring, and after
  any number of its iterations of 100 steps it stands where the cycle is after as many steps.
\<close>

theorem pointer_chase:
  fixes buffer_bytes :: nat
  assumes "buffer_bytes div 4 \<le> 2 ^ 31" and "\<And>xs. mset (shuffle xs) = mset xs"
  defines "ring \<equiv> GeneratePointerChaseRing shuffle buffer_bytes True" and "n \<equiv> max 2 (buffer_bytes div 4)"
  shows "length ring = n \<and> bij_betw (\<lambda>k. unat (chase ring k)) {..<n} {..<n} \<and> chase ring n = 0
    \<and> RunPointerChase shuffle buffer_bytes iterations = Some (chase ring (100 * iterations mod n))"
proof -
  note c = GeneratePointerChaseRing_cycle [OF assms(1,2), of True, folded ring_def n_def]
  have n: "0 < n" by (simp add: n_def)
  have "unat (chase ring k) < length ring" for k
  proof -
    have "k mod n \<in> {..<n}" using n by simp
    then have "unat (chase ring (k mod n)) \<in> {..<n}" using c by (metis bij_betw_apply)
    then show ?thesis using chase_periodic [of ring n k] c by simp
  qed
  from chase_steps [OF this, of "100 * iterations" 0] have "RunPointerChase shuffle buffer_bytes iterations = Some (chase ring (100 * iterations))"
    by (simp add: RunPointerChase_def ring_def [symmetric] funpow_mult chase_def [of ring 0] mult.commute)
  then show ?thesis using c chase_periodic [of ring n "100 * iterations"] by simp
qed

theorem pointer_chase_witness:
  "RunPointerChase rev 16 3 = Some (chase (GeneratePointerChaseRing rev 16 True) 0)"
proof -
  have "16 div 4 \<le> (2 ^ 31 :: nat)" by simp
  moreover have "mset (rev xs) = mset xs" for xs :: "u32 list" by simp
  moreover have "100 * 3 mod max 2 (16 div 4) = (0 :: nat)" by simp
  ultimately show ?thesis using pointer_chase [of 16 rev 3] by metis
qed

text \<open>
  The measured loops compute the same. For draws in the range of the generator, the branching sum over random
  and over sorted data and the branchless sum are the same number, the sum of the positive draws, which
  fits its 64 bits; the predictable pattern of the challenge sums to half its length; and the
  work with its setup in the loop returns what the one with the setup outside does, in every iteration.
\<close>

theorem branch_sums:
  assumes "\<And>seed i. - 100000 \<le> sint (draw seed i) \<and> sint (draw seed i) \<le> 100000"
  shows "BM_Branch_PredictableSorted draw = BM_Branch_UnpredictableRandom draw
    \<and> BM_Branch_BranchlessCmov draw = BM_Branch_UnpredictableRandom draw
    \<and> sint (BM_Branch_UnpredictableRandom draw) = (\<Sum>i\<leftarrow>[0..<kBranchArraySize]. max 0 (sint (draw 1337 i)))
    \<and> sint (Trap3_FixedWithEntropy draw) = (\<Sum>i\<leftarrow>[0..<kDataSize]. max 0 (sint (draw 1337 i)))
    \<and> Trap3_PredictablePattern = 4096
    \<and> Trap2_SetupPollution iterations = replicate iterations 1571328 \<and> Trap2_Fixed iterations = replicate iterations 1571328"
proof -
  have len: "length (GenerateUniformRandom draw m s) = m" "length (GenerateSorted draw m s) = m" for m s
    by (simp_all add: GenerateUniformRandom_draws GenerateSorted_def)
  have "BM_Branch_PredictableSorted draw = BM_Branch_UnpredictableRandom draw"
    using branch_sum_mset [of "GenerateSorted draw kBranchArraySize 1337" "GenerateUniformRandom draw kBranchArraySize 1337"]
    by (simp add: BM_Branch_PredictableSorted_def BM_Branch_UnpredictableRandom_def len GenerateSorted_def)
  moreover have draws: "sint (branch_sum (GenerateUniformRandom draw m 1337) m) = (\<Sum>i\<leftarrow>[0..<m]. max 0 (sint (draw 1337 i)))"
    if "m \<le> 2 ^ 32" for m
  proof -
    have "sint x \<le> 100000" if "x \<in> set (map (draw 1337) [0..<m])" for x using that assms by auto
    from branch_sum_int(1) [of "map (draw 1337) [0..<m]", OF this] show ?thesis using that by (simp add: GenerateUniformRandom_draws comp_def)
  qed
  have "kBranchArraySize \<le> 2 ^ 32" "kDataSize \<le> 2 ^ 32" by (simp_all add: kBranchArraySize_def kDataSize_def)
  note draws [OF this(1)] draws [OF this(2)]
  ultimately show ?thesis
    using alternating_sum filled_sum
    by (simp add: BM_Branch_BranchlessCmov_def BM_Branch_UnpredictableRandom_def Trap3_FixedWithEntropy_def branchless_same
        Trap2_SetupPollution_def Trap2_Fixed_def map_replicate_const)
qed

theorem branch_sums_witness:
  "BM_Branch_PredictableSorted (\<lambda>seed i. if even i then 7 else - 7) = BM_Branch_BranchlessCmov (\<lambda>seed i. if even i then 7 else - 7)"
  using branch_sums [of "\<lambda>seed i. if even i then 7 else - 7"] by simp

end
