(* ===== verification/SpscBench.thy ===== *)
theory SpscBench
  imports Spsc Fp ShardedMap
begin

unbundle bit_operations_syntax

text \<open>
  \<open>common/store_buffer/store_buffer_benchmark.cc\<close>: its own \<open>SpscRingBuffer\<close> of market ticks and the loops that
  publish and consume one tick, or store and load, per round. Prices are of any floating-point type.
\<close>

section \<open>The ring of the benchmark\<close>

record 'f market_tick =
  sequence_id :: u64
  price :: 'f
  quantity :: u64

definition TryPublishAcqRel :: "u64 \<Rightarrow> 'a \<Rightarrow> 'a spsc \<Rightarrow> bool \<times> 'a spsc" where
  "TryPublishAcqRel capacity tick s =
     (let w = write_idx s; r = read_idx s
      in if w - r \<ge> capacity then (False, s)
         else (True, s\<lparr>ring := (ring s)[unat (w AND (capacity - 1)) := tick], write_idx := w + 1\<rparr>))"

definition TryConsumeAcqRel :: "u64 \<Rightarrow> 'a spsc \<Rightarrow> 'a option \<times> 'a spsc" where
  "TryConsumeAcqRel capacity s =
     (let r = read_idx s; w = write_idx s
      in if r = w then (None, s)
         else (Some (ring s ! unat (r AND (capacity - 1))), s\<lparr>read_idx := r + 1\<rparr>))"

definition TryPublishSeqCst :: "u64 \<Rightarrow> 'a \<Rightarrow> 'a spsc \<Rightarrow> bool \<times> 'a spsc" where
  "TryPublishSeqCst capacity tick s =
     (let w = write_idx s; r = read_idx s
      in if w - r \<ge> capacity then (False, s)
         else (True, s\<lparr>ring := (ring s)[unat (w AND (capacity - 1)) := tick], write_idx := w + 1\<rparr>))"

definition TryConsumeSeqCst :: "u64 \<Rightarrow> 'a spsc \<Rightarrow> 'a option \<times> 'a spsc" where
  "TryConsumeSeqCst capacity s =
     (let r = read_idx s; w = write_idx s
      in if r = w then (None, s)
         else (Some (ring s ! unat (r AND (capacity - 1))), s\<lparr>read_idx := r + 1\<rparr>))"

section \<open>The loops\<close>

definition kBatchSize :: nat where "kBatchSize = 4096"

definition spsc_round :: "'f fp \<Rightarrow> ('f market_tick \<Rightarrow> 's \<Rightarrow> bool \<times> 's) \<Rightarrow> ('s \<Rightarrow> 'f market_tick option \<times> 's) \<Rightarrow> nat \<Rightarrow> 's \<times> u64 \<Rightarrow> 's \<times> u64" where
  "spsc_round F publish consume i s =
     (let (q, total_qty) = s;
          tick = \<lparr>sequence_id = of_nat i, price = flit F (15025 / 100), quantity = 100\<rparr>;
          (_, q) = publish tick q;
          (out, q) = consume q
      in (q, case out of None \<Rightarrow> total_qty | Some tick \<Rightarrow> total_qty + quantity tick))"

text \<open>The value of \<open>total_qty\<close> at the end of each iteration.\<close>

primrec spsc_iterations :: "'f fp \<Rightarrow> ('f market_tick \<Rightarrow> 's \<Rightarrow> bool \<times> 's) \<Rightarrow> ('s \<Rightarrow> 'f market_tick option \<times> 's) \<Rightarrow> nat \<Rightarrow> 's \<Rightarrow> u64 list" where
  "spsc_iterations F publish consume 0 q = []"
| "spsc_iterations F publish consume (Suc n) q =
     (let (q, total_qty) = fold (spsc_round F publish consume) [0..<kBatchSize] (q, 0)
      in total_qty # spsc_iterations F publish consume n q)"

definition BM_SpscQueue_AcquireRelease :: "'f fp \<Rightarrow> nat \<Rightarrow> u64 list" where
  "BM_SpscQueue_AcquireRelease F iterations =
     spsc_iterations F (TryPublishAcqRel 1024) (TryConsumeAcqRel 1024) iterations
       (SpscRingBuffer 1024 \<lparr>sequence_id = 0, price = fzero F, quantity = 0\<rparr>)"

definition BM_SpscQueue_SeqCst :: "'f fp \<Rightarrow> nat \<Rightarrow> u64 list" where
  "BM_SpscQueue_SeqCst F iterations =
     spsc_iterations F (TryPublishSeqCst 1024) (TryConsumeSeqCst 1024) iterations
       (SpscRingBuffer 1024 \<lparr>sequence_id = 0, price = fzero F, quantity = 0\<rparr>)"

text \<open>One thread that stores one field and loads the other; the three orders make one program.\<close>

record aligned_atomic_state =
  local_outbox :: u64
  peer_inbox :: u64

definition store_load_checksum :: "aligned_atomic_state \<Rightarrow> u64 \<times> aligned_atomic_state" where
  "store_load_checksum s =
     fold (\<lambda>i (checksum, s). let s = s\<lparr>local_outbox := of_nat i\<rparr> in (checksum + peer_inbox s, s)) [0..<kBatchSize] (0, s)"

text \<open>
  The shared counter: thread 0 resets it before its loop, and nothing here keeps the other threads behind
  that store. The state is the counter and whether it has been reset.
\<close>

definition counter_turn :: "tid \<Rightarrow> u64 \<times> bool \<Rightarrow> u64 \<times> bool" where
  "counter_turn t s = (let (counter, stored) = s in if t = 0 \<and> \<not> stored then (0, True) else (counter + 1, stored))"

definition BM_AtomicRMW_FetchAdd :: "nat \<Rightarrow> nat \<Rightarrow> u64 \<Rightarrow> tid list \<Rightarrow> u64 option" where
  "BM_AtomicRMW_FetchAdd threads iterations counter sched =
     (if list_all (\<lambda>t. t < threads) sched
         \<and> list_all (\<lambda>t. count_list sched t = (if t = 0 then 1 else 0) + iterations * kBatchSize) [0..<threads]
      then Some (fst (fold counter_turn sched (counter, False))) else None)"

section \<open>The contract\<close>

lemma TryPublishAcqRel_queue:
  "pow2_assert c \<Longrightarrow> c \<noteq> 0 \<Longrightarrow>
   bounded_queue (TryPublishAcqRel c) (TryConsumeAcqRel c) (spsc_queue c) (spsc_inv c) (unat c)"
  by (rule spsc_contract) (simp_all add: TryPublishAcqRel_def TryConsumeAcqRel_def spsc_index_def Let_def)

lemma TryPublishSeqCst_queue:
  "pow2_assert c \<Longrightarrow> c \<noteq> 0 \<Longrightarrow>
   bounded_queue (TryPublishSeqCst c) (TryConsumeSeqCst c) (spsc_queue c) (spsc_inv c) (unat c)"
  by (rule spsc_contract) (simp_all add: TryPublishSeqCst_def TryConsumeSeqCst_def spsc_index_def Let_def)

text \<open>A bounded queue of ticks with room for one, under the loop.\<close>

locale tick_queue = bounded_queue push pop abs inv bound
  for push :: "'f market_tick \<Rightarrow> 's \<Rightarrow> bool \<times> 's" and pop :: "'s \<Rightarrow> 'f market_tick option \<times> 's"
    and abs :: "'s \<Rightarrow> 'f market_tick list" and inv :: "'s \<Rightarrow> bool" and bound :: nat +
  assumes some_room: "0 < bound"
begin

lemma rounds:
  assumes "inv s" and "abs s = []"
  shows "\<exists>s'. fold (spsc_round F push pop) ks (s, t) = (s', t + of_nat (length ks) * 100) \<and> inv s' \<and> abs s' = []"
  using assms
proof (induction ks arbitrary: s t)
  case (Cons k ks)
  obtain s' s'' where "push \<lparr>sequence_id = of_nat k, price = flit F (15025 / 100), quantity = 100\<rparr> s = (True, s')"
    "pop s' = (Some \<lparr>sequence_id = of_nat k, price = flit F (15025 / 100), quantity = 100\<rparr>, s'')" "inv s''" "abs s'' = []"
    using handover [OF Cons.prems some_room] by blast
  then show ?case using Cons.IH [of s'' "t + 100"] by (simp add: spsc_round_def algebra_simps)
qed simp

lemma iterations:
  "inv s \<Longrightarrow> abs s = [] \<Longrightarrow> spsc_iterations F push pop n s = replicate n 409600"
proof (induction n arbitrary: s)
  case (Suc n)
  then obtain s' where "fold (spsc_round F push pop) [0..<kBatchSize] (s, 0) = (s', of_nat (length [0..<kBatchSize]) * 100)" "inv s'" "abs s' = []"
    using rounds [of s F "[0..<kBatchSize]" 0] by auto
  then show ?case using Suc.IH [of s'] by (simp add: kBatchSize_def)
qed simp

end

interpretation bench_ar: tick_queue "TryPublishAcqRel 1024" "TryConsumeAcqRel 1024" "spsc_queue 1024" "spsc_inv 1024" "unat (1024 :: u64)"
  by (intro tick_queue.intro TryPublishAcqRel_queue tick_queue_axioms.intro) (simp_all add: pow2_assert_def)

interpretation bench_sc: tick_queue "TryPublishSeqCst 1024" "TryConsumeSeqCst 1024" "spsc_queue 1024" "spsc_inv 1024" "unat (1024 :: u64)"
  by (intro tick_queue.intro TryPublishSeqCst_queue tick_queue_axioms.intro) (simp_all add: pow2_assert_def)

lemma store_load: "store_load_checksum s = (of_nat kBatchSize * peer_inbox s, s\<lparr>local_outbox := of_nat (kBatchSize - 1)\<rparr>)"
proof -
  have "fold (\<lambda>i (checksum, s). let s = s\<lparr>local_outbox := of_nat i\<rparr> in (checksum + peer_inbox s, s)) [0..<Suc n] (c, s)
      = (c + of_nat (Suc n) * peer_inbox s, s\<lparr>local_outbox := of_nat n\<rparr>)" for n c
    by (induction n) (simp_all add: algebra_simps)
  from this [of "kBatchSize - 1" 0] show ?thesis by (simp add: store_load_checksum_def kBatchSize_def del: upt_Suc)
qed

text \<open>
  The counter ends with the additions that come after the reset: all those of thread 0, and of the others the
  ones it did not wipe out.
\<close>

lemma counter_run:
  "0 \<notin> set sched \<Longrightarrow> fold counter_turn sched (v, False) = (v + of_nat (length sched), False)"
  "fold counter_turn sched (v, True) = (v + of_nat (length sched), True)"
  by (induction sched arbitrary: v) (auto simp: counter_turn_def)

theorem fetch_add_counter:
  assumes "0 < threads" and "BM_AtomicRMW_FetchAdd threads iterations counter sched = Some v"
  shows "\<exists>k. v = of_nat k \<and> iterations * kBatchSize \<le> k \<and> k \<le> threads * (iterations * kBatchSize)"
proof -
  have ok: "\<forall>t \<in> set sched. t < threads" "\<forall>t < threads. count_list sched t = (if t = 0 then 1 else 0) + iterations * kBatchSize"
    and v: "v = fst (fold counter_turn sched (counter, False))"
    using assms(2) by (auto simp: BM_AtomicRMW_FetchAdd_def list_all_iff split: if_splits)
  have "count_list sched 0 \<noteq> 0" using ok(2) assms(1) by auto
  then have "0 \<in> set sched" by (simp add: count_list_0_iff)
  then obtain pre post where sched: "sched = pre @ 0 # post" "0 \<notin> set pre" by (meson split_list_first)
  have "v = of_nat (length post)"
    using sched(2) by (simp add: v sched(1) counter_run) (simp add: counter_turn_def counter_run)
  moreover have "count_list post 0 = iterations * kBatchSize" using ok(2) assms(1) sched by (auto simp: count_list_0_iff)
  then have "iterations * kBatchSize \<le> length post" using count_le_length [of post 0] by simp
  moreover have "length (pre @ post) = threads * (iterations * kBatchSize)"
  proof (rule length_by_counts)
    show "\<forall>t \<in> set (pre @ post). t < threads" using ok(1) by (auto simp: sched(1))
    show "list_all (\<lambda>t. count_list (pre @ post) t = iterations * kBatchSize) [0..<threads]"
      using ok(2) by (auto simp: sched(1) list_all_iff split: if_splits)
  qed
  ultimately show ?thesis by (intro exI [of _ "length post"]) simp
qed

section \<open>Properties\<close>

text \<open>
  C18. For every power-of-two capacity, any sequence of pushes and pops on either ring, that of the library and
  that of its benchmark, from the fresh ring or from indices anywhere in the 64-bit range (so also across their
  wrap-around), answers like a queue bounded by the capacity, for both families of operations. In the
  benchmark every published tick is consumed in its round, so each iteration counts a quantity of 409600.
\<close>

theorem SpscRingBuffers_queue:
  assumes "pow2_assert c" and "c \<noteq> 0" and "spsc_inv c s"
  shows "ops_run (TryPushSeqCst c) (TryPopSeqCst c) s ops = queue_run (unat c) (spsc_queue c s) ops
    \<and> ops_run (TryPushAcquireRelease c) (TryPopAcquireRelease c) s ops = queue_run (unat c) (spsc_queue c s) ops
    \<and> ops_run (TryPublishSeqCst c) (TryConsumeSeqCst c) s ops = queue_run (unat c) (spsc_queue c s) ops
    \<and> ops_run (TryPublishAcqRel c) (TryConsumeAcqRel c) s ops = queue_run (unat c) (spsc_queue c s) ops
    \<and> spsc_inv c (SpscRingBuffer c d) \<and> spsc_queue c (SpscRingBuffer c d) = []
    \<and> BM_SpscQueue_AcquireRelease F iterations = replicate iterations 409600
    \<and> BM_SpscQueue_SeqCst F iterations = replicate iterations 409600"
  using bounded_queue.refines [OF TryPushSeqCst_queue [OF assms(1,2)] assms(3)]
    bounded_queue.refines [OF TryPushAcquireRelease_queue [OF assms(1,2)] assms(3)]
    bounded_queue.refines [OF TryPublishSeqCst_queue [OF assms(1,2)] assms(3)]
    bounded_queue.refines [OF TryPublishAcqRel_queue [OF assms(1,2)] assms(3)]
    SpscRingBuffer_start [of c d]
  by (simp add: BM_SpscQueue_AcquireRelease_def BM_SpscQueue_SeqCst_def bench_ar.iterations bench_sc.iterations SpscRingBuffer_start)

theorem SpscRingBuffers_queue_witness:
  "let s = \<lparr>write_idx = -1, read_idx = -2, ring = [10, 11, 12, 13 :: nat]\<rparr>
   in spsc_inv 4 s \<and> spsc_queue 4 s = [12]
      \<and> ops_run (TryPushSeqCst 4) (TryPopSeqCst 4) s [Push 7, Push 8, Pop, Pop, Pop, Pop]
        = [Inl True, Inl True, Inr (Some 12), Inr (Some 7), Inr (Some 8), Inr None]"
proof -
  let ?s = "\<lparr>write_idx = -1, read_idx = -2, ring = [10, 11, 12, 13 :: nat]\<rparr>"
  have s: "spsc_inv 4 ?s" "spsc_queue 4 ?s = [12]"
    by (simp_all add: spsc_inv_def spsc_queue_def spsc_index_def)
  have "pow2_assert 4" "(4 :: u64) \<noteq> 0" by (simp_all add: pow2_assert_def)
  note q = SpscRingBuffers_queue [OF this s(1), of "[Push 7, Push 8, Pop, Pop, Pop, Pop]", THEN conjunct1]
  then show ?thesis unfolding Let_def q using s by simp
qed

end
