(* ===== verification/RingTyped.thy ===== *)
theory RingTyped
  imports RingProps
begin

text \<open>
  The shape of a broadcast ring: sizes, alignment and the ranges of the indices, kept by every call
  whatever its arguments and whatever it answers, and what follows for the addresses it hands out.
\<close>

section \<open>Well-typed rings\<close>

text \<open>A frame starts with an atomic version word, so frames have to lie on 8-byte boundaries.\<close>

definition aligned8 :: "u64 \<Rightarrow> bool" where
  "aligned8 c \<longleftrightarrow> c AND 7 = 0"

definition ring_typed :: "ring_buffer \<Rightarrow> bool" where
  "ring_typed s \<longleftrightarrow> capacity s \<noteq> 0 \<and> length (segment s) = unat (capacity s)
     \<and> buffer_capacity (header s) = capacity s \<and> length (readers (header s)) = kMaxReaders
     \<and> aligned8 (capacity s) \<and> aligned8 (producer_cursor (header s)) \<and> aligned8 (commit_cursor (header s))
     \<and> aligned8 (claimed_cursor (current_reservation s))
     \<and> start_offset (current_reservation s) < capacity s \<and> aligned8 (start_offset (current_reservation s))"

definition reader_typed :: "BroadcastReader \<Rightarrow> bool" where
  "reader_typed r \<longleftrightarrow> -1 \<le> slot_index r \<and> slot_index r < int kMaxReaders"

lemma aligned8_unat: "aligned8 c \<longleftrightarrow> 8 dvd unat c"
proof -
  have "c AND 7 = take_bit 3 c" by (simp add: take_bit_eq_mask mask_eq_exp_minus_1)
  then have "aligned8 c \<longleftrightarrow> unat (take_bit 3 c) = 0" by (simp add: aligned8_def unat_eq_0)
  then show ?thesis by (simp add: take_bit_eq_mod unat_mod dvd_eq_mod_eq_0)
qed

lemma aligned8_0 [simp]: "aligned8 0"
  by (simp add: aligned8_def)

lemma aligned8_add: "aligned8 a \<Longrightarrow> aligned8 b \<Longrightarrow> aligned8 (a + b)"
proof -
  assume "aligned8 a" and "aligned8 b"
  then have "8 dvd (unat a + unat b) mod 2 ^ 64"
    by (simp add: aligned8_unat dvd_mod)
  then show ?thesis by (simp add: aligned8_unat unat_word_ariths)
qed

lemma aligned8_mod: "aligned8 a \<Longrightarrow> aligned8 b \<Longrightarrow> aligned8 (a mod b)"
  by (simp add: aligned8_unat unat_mod dvd_mod)

lemma aligned8_required: "aligned8 (required_space n)"
proof -
  have "aligned8 (ucast ((n + 7) AND NOT (mask 3) :: u32))"
    unfolding aligned8_unat unat_ucast_u32 unat_and_not_mask by simp
  then show ?thesis
    unfolding required_space_def
    by (intro aligned8_add) (simp_all add: aligned8_def kFrameHeaderSize_def mask_eq_exp_minus_1)
qed

lemma scan_length: "scan_readers now timeout m0 rs = (rs', m) \<Longrightarrow> length rs' = length rs"
  using scan_min by blast

section \<open>Calls\<close>

text \<open>
  One process's calls on its ring and its reader: any arguments, any rosters of the right length that
  \<open>Reserve\<close> meets, any stores through the pointer it gave, any loads a copying poll makes.
\<close>

datatype ring_call =
    CallReserve u32 u32 "(u64 \<times> ReaderSlot list) list" u64
  | CallFill nat "u8 list"
  | CallCommit
  | CallRegister u64 u32
  | CallUnregister
  | CallAdvance u64 u64
  | CallAdvanceLocal FrameHeader
  | CallPollZeroCopy
  | CallPollCopy "attempt list"
  | CallPollCopyBatch "nat \<Rightarrow> u64 \<Rightarrow> attempt list" u64 nat

fun call_step :: "ring_buffer \<times> BroadcastReader \<Rightarrow> ring_call \<Rightarrow> (ring_buffer \<times> BroadcastReader) option" where
  "call_step (s, r) (CallReserve n ty its ts) =
     (if \<forall>(now, roster) \<in> set its. length roster = kMaxReaders
      then map_option (\<lambda>(res, s'). (s', r)) (Reserve n ty its ts s) else None)"
| "call_step (s, r) (CallFill p bytes) = Some (write_payload p bytes s, r)"
| "call_step (s, r) CallCommit = Some (Commit s, r)"
| "call_step (s, r) (CallRegister now pid) = (let (res, r', s') = RegisterReader now pid r s in Some (s', r'))"
| "call_step (s, r) CallUnregister = (let (r', s') = UnregisterReader r s in Some (s', r'))"
| "call_step (s, r) (CallAdvance now n) = (let (r', s') = Advance now n r s in Some (s', r'))"
| "call_step (s, r) (CallAdvanceLocal h) = Some (s, reader_Advance h r)"
| "call_step (s, r) CallPollZeroCopy = Some (s, r)"
| "call_step (s, r) (CallPollCopy attempts) = map_option (\<lambda>res. (s, r)) (PollCopy attempts r s)"
| "call_step (s, r) (CallPollCopyBatch env now k) =
     map_option (\<lambda>(res, r', s'). (s', r')) (PollCopyBatch env now k r s)"

definition call_typed :: "ring_buffer \<times> BroadcastReader \<Rightarrow> bool" where
  "call_typed x \<longleftrightarrow> ring_typed (fst x) \<and> reader_typed (snd x)"

lemma Reserve_typed:
  assumes "ring_typed s" and "\<forall>(now, roster) \<in> set its. length roster = kMaxReaders"
    and "Reserve n ty its ts s = Some (res, s')"
  shows "ring_typed s'"
proof (cases res)
  case (Inl e)
  then have "s' = s" using assms(3) by (auto simp: Reserve_def Let_def split: if_splits option.splits)
  then show ?thesis using assms(1) by simp
next
  case (Inr p)
  note ok = Reserve_okD [OF assms(3) [unfolded Inr]]
  let ?cur = "producer_cursor (header s)" and ?req = "required_space n"
  obtain roster m where s': "s' = s\<lparr>segment := (let a = unat (?cur mod capacity s); seg = segment s;
             seg = store32 seg a (load32 seg a OR 1); seg = store32 seg (a + 4) n;
             seg = store32 seg (a + 8) ty in store64 seg (a + 16) ts),
         current_reservation := \<lparr>claimed_cursor = ?cur + ?req, start_offset = ?cur mod capacity s,
           total_frame_size = ucast ?req\<rparr>,
         header := (header s)\<lparr>readers := roster, producer_cursor := ?cur + ?req\<rparr>, cached_min_cursor := m\<rparr>"
    and src: "roster = readers (header s) \<or> wait_for_readers (capacity s) (evict_timeout_ns s) (?cur + ?req) its = Some (roster, m)"
    using ok(4) by (auto simp: Let_def)
  have "length roster = kMaxReaders"
    using src
  proof
    assume "wait_for_readers (capacity s) (evict_timeout_ns s) (?cur + ?req) its = Some (roster, m)"
    then obtain now old where "(now, old) \<in> set its"
      and sc: "scan_readers now (evict_timeout_ns s) (?cur + ?req) old = (roster, m)"
      using wait_result by blast
    then have "length old = kMaxReaders" using assms(2) by auto
    then show ?thesis using scan_length [OF sc] by simp
  qed (use assms(1) in \<open>simp add: ring_typed_def\<close>)
  moreover have "?cur mod capacity s < capacity s"
    using assms(1) by (simp add: ring_typed_def word_less_nat_alt unat_mod unat_gt_0)
  ultimately show ?thesis using assms(1) aligned8_required [of n]
    by (auto simp: s' ring_typed_def Let_def intro: aligned8_add aligned8_mod)
qed

lemma roster_calls_typed:
  assumes "ring_typed s" and "reader_typed r"
  shows "call_typed (let (r', s') = Advance now n r s in (s', r'))"
    and "call_typed (let (r', s') = UnregisterReader r s in (s', r'))"
    and "call_typed (let (res, r', s') = RegisterReader now pid r s in (s', r'))"
proof -
  show "call_typed (let (r', s') = Advance now n r s in (s', r'))"
    using assms by (auto simp: call_typed_def Advance_def Let_def ring_typed_def reader_typed_def)
  show "call_typed (let (r', s') = UnregisterReader r s in (s', r'))"
    using assms by (auto simp: call_typed_def UnregisterReader_def Let_def ring_typed_def reader_typed_def)
  show "call_typed (let (res, r', s') = RegisterReader now pid r s in (s', r'))"
  proof (cases "slot_index r \<noteq> -1")
    case False
    then show ?thesis
    proof (cases "claim_slot (readers (header s))")
      case (Some i)
      then have "i < kMaxReaders" using claim_slot_spec [of "readers (header s)" i] assms(1) by (simp add: ring_typed_def)
      then show ?thesis using assms Some False
        by (auto simp: call_typed_def RegisterReader_def Let_def ring_typed_def reader_typed_def)
    qed (use assms in \<open>simp add: call_typed_def RegisterReader_def\<close>)
  qed (use assms in \<open>simp add: call_typed_def RegisterReader_def\<close>)
qed

lemma call_step_typed:
  assumes "call_typed x" and "call_step x c = Some y"
  shows "call_typed y \<and> capacity (fst y) = capacity (fst x)"
proof -
  obtain s r where x: "x = (s, r)" by (cases x)
  have t: "ring_typed s" "reader_typed r" using assms(1) by (simp_all add: x call_typed_def)
  show ?thesis
  proof (cases c)
    case (CallReserve n ty its ts)
    then obtain res s' where "Reserve n ty its ts s = Some (res, s')" "y = (s', r)"
      "\<forall>(now, roster) \<in> set its. length roster = kMaxReaders"
      using assms(2) by (auto simp: x split: if_splits)
    then show ?thesis using Reserve_typed [OF t(1)] t(2)
      by (auto simp: call_typed_def x Reserve_def Let_def split: if_splits option.splits)
  next
    case (CallPollCopyBatch env now k)
    then obtain res r' s' where "PollCopyBatch env now k r s = Some (res, r', s')" "y = (s', r')"
      using assms(2) by (auto simp: x)
    then show ?thesis using roster_calls_typed(1) [OF t, of now] t
      by (auto simp: call_typed_def x PollCopyBatch_def Advance_def Let_def split: if_splits option.splits)
  next
    case CallCommit
    then show ?thesis using t assms(2) by (auto simp: x call_typed_def ring_typed_def Commit_def Let_def)
  next
    case (CallFill p bytes)
    then show ?thesis using t assms(2) by (auto simp: x call_typed_def ring_typed_def write_payload_def)
  next
    case (CallRegister now pid)
    then show ?thesis using roster_calls_typed(3) [OF t] assms(2)
      by (auto simp: x RegisterReader_def Let_def split: if_splits option.splits)
  next
    case CallUnregister
    then show ?thesis using roster_calls_typed(2) [OF t] assms(2)
      by (auto simp: x UnregisterReader_def Let_def split: if_splits)
  next
    case (CallAdvance now n)
    then show ?thesis using roster_calls_typed(1) [OF t] assms(2)
      by (auto simp: x Advance_def Let_def split: if_splits)
  next
    case (CallAdvanceLocal h)
    then show ?thesis using t assms(2) by (auto simp: x call_typed_def reader_typed_def reader_Advance_def)
  next
    case CallPollZeroCopy
    then show ?thesis using t assms(2) by (auto simp: x call_typed_def)
  next
    case (CallPollCopy attempts)
    then show ?thesis using t assms(2) by (auto simp: x call_typed_def)
  qed
qed

interpretation typed_calls: safe_machine call_step "\<lambda>x. call_typed x \<and> capacity (fst x) = cap" for cap
  by unfold_locales (use call_step_typed in blast)

lemma Create_typed:
  "cap \<noteq> 0 \<Longrightarrow> aligned8 cap \<Longrightarrow> ring_typed (Create cap timeout)"
  by (simp add: ring_typed_def Create_def BroadcastRingBuffer_def new_header_def no_reservation_def word_gt_0)

lemma Reserve_address:
  assumes "ring_typed s" and "unat n + 7 < 2 ^ 32" and "Reserve n ty its ts s = Some (Inr p, s1)"
  shows "8 dvd p" and "p + unat n \<le> 2 * unat (capacity s)"
proof -
  note ok = Reserve_okD [OF assms(3)]
  have al: "aligned8 (producer_cursor (header s) mod capacity s)"
    using assms(1) by (simp add: ring_typed_def aligned8_mod)
  show "8 dvd p" unfolding ok(3) using al by (simp add: aligned8_unat kFrameHeaderSize_def)
  have "unat n \<le> (unat n + 7) div 8 * 8" by presburger
  then have "kFrameHeaderSize + unat n \<le> unat (capacity s)"
    using ok(2) required_space_nat [OF assms(2)] by (simp add: word_le_nat_alt)
  moreover have "unat (producer_cursor (header s) mod capacity s) < unat (capacity s)"
    using assms(1) by (simp add: ring_typed_def unat_mod unat_gt_0)
  ultimately show "p + unat n \<le> 2 * unat (capacity s)" by (simp add: ok(3))
qed

text \<open>
  C7. Types and alignment. Whatever calls a process makes on a ring it created with an 8-aligned capacity, with any
  arguments and whatever they answer, the ring keeps its shape: the segment has the capacity's size
  and both stay fixed, the roster has its sixteen slots, the reader's slot index is -1 or one of them,
  all cursors and the reservation lie on 8-byte boundaries. So every payload \<open>Reserve\<close> hands out is
  8-aligned and lies inside the mirrored mapping of two capacities (for payload sizes that do not wrap
  its 32-bit sum), and a zero-copy view starts inside it. Each call reports only its own errors.
\<close>

theorem Ring_typed:
  assumes "cap \<noteq> 0" and "aligned8 cap"
    and "run call_step (Create cap timeout, new_reader c) calls = Some (s, reader)"
  shows "ring_typed s \<and> reader_typed reader \<and> capacity s = cap
    \<and> (unat n + 7 < 2 ^ 32 \<and> Reserve n ty its ts s = Some (Inr p, s1) \<longrightarrow> 8 dvd p \<and> p + unat n \<le> 2 * unat cap)
    \<and> (PollZeroCopy reader s = Inr (h, q, len) \<longrightarrow>
        q < unat cap + kFrameHeaderSize \<and> q + unat len < 2 * unat cap + kFrameHeaderSize)
    \<and> (Reserve n ty its ts s = Some (Inl e, s1) \<longrightarrow> e \<in> {PermissionDenied, InvalidArgument} \<and> s1 = s)
    \<and> (PollZeroCopy reader s = Inl e \<longrightarrow> e \<in> {NotFound, ResourceExhausted, DataLoss})
    \<and> (PollCopy attempts reader s = Some (Inl e) \<longrightarrow> e \<in> {NotFound, ResourceExhausted, DataLoss})"
proof -
  have "call_typed (s, reader) \<and> capacity (fst (s, reader)) = cap"
    by (rule typed_calls.run_inv [OF _ assms(3)])
      (use Create_typed [OF assms(1,2)] in \<open>simp add: call_typed_def reader_typed_def new_reader_def kMaxReaders_def
         Create_def BroadcastRingBuffer_def\<close>)
  then have t: "ring_typed s" "reader_typed reader" "capacity s = cap" by (simp_all add: call_typed_def)
  have off: "unat (cursor reader mod capacity s) < unat (capacity s)"
    using t(1) by (simp add: ring_typed_def unat_mod unat_gt_0)
  have "q < unat cap + kFrameHeaderSize \<and> q + unat len < 2 * unat cap + kFrameHeaderSize"
    if "PollZeroCopy reader s = Inr (h, q, len)"
  proof -
    have "q = unat (cursor reader mod capacity s) + kFrameHeaderSize" "unat len \<le> unat (capacity s)"
      using that unat_ucast_u32 [of len]
      by (auto simp: PollZeroCopy_def Let_def not_less word_le_nat_alt split: if_splits)
    then show ?thesis using off t(3) by simp
  qed
  moreover have "e \<in> {PermissionDenied, InvalidArgument} \<and> s1 = s" if "Reserve n ty its ts s = Some (Inl e, s1)"
    using that by (auto simp: Reserve_def Let_def split: if_splits option.splits)
  moreover have "e \<in> {NotFound, ResourceExhausted, DataLoss}" if "PollZeroCopy reader s = Inl e"
    using that by (auto simp: PollZeroCopy_def Let_def split: if_splits)
  moreover have "e \<in> {NotFound, ResourceExhausted, DataLoss}" if "PollCopy attempts reader s = Some (Inl e)"
    using that by (auto simp: PollCopy_def Let_def split: if_splits option.splits copy_result.splits)
  ultimately show ?thesis using t Reserve_address [OF t(1)] by auto
qed

theorem Ring_typed_witness:
  "\<exists>s r p s1. run call_step (Create 64 0, new_reader 0) [CallRegister 5 6, CallReserve 3 7 [] 0, CallCommit, CallAdvance 9 32]
       = Some (s, r) \<and> ring_typed s \<and> reader_typed r \<and> slot_index r = 0
     \<and> Reserve 3 7 [] 0 s = Some (Inr p, s1) \<and> 8 dvd p \<and> p + 3 \<le> 2 * 64"
proof -
  let ?calls = "[CallRegister 5 6, CallReserve 3 7 [] 0, CallCommit, CallAdvance 9 32]"
  have req: "required_space 3 = 32" by (simp add: required_space_def kFrameHeaderSize_def)
  have len: "0 < length (replicate kMaxReaders empty_slot)" by (simp add: kMaxReaders_def)
  have claim: "claim_slot (replicate kMaxReaders empty_slot) = Some 0"
    by (simp add: kMaxReaders_def empty_slot_def numeral_eq_Suc)
  have "\<exists>s r. run call_step (Create 64 0, new_reader 0) ?calls = Some (s, r) \<and> slot_index r = 0
      \<and> is_producer s \<and> capacity s = 64 \<and> producer_cursor (header s) = 32 \<and> cached_min_cursor s = 0"
    by (simp add: Create_def BroadcastRingBuffer_def new_header_def new_reader_def claim nth_list_update_eq [OF len] RegisterReader_def
        Reserve_def Commit_def Advance_def req Let_def word_less_nat_alt)
  then obtain s r where s: "run call_step (Create 64 0, new_reader 0) ?calls = Some (s, r)" "slot_index r = 0"
    "is_producer s" "capacity s = 64" "producer_cursor (header s) = 32" "cached_min_cursor s = 0" by blast
  have "\<exists>p s1. Reserve 3 7 [] 0 s = Some (Inr p, s1)"
    using s by (simp add: Reserve_def req Let_def word_less_nat_alt)
  then obtain p s1 where "Reserve 3 7 [] 0 s = Some (Inr p, s1)" by blast
  with Ring_typed [where n = 3, OF _ _ s(1)] s show ?thesis by (auto simp: aligned8_def)
qed

text \<open>
  The length check of the polls lets a length pass that the mapping does not hold: it compares with
  the capacity and leaves the frame header out. On a lapped frame, where the length is what another
  message's bytes make it, the copy can run past the end of the mirror.
\<close>

lemma length_check_past_mirror:
  "\<exists>o1 :: attempt. copy_frame False 64 56 0 [o1]
     = Some (Got \<lparr>msg_type = 0, msg_timestamp = 0, msg_payload = replicate 64 0\<rparr> 88)
   \<and> unat ((56 :: u64) mod 64) + kFrameHeaderSize + unat (seen_length o1) > 2 * 64"
proof -
  let ?o = "\<lparr>seen_producer = 120, version_before = 0, seen_length = 64, seen_type = 0, seen_timestamp = 0,
    seen_segment = replicate 64 0, version_after = 0, length_again = 64\<rparr>"
  have "load_bytes (replicate 64 0) 80 64 = replicate 64 0"
    by (simp add: load_bytes_def peek_def map_replicate_const)
  then have "copy_frame False 64 56 0 [?o]
     = Some (Got \<lparr>msg_type = 0, msg_timestamp = 0, msg_payload = replicate 64 0\<rparr> 88)"
    by (simp add: kFrameHeaderSize_def TotalFrameSize_def AlignedPayloadSize_def word_less_nat_alt)
  then show ?thesis by (intro exI [of _ ?o]) (simp add: kFrameHeaderSize_def)
qed

end
