(* ===== verification/RingBench.thy ===== *)
theory RingBench
  imports RingProps
begin

text \<open>
  \<open>broadcast_ring_buffer_benchmark.cc\<close>: a producer and a consumer object on one ring of 16 MiB, and the
  five benchmarks that publish through the one and read through the other, in one thread. The clock is
  an argument, one reading per call that reads it: the evictions it may cause are part of the model.
  The payloads the polls returned are collected in \<open>polled\<close>, in place of \<open>DoNotOptimize\<close>.
\<close>

section \<open>The fixture\<close>

record bench =
  producer_side :: ring_buffer
  consumer_side :: ring_buffer
  bench_reader :: BroadcastReader
  polled :: "u8 list list"

text \<open>Both objects map the same memory: what one stored the other sees.\<close>

definition sees :: "ring_buffer \<Rightarrow> ring_buffer \<Rightarrow> ring_buffer" where
  "sees s t = t\<lparr>header := header s, segment := segment s\<rparr>"

definition bench_capacity :: "nat \<Rightarrow> nat" where
  "bench_capacity page_size = 1024 * 1024 * 16 div page_size * page_size"

definition SetUp :: "nat \<Rightarrow> status + bench" where
  "SetUp page_size =
     (let p = Create (of_nat (bench_capacity page_size)) 500000000
      in case Attach (header p) (segment p) False of
           Inl e \<Rightarrow> Inl e
         | Inr c \<Rightarrow> Inr \<lparr>producer_side = p, consumer_side = c, bench_reader = new_reader 0, polled = []\<rparr>)"

section \<open>What the benchmark loops do\<close>

text \<open>
  A step gives \<open>None\<close> when a call does not return, \<open>Some e\<close> when the benchmark ends in \<open>SkipWithError\<close>.
  \<open>Reserve\<close> gets one iteration of its waiting loop, on the roster as it lies in shared memory.
\<close>

type_synonym outcome = "(status option \<times> bench) option"

definition produce :: "u8 list \<Rightarrow> u64 \<Rightarrow> u64 \<Rightarrow> bench \<Rightarrow> outcome" where
  "produce payload now timestamp b =
     (case Reserve (of_nat (length payload)) 1 [(now, readers (header (producer_side b)))] timestamp (producer_side b) of
        None \<Rightarrow> None
      | Some (Inl e, p) \<Rightarrow> Some (Some e, b\<lparr>producer_side := p, consumer_side := sees p (consumer_side b)\<rparr>)
      | Some (Inr a, p) \<Rightarrow>
          (let p = Commit (write_payload a payload p)
           in Some (None, b\<lparr>producer_side := p, consumer_side := sees p (consumer_side b)\<rparr>)))"

definition advance :: "u64 \<Rightarrow> u64 \<Rightarrow> bench \<Rightarrow> bench" where
  "advance now bytes b =
     (let (r, c) = Advance now bytes (bench_reader b) (consumer_side b)
      in b\<lparr>bench_reader := r, consumer_side := c, producer_side := sees c (producer_side b)\<rparr>)"

definition consume_zero_copy :: "u64 \<Rightarrow> bench \<Rightarrow> outcome" where
  "consume_zero_copy now b =
     (case PollZeroCopy (bench_reader b) (consumer_side b) of
        Inl e \<Rightarrow> Some (Some e, b)
      | Inr (h, a, n) \<Rightarrow>
          Some (None, advance now (ucast (TotalFrameSize (frame_length h)))
            (b\<lparr>polled := polled b @ [load_bytes (segment (consumer_side b)) a (unat n)]\<rparr>)))"

definition consume_copy :: "u64 \<Rightarrow> bench \<Rightarrow> outcome" where
  "consume_copy now b =
     (case PollCopy [quiet_attempt (consumer_side b) (cursor (bench_reader b))] (bench_reader b) (consumer_side b) of
        None \<Rightarrow> None
      | Some (Inl e) \<Rightarrow> Some (Some e, b)
      | Some (Inr m) \<Rightarrow>
          Some (None, advance now (ucast (TotalFrameSize (of_nat (length (msg_payload m)))))
            (b\<lparr>polled := polled b @ [msg_payload m]\<rparr>)))"

definition and_then :: "outcome \<Rightarrow> (bench \<Rightarrow> outcome) \<Rightarrow> outcome" where
  "and_then r f = (case r of Some (None, b) \<Rightarrow> f b | _ \<Rightarrow> r)"

primrec each :: "(nat \<Rightarrow> bench \<Rightarrow> outcome) \<Rightarrow> nat list \<Rightarrow> bench \<Rightarrow> outcome" where
  "each f [] b = Some (None, b)"
| "each f (i # is) b = and_then (f i b) (each f is)"

definition kBatchSize :: nat where
  "kBatchSize = 100"

text \<open>The batch producer drops the message when \<open>Reserve\<close> reports an error.\<close>

definition produce_batch :: "u8 list \<Rightarrow> (nat \<Rightarrow> u64) \<Rightarrow> bench \<Rightarrow> outcome" where
  "produce_batch payload clock =
     each (\<lambda>i b. map_option (\<lambda>(e, b). (None, b)) (produce payload (clock (2 * i)) (clock (2 * i + 1)) b)) [0..<kBatchSize]"

text \<open>
  The reading loop of \<open>PollCopyBatch\<close>. A call that succeeds returns a message, so as many calls as
  messages are wanted are enough.
\<close>

primrec read_batch :: "nat \<Rightarrow> (nat \<Rightarrow> u64) \<Rightarrow> nat \<Rightarrow> bench \<Rightarrow> outcome" where
  "read_batch 0 clock total_read b = (if total_read < kBatchSize then None else Some (None, b))"
| "read_batch (Suc fuel) clock total_read b =
     (if total_read < kBatchSize
      then case PollCopyBatch (\<lambda>n c. [quiet_attempt (consumer_side b) c]) (clock fuel) (kBatchSize - total_read)
             (bench_reader b) (consumer_side b) of
             None \<Rightarrow> None
           | Some (Inl e, r, c) \<Rightarrow> Some (Some e, b\<lparr>bench_reader := r, consumer_side := c, producer_side := sees c (producer_side b)\<rparr>)
           | Some (Inr ms, r, c) \<Rightarrow> read_batch fuel clock (total_read + length ms)
               (b\<lparr>bench_reader := r, consumer_side := c, producer_side := sees c (producer_side b),
                  polled := polled b @ map msg_payload ms\<rparr>)
      else Some (None, b))"

section \<open>The benchmarks\<close>

text \<open>
  \<open>clock i k\<close> is reading \<open>k\<close> of iteration \<open>i\<close>. The result is how the run ended and the bytes it reports.
\<close>

definition Produce :: "nat \<Rightarrow> nat \<Rightarrow> (nat \<Rightarrow> nat \<Rightarrow> u64) \<Rightarrow> bench \<Rightarrow> outcome \<times> int" where
  "Produce bytes iterations clock b =
     (let payload = replicate bytes (88 :: u8)
      in (each (\<lambda>i. produce payload (clock i 0) (clock i 1)) [0..<iterations] b, int iterations * int bytes))"

definition with_reader :: "u64 \<Rightarrow> u32 \<Rightarrow> (bench \<Rightarrow> outcome) \<Rightarrow> bench \<Rightarrow> outcome" where
  "with_reader now pid body b =
     (case RegisterReader now pid (new_reader 0) (consumer_side b) of
        (Some e, r, c) \<Rightarrow> Some (Some e, b)
      | (None, r, c) \<Rightarrow>
          map_option (\<lambda>(e, b). let (r, c) = UnregisterReader (bench_reader b) (consumer_side b)
              in (e, b\<lparr>bench_reader := r, consumer_side := c, producer_side := sees c (producer_side b)\<rparr>))
            (body (b\<lparr>bench_reader := r, consumer_side := c, producer_side := sees c (producer_side b)\<rparr>)))"

definition RoundTripZeroCopy :: "nat \<Rightarrow> nat \<Rightarrow> u64 \<Rightarrow> u32 \<Rightarrow> (nat \<Rightarrow> nat \<Rightarrow> u64) \<Rightarrow> bench \<Rightarrow> outcome \<times> int" where
  "RoundTripZeroCopy bytes iterations now pid clock b =
     (let payload = replicate bytes (88 :: u8)
      in (with_reader now pid (each (\<lambda>i b. and_then (produce payload (clock i 0) (clock i 1) b) (consume_zero_copy (clock i 2)))
            [0..<iterations]) b, int iterations * int bytes))"

definition PollZeroCopyBatch :: "nat \<Rightarrow> nat \<Rightarrow> u64 \<Rightarrow> u32 \<Rightarrow> (nat \<Rightarrow> nat \<Rightarrow> u64) \<Rightarrow> bench \<Rightarrow> outcome \<times> int" where
  "PollZeroCopyBatch bytes iterations now pid clock b =
     (let payload = replicate bytes (88 :: u8)
      in (with_reader now pid (each (\<lambda>i b. and_then (produce_batch payload (clock i) b)
            (each (\<lambda>k. consume_zero_copy (clock i (2 * kBatchSize + k))) [0..<kBatchSize])) [0..<iterations]) b,
          int iterations * int bytes * int kBatchSize))"

definition RoundTripCopy :: "nat \<Rightarrow> nat \<Rightarrow> u64 \<Rightarrow> u32 \<Rightarrow> (nat \<Rightarrow> nat \<Rightarrow> u64) \<Rightarrow> bench \<Rightarrow> outcome \<times> int" where
  "RoundTripCopy bytes iterations now pid clock b =
     (let payload = replicate bytes (88 :: u8)
      in (with_reader now pid (each (\<lambda>i b. and_then (produce payload (clock i 0) (clock i 1) b) (consume_copy (clock i 2)))
            [0..<iterations]) b, int iterations * int bytes))"

definition bench_PollCopyBatch :: "nat \<Rightarrow> nat \<Rightarrow> u64 \<Rightarrow> u32 \<Rightarrow> (nat \<Rightarrow> nat \<Rightarrow> u64) \<Rightarrow> bench \<Rightarrow> outcome \<times> int" where
  "bench_PollCopyBatch bytes iterations now pid clock b =
     (let payload = replicate bytes (88 :: u8)
      in (with_reader now pid (each (\<lambda>i b. and_then (produce_batch payload (clock i) b)
            (read_batch kBatchSize (\<lambda>k. clock i (2 * kBatchSize + k)) 0)) [0..<iterations]) b,
          int iterations * int bytes * int kBatchSize))"

section \<open>Rings at rest\<close>

definition frame_span :: "u8 list \<Rightarrow> nat" where
  "frame_span payload = kFrameHeaderSize + (length payload + 7) div 8 * 8"

text \<open>
  Between two calls: the ring carries \<open>log\<close>, all messages with the benchmark's payload; both sides see
  the same memory; no slot is active but the reader's, which stands at message \<open>k\<close>, less than a
  capacity behind.
\<close>

definition at_rest :: "u8 list \<Rightarrow> message list \<Rightarrow> nat \<Rightarrow> bench \<Rightarrow> bool" where
  "at_rest payload log k b \<longleftrightarrow> ring_inv log (producer_side b) \<and> is_producer (producer_side b)
     \<and> unat (capacity (producer_side b)) < 2 ^ 32 \<and> (\<forall>m \<in> set log. m_payload m = payload)
     \<and> header (consumer_side b) = header (producer_side b) \<and> segment (consumer_side b) = segment (producer_side b)
     \<and> capacity (consumer_side b) = capacity (producer_side b)
     \<and> k \<le> length log \<and> (length log - k) * frame_span payload \<le> unat (capacity (producer_side b))
     \<and> (\<forall>j < length (readers (header (producer_side b))). active (readers (header (producer_side b)) ! j)
          \<longrightarrow> int j = slot_index (bench_reader b)
            \<and> slot_cursor (readers (header (producer_side b)) ! j) = of_nat (k * frame_span payload))"

definition reading :: "u8 list \<Rightarrow> nat \<Rightarrow> bench \<Rightarrow> bool" where
  "reading payload k b \<longleftrightarrow> cursor (bench_reader b) = of_nat (k * frame_span payload)
     \<and> (\<exists>i < length (readers (header (producer_side b))). slot_index (bench_reader b) = int i \<and> i < kMaxReaders
          \<and> slot_generation (readers (header (producer_side b)) ! i) = generation_id (bench_reader b))"

lemma start_of_same:
  "\<forall>m \<in> set log. m_payload m = payload \<Longrightarrow> j \<le> length log \<Longrightarrow> start_of log j = j * frame_span payload"
proof (induction j)
  case (Suc j)
  then have "span (log ! j) = frame_span payload" by (simp add: span_def frame_span_def)
  then show ?case using Suc by (simp add: start_of_Suc)
qed (simp add: start_of_def)

lemma ring_inv_sees:
  "header t = header s \<Longrightarrow> segment t = segment s \<Longrightarrow> capacity t = capacity s \<Longrightarrow> ring_inv log t = ring_inv log s"
  by (simp add: ring_inv_def stream_def)

lemma scan_origin:
  "scan_readers now timeout m0 rs = (rs', m) \<Longrightarrow> m = m0 \<or> (\<exists>j < length rs. active (rs ! j) \<and> m = slot_cursor (rs ! j))"
proof (induction rs arbitrary: m0 rs' m)
  case (Cons r rs)
  then obtain m1 q where q: "scan_readers now timeout m1 rs = (q, m)" "m1 = m0 \<or> active r \<and> m1 = slot_cursor r"
    by (auto simp: Let_def split: if_splits prod.splits)
  from Cons.IH [OF q(1)] q(2) show ?case by (auto intro: exI [of _ "Suc _"] exI [of _ 0])
qed simp

lemma scan_generation:
  "scan_readers now timeout m0 rs = (rs', m) \<Longrightarrow> i < length rs \<Longrightarrow> slot_generation (rs' ! i) = slot_generation (rs ! i)"
proof (induction rs arbitrary: m0 rs' m i)
  case (Cons r rs)
  then show ?case by (cases i) (auto simp: Let_def split: if_splits prod.splits)
qed simp

text \<open>What a publication leaves of the roster.\<close>

definition thinned :: "ReaderSlot list \<Rightarrow> ReaderSlot list \<Rightarrow> bool" where
  "thinned rs' rs \<longleftrightarrow> length rs' = length rs \<and> (\<forall>j < length rs. slot_generation (rs' ! j) = slot_generation (rs ! j)
     \<and> (active (rs' ! j) \<longrightarrow> rs' ! j = rs ! j))"

lemma scan_thinned: "scan_readers now timeout m0 rs = (rs', m) \<Longrightarrow> thinned rs' rs"
  using scan_min [of now timeout m0 rs rs' m] scan_same [of now timeout m0 rs rs' m]
    scan_generation [of now timeout m0 rs rs' m]
  by (auto simp: thinned_def)

lemma publish_thinned:
  assumes "publish m [(now, readers (header s))] s = Some s'"
  shows "thinned (readers (header s')) (readers (header s))"
proof -
  obtain p s1 where r: "Reserve (of_nat (length (m_payload m))) (m_type m) [(now, readers (header s))] (m_timestamp m) s = Some (Inr p, s1)"
    and s': "s' = Commit (write_payload p (m_payload m) s1)"
    using assms by (auto simp: publish_def split: option.splits prod.splits sum.splits)
  have same: "readers (header s') = readers (header s1)" by (simp add: s' Commit_def write_payload_def Let_def)
  from Reserve_okD(4) [OF r] consider "readers (header s1) = readers (header s)"
    | mn where "wait_for_readers (capacity s) (evict_timeout_ns s)
        (producer_cursor (header s) + required_space (of_nat (length (m_payload m)))) [(now, readers (header s))]
        = Some (readers (header s1), mn)"
    by (auto simp: Let_def)
  then show ?thesis
  proof cases
    case 1
    then show ?thesis by (simp add: same thinned_def)
  next
    case 2
    then show ?thesis using wait_result [OF 2] scan_thinned by (auto simp: same)
  qed
qed

text \<open>A producer with room for the frame is never held up, whatever the clock says.\<close>

lemma publish_at_rest:
  assumes "is_producer s" and "fits (capacity s) m" and "producer_cursor (header s) = of_nat e" and "e + span m < 2 ^ 64"
    and "\<forall>j < length (readers (header s)). active (readers (header s) ! j) \<longrightarrow>
        (\<exists>c \<le> e. slot_cursor (readers (header s) ! j) = of_nat c \<and> e + span m - c \<le> unat (capacity s))"
  shows "\<exists>s'. publish m [(now, readers (header s))] s = Some s'"
proof -
  let ?req = "required_space (of_nat (length (m_payload m)))"
  have n: "unat (of_nat (length (m_payload m)) :: u32) = length (m_payload m)"
    using assms(2) by (simp add: fits_def unat_of_nat)
  have req: "unat ?req = span m" using required_space_nat [of "of_nat (length (m_payload m))"] n assms(2)
    by (simp add: fits_def span_def)
  then have le: "?req \<le> capacity s" using assms(2) by (simp add: fits_def word_le_nat_alt)
  have target: "producer_cursor (header s) + ?req = of_nat (e + span m)"
    by (simp add: assms(3) flip: req)
  show ?thesis
  proof (cases "producer_cursor (header s) + ?req - cached_min_cursor s \<le> capacity s")
    case True
    then have free: "(capacity s < producer_cursor (header s) + ?req - cached_min_cursor s) = False" by (simp add: not_less)
    show ?thesis using assms(1) le by (simp add: publish_def Reserve_def Let_def not_less free)
  next
    case False
  obtain rs' mn where sc: "scan_readers now (evict_timeout_ns s) (producer_cursor (header s) + ?req) (readers (header s)) = (rs', mn)"
    by fastforce
  have "producer_cursor (header s) + ?req - mn \<le> capacity s"
    using scan_origin [OF sc]
  proof
    assume "\<exists>j<length (readers (header s)). active (readers (header s) ! j) \<and> mn = slot_cursor (readers (header s) ! j)"
    then obtain c where "c \<le> e" "mn = of_nat c" "e + span m - c \<le> unat (capacity s)" using assms(5) by auto
    then show ?thesis using u64_diff_of_nat [of c "e + span m"] assms(4) unfolding target by (simp add: word_le_nat_alt)
  qed simp
  then have "wait_for_readers (capacity s) (evict_timeout_ns s) (producer_cursor (header s) + ?req) [(now, readers (header s))]
      = Some (rs', mn)"
    by (simp add: sc)
  then show ?thesis using assms(1) le False by (simp add: publish_def Reserve_def Let_def not_less not_le
        del: wait_for_readers.simps)
  qed
qed

section \<open>One message\<close>

abbreviation tick_message :: "u8 list \<Rightarrow> u64 \<Rightarrow> message" where
  "tick_message payload ts \<equiv> \<lparr>m_type = 1, m_timestamp = ts, m_payload = payload\<rparr>"

lemma produce_publish:
  assumes "publish (tick_message payload ts) [(now, readers (header (producer_side b)))] (producer_side b) = Some p"
  shows "produce payload now ts b = Some (None, b\<lparr>producer_side := p, consumer_side := sees p (consumer_side b)\<rparr>)"
  using assms by (auto simp: publish_def produce_def Let_def split: option.splits prod.splits sum.splits)

lemma produce_step:
  assumes rest: "at_rest payload log k b"
    and room: "(Suc (length log) - k) * frame_span payload \<le> unat (capacity (producer_side b))"
    and low: "Suc (length log) * frame_span payload < 2 ^ 64"
  shows "\<exists>b'. produce payload now ts b = Some (None, b') \<and> at_rest payload (log @ [tick_message payload ts]) k b'
    \<and> bench_reader b' = bench_reader b \<and> polled b' = polled b \<and> (reading payload k b \<longrightarrow> reading payload k b')
    \<and> capacity (producer_side b') = capacity (producer_side b)"
proof -
  let ?s = "producer_side b" and ?m = "tick_message payload ts" and ?w = "frame_span payload"
  have i: "ring_inv log ?s" "is_producer ?s" "unat (capacity ?s) < 2 ^ 32" "\<forall>m \<in> set log. m_payload m = payload"
    "k \<le> length log" "header (consumer_side b) = header ?s" "segment (consumer_side b) = segment ?s"
    "capacity (consumer_side b) = capacity ?s"
    and act: "\<And>j. j < length (readers (header ?s)) \<Longrightarrow> active (readers (header ?s) ! j) \<Longrightarrow>
        int j = slot_index (bench_reader b) \<and> slot_cursor (readers (header ?s) ! j) = of_nat (k * ?w)"
    using rest by (auto simp: at_rest_def)
  have sp: "span ?m = ?w" by (simp add: span_def frame_span_def)
  have "?w \<le> (Suc (length log) - k) * ?w" using i(5) by (simp add: Suc_diff_le)
  then have fit: "fits (capacity ?s) ?m" using room i(3) sp by (intro fits_of_span) linarith+
  let ?e = "length log * ?w"
  have end_eq: "start_of log (length log) = ?e" by (rule start_of_same [OF i(4)]) simp
  have st: "producer_cursor (header ?s) = of_nat ?e" "length (segment ?s) = unat (capacity ?s)" "?e < 2 ^ 64"
    using i(1) low by (simp_all add: ring_inv_def stream_def end_eq)
  have gap: "k * ?w \<le> ?e" "?e + span ?m - k * ?w \<le> unat (capacity ?s)"
    using i(5) room by (simp_all add: sp diff_mult_distrib)
  have "\<exists>p. publish ?m [(now, readers (header ?s))] ?s = Some p"
  proof (rule publish_at_rest [OF i(2) fit st(1)])
    show "?e + span ?m < 2 ^ 64" using low sp by (simp add: add.commute)
    show "\<forall>j<length (readers (header ?s)). active (readers (header ?s) ! j) \<longrightarrow>
        (\<exists>c\<le>?e. slot_cursor (readers (header ?s) ! j) = of_nat c \<and> ?e + span ?m - c \<le> unat (capacity ?s))"
      using act gap by blast
  qed
  then obtain p where p: "publish ?m [(now, readers (header ?s))] ?s = Some p" by blast
  note seg = publish_segment [OF p st(1,3,2)]
  have inv: "ring_inv (log @ [?m]) p"
    using publish_inv [OF i(1) p] fit low sp by (simp add: fits_def end_eq add.commute)
  have th: "thinned (readers (header p)) (readers (header ?s))" by (rule publish_thinned [OF p])
  let ?b = "b\<lparr>producer_side := p, consumer_side := sees p (consumer_side b)\<rparr>"
  have slots: "int j = slot_index (bench_reader b) \<and> slot_cursor (readers (header p) ! j) = of_nat (k * ?w)"
    if "j < length (readers (header p))" "active (readers (header p) ! j)" for j
    using th act [of j] that by (simp add: thinned_def)
  have "\<forall>m \<in> set (log @ [?m]). m_payload m = payload" using i(4) by simp
  then have "at_rest payload (log @ [?m]) k ?b"
    using inv seg(4,6) i(2,3,5,8) room slots unfolding at_rest_def by (simp add: sees_def)
  moreover have "reading payload k b \<longrightarrow> reading payload k ?b" using th by (auto simp: reading_def thinned_def)
  ultimately show ?thesis using produce_publish [OF p] seg(4) by auto
qed

lemma advance_step:
  assumes rest: "at_rest payload log k b" and rd: "reading payload k b" and n: "k + n \<le> length log"
    and w: "frame_size = (of_nat (n * frame_span payload) :: u64)"
  shows "at_rest payload log (k + n) (advance now frame_size b) \<and> reading payload (k + n) (advance now frame_size b)
    \<and> capacity (producer_side (advance now frame_size b)) = capacity (producer_side b)
    \<and> polled (advance now frame_size b) = polled b"
proof -
  let ?w = "frame_span payload" and ?rs = "readers (header (consumer_side b))"
  obtain i where i: "i < length ?rs" "slot_index (bench_reader b) = int i" "i < kMaxReaders"
    "slot_generation (?rs ! i) = generation_id (bench_reader b)" "cursor (bench_reader b) = of_nat (k * ?w)"
    using rest rd by (auto simp: reading_def at_rest_def)
  have cur: "cursor (bench_reader b) + frame_size = of_nat ((k + n) * ?w)"
    by (simp add: i(5) w add_mult_distrib)
  let ?c = "(consumer_side b)\<lparr>header := (header (consumer_side b))\<lparr>readers := ?rs[i := (?rs ! i)\<lparr>slot_cursor := of_nat ((k + n) * ?w), heartbeat_ts := now\<rparr>]\<rparr>\<rparr>"
  have adv: "advance now frame_size b = b\<lparr>bench_reader := (bench_reader b)\<lparr>cursor := of_nat ((k + n) * ?w)\<rparr>,
      consumer_side := ?c, producer_side := sees ?c (producer_side b)\<rparr>"
    using i(1-4) by (simp add: advance_def Advance_def Let_def cur)
  have inv: "ring_inv log (sees ?c (producer_side b))"
  proof -
    have "ring_inv log (sees ?c (producer_side b)) \<longleftrightarrow> ring_inv log (producer_side b)"
      using rest by (simp add: ring_inv_def stream_def at_rest_def sees_def)
    then show ?thesis using rest by (simp add: at_rest_def)
  qed
  have less: "(length log - (k + n)) * ?w \<le> (length log - k) * ?w" by (intro mult_le_mono1) simp
  have slots: "int j = slot_index (bench_reader b)
      \<and> slot_cursor (?rs[i := (?rs ! i)\<lparr>slot_cursor := of_nat ((k + n) * ?w), heartbeat_ts := now\<rparr>] ! j) = of_nat ((k + n) * ?w)"
    if "j < length ?rs" "active (?rs[i := (?rs ! i)\<lparr>slot_cursor := of_nat ((k + n) * ?w), heartbeat_ts := now\<rparr>] ! j)" for j
  proof -
    have "active (?rs ! j)" using that i(1) by (auto simp: nth_list_update split: if_splits)
    then have "j = i" using rest i(2) that(1) by (auto simp: at_rest_def)
    then show ?thesis using i by (simp only: nth_list_update_eq) simp
  qed
  have r: "is_producer (producer_side b)" "unat (capacity (producer_side b)) < 2 ^ 32" "\<forall>m \<in> set log. m_payload m = payload"
    "capacity (consumer_side b) = capacity (producer_side b)"
    "(length log - (k + n)) * ?w \<le> unat (capacity (producer_side b))"
    using rest order_trans [OF less] unfolding at_rest_def by blast+
  have "at_rest payload log (k + n) (advance now frame_size b)"
    unfolding at_rest_def adv using inv r n slots by (simp add: sees_def del: of_nat_mult of_nat_add)
  moreover have "reading payload (k + n) (advance now frame_size b)"
    unfolding adv using i by (simp add: reading_def sees_def del: of_nat_mult of_nat_add)
  ultimately show ?thesis by (simp add: adv sees_def)
qed

lemma frame_size_of:
  assumes "at_rest payload log k b" and "k < length log"
  shows "ucast (TotalFrameSize (of_nat (length payload))) = (of_nat (1 * frame_span payload) :: u64)"
proof -
  have "fits (capacity (producer_side b)) (log ! k)" "m_payload (log ! k) = payload"
    using assms by (auto simp: at_rest_def ring_inv_def stream_def)
  then show ?thesis using frame_advance [of "capacity (producer_side b)" "log ! k"] assms(1)
    by (simp add: at_rest_def span_def frame_span_def)
qed

lemma at_rest_consumer:
  assumes "at_rest payload log k b" and "reading payload k b"
  shows "ring_inv log (consumer_side b)" and "live log k (consumer_side b)"
    and "cursor (bench_reader b) = of_nat (start_of log k)" and "k < length log \<Longrightarrow> m_payload (log ! k) = payload"
proof -
  have "start_of log k = k * frame_span payload" "start_of log (length log) = length log * frame_span payload"
    using assms(1) by (auto simp: at_rest_def intro!: start_of_same)
  then show "live log k (consumer_side b)" and "cursor (bench_reader b) = of_nat (start_of log k)"
    using assms by (simp_all add: at_rest_def reading_def live_def diff_mult_distrib le_diff_conv add.commute)
  show "ring_inv log (consumer_side b)" and "k < length log \<Longrightarrow> m_payload (log ! k) = payload"
    using assms(1) by (auto simp: at_rest_def intro: ring_inv_sees [THEN iffD2])
qed

lemma consume_step:
  assumes rest: "at_rest payload log k b" and rd: "reading payload k b" and k: "k < length log"
    and f: "f = consume_zero_copy now \<or> f = consume_copy now"
  shows "\<exists>b'. f b = Some (None, b') \<and> at_rest payload log (Suc k) b' \<and> reading payload (Suc k) b'
    \<and> capacity (producer_side b') = capacity (producer_side b) \<and> polled b' = polled b @ [payload]"
proof -
  note c = at_rest_consumer [OF rest rd]
  note poll = poll_message [OF c(1) k c(3,2)]
  have len: "unat (of_nat (length payload) :: u32) = length payload"
    using at_message(4) [OF c(1) k] c(4) [OF k] by simp
  let ?b = "b\<lparr>polled := polled b @ [payload]\<rparr>"
  let ?b' = "advance now (ucast (TotalFrameSize (of_nat (length payload)))) ?b"
  have "f b = Some (None, ?b')"
    using f
  proof
    assume "f = consume_zero_copy now"
    then show ?thesis using poll(1) c(4) [OF k] len by (auto simp: consume_zero_copy_def header_of_def)
  next
    assume f: "f = consume_copy now"
    have "PollCopy [quiet_attempt (consumer_side b) (cursor (bench_reader b))] (bench_reader b) (consumer_side b)
        = Some (Inr (safe_message (log ! k)))"
      using at_message(1) [OF c(1) k] poll(2) [of False 0] c(3)
      by (simp add: PollCopy_def Let_def not_le del: copy_frame.simps)
    then show ?thesis using c(4) [OF k] by (simp add: f consume_copy_def safe_message_def)
  qed
  moreover have "at_rest payload log k ?b" "reading payload k ?b" using rest rd by (simp_all add: at_rest_def reading_def)
  ultimately show ?thesis
    using advance_step [of payload log k ?b 1] k frame_size_of [OF rest k] by simp
qed

section \<open>The loops\<close>

definition bench_at :: "u8 list \<Rightarrow> u64 \<Rightarrow> nat \<Rightarrow> nat \<Rightarrow> bench \<Rightarrow> bool" where
  "bench_at payload cap e k b \<longleftrightarrow> (\<exists>log. length log = e \<and> at_rest payload log k b \<and> reading payload k b)
     \<and> capacity (producer_side b) = cap \<and> polled b = replicate k payload"

lemma bench_produce:
  assumes "bench_at payload cap e k b" and "(Suc e - k) * frame_span payload \<le> unat cap"
    and "Suc e * frame_span payload < 2 ^ 64"
  shows "\<exists>b'. produce payload now ts b = Some (None, b') \<and> bench_at payload cap (Suc e) k b'"
proof -
  obtain log where log: "length log = e" "at_rest payload log k b" "reading payload k b"
    using assms(1) by (auto simp: bench_at_def)
  obtain b' where "produce payload now ts b = Some (None, b')" "at_rest payload (log @ [tick_message payload ts]) k b'"
    "polled b' = polled b" "reading payload k b'" "capacity (producer_side b') = capacity (producer_side b)"
    using produce_step [OF log(2), of now ts] log assms by (auto simp: bench_at_def)
  then show ?thesis using assms(1) log(1)
    by (intro exI [of _ b'] conjI) (auto simp: bench_at_def intro!: exI [of _ "log @ [tick_message payload ts]"])
qed

lemma bench_consume:
  assumes "bench_at payload cap e k b" and "k < e" and "f = consume_zero_copy now \<or> f = consume_copy now"
  shows "\<exists>b'. f b = Some (None, b') \<and> bench_at payload cap e (Suc k) b'"
proof -
  obtain log where log: "length log = e" "at_rest payload log k b" "reading payload k b"
    using assms(1) by (auto simp: bench_at_def)
  obtain b' where "f b = Some (None, b')" "at_rest payload log (Suc k) b'" "reading payload (Suc k) b'"
    "capacity (producer_side b') = capacity (producer_side b)" "polled b' = polled b @ [payload]"
    using consume_step [OF log(2,3) _ assms(3)] log(1) assms(2) by auto
  then show ?thesis using assms(1) log(1)
    by (intro exI [of _ b'] conjI) (auto simp: bench_at_def replicate_append_same)
qed

lemma each_steps:
  assumes "\<And>i n b. n < N \<Longrightarrow> P n b \<Longrightarrow> \<exists>b'. f i b = Some (None, b') \<and> P (Suc n) b'"
  shows "P n b \<Longrightarrow> n + length is \<le> N \<Longrightarrow> \<exists>b'. each f is b = Some (None, b') \<and> P (n + length is) b'"
proof (induction "is" arbitrary: n b)
  case (Cons i "is")
  obtain b' where "f i b = Some (None, b')" "P (Suc n) b'" using assms [of n b i] Cons.prems by auto
  then show ?case using Cons.IH [of "Suc n" b'] Cons.prems(2) by (simp add: and_then_def)
qed simp

lemma bench_produce_batch:
  assumes at: "bench_at payload cap k k b" and room: "kBatchSize * frame_span payload \<le> unat cap"
    and low: "(k + kBatchSize) * frame_span payload < 2 ^ 64"
  shows "\<exists>b'. produce_batch payload clock b = Some (None, b') \<and> bench_at payload cap (k + kBatchSize) k b'"
proof -
  let ?f = "\<lambda>i b. map_option (\<lambda>(e, b). (None, b)) (produce payload (clock (2 * i)) (clock (2 * i + 1)) b)"
  have "\<exists>b'. each ?f [0..<kBatchSize] b = Some (None, b') \<and> bench_at payload cap (k + (0 + length [0..<kBatchSize])) k b'"
  proof (rule each_steps [where N = kBatchSize and P = "\<lambda>n. bench_at payload cap (k + n) k"])
    fix i n b assume n: "n < kBatchSize" and at: "bench_at payload cap (k + n) k b"
    have "Suc n * frame_span payload \<le> kBatchSize * frame_span payload"
      "Suc (k + n) * frame_span payload \<le> (k + kBatchSize) * frame_span payload"
      using n by (intro mult_le_mono1; simp)+
    then have "(Suc (k + n) - k) * frame_span payload \<le> unat cap" "Suc (k + n) * frame_span payload < 2 ^ 64"
      using room low by (simp_all add: Suc_diff_le)
    from bench_produce [OF at this, of "clock (2 * i)" "clock (2 * i + 1)"]
    show "\<exists>b'. ?f i b = Some (None, b') \<and> bench_at payload cap (k + Suc n) k b'" by auto
  qed (use at in simp_all)
  then show ?thesis by (simp add: produce_batch_def)
qed

lemma bench_consume_batch:
  assumes "bench_at payload cap (k + kBatchSize) k b"
  shows "\<exists>b'. each (\<lambda>i. consume_zero_copy (clock i)) [0..<kBatchSize] b = Some (None, b')
    \<and> bench_at payload cap (k + kBatchSize) (k + kBatchSize) b'"
proof -
  have "\<exists>b'. each (\<lambda>i. consume_zero_copy (clock i)) [0..<kBatchSize] b = Some (None, b')
      \<and> bench_at payload cap (k + kBatchSize) (k + (0 + length [0..<kBatchSize])) b'"
  proof (rule each_steps [where N = kBatchSize and P = "\<lambda>n. bench_at payload cap (k + kBatchSize) (k + n)"])
    fix i n b assume "n < kBatchSize" and at: "bench_at payload cap (k + kBatchSize) (k + n) b"
    then show "\<exists>b'. consume_zero_copy (clock i) b = Some (None, b') \<and> bench_at payload cap (k + kBatchSize) (k + Suc n) b'"
      using bench_consume [OF at, of "consume_zero_copy (clock i)" "clock i"] by simp
  qed (use assms in simp_all)
  then show ?thesis by simp
qed

text \<open>One \<open>PollCopyBatch\<close> reads the whole batch.\<close>

lemma bench_read_batch:
  assumes at: "bench_at payload cap (k + kBatchSize) k b"
  shows "\<exists>b'. read_batch kBatchSize clock 0 b = Some (None, b') \<and> bench_at payload cap (k + kBatchSize) (k + kBatchSize) b'"
proof -
  obtain log where log: "length log = k + kBatchSize" "at_rest payload log k b" "reading payload k b"
    using at by (auto simp: bench_at_def)
  note c = at_rest_consumer [OF log(2,3)]
  have same: "\<forall>m \<in> set log. m_payload m = payload" using log(2) by (simp add: at_rest_def)
  have len: "0 < kBatchSize" by (simp add: kBatchSize_def)
  let ?n = "of_nat (kBatchSize * frame_span payload) :: u64"
  let ?poll = "PollCopyBatch (\<lambda>n c. [quiet_attempt (consumer_side b) c]) (clock (kBatchSize - 1)) kBatchSize
      (bench_reader b) (consumer_side b)"
  let ?msgs = "map safe_message (drop k log)"
  have loop: "batch_loop (\<lambda>n c. [quiet_attempt (consumer_side b) c]) (capacity (consumer_side b))
      (commit_cursor (header (consumer_side b))) kBatchSize (of_nat (start_of log k)) 0 []
      = Some (NotFound, ?msgs, ?n)"
  proof -
    have "start_of log (length log) - start_of log k = kBatchSize * frame_span payload"
      using start_of_same [OF same, of k] start_of_same [OF same, of "length log"] log(1)
      by (simp add: add_mult_distrib)
    moreover have "unat (capacity (consumer_side b)) < 2 ^ 32" using log(2) by (simp add: at_rest_def)
    ultimately show ?thesis using batch_quiet [OF c(1) _ _ c(2), of kBatchSize 0 "[]"] log(1) by simp
  qed
  have "drop k log \<noteq> []" using log(1) len by simp
  then have poll: "?poll = Some (Inr ?msgs, Advance (clock (kBatchSize - 1)) ?n (bench_reader b) (consumer_side b))"
    using at_message(1) [OF c(1), of k] log(1) len loop
    by (simp add: PollCopyBatch_def Let_def c(3) not_le)
  have pay: "map msg_payload ?msgs = replicate kBatchSize payload"
    using same log(1) by (intro replicate_eqI) (auto simp: safe_message_def dest: in_set_dropD)
  let ?b = "b\<lparr>polled := polled b @ replicate kBatchSize payload\<rparr>"
  have "read_batch (Suc (kBatchSize - 1)) clock 0 b = Some (None, advance (clock (kBatchSize - 1)) ?n ?b)"
    using poll log(1) len
    by (cases "kBatchSize - 1") (auto simp: advance_def pay simp del: map_map of_nat_mult split: prod.split)
  then have "read_batch kBatchSize clock 0 b = Some (None, advance (clock (kBatchSize - 1)) ?n ?b)" using len by simp
  moreover have "at_rest payload log k ?b" "reading payload k ?b" using log by (simp_all add: at_rest_def reading_def)
  ultimately show ?thesis
    using advance_step [of payload log k ?b kBatchSize ?n "clock (kBatchSize - 1)"] log(1) at
    by (auto simp: bench_at_def replicate_add)
qed

section \<open>The runs\<close>

lemma bench_capacity_bounds:
  assumes "0 < page_size" and "page_size \<le> 2 ^ 22"
  shows "12 * 1024 * 1024 < bench_capacity page_size" and "bench_capacity page_size \<le> 16 * 1024 * 1024"
proof -
  have "bench_capacity page_size + 16777216 mod page_size = 16777216"
    using div_mult_mod_eq [of 16777216 page_size] by (simp add: bench_capacity_def)
  moreover have "16777216 mod page_size < page_size" using assms(1) by simp
  moreover have "page_size \<le> 4194304" using assms(2) by simp
  ultimately have "12582912 < bench_capacity page_size \<and> bench_capacity page_size \<le> 16777216" by linarith
  then show "12 * 1024 * 1024 < bench_capacity page_size" and "bench_capacity page_size \<le> 16 * 1024 * 1024" by simp_all
qed

lemma SetUp_start:
  assumes "0 < page_size" and "page_size \<le> 2 ^ 22"
  shows "\<exists>b. SetUp page_size = Inr b \<and> at_rest payload [] 0 b \<and> polled b = []
    \<and> unat (capacity (producer_side b)) = bench_capacity page_size
    \<and> readers (header (consumer_side b)) = replicate kMaxReaders empty_slot \<and> slot_index (bench_reader b) = -1"
proof -
  let ?c = "of_nat (bench_capacity page_size) :: u64"
  have c: "unat ?c = bench_capacity page_size"
    using bench_capacity_bounds [OF assms] by (simp add: unat_of_nat)
  then have "\<not> 1024 * 1024 * 1024 < ?c" "?c \<noteq> 0"
    using bench_capacity_bounds [OF assms] by (auto simp: word_less_nat_alt)
  moreover have "ring_inv [] (Create ?c 500000000)" using Create_inv [of ?c] calculation(2) by simp
  ultimately show ?thesis using c bench_capacity_bounds [OF assms]
    by (simp add: SetUp_def Attach_def Create_def BroadcastRingBuffer_def new_header_def new_reader_def at_rest_def empty_slot_def
        Let_def)
qed

lemma with_reader_run:
  assumes rest: "at_rest payload [] 0 b" and fresh: "readers (header (consumer_side b)) = replicate kMaxReaders empty_slot"
    and pol: "polled b = []"
    and body: "\<And>b1. bench_at payload (capacity (producer_side b)) 0 0 b1 \<Longrightarrow>
        \<exists>b2. body b1 = Some (None, b2) \<and> bench_at payload (capacity (producer_side b)) e e b2"
  shows "\<exists>b'. with_reader now pid body b = Some (None, b') \<and> polled b' = replicate e payload
    \<and> slot_index (bench_reader b') = -1 \<and> (\<forall>r \<in> set (readers (header (producer_side b'))). \<not> active r)"
proof -
  have claim: "claim_slot (replicate kMaxReaders empty_slot) = Some 0"
    by (simp add: kMaxReaders_def empty_slot_def numeral_eq_Suc)
  let ?slot = "\<lparr>active = True, slot_cursor = 0, heartbeat_ts = now, slot_pid = pid, slot_generation = 1\<rparr>"
  let ?r = "\<lparr>cursor = 0, slot_index = 0, generation_id = 1\<rparr>"
  let ?c = "(consumer_side b)\<lparr>header := (header (consumer_side b))\<lparr>readers := (replicate kMaxReaders empty_slot)[0 := ?slot]\<rparr>\<rparr>"
  have gen: "slot_generation empty_slot = 0" by (simp add: empty_slot_def)
  have pos: "0 < kMaxReaders" by (simp add: kMaxReaders_def)
  have reg: "RegisterReader now pid (new_reader 0) (consumer_side b) = (None, ?r, ?c)"
    using pos by (simp add: RegisterReader_def new_reader_def fresh claim Let_def gen)
  let ?b1 = "b\<lparr>bench_reader := ?r, consumer_side := ?c, producer_side := sees ?c (producer_side b)\<rparr>"
  have "ring_inv [] (sees ?c (producer_side b))"
    using rest by (simp add: at_rest_def ring_inv_def stream_def sees_def)
  moreover have "j = 0 \<and> slot_cursor ((replicate kMaxReaders empty_slot)[0 := ?slot] ! j) = 0"
    if "j < kMaxReaders" "active ((replicate kMaxReaders empty_slot)[0 := ?slot] ! j)" for j
    using that by (auto simp: nth_list_update empty_slot_def split: if_splits)
  ultimately have "at_rest payload [] 0 ?b1" using rest by (auto simp: at_rest_def sees_def)
  moreover have "reading payload 0 ?b1" using pos by (simp add: reading_def sees_def)
  ultimately have "bench_at payload (capacity (producer_side b)) 0 0 ?b1" by (simp add: bench_at_def pol sees_def)
  then obtain b2 where b2: "body ?b1 = Some (None, b2)" "bench_at payload (capacity (producer_side b)) e e b2"
    using body by blast
  then obtain log where log: "at_rest payload log e b2" "reading payload e b2" "polled b2 = replicate e payload"
    by (auto simp: bench_at_def)
  then obtain i where i: "slot_index (bench_reader b2) = int i" "i < kMaxReaders"
    "i < length (readers (header (consumer_side b2)))"
    by (auto simp: reading_def at_rest_def)
  let ?rs = "(readers (header (consumer_side b2)))[i := (readers (header (consumer_side b2)) ! i)\<lparr>active := False\<rparr>]"
  have un: "UnregisterReader (bench_reader b2) (consumer_side b2)
      = ((bench_reader b2)\<lparr>slot_index := -1\<rparr>, (consumer_side b2)\<lparr>header := (header (consumer_side b2))\<lparr>readers := ?rs\<rparr>\<rparr>)"
    using i by (simp add: UnregisterReader_def)
  have "\<not> active (?rs ! j)" if "j < length ?rs" for j
  proof (cases "j = i")
    case True
    then show ?thesis using i by simp
  next
    case False
    then show ?thesis using log(1) i that by (auto simp: at_rest_def)
  qed
  then have off: "\<forall>r \<in> set ?rs. \<not> active r" by (metis in_set_conv_nth)
  have "with_reader now pid body b = Some (None, b2\<lparr>bench_reader := (bench_reader b2)\<lparr>slot_index := -1\<rparr>,
      consumer_side := (consumer_side b2)\<lparr>header := (header (consumer_side b2))\<lparr>readers := ?rs\<rparr>\<rparr>,
      producer_side := sees ((consumer_side b2)\<lparr>header := (header (consumer_side b2))\<lparr>readers := ?rs\<rparr>\<rparr>)
        (producer_side b2)\<rparr>)"
    by (simp add: with_reader_def reg b2(1) un)
  then show ?thesis using off log(3) by (simp add: sees_def)
qed

text \<open>Without a reader the producer runs alone.\<close>

lemma produce_alone:
  assumes "slot_index (bench_reader b) = -1" and "at_rest payload log (length log) b"
    and "frame_span payload \<le> unat (capacity (producer_side b))" and "Suc (length log) * frame_span payload < 2 ^ 64"
  shows "\<exists>b'. produce payload now ts b = Some (None, b') \<and> slot_index (bench_reader b') = -1 \<and> polled b' = polled b
    \<and> at_rest payload (log @ [tick_message payload ts]) (Suc (length log)) b'
    \<and> capacity (producer_side b') = capacity (producer_side b)"
proof -
  obtain b' where b': "produce payload now ts b = Some (None, b')" "at_rest payload (log @ [tick_message payload ts]) (length log) b'"
    "bench_reader b' = bench_reader b" "polled b' = polled b" "capacity (producer_side b') = capacity (producer_side b)"
    using produce_step [OF assms(2), of now ts] assms(3,4) by auto
  then have "at_rest payload (log @ [tick_message payload ts]) (Suc (length log)) b'"
    using assms(1) by (auto simp: at_rest_def)
  then show ?thesis using b' assms(1) by auto
qed

lemma produce_run:
  assumes "slot_index (bench_reader b) = -1" and "at_rest payload [] 0 b" and "polled b = []"
    and "frame_span payload \<le> unat (capacity (producer_side b))" and "iterations * frame_span payload < 2 ^ 64"
  shows "\<exists>b'. each (\<lambda>i. produce payload (clock i 0) (clock i 1)) [0..<iterations] b = Some (None, b')
    \<and> polled b' = [] \<and> commit_cursor (header (producer_side b')) = of_nat (iterations * frame_span payload)"
proof -
  define at where "at n b1 \<longleftrightarrow> slot_index (bench_reader b1) = -1 \<and> polled b1 = []
      \<and> capacity (producer_side b1) = capacity (producer_side b)
      \<and> (\<exists>log. length log = n \<and> at_rest payload log n b1)" for n b1
  have "\<exists>b'. each (\<lambda>i. produce payload (clock i 0) (clock i 1)) [0..<iterations] b = Some (None, b')
      \<and> at (0 + length [0..<iterations]) b'"
  proof (rule each_steps [where N = iterations and P = at])
    fix i n b1 assume n: "n < iterations" and "at n b1"
    then obtain log where log: "length log = n" "at_rest payload log (length log) b1" "slot_index (bench_reader b1) = -1"
      "polled b1 = []" "capacity (producer_side b1) = capacity (producer_side b)"
      by (auto simp: at_def)
    have "Suc n * frame_span payload \<le> iterations * frame_span payload" using n by (intro mult_le_mono1) simp
    then have "Suc (length log) * frame_span payload < 2 ^ 64" using assms(5) log(1) by simp
    then obtain b' where "produce payload (clock i 0) (clock i 1) b1 = Some (None, b')" "slot_index (bench_reader b') = -1"
      "polled b' = []" "at_rest payload (log @ [tick_message payload (clock i 1)]) (Suc n) b'"
      "capacity (producer_side b') = capacity (producer_side b)"
      using produce_alone [OF log(3,2), of "clock i 0" "clock i 1"] assms(4) log by auto
    then show "\<exists>b'. produce payload (clock i 0) (clock i 1) b1 = Some (None, b') \<and> at (Suc n) b'"
      using log(1) by (auto simp: at_def intro!: exI [of _ "log @ [tick_message payload (clock i 1)]"])
  qed (use assms in \<open>auto simp: at_def\<close>)
  then obtain b' log where b': "each (\<lambda>i. produce payload (clock i 0) (clock i 1)) [0..<iterations] b = Some (None, b')"
    "polled b' = []" "length log = iterations" "at_rest payload log iterations b'" by (auto simp: at_def)
  have "start_of log (length log) = iterations * frame_span payload"
    using b'(3,4) start_of_same [of log payload "length log"] by (simp add: at_rest_def)
  then show ?thesis using b' by (auto simp: at_rest_def ring_inv_def stream_def)
qed

lemma round_trip_run:
  fixes clock :: "nat \<Rightarrow> nat \<Rightarrow> u64"
  assumes "consume = consume_zero_copy \<or> consume = consume_copy" and "bench_at payload cap 0 0 b"
    and "frame_span payload \<le> unat cap" and "iterations * frame_span payload < 2 ^ 64"
  shows "\<exists>b'. each (\<lambda>i b. and_then (produce payload (clock i 0) (clock i 1) b) (consume (clock i 2))) [0..<iterations] b
      = Some (None, b') \<and> bench_at payload cap iterations iterations b'"
proof -
  let ?f = "\<lambda>i b. and_then (produce payload (clock i 0) (clock i 1) b) (consume (clock i 2))"
  have "\<exists>b'. each ?f [0..<iterations] b = Some (None, b')
      \<and> bench_at payload cap (0 + length [0..<iterations]) (0 + length [0..<iterations]) b'"
  proof (rule each_steps [where N = iterations and P = "\<lambda>n. bench_at payload cap n n"])
    fix i n b1 assume n: "n < iterations" and at: "bench_at payload cap n n b1"
    have "Suc n * frame_span payload \<le> iterations * frame_span payload" using n by (intro mult_le_mono1) simp
    then have "Suc n * frame_span payload < 2 ^ 64" "(Suc n - n) * frame_span payload \<le> unat cap"
      using assms(3,4) by simp_all
    from bench_produce [OF at this(2,1)] obtain b2 where b2: "produce payload (clock i 0) (clock i 1) b1 = Some (None, b2)"
      "bench_at payload cap (Suc n) n b2" by blast
    then show "\<exists>b'. ?f i b1 = Some (None, b') \<and> bench_at payload cap (Suc n) (Suc n) b'"
      using bench_consume [OF b2(2), of "consume (clock i 2)" "clock i 2"] assms(1) by (auto simp: and_then_def)
  qed (use assms(2) in simp_all)
  then show ?thesis by simp
qed

lemma batch_run:
  assumes read: "\<And>i k b. bench_at payload cap (k + kBatchSize) k b \<Longrightarrow>
      \<exists>b'. rd i b = Some (None, b') \<and> bench_at payload cap (k + kBatchSize) (k + kBatchSize) b'"
    and at: "bench_at payload cap 0 0 b" and room: "kBatchSize * frame_span payload \<le> unat cap"
    and low: "iterations * kBatchSize * frame_span payload < 2 ^ 64"
  shows "\<exists>b'. each (\<lambda>i b. and_then (produce_batch payload (clock i) b) (rd i)) [0..<iterations] b
      = Some (None, b') \<and> bench_at payload cap (iterations * kBatchSize) (iterations * kBatchSize) b'"
proof -
  let ?f = "\<lambda>i b. and_then (produce_batch payload (clock i) b) (rd i)"
  have "\<exists>b'. each ?f [0..<iterations] b = Some (None, b')
      \<and> bench_at payload cap ((0 + length [0..<iterations]) * kBatchSize) ((0 + length [0..<iterations]) * kBatchSize) b'"
  proof (rule each_steps [where N = iterations and P = "\<lambda>n. bench_at payload cap (n * kBatchSize) (n * kBatchSize)"])
    fix i n b1 assume n: "n < iterations" and at: "bench_at payload cap (n * kBatchSize) (n * kBatchSize) b1"
    have "(Suc n * kBatchSize) * frame_span payload \<le> (iterations * kBatchSize) * frame_span payload"
      using n by (intro mult_le_mono1) simp
    moreover have "Suc n * kBatchSize = n * kBatchSize + kBatchSize" by simp
    ultimately have "(n * kBatchSize + kBatchSize) * frame_span payload < 2 ^ 64"
      using low by (metis le_less_trans)
    from bench_produce_batch [OF at room this] obtain b2 where b2: "produce_batch payload (clock i) b1 = Some (None, b2)"
      "bench_at payload cap (n * kBatchSize + kBatchSize) (n * kBatchSize) b2" by blast
    then show "\<exists>b'. ?f i b1 = Some (None, b') \<and> bench_at payload cap (Suc n * kBatchSize) (Suc n * kBatchSize) b'"
      using read [OF b2(2), of i] by (auto simp: and_then_def add.commute)
  qed (use at in simp_all)
  then show ?thesis by simp
qed



end
