(* ===== verification/RcuBench.thy ===== *)
theory RcuBench
  imports RcuMap
begin

text \<open>
  \<open>rcu_hash_map_benchmark.cc\<close>: the three fixtures that its benchmarks read from, filled alike, and the
  read loops. The key a loop draws from \<open>uniform_int_distribution\<close> is an argument, and so are the two
  containers' implementations where the source uses a library: \<open>std::unordered_map\<close> is the finite map it
  is specified to be, \<open>absl::flat_hash_map\<close> a parameter with the laws of \<open>find\<close> after \<open>operator[]\<close>.
\<close>

section \<open>The fixtures\<close>

type_synonym i32 = "32 word"

definition kKeySpace :: nat where
  "kKeySpace = 65536"

definition LockedStdMap :: "i32 \<Rightarrow> i32 option" where
  "LockedStdMap = fold (\<lambda>i m. m(of_nat i \<mapsto> of_nat i XOR 0x5a5a)) [0..<kKeySpace] Map.empty"

definition LockedAbslMap :: "'m \<Rightarrow> (i32 \<Rightarrow> i32 \<Rightarrow> 'm \<Rightarrow> 'm) \<Rightarrow> 'm" where
  "LockedAbslMap absl_empty absl_set = fold (\<lambda>i. absl_set (of_nat i) (of_nat i XOR 0x5a5a)) [0..<kKeySpace] absl_empty"

definition fixture_puts :: "nat \<Rightarrow> (i32, i32) dict_op list" where
  "fixture_puts n = map (\<lambda>i. OpPut (of_nat i) (of_nat i XOR 0x5a5a)) [0..<n]"

definition RcuMapFixture :: "(i32 \<Rightarrow> nat) \<Rightarrow> (i32, i32) rcu option" where
  "RcuMapFixture hash = dict_run (Put hash) (Remove hash) (fixture_puts kKeySpace) (RcuHashMap (kKeySpace * 2))"

section \<open>The loops\<close>

text \<open>\<open>value\<close> stays 0 when the key is missing; the loop of the third benchmark keeps the optional.\<close>

definition BM_StdUnorderedMap_SharedMutex_Reads :: "(i32 \<Rightarrow> i32 option) \<Rightarrow> i32 list \<Rightarrow> i32 list" where
  "BM_StdUnorderedMap_SharedMutex_Reads fixture keys =
     map (\<lambda>key. case fixture key of Some v \<Rightarrow> v | None \<Rightarrow> 0) keys"

definition BM_AbslFlatHashMap_AbslMutex_Reads :: "('m \<Rightarrow> i32 \<Rightarrow> i32 option) \<Rightarrow> 'm \<Rightarrow> i32 list \<Rightarrow> i32 list" where
  "BM_AbslFlatHashMap_AbslMutex_Reads absl_find fixture keys =
     map (\<lambda>key. case absl_find fixture key of Some v \<Rightarrow> v | None \<Rightarrow> 0) keys"

definition BM_RcuHashMap_WaitFree_Reads :: "(i32 \<Rightarrow> nat) \<Rightarrow> (i32, i32) rcu \<Rightarrow> i32 list \<Rightarrow> i32 option option list" where
  "BM_RcuHashMap_WaitFree_Reads hash fixture keys = map (\<lambda>key. Get hash key fixture) keys"

text \<open>What the documentation of \<open>flat_hash_map\<close> says of an empty map, and of \<open>find\<close> after a store.\<close>

definition absl_map_laws :: "'m \<Rightarrow> (i32 \<Rightarrow> i32 \<Rightarrow> 'm \<Rightarrow> 'm) \<Rightarrow> ('m \<Rightarrow> i32 \<Rightarrow> i32 option) \<Rightarrow> bool" where
  "absl_map_laws absl_empty absl_set absl_find \<longleftrightarrow> (\<forall>k. absl_find absl_empty k = None)
     \<and> (\<forall>m k v k'. absl_find (absl_set k v m) k' = (if k' = k then Some v else absl_find m k'))"

section \<open>What the fixtures hold\<close>

definition fixture_map :: "nat \<Rightarrow> i32 \<Rightarrow> i32 option" where
  "fixture_map n = (\<lambda>k. if k \<in> of_nat ` {0..<n} then Some (k XOR 0x5a5a) else None)"

lemma fixture_map_Suc: "fixture_map (Suc n) = (fixture_map n)(of_nat n \<mapsto> of_nat n XOR 0x5a5a)"
  by (auto simp: fixture_map_def fun_eq_iff atLeast0_lessThan_Suc)

lemma fixture_map_0: "fixture_map 0 = Map.empty"
  by (simp add: fixture_map_def)

lemma fixture_map_in: "unat k < n \<Longrightarrow> fixture_map n k = Some (k XOR 0x5a5a)"
  by (auto simp: fixture_map_def intro!: image_eqI [of _ _ "unat k"])

lemma std_fixture: "fold (\<lambda>i m. m(of_nat i \<mapsto> of_nat i XOR 0x5a5a)) [0..<n] Map.empty = fixture_map n"
  by (induction n) (simp_all add: fixture_map_0 fixture_map_Suc del: fun_upd_apply)

lemma absl_fixture:
  assumes "absl_map_laws absl_empty absl_set absl_find"
  shows "absl_find (fold (\<lambda>i. absl_set (of_nat i) (of_nat i XOR 0x5a5a)) [0..<n] absl_empty) k = fixture_map n k"
  using assms by (induction n) (simp_all add: absl_map_laws_def fixture_map_0 fixture_map_Suc)

section \<open>The RCU fixture never grows and retires nothing\<close>

lemma Put_link_buckets:
  assumes "table m < length (tables m)" and "Put_link hash key v m = Some m'"
  shows "buckets_n m' = buckets_n m"
  using assms by (auto simp: Put_link_def Let_def alloc_def link_after_def set_bucket_def set_next_def
      split: option.splits if_splits)

lemma Put_new_key:
  assumes inv: "rcu_inv hash m" and new: "rcu_map hash m key = None" and room: "count m < buckets_n m"
  shows "\<exists>m'. Put hash key v m = Some m' \<and> rcu_inv hash m' \<and> rcu_map hash m' = (rcu_map hash m)(key \<mapsto> v)
    \<and> count m' = Suc (count m) \<and> buckets_n m' = buckets_n m \<and> retirements m' = retirements m"
proof -
  have s: "rcu_shape hash m" using inv by (simp add: rcu_inv_def)
  have put: "Put hash key v m = Put_link hash key v m" using room by (simp add: Put_def Put_grow_def)
  obtain m' where m': "Put_link hash key v m = Some m'" "count m' = Suc (count m)" "retirements m' = retirements m"
    using Put_link_spec [OF s, of key v] new by (metis Suc_eq_plus1)
  have "buckets_n m' = buckets_n m"
    by (rule Put_link_buckets [OF _ m'(1)]) (use s in \<open>simp add: rcu_shape_def\<close>)
  then show ?thesis using Put_rcu_inv [OF inv, of key v] m' by (auto simp: put)
qed


lemma dict_run_append:
  "dict_run put rem (xs @ ys) s = (case dict_run put rem xs s of None \<Rightarrow> None | Some t \<Rightarrow> dict_run put rem ys t)"
  by (induction put rem xs s rule: dict_run.induct) (auto split: option.splits)

lemma fixture_fill:
  assumes "n \<le> buckets" and "0 < buckets" and "n \<le> 2 ^ 32"
  shows "\<exists>m. dict_run (Put hash) (Remove hash) (fixture_puts n) (RcuHashMap buckets) = Some m \<and> rcu_inv hash m
    \<and> rcu_map hash m = fixture_map n \<and> count m = n \<and> buckets_n m = buckets \<and> retirements m = []"
  using assms
proof (induction n)
  case 0
  have "buckets_n (RcuHashMap buckets :: (i32, i32) rcu) = buckets" by (simp add: RcuHashMap_def new_table_def)
  moreover have "count (RcuHashMap buckets :: (i32, i32) rcu) = 0"
    and "retirements (RcuHashMap buckets :: (i32, i32) rcu) = []" by (simp_all add: RcuHashMap_def)
  ultimately show ?case
    using RcuHashMap_inv [OF assms(2), of hash] by (simp add: fixture_puts_def fixture_map_0)
next
  case (Suc n)
  then obtain m where m: "dict_run (Put hash) (Remove hash) (fixture_puts n) (RcuHashMap buckets) = Some m"
    "rcu_inv hash m" "rcu_map hash m = fixture_map n" "count m = n" "buckets_n m = buckets" "retirements m = []"
    by auto
  have "\<forall>i < n. (of_nat n :: i32) \<noteq> of_nat i"
    using Suc.prems(3) by (simp add: word_unat_eq_iff unat_of_nat)
  then have "rcu_map hash m (of_nat n) = None" by (simp add: m(3) fixture_map_def image_iff)
  from Put_new_key [OF m(2) this, of "of_nat n XOR 0x5a5a"] Suc.prems(1) m
  obtain m' where m': "Put hash (of_nat n) (of_nat n XOR 0x5a5a) m = Some m'" "rcu_inv hash m'"
    "rcu_map hash m' = fixture_map (Suc n)" "count m' = Suc n" "buckets_n m' = buckets" "retirements m' = []"
    by (auto simp: fixture_map_Suc)
  have "fixture_puts (Suc n) = fixture_puts n @ [OpPut (of_nat n) (of_nat n XOR 0x5a5a)]"
    by (simp add: fixture_puts_def)
  then show ?case using m(1) m' by (simp add: dict_run_append)
qed

text \<open>
  C14. The three read benchmarks do the same work. Whatever the hash function, and for every
  \<open>flat_hash_map\<close> that keeps its laws, the three fixtures are filled, the RCU map without a single
  resize or retirement; every key the loops draw is found in all three, and all give the value stored
  with it, \<open>key XOR 0x5a5a\<close>: none of them times a failing lookup.
\<close>

theorem rcu_benchmarks_agree:
  assumes "absl_map_laws absl_empty absl_set absl_find" and "\<forall>key \<in> set keys. unat key < kKeySpace"
  shows "\<exists>m. RcuMapFixture hash = Some m \<and> retirements m = [] \<and> t_size (cur_table m) = 2 * kKeySpace
    \<and> Size m = kKeySpace
    \<and> BM_StdUnorderedMap_SharedMutex_Reads LockedStdMap keys = map (\<lambda>key. key XOR 0x5a5a) keys
    \<and> BM_AbslFlatHashMap_AbslMutex_Reads absl_find (LockedAbslMap absl_empty absl_set) keys
      = map (\<lambda>key. key XOR 0x5a5a) keys
    \<and> BM_RcuHashMap_WaitFree_Reads hash m keys = map (\<lambda>key. Some (Some (key XOR 0x5a5a))) keys"
proof -
  have "kKeySpace \<le> kKeySpace * 2" "0 < kKeySpace * 2" "kKeySpace \<le> 2 ^ 32" by (simp_all add: kKeySpace_def)
  from fixture_fill [OF this] obtain m where m: "RcuMapFixture hash = Some m" "rcu_inv hash m"
    "rcu_map hash m = fixture_map kKeySpace" "count m = kKeySpace" "buckets_n m = kKeySpace * 2" "retirements m = []"
    unfolding RcuMapFixture_def by blast
  have get: "Get hash key m = Some (fixture_map kKeySpace key)" for key
    using rcu_dict.get_abs [OF m(2)] m(3) by simp
  have val: "fixture_map kKeySpace key = Some (key XOR 0x5a5a)" if "key \<in> set keys" for key
    using assms(2) that by (simp add: fixture_map_in)
  then show ?thesis using m absl_fixture [OF assms(1)]
    by (intro exI [of _ m])
      (simp add: BM_StdUnorderedMap_SharedMutex_Reads_def BM_AbslFlatHashMap_AbslMutex_Reads_def
        BM_RcuHashMap_WaitFree_Reads_def LockedStdMap_def LockedAbslMap_def std_fixture get Size_def)
qed

theorem rcu_benchmarks_agree_witness:
  "BM_StdUnorderedMap_SharedMutex_Reads LockedStdMap [0, 7, 65535] = [0x5a5a, 0x5a5d, 0xa5a5]
   \<and> BM_AbslFlatHashMap_AbslMutex_Reads (\<lambda>m k. m k) (LockedAbslMap Map.empty (\<lambda>k v m. m(k \<mapsto> v))) [0, 7, 65535]
     = [0x5a5a, 0x5a5d, 0xa5a5]"
  using rcu_benchmarks_agree [where absl_empty = Map.empty and absl_set = "\<lambda>k v m. m(k \<mapsto> v)"
      and absl_find = "\<lambda>m k. m k" and keys = "[0, 7, 65535]" and hash = unat]
  by (auto simp: absl_map_laws_def kKeySpace_def)

end
