(* ===== verification/SeqlockBench.thy ===== *)
theory SeqlockBench
  imports Seqlock
begin

text \<open>
  \<open>common/concurrency/seqlock_benchmark.cc\<close>: the uncontended read and write loops, and the contention of one writer
  that increments every field of a quote with readers that copy it, as a run of the protocol machine.
  What the benchmark library counts and times is left out.
\<close>

section \<open>The quote\<close>

record MarketQuotePayload =
  bid_price :: u64
  ask_price :: u64
  bid_size :: u64
  ask_size :: u64
  quote_timestamp :: i64
  sequence_id :: u64

definition bump_quote :: "MarketQuotePayload \<Rightarrow> MarketQuotePayload" where
  "bump_quote q =
     q\<lparr>bid_price := bid_price q + 1, ask_price := ask_price q + 1, bid_size := bid_size q + 1,
       ask_size := ask_size q + 1, quote_timestamp := quote_timestamp q + 1, sequence_id := sequence_id q + 1\<rparr>"

section \<open>The uncontended loops\<close>

text \<open>The \<open>do ... while (ReadRetry)\<close> loop; the first argument bounds its passes.\<close>

fun read_quote :: "nat \<Rightarrow> seqlock \<Rightarrow> 'q \<Rightarrow> 'q option" where
  "read_quote 0 lock quote = None"
| "read_quote (Suc passes) lock quote =
     (let s = ReadBegin lock; copied = quote
      in if ReadRetry lock s then read_quote passes lock quote else Some copied)"

definition BM_SeqLock_Read_Uncontended :: "nat \<Rightarrow> nat \<Rightarrow> MarketQuotePayload option list" where
  "BM_SeqLock_Read_Uncontended passes iterations =
     (let lock = SeqLock 0;
          quote = \<lparr>bid_price = 15000, ask_price = 15001, bid_size = 100, ask_size = 200,
                   quote_timestamp = 123456789, sequence_id = 1\<rparr>
      in map (\<lambda>_. read_quote passes lock quote) [0..<iterations])"

definition write_section :: "seqlock \<times> MarketQuotePayload \<Rightarrow> seqlock \<times> MarketQuotePayload" where
  "write_section s = (let (lock, quote) = s in (WriteEnd (WriteBegin lock), bump_quote quote))"

definition BM_SeqLock_Write_Uncontended :: "nat \<Rightarrow> seqlock \<times> MarketQuotePayload" where
  "BM_SeqLock_Write_Uncontended iterations =
     (write_section ^^ iterations)
       (SeqLock 0, \<lparr>bid_price = 0, ask_price = 0, bid_size = 0, ask_size = 0, quote_timestamp = 0, sequence_id = 0\<rparr>)"

section \<open>Contention\<close>

text \<open>
  Thread 0 is the only writer, so the value it increments in a section is the one it finds when it
  enters: each section publishes the payload with one added to every field.
\<close>

fun BM_SeqLock_Contention_step :: "u64 sq \<Rightarrow> u64 sq_event \<Rightarrow> u64 sq option" where
  "BM_SeqLock_Contention_step s (EvWBegin new) =
     (if new = map (\<lambda>x. x + 1) (payload s) then SeqLock_step s (EvWBegin new) else None)"
| "BM_SeqLock_Contention_step s e = SeqLock_step s e"

definition shared_quote_init :: "u64 sq" where
  "shared_quote_init = sq_init 0 (replicate 6 0)"

section \<open>Lemmas\<close>

lemma read_quote_iff: "read_quote passes lock q = (if odd (sequence lock) \<or> passes = 0 then None else Some q)"
  by (induction passes) (auto simp: ReadRetry_iff field_ops)

lemma write_sections:
  "(write_section ^^ n) (SeqLock 0, \<lparr>bid_price = 0, ask_price = 0, bid_size = 0, ask_size = 0, quote_timestamp = 0, sequence_id = 0\<rparr>)
   = (SeqLock (2 * of_nat n), \<lparr>bid_price = of_nat n, ask_price = of_nat n, bid_size = of_nat n, ask_size = of_nat n,
        quote_timestamp = of_nat n, sequence_id = of_nat n\<rparr>)"
  by (induction n) (simp_all add: write_section_def bump_quote_def WriteBegin_def WriteEnd_def SeqLock_def algebra_simps)

text \<open>The published quotes count up, and an open section is about to publish the next one.\<close>

definition counting :: "u64 sq \<Rightarrow> bool" where
  "counting s \<longleftrightarrow> history s = map (\<lambda>k. replicate 6 (of_nat k)) [0..<Suc (commits s)] \<and> length (payload s) = 6
     \<and> (case writer s of
          WIdle \<Rightarrow> payload s = replicate 6 (of_nat (commits s))
        | WBusy l new todo \<Rightarrow> new = replicate 6 (of_nat (Suc (commits s)))
            \<and> (\<forall>i < 6. i \<in> set todo \<or> payload s ! i = new ! i))"

lemma contention_is_protocol: "BM_SeqLock_Contention_step s e = Some s' \<Longrightarrow> SeqLock_step s e = Some s'"
  by (cases e) (simp_all split: if_splits)

lemma contention_counting:
  assumes "counting s" and "BM_SeqLock_Contention_step s e = Some s'"
  shows "counting s'"
proof (cases e)
  case (EvWBegin new)
  then show ?thesis using assms
    by (auto simp: counting_def SeqLock_step_def all_fields_def split: if_splits)
next
  case (EvWField i)
  then show ?thesis using assms
    by (auto simp: counting_def SeqLock_step_def nth_update_total split: if_splits wpc.splits)
next
  case EvWEnd
  then obtain l new where w: "writer s = WBusy l new []"
    and s': "commits s' = Suc (commits s)" "history s' = history s @ [payload s]" "payload s' = payload s" "writer s' = WIdle"
    using assms(2) by (auto simp: SeqLock_step_def split: wpc.splits if_splits)
  have "payload s = replicate 6 (of_nat (Suc (commits s)))"
    using assms(1) by (intro nth_equalityI) (auto simp: counting_def w simp del: of_nat_Suc)
  then show ?thesis using assms(1) by (simp add: counting_def s')
qed (use assms in \<open>auto simp: counting_def SeqLock_step_def split: if_splits rpc.splits wpc.splits\<close>)

interpretation contention: safe_machine BM_SeqLock_Contention_step "\<lambda>s. counting s \<and> sq_inv 0 s"
proof
  fix s e s'
  assume i: "counting s \<and> sq_inv 0 s" and step: "BM_SeqLock_Contention_step s e = Some s'"
  have "sq_inv 0 s'"
    by (rule sl.sq_step_inv [OF conjunct2 [OF i] contention_is_protocol [OF step, unfolded SeqLock_step_def]])
  moreover have "counting s'" by (rule contention_counting [OF conjunct1 [OF i] step])
  ultimately show "counting s' \<and> sq_inv 0 s'" by blast
qed

lemma contention_run:
  assumes "run BM_SeqLock_Contention_step shared_quote_init es = Some s"
  shows "counting s \<and> sq_inv 0 s"
proof (rule contention.run_inv [OF _ assms])
  have "counting shared_quote_init" by (simp add: counting_def shared_quote_init_def sq_init_def)
  moreover have "sq_inv 0 (shared_quote_init :: u64 sq)" unfolding shared_quote_init_def by (rule sq_init_inv) simp
  ultimately show "counting shared_quote_init \<and> sq_inv 0 shared_quote_init" by blast
qed

lemma contention_read:
  assumes "run BM_SeqLock_Contention_step shared_quote_init es = Some s" and "commits s < 2 ^ 63"
    and "readers s t = RDone v"
  shows "\<exists>k \<le> commits s. v = replicate 6 (of_nat k)"
proof -
  have "counting s" and "reader_ok 0 s (RDone v)"
    using contention_run [OF assms(1)] assms(3) unfolding sq_inv_def by metis+
  then have "v \<in> set (history s)" using assms(2) by simp
  then have "v \<in> (\<lambda>k. replicate 6 (of_nat k)) ` {0..<Suc (commits s)}"
    using \<open>counting s\<close> by (simp only: counting_def set_map set_upt)
  then obtain k where "k < Suc (commits s)" "v = replicate 6 (of_nat k)" by auto
  then show ?thesis by (intro exI [of _ k]) simp
qed

text \<open>
  C16. The benchmarks of the sequence lock. Alone, every read returns the quote in its first pass, and in an
  open section it would spin for ever; \<open>n\<close> write sections leave the counter at \<open>2 n\<close> and every field at \<open>n\<close>. In
  every interleaving of the contention, a quote that a reader keeps has the same number in all six
  fields, and it is the number of a section that has ended; and a reader that then runs without interference
  while no section is open returns the current quote after one pass.
\<close>

theorem seqlock_benchmarks:
  assumes "run BM_SeqLock_Contention_step shared_quote_init es = Some s" and "commits s < 2 ^ 63" and "readers s t = RDone v"
  shows "(\<exists>k \<le> commits s. v = replicate 6 (of_nat k))
    \<and> (writer s = WIdle \<longrightarrow> payload s = replicate 6 (of_nat (commits s)) \<and> ctr s = 2 * of_nat (commits s))
    \<and> (\<forall>r :: u64 sq. even (ctr r) \<longrightarrow> readers r u = RIdle \<longrightarrow>
        (\<exists>r'. run SeqLock_step r (read_alone u (length (payload r))) = Some r' \<and> readers r' u = RDone (payload r)))
    \<and> read_quote passes lock q = (if odd (sequence lock) \<or> passes = 0 then None else Some q)
    \<and> BM_SeqLock_Read_Uncontended 1 n = replicate n (Some \<lparr>bid_price = 15000, ask_price = 15001, bid_size = 100, ask_size = 200,
        quote_timestamp = 123456789, sequence_id = 1\<rparr>)
    \<and> BM_SeqLock_Write_Uncontended n = (SeqLock (2 * of_nat n), \<lparr>bid_price = of_nat n, ask_price = of_nat n, bid_size = of_nat n,
        ask_size = of_nat n, quote_timestamp = of_nat n, sequence_id = of_nat n\<rparr>)"
proof -
  have inv: "counting s" "sq_inv 0 s" using contention_run [OF assms(1)] by simp_all
  have "payload s = replicate 6 (of_nat (commits s)) \<and> ctr s = 2 * of_nat (commits s)" if "writer s = WIdle"
    using inv that by (simp add: counting_def sq_inv_def)
  moreover have "BM_SeqLock_Read_Uncontended 1 n = replicate n (Some \<lparr>bid_price = 15000, ask_price = 15001, bid_size = 100,
      ask_size = 200, quote_timestamp = 123456789, sequence_id = 1\<rparr>)"
    by (simp add: BM_SeqLock_Read_Uncontended_def Let_def read_quote_iff field_ops map_replicate_const del: read_quote.simps)
  moreover have "\<forall>r :: u64 sq. even (ctr r) \<longrightarrow> readers r u = RIdle \<longrightarrow>
      (\<exists>r'. run SeqLock_step r (read_alone u (length (payload r))) = Some r' \<and> readers r' u = RDone (payload r))"
    by (intro allI impI) (rule SeqLock_read_returns)
  ultimately show ?thesis
    unfolding BM_SeqLock_Write_Uncontended_def by (intro conjI contention_read [OF assms] read_quote_iff write_sections impI) simp_all
qed

theorem seqlock_benchmarks_witness:
  "\<exists>s. run BM_SeqLock_Contention_step shared_quote_init
      (EvRBegin 1 # EvRField 1 0 # EvWBegin (replicate 6 1) # map EvWField [0..<6] @ map (EvRField 1) [1..<6]
       @ [EvRCheck 1, EvWEnd] @ read_alone 1 6) = Some s
    \<and> readers s 1 = RDone (replicate 6 1) \<and> (\<exists>k \<le> commits s. replicate 6 1 = replicate 6 (of_nat k :: u64))"
proof -
  have "[0..<6] = [0, 1, 2, 3, 4, 5 :: nat]" "[1..<6] = [1, 2, 3, 4, 5 :: nat]" by (simp_all add: upt_rec)
  then obtain s where s: "run BM_SeqLock_Contention_step shared_quote_init
      (EvRBegin 1 # EvRField 1 0 # EvWBegin (replicate 6 1) # map EvWField [0..<6] @ map (EvRField 1) [1..<6]
       @ [EvRCheck 1, EvWEnd] @ read_alone 1 6) = Some s" "commits s = 1" "readers s 1 = RDone (replicate 6 1)"
    by (simp add: shared_quote_init_def sq_init_def SeqLock_step_def all_fields_def field_ops ReadRetry_iff read_alone_def
        numeral_nat del: upt_Suc)
  then have "commits s < 2 ^ 63" by simp
  then show ?thesis using seqlock_benchmarks [OF s(1) _ s(3), where passes = 0 and lock = "SeqLock 0" and q = "()" and n = 0] s by blast
qed

end
