(* ===== verification/LockBench.thy ===== *)
theory LockBench
  imports RouteTrial LockTrials ShardedMap "HOL-Library.Multiset"
begin

text \<open>
  \<open>locks_under_the_hood_benchmark.cc\<close> and its copy of episode 10: the loops that take a lock, update the
  record in the arena of that lock and release it, and the loops over \<open>ShardedHashMap\<close>. The arenas and
  the map live on from one run to the next, so a run starts from any record or map. Pinning, the
  uncontended system call and the counters of the benchmark library are left out.
\<close>

section \<open>The loops on a lock\<close>

text \<open>
  Every thread makes the same number of iterations. The steps of the lock interleave with the load and
  the store of the record; \<open>None\<close> is a schedule that does not bring all threads to the end.
\<close>

definition run_lock_loop :: "('s \<Rightarrow> 'e \<Rightarrow> 's option) \<Rightarrow> ('s \<Rightarrow> tid \<Rightarrow> bool) \<Rightarrow> ('e \<Rightarrow> tid option) \<Rightarrow> 's \<Rightarrow> ('d \<Rightarrow> 'd)
    \<Rightarrow> 'd \<Rightarrow> nat \<Rightarrow> nat \<Rightarrow> 'e trial_event list \<Rightarrow> 'd option" where
  "run_lock_loop step holds releases lock body shared_record threads iterations es =
     (case run (trial_step step holds releases body) (trial_init lock shared_record threads iterations) es of
        None \<Rightarrow> None
      | Some s \<Rightarrow> if all_joined s then Some (shared s) else None)"

definition BM_Lock_Contended :: "('s \<Rightarrow> 'e \<Rightarrow> 's option) \<Rightarrow> ('s \<Rightarrow> tid \<Rightarrow> bool) \<Rightarrow> ('e \<Rightarrow> tid option) \<Rightarrow> 's
    \<Rightarrow> ProtectedState \<Rightarrow> nat \<Rightarrow> nat \<Rightarrow> 'e trial_event list \<Rightarrow> ProtectedState option" where
  "BM_Lock_Contended step holds releases lock arena threads iterations =
     run_lock_loop step holds releases lock (UpdateInvariants 1) arena threads iterations"

definition BM_Spinlock_OversubscriptionCliff :: "('s \<Rightarrow> 'e \<Rightarrow> 's option) \<Rightarrow> ('s \<Rightarrow> tid \<Rightarrow> bool) \<Rightarrow> ('e \<Rightarrow> tid option) \<Rightarrow> 's
    \<Rightarrow> ProtectedState \<Rightarrow> nat \<Rightarrow> nat \<Rightarrow> 'e trial_event list \<Rightarrow> ProtectedState option" where
  "BM_Spinlock_OversubscriptionCliff step holds releases lock arena threads iterations =
     run_lock_loop step holds releases lock (UpdateInvariants 1) arena threads iterations"

definition BM_Lock_Uncontended :: "('s \<Rightarrow> 'e \<Rightarrow> 's option) \<Rightarrow> ('s \<Rightarrow> tid \<Rightarrow> bool) \<Rightarrow> ('e \<Rightarrow> tid option) \<Rightarrow> 's
    \<Rightarrow> nat \<Rightarrow> 'e trial_event list \<Rightarrow> ProtectedState option" where
  "BM_Lock_Uncontended step holds releases lock iterations =
     run_lock_loop step holds releases lock (UpdateInvariants 1) initial_state 1 iterations"

context lock_protocol
begin

lemma lock_loop_ok:
  "run_lock_loop step holds releases init body d m n es = Some r \<Longrightarrow> r = (body ^^ (m * n)) d"
  using no_lost_update by (auto simp: run_lock_loop_def split: option.splits if_splits)

end

context solo_lock
begin

lemma lock_loop_completes:
  assumes "free l"
  shows "\<exists>es r. run_lock_loop step holds releases l body d m n es = Some r"
proof -
  obtain es s where "run (trial_step step holds releases body) (trial_init l d m n) es = Some s" "all_joined s"
    using solo_trial [of "trial_init l d m n" body] assms by (auto simp: trial_init_def)
  then show ?thesis by (intro exI [of _ es]) (simp add: run_lock_loop_def)
qed

end

lemma lock_loop_unjoined:
  assumes "0 < m" and "0 < n"
  shows "run_lock_loop step holds releases l body d m n [] = None"
  using assms by (auto simp: run_lock_loop_def trial_init_def all_joined_def list_all_iff)

lemmas solo_loops = tas_solo.lock_loop_completes ttas_np_solo.lock_loop_completes ttas_solo.lock_loop_completes
  ttas10_solo.lock_loop_completes std_mtx_solo.lock_loop_completes ncas_solo.lock_loop_completes
  rbcas_solo.lock_loop_completes raw_futex_solo.lock_loop_completes adaptive_futex_solo.lock_loop_completes
  atomic_wait_solo.lock_loop_completes

text \<open>What such a loop leaves, for every lock: as if the iterations had run one after the other.\<close>

lemma lock_loop_outcome:
  assumes "0 < m" and "0 < n"
  shows "step \<in> {NaiveTASLock_step, TTASNoPauseLock_step, TTASPauseLock_step, Ep10TTASPauseLock_step, StdMutexWrapper_step} \<Longrightarrow>
      range (run_lock_loop step spin_holds spin_releases (spin_init False) body d m n) = {None, Some ((body ^^ (m * n)) d)}"
    and "cas_step \<in> {NaiveCasSpinlock_step, ReadBeforeCasSpinlock_step} \<Longrightarrow>
      range (run_lock_loop cas_step spin_holds spin_releases (spin_init 0) body d m n) = {None, Some ((body ^^ (m * n)) d)}"
    and "fstep \<in> {RawFutexMutex_step, AdaptiveFutexMutex_step, Cpp20AtomicWaitLock_step} \<Longrightarrow>
      range (run_lock_loop fstep futex_holds futex_releases futex_init body d m n) = {None, Some ((body ^^ (m * n)) d)}"
proof -
  note none = lock_loop_unjoined [OF assms]
  show "range (run_lock_loop step spin_holds spin_releases (spin_init False) body d m n) = {None, Some ((body ^^ (m * n)) d)}"
    if "step \<in> {NaiveTASLock_step, TTASNoPauseLock_step, TTASPauseLock_step, Ep10TTASPauseLock_step, StdMutexWrapper_step}"
  proof (rule only_outcome)
    show "r = (body ^^ (m * n)) d" if "run_lock_loop step spin_holds spin_releases (spin_init False) body d m n es = Some r" for es r
      using that \<open>step \<in> _\<close> by (elim insertE emptyE) (auto dest: tas.lock_loop_ok ttas_np.lock_loop_ok ttas.lock_loop_ok
          ttas10.lock_loop_ok std_mtx.lock_loop_ok)
    show "\<exists>es r. run_lock_loop step spin_holds spin_releases (spin_init False) body d m n es = Some r"
      using \<open>step \<in> _\<close> by (elim insertE emptyE; simp only: solo_loops spin_free_init)
  qed (rule none)
  show "range (run_lock_loop cas_step spin_holds spin_releases (spin_init 0) body d m n) = {None, Some ((body ^^ (m * n)) d)}"
    if "cas_step \<in> {NaiveCasSpinlock_step, ReadBeforeCasSpinlock_step}"
  proof (rule only_outcome)
    show "r = (body ^^ (m * n)) d" if "run_lock_loop cas_step spin_holds spin_releases (spin_init 0) body d m n es = Some r" for es r
      using that \<open>cas_step \<in> _\<close> by (elim insertE emptyE) (auto dest: ncas.lock_loop_ok rbcas.lock_loop_ok)
    show "\<exists>es r. run_lock_loop cas_step spin_holds spin_releases (spin_init 0) body d m n es = Some r"
      using \<open>cas_step \<in> _\<close> by (elim insertE emptyE; simp only: solo_loops spin_free_init)
  qed (rule none)
  show "range (run_lock_loop fstep futex_holds futex_releases futex_init body d m n) = {None, Some ((body ^^ (m * n)) d)}"
    if "fstep \<in> {RawFutexMutex_step, AdaptiveFutexMutex_step, Cpp20AtomicWaitLock_step}"
  proof (rule only_outcome)
    show "r = (body ^^ (m * n)) d" if "run_lock_loop fstep futex_holds futex_releases futex_init body d m n es = Some r" for es r
      using that \<open>fstep \<in> _\<close>
      by (elim insertE emptyE) (auto dest: raw_futex.lock_loop_ok adaptive_futex.lock_loop_ok atomic_wait.lock_loop_ok)
    show "\<exists>es r. run_lock_loop fstep futex_holds futex_releases futex_init body d m n es = Some r"
      using \<open>fstep \<in> _\<close> by (elim insertE emptyE; simp only: solo_loops futex_free_init)
  qed (rule none)
qed

lemma updates_conserve:
  "sequence_no ((UpdateInvariants d ^^ n) p) = sequence_no p + of_nat n"
  "balance_a ((UpdateInvariants d ^^ n) p) + balance_b ((UpdateInvariants d ^^ n) p) = balance_a p + balance_b p"
  "0 < n \<Longrightarrow> invariants_hold ((UpdateInvariants d ^^ n) p)"
proof -
  have one: "sequence_no (UpdateInvariants d q) = sequence_no q + 1"
    "balance_a (UpdateInvariants d q) + balance_b (UpdateInvariants d q) = balance_a q + balance_b q"
    "invariants_hold (UpdateInvariants d q)" for q
    using UpdateInvariants_correct by blast+
  show "sequence_no ((UpdateInvariants d ^^ n) p) = sequence_no p + of_nat n"
    "balance_a ((UpdateInvariants d ^^ n) p) + balance_b ((UpdateInvariants d ^^ n) p) = balance_a p + balance_b p"
    by (induction n) (simp_all add: one)
  show "0 < n \<Longrightarrow> invariants_hold ((UpdateInvariants d ^^ n) p)"
    by (cases n) (simp_all add: one)
qed

section \<open>The loops on the sharded map\<close>

text \<open>Each thread walks its own keys; the map is the one all runs share.\<close>

definition sharded_loop :: "(u64 \<Rightarrow> 'm \<Rightarrow> 'm) \<Rightarrow> nat \<Rightarrow> nat \<Rightarrow> 'm \<Rightarrow> tid list \<Rightarrow> 'm option" where
  "sharded_loop update threads iterations m sched =
     (if (\<forall>t \<in> set sched. t < threads) \<and> list_all (\<lambda>t. count_list sched t = iterations) [0..<threads]
      then Some (snd (fold (\<lambda>t (keys, m). let key = trial_key (keys ! t) in (keys[t := key], update key m))
             sched (map (\<lambda>t. trial_seed (of_nat t)) [0..<threads], m)))
      else None)"

definition BM_ShardedHashMap64 :: "nat \<Rightarrow> nat \<Rightarrow> MapShard list \<Rightarrow> tid list \<Rightarrow> MapShard list option" where
  "BM_ShardedHashMap64 threads iterations = sharded_loop (\<lambda>key. Upsert 64 key 1) threads iterations"

text \<open>The keys in the order of the schedule, and how many times each thread's keys come.\<close>

fun drawn :: "tid list \<Rightarrow> u64 list \<Rightarrow> u64 list" where
  "drawn [] keys = []"
| "drawn (t # ts) keys = trial_key (keys ! t) # drawn ts (keys[t := trial_key (keys ! t)])"

lemma sharded_loop_fold:
  "snd (fold (\<lambda>t (keys, m). let key = trial_key (keys ! t) in (keys[t := key], update key m)) sched (keys, m))
     = fold update (drawn sched keys) m"
  by (induction sched arbitrary: keys m) (simp_all add: Let_def)

definition own_keys :: "nat \<Rightarrow> u64 \<Rightarrow> u64 multiset" where
  "own_keys n key = mset (map (\<lambda>i. (trial_key ^^ Suc i) key) [0..<n])"

lemma own_keys_Suc: "own_keys (Suc n) key = add_mset (trial_key key) (own_keys n (trial_key key))"
proof -
  have "map (\<lambda>i. (trial_key ^^ Suc i) key) [0..<Suc n]
      = trial_key key # map (\<lambda>i. (trial_key ^^ Suc i) (trial_key key)) [0..<n]"
    by (subst upt_conv_Cons) (simp_all add: map_Suc_upt [symmetric] funpow_swap1 del: upt_Suc)
  then show ?thesis by (simp add: own_keys_def del: upt_Suc)
qed

lemma drawn_mset:
  "\<forall>t \<in> set sched. t < length keys \<Longrightarrow> mset (drawn sched keys) = (\<Sum>t<length keys. own_keys (count_list sched t) (keys ! t))"
proof (induction sched arbitrary: keys)
  case Nil
  then show ?case by (simp add: own_keys_def)
next
  case (Cons t sched)
  let ?key = "trial_key (keys ! t)" and ?I = "{..<length keys} - {t}"
  have t: "t \<in> {..<length keys}" using Cons.prems by simp
  have "mset (drawn sched (keys[t := ?key])) = (\<Sum>u<length keys. own_keys (count_list sched u) (keys[t := ?key] ! u))"
    using Cons.IH [of "keys[t := ?key]"] Cons.prems by simp
  also have "\<dots> = own_keys (count_list sched t) ?key + (\<Sum>u\<in>?I. own_keys (count_list sched u) (keys ! u))"
    using t by (subst sum.remove [OF _ t]) auto
  finally have "mset (drawn (t # sched) keys)
      = own_keys (Suc (count_list sched t)) (keys ! t) + (\<Sum>u\<in>?I. own_keys (count_list sched u) (keys ! u))"
    by (simp add: own_keys_Suc)
  also have "\<dots> = (\<Sum>u<length keys. own_keys (count_list (t # sched) u) (keys ! u))"
    using t by (subst sum.remove [OF _ t]) auto
  finally show ?case .
qed

text \<open>Updates that commute leave the same map in every interleaving.\<close>

lemma sharded_loop_deterministic:
  assumes "\<And>a b m. update a (update b m) = update b (update a m)"
    and "sharded_loop update threads iterations m s1 = Some r1" and "sharded_loop update threads iterations m s2 = Some r2"
  shows "r1 = r2"
proof -
  let ?keys = "map (\<lambda>t. trial_seed (of_nat t)) [0..<threads]"
  have run: "\<forall>t \<in> set s. t < length ?keys" "r = fold update (drawn s ?keys) m"
    "\<forall>t < threads. count_list s t = iterations" if "sharded_loop update threads iterations m s = Some r" for s r
    using that by (auto simp: sharded_loop_def sharded_loop_fold list_all_iff split: if_splits)
  have "mset (drawn s ?keys) = (\<Sum>t<threads. own_keys iterations (?keys ! t))"
    if "sharded_loop update threads iterations m s = Some r" for s r
    using drawn_mset [OF run(1) [OF that]] run(3) [OF that] by simp
  then have "mset (drawn s1 ?keys) = mset (drawn s2 ?keys)" using assms(2,3) by metis
  moreover have "update a \<circ> update b = update b \<circ> update a" for a b using assms(1) by (simp add: fun_eq_iff)
  ultimately have "fold update (drawn s1 ?keys) = fold update (drawn s2 ?keys)" by (intro fold_multiset_equiv) auto
  then show ?thesis using run(2) assms(2,3) by metis
qed

lemma bump_commute:
  assumes "i = j \<Longrightarrow> f (g (xs ! i)) = g (f (xs ! i))"
  shows "(xs[i := f (xs ! i)])[j := g (xs[i := f (xs ! i)] ! j)] = (xs[j := g (xs ! j)])[i := f (xs[j := g (xs ! j)] ! i)]"
  using assms by (intro nth_equalityI) (auto simp: nth_update_total)

lemma Upsert_commute: "Upsert n a d (Upsert n b e m) = Upsert n b e (Upsert n a d m)"
proof -
  define bump where "bump key d shard =
    \<lparr>map_buckets = (map_buckets shard)[unat (drop_bit 8 (MixHash key) AND 15) :=
        map_buckets shard ! unat (drop_bit 8 (MixHash key) AND 15) + d], map_updates = map_updates shard + 1\<rparr>" for key and d :: u64 and shard :: MapShard
  have up: "Upsert n key d m = m[unat (MixHash key AND (n - 1)) := bump key d (m ! unat (MixHash key AND (n - 1)))]" for key d m
    by (simp add: Upsert_def bump_def Let_def)
  have "bump a d (bump b e shard) = bump b e (bump a d shard)" for shard
    using bump_commute [of "unat (drop_bit 8 (MixHash b) AND 15)" "unat (drop_bit 8 (MixHash a) AND 15)" "\<lambda>x. x + e" "\<lambda>x. x + d" "map_buckets shard"]
    by (simp add: bump_def algebra_simps)
  then show ?thesis
    using bump_commute [of "unat (MixHash b AND (n - 1))" "unat (MixHash a AND (n - 1))" "bump b e" "bump a d" m]
    by (simp add: up)
qed

lemma sharded_loop_runs: "\<exists>sched r. sharded_loop update m n mp sched = Some r"
proof -
  let ?sched = "concat (map (\<lambda>t. replicate n t) [0..<m])"
  have "count_list (concat (map (\<lambda>t. replicate n t) [0..<k])) t = (if t < k then n else 0)" for k t :: nat
  proof -
    have "count_list (replicate n u) t = (if u = t then n else 0)" for u by (induction n) auto
    then show ?thesis by (induction k) auto
  qed
  moreover have "\<forall>t \<in> set ?sched. t < m" by auto
  ultimately show ?thesis by (intro exI [of _ ?sched]) (simp add: sharded_loop_def list_all_iff)
qed

lemma sharded_loop_unfinished: "0 < m \<Longrightarrow> 0 < n \<Longrightarrow> sharded_loop update m n mp [] = None"
  by (auto simp: sharded_loop_def list_all_iff)

lemma BM_ShardedHashMap64_outcome:
  "shard_inv 64 m \<Longrightarrow> BM_ShardedHashMap64 threads iterations m s1 = Some r1 \<Longrightarrow> BM_ShardedHashMap64 threads iterations m s2 = Some r2
    \<Longrightarrow> r1 = r2 \<and> TotalUpdates r1 = TotalUpdates m + of_nat (threads * iterations)"
proof -
  assume inv: "shard_inv 64 m" and r1: "BM_ShardedHashMap64 threads iterations m s1 = Some r1"
    and r2: "BM_ShardedHashMap64 threads iterations m s2 = Some r2"
  have "r1 = r2"
    by (rule sharded_loop_deterministic [OF _ r1 [unfolded BM_ShardedHashMap64_def] r2 [unfolded BM_ShardedHashMap64_def]])
      (rule Upsert_commute)
  moreover have "length s1 = threads * iterations"
    using r1 by (intro length_by_counts) (auto simp: BM_ShardedHashMap64_def sharded_loop_def split: if_splits)
  then have "TotalUpdates r1 = TotalUpdates m + of_nat (threads * iterations)"
    using r1 trial_fold [of 64 m s1] inv
    by (auto simp: BM_ShardedHashMap64_def sharded_loop_def pow2_assert_def split: if_splits)
  ultimately show ?thesis by blast
qed

section \<open>Workload A\<close>

text \<open>
  Thread \<open>t\<close> counts \<open>iter\<close> on from its index and updates when it is a multiple of 100. The result says
  whether every snapshot a thread read was a whole entry.
\<close>

definition workload_writes :: "tid \<Rightarrow> nat \<Rightarrow> bool" where
  "workload_writes t i \<longleftrightarrow> (of_nat t + of_nat i :: u64) mod 100 = 0"

definition workload_entry :: "tid \<Rightarrow> nat \<Rightarrow> u64 list" where
  "workload_entry t i =
     (let iter = of_nat t + of_nat i; ip = 0x0A000001 + (iter AND 0xFF); tms = 250 + (iter AND 7); w = 100 + (iter AND 3)
      in route_fields \<lparr>upstream_ip = ip, timeout_ms = tms, weight = w, checksum = ip XOR tms XOR w\<rparr>)"

definition BM_WorkloadA_RouteCache_99R1W :: "('s \<Rightarrow> 'e \<Rightarrow> 's option) \<Rightarrow> ('s \<Rightarrow> 'e \<Rightarrow> 's \<Rightarrow> u64 list action)
    \<Rightarrow> ('e \<Rightarrow> tid option) \<Rightarrow> 's \<Rightarrow> nat \<Rightarrow> nat \<Rightarrow> (tid \<times> 'e) list \<Rightarrow> bool option" where
  "BM_WorkloadA_RouteCache_99R1W step kind who = RunRouteLoop step kind who workload_writes workload_entry tear_free"

lemma workload_entry_ok: "tear_free (workload_entry t i)" "length (workload_entry t i) = 4"
  by (simp_all add: workload_entry_def tear_free_def route_fields_def Let_def)

lemma mutex_loop_range:
  fixes v :: "'a list"
  assumes "0 < m" and "0 < n" and "m * n < 2 ^ 63" and "\<And>t i. intact (entry t i)" and "intact v"
    and "\<And>t i. length (entry t i) = length v"
  shows "range (RunRouteLoop (gc_step excl) gc_kind gc_who writes entry intact (gc_init v) m n) = {None, Some True}"
    and "range (RunRouteLoop Ep10RouteCache_step sq_kind sq_who writes entry intact (sq_init 0 v) m n) = {None, Some True}"
  by (rule always_passes; rule loop_unfinished [OF assms(1,2)] gc_trial.loop_passes [OF assms(4,5,3)]
      ep10_trial.loop_passes [OF assms(4,5,3)] gc_loop_completes [OF assms(6)] sq_loop_completes [OF assms(6)])+

text \<open>
  C21. The benchmarks of the locks. For every lock they time, any number of threads and iterations, every
  record left by earlier runs and every interleaving, a run that ends leaves the record that the
  updates leave one after the other, with its invariants kept, and there is a run that ends; alone,
  in contention or oversubscribed. The runs over \<open>ShardedHashMap\<close> end in one and the same map, bucket
  by bucket, whatever the interleaving. The caches with a mutex never hand out a torn entry.
\<close>

theorem lock_benchmarks:
  assumes "0 < m" and "0 < n" and "m * n < 2 ^ 63" and "shard_inv 64 mp" and "length v = 4" and "tear_free v"
    and "step \<in> {NaiveTASLock_step, TTASNoPauseLock_step, TTASPauseLock_step, StdMutexWrapper_step}"
    and "fstep \<in> {RawFutexMutex_step, AdaptiveFutexMutex_step, Cpp20AtomicWaitLock_step}"
  shows "range (BM_Lock_Contended step spin_holds spin_releases (spin_init False) p m n) = {None, Some ((UpdateInvariants 1 ^^ (m * n)) p)}
    \<and> range (BM_Lock_Contended fstep futex_holds futex_releases futex_init p m n) = {None, Some ((UpdateInvariants 1 ^^ (m * n)) p)}
    \<and> range (BM_Lock_Uncontended step spin_holds spin_releases (spin_init False) n) = {None, Some ((UpdateInvariants 1 ^^ n) initial_state)}
    \<and> range (BM_Lock_Uncontended fstep futex_holds futex_releases futex_init n) = {None, Some ((UpdateInvariants 1 ^^ n) initial_state)}
    \<and> range (BM_Spinlock_OversubscriptionCliff step spin_holds spin_releases (spin_init False) p m n) = {None, Some ((UpdateInvariants 1 ^^ (m * n)) p)}
    \<and> range (BM_Spinlock_OversubscriptionCliff fstep futex_holds futex_releases futex_init p m n) = {None, Some ((UpdateInvariants 1 ^^ (m * n)) p)}
    \<and> invariants_hold ((UpdateInvariants 1 ^^ (m * n)) p)
    \<and> sequence_no ((UpdateInvariants 1 ^^ (m * n)) p) = sequence_no p + of_nat (m * n)
    \<and> balance_a ((UpdateInvariants 1 ^^ (m * n)) p) + balance_b ((UpdateInvariants 1 ^^ (m * n)) p) = balance_a p + balance_b p
    \<and> (\<exists>r. TotalUpdates r = TotalUpdates mp + of_nat (m * n) \<and> range (BM_ShardedHashMap64 m n mp) = {None, Some r})
    \<and> range (BM_WorkloadA_RouteCache_99R1W SharedMutexRouteCache_step gc_kind gc_who (gc_init v) m n) = {None, Some True}
    \<and> range (BM_WorkloadA_RouteCache_99R1W MutexRouteCache_step gc_kind gc_who (gc_init v) m n) = {None, Some True}"
proof -
  have mn: "0 < m * n" using assms(1,2) by simp
  have step: "step \<in> {NaiveTASLock_step, TTASNoPauseLock_step, TTASPauseLock_step, Ep10TTASPauseLock_step, StdMutexWrapper_step}"
    using assms(7) by blast
  have len: "length (workload_entry t i) = length v" for t i using assms(5) by (simp add: workload_entry_ok)
  obtain sched r where r: "BM_ShardedHashMap64 m n mp sched = Some r"
    using sharded_loop_runs [of "\<lambda>key. Upsert 64 key 1" m n mp] unfolding BM_ShardedHashMap64_def by auto
  have map: "range (BM_ShardedHashMap64 m n mp) = {None, Some r}" "TotalUpdates r = TotalUpdates mp + of_nat (m * n)"
  proof -
    show "TotalUpdates r = TotalUpdates mp + of_nat (m * n)" using BM_ShardedHashMap64_outcome [OF assms(4) r r] by simp
    show "range (BM_ShardedHashMap64 m n mp) = {None, Some r}"
    proof (rule only_outcome)
      show "BM_ShardedHashMap64 m n mp [] = None"
        unfolding BM_ShardedHashMap64_def by (rule sharded_loop_unfinished [OF assms(1,2)])
    qed (use BM_ShardedHashMap64_outcome [OF assms(4) _ r] r in blast)+
  qed
  have pos: "0 < (1 :: nat)" by simp
  note alone = lock_loop_outcome [where body = "UpdateInvariants 1" and d = initial_state, OF pos assms(2)]
  have one: "1 * n = n" by simp
  show ?thesis
    unfolding BM_Lock_Contended_def BM_Lock_Uncontended_def BM_Spinlock_OversubscriptionCliff_def
      BM_WorkloadA_RouteCache_99R1W_def SharedMutexRouteCache_step_def MutexRouteCache_step_def
    by (intro conjI exI [of _ r] map lock_loop_outcome [OF assms(1,2)] step assms(8) updates_conserve(3) [OF mn] updates_conserve(1,2)
        alone(1) [OF step, unfolded one] alone(3) [OF assms(8), unfolded one]
        mutex_loop_range(1) [OF assms(1-3) workload_entry_ok(1) assms(6) len])
qed

theorem lock_benchmarks_witness:
  "range (BM_Lock_Contended NaiveTASLock_step spin_holds spin_releases (spin_init False) initial_state 16 3)
     = {None, Some ((UpdateInvariants 1 ^^ 48) initial_state)}
   \<and> (\<exists>r. TotalUpdates r = 48 \<and> range (BM_ShardedHashMap64 16 3 (ShardedHashMap 64)) = {None, Some r})"
proof -
  have "TotalUpdates (ShardedHashMap 64) = 0"
    by (simp add: TotalUpdates_def fold_sum ShardedHashMap_def empty_shard_def map_replicate_const sum_list_replicate)
  then show ?thesis
    using lock_benchmarks [where m = 16 and n = 3 and mp = "ShardedHashMap 64" and v = old_fields
        and step = NaiveTASLock_step and fstep = RawFutexMutex_step and p = initial_state]
      ShardedHashMap_inv [of 64] old_fields_length route_entry_intact(2)
    by simp
qed

end
