(* ===== verification/Ep10Bench.thy ===== *)
theory Ep10Bench
  imports LockBench Ep10
begin

text \<open>
  \<open>benchmark.cc\<close> of episode 10. It has its own copies of the classes it times: locks and caches that are
  statement for statement those of \<open>locks_under_the_hood.h\<close> or of the challenge program, and a record
  and a sharded map of its own, without the checksum and with the record in the shards.
\<close>

section \<open>The record\<close>

record Bench10State =
  b_sequence :: u64
  b_balance_a :: u64
  b_balance_b :: u64
  b_buckets :: "u64 list"

definition bench10_initial :: Bench10State where
  "bench10_initial = \<lparr>b_sequence = 0, b_balance_a = 1000000, b_balance_b = 1000000, b_buckets = replicate 5 0\<rparr>"

definition Bench10UpdateInvariants :: "u64 \<Rightarrow> Bench10State \<Rightarrow> Bench10State" where
  "Bench10UpdateInvariants delta p =
     (let s = b_sequence p + 1
      in p\<lparr>b_sequence := s, b_balance_a := b_balance_a p + delta, b_balance_b := b_balance_b p - delta,
           b_buckets := map (\<lambda>idx. (b_buckets p ! idx XOR (s + of_nat idx)) * 6364136223846793005 + 1442695040888963407)
             [0..<length (b_buckets p)]\<rparr>)"

section \<open>The locks and the caches\<close>

definition Bench10NaiveTASLock_step :: "bool spin \<Rightarrow> spin_event \<Rightarrow> bool spin option" where
  "Bench10NaiveTASLock_step = NaiveTASLock_step"

definition Bench10TTASNoPauseLock_step :: "bool spin \<Rightarrow> spin_event \<Rightarrow> bool spin option" where
  "Bench10TTASNoPauseLock_step = TTASNoPauseLock_step"

definition Bench10TTASPauseLock_step :: "bool spin \<Rightarrow> spin_event \<Rightarrow> bool spin option" where
  "Bench10TTASPauseLock_step = TTASPauseLock_step"

definition Bench10StdMutexWrapper_step :: "bool spin \<Rightarrow> spin_event \<Rightarrow> bool spin option" where
  "Bench10StdMutexWrapper_step = StdMutexWrapper_step"

definition Bench10RawFutexMutex_step :: "futex \<Rightarrow> futex_event \<Rightarrow> futex option" where
  "Bench10RawFutexMutex_step = futex_step 0 FXchg"

definition Bench10AdaptiveFutexMutex_step :: "futex \<Rightarrow> futex_event \<Rightarrow> futex option" where
  "Bench10AdaptiveFutexMutex_step = futex_step 40 FXchg"

definition Bench10Cpp20AtomicWaitLock_step :: "futex \<Rightarrow> futex_event \<Rightarrow> futex option" where
  "Bench10Cpp20AtomicWaitLock_step = futex_step 40 FWait"

definition Bench10SharedMutexRouteCache_step :: "'a gcache \<Rightarrow> 'a gevent \<Rightarrow> 'a gcache option" where
  "Bench10SharedMutexRouteCache_step = gc_step False"

definition Bench10MutexRouteCache_step :: "'a gcache \<Rightarrow> 'a gevent \<Rightarrow> 'a gcache option" where
  "Bench10MutexRouteCache_step = gc_step True"

definition Bench10SeqlockRouteCache_step :: "'a sq \<Rightarrow> 'a sq_event \<Rightarrow> 'a sq option" where
  "Bench10SeqlockRouteCache_step = Ep10RouteCache_step"

section \<open>The map\<close>

definition Bench10Update :: "u64 \<Rightarrow> u64 \<Rightarrow> u64 \<Rightarrow> Bench10State list \<Rightarrow> Bench10State list" where
  "Bench10Update num_shards key_hash delta ss =
     (let i = unat (key_hash AND (num_shards - 1)) in ss[i := Bench10UpdateInvariants delta (ss ! i)])"

section \<open>The benchmarks\<close>

definition bench10_entry :: "tid \<Rightarrow> nat \<Rightarrow> u64 list" where
  "bench10_entry t i =
     (let iter = of_nat t + of_nat i :: u64
      in ep10_fields \<lparr>upstream_ipv4 = 0x0A000001 + ucast (iter AND 0xFF), port = ucast (8080 + (iter AND 7)), weight16 = 1,
           version_epoch = iter, quota_bytes = iter * 1024, flags = 0\<rparr>)"

definition Bench10_WorkloadA_RouteCache :: "('s \<Rightarrow> 'e \<Rightarrow> 's option) \<Rightarrow> ('s \<Rightarrow> 'e \<Rightarrow> 's \<Rightarrow> u64 list action)
    \<Rightarrow> ('e \<Rightarrow> tid option) \<Rightarrow> 's \<Rightarrow> nat \<Rightarrow> nat \<Rightarrow> (tid \<times> 'e) list \<Rightarrow> bool option" where
  "Bench10_WorkloadA_RouteCache step kind who = RunRouteLoop step kind who workload_writes bench10_entry ep10_intact"

definition Bench10_Lock_Uncontended :: "('s \<Rightarrow> 'e \<Rightarrow> 's option) \<Rightarrow> ('s \<Rightarrow> tid \<Rightarrow> bool) \<Rightarrow> ('e \<Rightarrow> tid option) \<Rightarrow> 's
    \<Rightarrow> nat \<Rightarrow> 'e trial_event list \<Rightarrow> Bench10State option" where
  "Bench10_Lock_Uncontended step holds releases lock iterations =
     run_lock_loop step holds releases lock (Bench10UpdateInvariants 1) bench10_initial 1 iterations"

definition Bench10_Lock_Contended :: "('s \<Rightarrow> 'e \<Rightarrow> 's option) \<Rightarrow> ('s \<Rightarrow> tid \<Rightarrow> bool) \<Rightarrow> ('e \<Rightarrow> tid option) \<Rightarrow> 's
    \<Rightarrow> Bench10State \<Rightarrow> nat \<Rightarrow> nat \<Rightarrow> 'e trial_event list \<Rightarrow> Bench10State option" where
  "Bench10_Lock_Contended step holds releases lock arena threads iterations =
     run_lock_loop step holds releases lock (Bench10UpdateInvariants 1) arena threads iterations"

definition Bench10_OversubscriptionCliff :: "('s \<Rightarrow> 'e \<Rightarrow> 's option) \<Rightarrow> ('s \<Rightarrow> tid \<Rightarrow> bool) \<Rightarrow> ('e \<Rightarrow> tid option) \<Rightarrow> 's
    \<Rightarrow> Bench10State \<Rightarrow> nat \<Rightarrow> nat \<Rightarrow> 'e trial_event list \<Rightarrow> Bench10State option" where
  "Bench10_OversubscriptionCliff step holds releases lock arena threads iterations =
     run_lock_loop step holds releases lock (Bench10UpdateInvariants 1) arena threads iterations"

definition Bench10_ShardedHashMap64 :: "nat \<Rightarrow> nat \<Rightarrow> Bench10State list \<Rightarrow> tid list \<Rightarrow> Bench10State list option" where
  "Bench10_ShardedHashMap64 threads iterations = sharded_loop (\<lambda>key. Bench10Update 64 key 1) threads iterations"

section \<open>What they leave\<close>

lemma bench10_entry_ok: "ep10_intact (bench10_entry t i)" "length (bench10_entry t i) = 6"
  by (simp_all add: bench10_entry_def ep10_intact_def ep10_fields_def Let_def)

lemma bench10_updates:
  "b_sequence ((Bench10UpdateInvariants d ^^ n) p) = b_sequence p + of_nat n
   \<and> b_balance_a ((Bench10UpdateInvariants d ^^ n) p) + b_balance_b ((Bench10UpdateInvariants d ^^ n) p)
     = b_balance_a p + b_balance_b p"
  by (induction n) (simp_all add: Bench10UpdateInvariants_def Let_def algebra_simps)

lemma Bench10Update_commute: "Bench10Update n a d (Bench10Update n b d m) = Bench10Update n b d (Bench10Update n a d m)"
  using bump_commute [of "unat (b AND (n - 1))" "unat (a AND (n - 1))" "Bench10UpdateInvariants d" "Bench10UpdateInvariants d" m]
  by (simp add: Bench10Update_def Let_def)

lemma Bench10Update_sequence:
  assumes "length m = 64"
  shows "sum_list (map b_sequence (Bench10Update 64 k 1 m)) = sum_list (map b_sequence m) + 1" and "length (Bench10Update 64 k 1 m) = 64"
proof -
  have "unat (k AND (64 - 1)) < unat (64 :: u64)" by (rule Upsert_shard_index) (simp_all add: pow2_assert_def)
  then have i: "unat (k AND (64 - 1)) < length m" using assms by simp
  show "sum_list (map b_sequence (Bench10Update 64 k 1 m)) = sum_list (map b_sequence m) + 1"
    by (simp add: Bench10Update_def Let_def sum_list_map_update [OF i [simplified]] Bench10UpdateInvariants_def)
  show "length (Bench10Update 64 k 1 m) = 64" by (simp add: Bench10Update_def Let_def assms)
qed

lemma bench10_map_fold:
  "length m = 64 \<Longrightarrow> sum_list (map b_sequence (fold (\<lambda>k. Bench10Update 64 k 1) ks m)) = sum_list (map b_sequence m) + of_nat (length ks)"
  by (induction ks arbitrary: m) (simp_all add: Bench10Update_sequence)

lemma length_drawn: "length (drawn sched keys) = length sched"
  by (induction sched arbitrary: keys) simp_all

lemma Bench10_map_outcome:
  assumes "length mp = 64" and "0 < m" and "0 < n"
  shows "\<exists>r. sum_list (map b_sequence r) = sum_list (map b_sequence mp) + of_nat (m * n)
    \<and> range (Bench10_ShardedHashMap64 m n mp) = {None, Some r}"
proof -
  have same: "r1 = r2" if "Bench10_ShardedHashMap64 m n mp s1 = Some r1" "Bench10_ShardedHashMap64 m n mp s2 = Some r2" for s1 s2 r1 r2
    by (rule sharded_loop_deterministic [OF _ that [unfolded Bench10_ShardedHashMap64_def]]) (rule Bench10Update_commute)
  obtain sched r where r: "Bench10_ShardedHashMap64 m n mp sched = Some r"
    using sharded_loop_runs [of "\<lambda>key. Bench10Update 64 key 1" m n mp] unfolding Bench10_ShardedHashMap64_def by auto
  then have "length sched = m * n" "r = fold (\<lambda>key. Bench10Update 64 key 1) (drawn sched (map (\<lambda>t. trial_seed (of_nat t)) [0..<m])) mp"
    by (auto simp: Bench10_ShardedHashMap64_def sharded_loop_def sharded_loop_fold split: if_splits intro!: length_by_counts)
  then have "sum_list (map b_sequence r) = sum_list (map b_sequence mp) + of_nat (m * n)"
    using bench10_map_fold [OF assms(1)] by (simp add: length_drawn)
  moreover have "range (Bench10_ShardedHashMap64 m n mp) = {None, Some r}"
  proof (rule only_outcome)
    show "Bench10_ShardedHashMap64 m n mp [] = None"
      unfolding Bench10_ShardedHashMap64_def by (rule sharded_loop_unfinished [OF assms(2,3)])
  qed (use same r in blast)+
  ultimately show ?thesis by blast
qed

text \<open>
  C22. The benchmarks of episode 10. Every lock it times leaves its record as the updates one after the
  other leave it, in every interleaving, and has a run that ends; the sequence counts the operations and the
  balance is kept. Its sharded map ends the same in every interleaving, its shards having counted every
  operation. None of its three caches, the seqlock included, hands out a torn entry.
\<close>

theorem Ep10_benchmarks:
  assumes "0 < m" and "0 < n" and "m * n < 2 ^ 63" and "length mp = 64" and "length v = 6" and "ep10_intact v"
    and "step \<in> {Bench10NaiveTASLock_step, Bench10TTASNoPauseLock_step, Bench10TTASPauseLock_step, Bench10StdMutexWrapper_step}"
    and "fstep \<in> {Bench10RawFutexMutex_step, Bench10AdaptiveFutexMutex_step, Bench10Cpp20AtomicWaitLock_step}"
    and "final = (Bench10UpdateInvariants 1 ^^ (m * n)) p"
  shows "range (Bench10_Lock_Contended step spin_holds spin_releases (spin_init False) p m n) = {None, Some final}
    \<and> range (Bench10_Lock_Contended fstep futex_holds futex_releases futex_init p m n) = {None, Some final}
    \<and> range (Bench10_OversubscriptionCliff step spin_holds spin_releases (spin_init False) p m n) = {None, Some final}
    \<and> range (Bench10_OversubscriptionCliff fstep futex_holds futex_releases futex_init p m n) = {None, Some final}
    \<and> range (Bench10_Lock_Uncontended step spin_holds spin_releases (spin_init False) n) = {None, Some ((Bench10UpdateInvariants 1 ^^ n) bench10_initial)}
    \<and> range (Bench10_Lock_Uncontended fstep futex_holds futex_releases futex_init n) = {None, Some ((Bench10UpdateInvariants 1 ^^ n) bench10_initial)}
    \<and> b_sequence final = b_sequence p + of_nat (m * n) \<and> b_balance_a final + b_balance_b final = b_balance_a p + b_balance_b p
    \<and> (\<exists>r. sum_list (map b_sequence r) = sum_list (map b_sequence mp) + of_nat (m * n)
        \<and> range (Bench10_ShardedHashMap64 m n mp) = {None, Some r})
    \<and> range (Bench10_WorkloadA_RouteCache Bench10SharedMutexRouteCache_step gc_kind gc_who (gc_init v) m n) = {None, Some True}
    \<and> range (Bench10_WorkloadA_RouteCache Bench10MutexRouteCache_step gc_kind gc_who (gc_init v) m n) = {None, Some True}
    \<and> range (Bench10_WorkloadA_RouteCache Bench10SeqlockRouteCache_step sq_kind sq_who (sq_init 0 v) m n) = {None, Some True}"
proof -
  have step: "step \<in> {NaiveTASLock_step, TTASNoPauseLock_step, TTASPauseLock_step, Ep10TTASPauseLock_step, StdMutexWrapper_step}"
    using assms(7) by (auto simp: Bench10NaiveTASLock_step_def Bench10TTASNoPauseLock_step_def Bench10TTASPauseLock_step_def
        Bench10StdMutexWrapper_step_def)
  have fstep: "fstep \<in> {RawFutexMutex_step, AdaptiveFutexMutex_step, Cpp20AtomicWaitLock_step}"
    using assms(8) by (auto simp: Bench10RawFutexMutex_step_def Bench10AdaptiveFutexMutex_step_def
        Bench10Cpp20AtomicWaitLock_step_def RawFutexMutex_step_def AdaptiveFutexMutex_step_def Cpp20AtomicWaitLock_step_def)
  have len: "length (bench10_entry t i) = length v" for t i using assms(5) by (simp add: bench10_entry_ok)
  have pos: "0 < (1 :: nat)" and one: "1 * n = n" by simp_all
  note alone = lock_loop_outcome [where body = "Bench10UpdateInvariants 1" and d = bench10_initial, OF pos assms(2)]
  note caches = mutex_loop_range [OF assms(1-3) bench10_entry_ok(1) assms(6) len]
  show ?thesis
    unfolding Bench10_Lock_Contended_def Bench10_Lock_Uncontended_def Bench10_OversubscriptionCliff_def
      Bench10_WorkloadA_RouteCache_def Bench10SharedMutexRouteCache_step_def Bench10MutexRouteCache_step_def
      Bench10SeqlockRouteCache_step_def assms(9)
    by (intro conjI lock_loop_outcome [OF assms(1,2)] step fstep Bench10_map_outcome [OF assms(4,1,2)] caches
        conjunct1 [OF bench10_updates] conjunct2 [OF bench10_updates] alone(1) [OF step, unfolded one] alone(3) [OF fstep, unfolded one])
qed

theorem Ep10_benchmarks_witness:
  "\<exists>final. range (Bench10_Lock_Contended Bench10TTASPauseLock_step spin_holds spin_releases (spin_init False) bench10_initial 16 3)
      = {None, Some final} \<and> b_sequence final = 48
    \<and> range (Bench10_WorkloadA_RouteCache Bench10SeqlockRouteCache_step sq_kind sq_who (sq_init 0 (ep10_fields ep10_default_entry)) 16 3)
      = {None, Some True}"
proof -
  have "b_sequence bench10_initial = 0" by (simp add: bench10_initial_def)
  moreover have "length (ep10_fields ep10_default_entry) = 6" by (simp add: ep10_fields_def)
  ultimately show ?thesis
    using Ep10_benchmarks [where m = 16 and n = 3 and mp = "replicate 64 bench10_initial" and v = "ep10_fields ep10_default_entry"
        and step = Bench10TTASPauseLock_step and fstep = Bench10RawFutexMutex_step and p = bench10_initial, OF _ _ _ _ _ _ _ _ refl]
      ep10_intact_entries(2) by (intro exI [of _ "(Bench10UpdateInvariants 1 ^^ 48) bench10_initial"]) simp
qed

end
