(* ===== verification/MesiBench.thy ===== *)
theory MesiBench
  imports LockBench MesiChallenge Frames
begin

text \<open>
  \<open>mesi_coherency_benchmark.cc\<close> and the benchmark of episode 09, which has its own copies of the counter, the
  leases, the ledger and the locks. The shared line, the counters, the generator and the ledger live on
  from one run to the next, so a run starts from any value of them. Pinning and the counters of the
  benchmark library are left out.
\<close>

section \<open>One cache line\<close>

text \<open>
  Thread 0 stores 42 before its loads; nothing here keeps the loads of the other threads behind that
  store. The state is the line, whether thread 0 has stored, and what the loads returned.
\<close>

definition load_body :: "tid \<Rightarrow> u64 \<times> bool \<times> u64 list \<Rightarrow> u64 \<times> bool \<times> u64 list" where
  "load_body t s =
     (let (line, stored, seen) = s
      in if t = 0 \<and> \<not> stored then (42, True, seen) else (line, stored, line # seen))"

definition BM_AtomicLoad_SharedScaling :: "nat \<Rightarrow> nat \<Rightarrow> u64 \<Rightarrow> tid list \<Rightarrow> (u64 \<times> u64 list) option" where
  "BM_AtomicLoad_SharedScaling threads iterations line sched =
     (if list_all (\<lambda>t. t < threads) sched
         \<and> list_all (\<lambda>t. count_list sched t = (if t = 0 then 1 else 0) + iterations * 1024) [0..<threads]
      then let (line, _, seen) = fold load_body sched (line, False, []) in Some (line, seen)
      else None)"

text \<open>A \<open>fetch_add\<close> on the line, with the values it returned, newest first.\<close>

definition fetch_add_prev :: "tid \<Rightarrow> u64 \<times> u64 list \<Rightarrow> u64 \<times> u64 list" where
  "fetch_add_prev t s = (let (v, prevs) = s in (v + 1, v # prevs))"

definition BM_AtomicRMW_FetchAdd :: "nat \<Rightarrow> nat \<Rightarrow> u64 \<Rightarrow> tid list \<Rightarrow> (u64 \<times> u64 list) option" where
  "BM_AtomicRMW_FetchAdd threads iterations line =
     RunParallelBench threads (iterations * 1024) fetch_add_prev (line, [])"

definition BM_AtomicRMW_TopologyPingPong :: "nat \<Rightarrow> u64 \<Rightarrow> tid list \<Rightarrow> (u64 \<times> u64 list) option" where
  "BM_AtomicRMW_TopologyPingPong iterations line =
     RunParallelBench 2 (iterations * 1024) fetch_add_prev (line, [])"

section \<open>Leases and shards\<close>

text \<open>A run draws with fresh leases from a generator at any watermark; the result has the ids by thread, newest first.\<close>

definition BM_TraceId_BatchedLease64 :: "nat \<Rightarrow> nat \<Rightarrow> u64 \<Rightarrow> tid list \<Rightarrow> (u64 \<times> (tid \<times> u64) list) option" where
  "BM_TraceId_BatchedLease64 threads iterations watermark sched =
     (if all_done threads (iterations * 1024) sched
      then map_option (\<lambda>s. (GlobalWatermark s, issued s))
        (run (id_call 64) \<lparr>global_id = watermark, leases = replicate threads default_lease, issued = []\<rparr> sched)
      else None)"

definition BM_TelemetryCounter_ShardedAlignas64 :: "nat \<Rightarrow> nat \<Rightarrow> shards \<Rightarrow> tid list \<Rightarrow> shards option" where
  "BM_TelemetryCounter_ShardedAlignas64 threads iterations =
     RunParallelBench threads (iterations * 1024) (\<lambda>tid. Increment 64 (of_nat tid) 1)"

section \<open>The ledger\<close>

definition BM_CASLoop_Naive :: "SharedOrderBookLedger \<Rightarrow> nat \<Rightarrow> nat \<Rightarrow> spin_event trial_event list \<Rightarrow> SharedOrderBookLedger option" where
  "BM_CASLoop_Naive ledger threads iterations =
     run_lock_loop NaiveCasSpinlock_step spin_holds spin_releases (spin_init 0) (RecordExecution 10 100) ledger threads iterations"

definition BM_CASLoop_ReadBeforeCAS :: "SharedOrderBookLedger \<Rightarrow> nat \<Rightarrow> nat \<Rightarrow> spin_event trial_event list \<Rightarrow> SharedOrderBookLedger option" where
  "BM_CASLoop_ReadBeforeCAS ledger threads iterations =
     run_lock_loop ReadBeforeCasSpinlock_step spin_holds spin_releases (spin_init 0) (RecordExecution 10 100) ledger threads iterations"

text \<open>The local magazine starts full; only an empty one takes the lock, as \<open>mag_loop\<close> counts.\<close>

definition BM_BufferPool_ThreadMagazine32 :: "SharedOrderBookLedger \<Rightarrow> nat \<Rightarrow> nat \<Rightarrow> spin_event trial_event list \<Rightarrow> SharedOrderBookLedger option" where
  "BM_BufferPool_ThreadMagazine32 ledger threads iterations =
     run_lock_loop ReadBeforeCasSpinlock_step spin_holds spin_releases (spin_init 0) (RecordExecution 320 100) ledger threads
       (mag_loop iterations 32 0)"

section \<open>The arena\<close>

definition arena_fetch_add :: "nat \<Rightarrow> segment \<times> u64 list \<Rightarrow> segment \<times> u64 list" where
  "arena_fetch_add byte_offset s =
     (let (arena, prevs) = s; prev = load64 arena byte_offset
      in (store64 arena byte_offset (prev + 1), prev # prevs))"

definition BM_SplitLock_CacheLineBoundary :: "nat \<Rightarrow> nat \<Rightarrow> segment \<Rightarrow> segment \<times> u64 list" where
  "BM_SplitLock_CacheLineBoundary byte_offset iterations arena =
     (arena_fetch_add byte_offset ^^ (iterations * 1024)) (store64 arena byte_offset 0, [])"

section \<open>The copies of episode 09\<close>

definition Bench09_AtomicLoad_SharedScaling :: "nat \<Rightarrow> nat \<Rightarrow> u64 \<Rightarrow> tid list \<Rightarrow> (u64 \<times> u64 list) option" where
  "Bench09_AtomicLoad_SharedScaling threads iterations line sched =
     (if list_all (\<lambda>t. t < threads) sched
         \<and> list_all (\<lambda>t. count_list sched t = (if t = 0 then 1 else 0) + iterations * 1024) [0..<threads]
      then let (line, _, seen) = fold load_body sched (line, False, []) in Some (line, seen)
      else None)"

definition Bench09_AtomicRMW_TopologyPingPong :: "nat \<Rightarrow> u64 \<Rightarrow> tid list \<Rightarrow> (u64 \<times> u64 list) option" where
  "Bench09_AtomicRMW_TopologyPingPong iterations line =
     RunParallelBench 2 (iterations * 1024) fetch_add_prev (line, [])"

definition Bench09_AtomicRMW_FetchAdd :: "nat \<Rightarrow> nat \<Rightarrow> u64 \<Rightarrow> tid list \<Rightarrow> (u64 \<times> u64 list) option" where
  "Bench09_AtomicRMW_FetchAdd threads iterations line =
     RunParallelBench threads (iterations * 1024) fetch_add_prev (line, [])"

text \<open>\<open>cur\<close> and \<open>batch_end\<close> are locals of each thread; the state is \<open>g_global_trace_id\<close>, the locals and the ids.\<close>

definition Bench09_trace_id :: "tid \<Rightarrow> u64 \<times> (u64 \<times> u64) list \<times> (tid \<times> u64) list \<Rightarrow> u64 \<times> (u64 \<times> u64) list \<times> (tid \<times> u64) list" where
  "Bench09_trace_id t s =
     (let (trace_id, vars, ids) = s; (cur, batch_end) = vars ! t;
          (trace_id, cur, batch_end) =
            (if cur = batch_end then (trace_id + 64, trace_id, trace_id + 64) else (trace_id, cur, batch_end))
      in (trace_id, vars[t := (cur + 1, batch_end)], (t, cur) # ids))"

definition Bench09_TraceId_BatchedLease64 :: "nat \<Rightarrow> nat \<Rightarrow> u64 \<Rightarrow> tid list \<Rightarrow> (u64 \<times> (tid \<times> u64) list) option" where
  "Bench09_TraceId_BatchedLease64 threads iterations trace_id sched =
     map_option (\<lambda>(trace_id, _, ids). (trace_id, ids))
       (RunParallelBench threads (iterations * 1024) Bench09_trace_id (trace_id, replicate threads (0, 0), []) sched)"

definition Bench09Increment :: "u64 \<Rightarrow> u64 \<Rightarrow> shards \<Rightarrow> shards" where
  "Bench09Increment worker_id delta ss =
     (let i = unat (worker_id AND (64 - 1)) in ss[i := ss ! i + delta])"

definition Bench09_TelemetryCounter_ShardedAlignas64 :: "nat \<Rightarrow> nat \<Rightarrow> shards \<Rightarrow> tid list \<Rightarrow> shards option" where
  "Bench09_TelemetryCounter_ShardedAlignas64 threads iterations =
     RunParallelBench threads (iterations * 1024) (\<lambda>tid. Bench09Increment (of_nat tid) 1)"

definition Bench09RecordExecution :: "u64 \<Rightarrow> u64 \<Rightarrow> SharedOrderBookLedger \<Rightarrow> SharedOrderBookLedger" where
  "Bench09RecordExecution qty price_ticks l =
     (let s = ledger_sequence l + 1
      in l\<lparr>ledger_sequence := s, total_Fill_qty := total_Fill_qty l + qty,
           rolling_notional := rolling_notional l + qty * price_ticks,
           venue_buckets := map (\<lambda>idx. (venue_buckets l ! idx XOR (s + of_nat idx)) * 6364136223846793005
             + 1442695040888963407) [0..<length (venue_buckets l)]\<rparr>)"

definition Bench09_CASLoop_Naive :: "SharedOrderBookLedger \<Rightarrow> nat \<Rightarrow> nat \<Rightarrow> spin_event trial_event list \<Rightarrow> SharedOrderBookLedger option" where
  "Bench09_CASLoop_Naive ledger threads iterations =
     run_lock_loop NaiveCasSpinlock_step spin_holds spin_releases (spin_init 0) (Bench09RecordExecution 10 100) ledger threads iterations"

definition Bench09_CASLoop_ReadBeforeCAS :: "SharedOrderBookLedger \<Rightarrow> nat \<Rightarrow> nat \<Rightarrow> spin_event trial_event list \<Rightarrow> SharedOrderBookLedger option" where
  "Bench09_CASLoop_ReadBeforeCAS ledger threads iterations =
     run_lock_loop ReadBeforeCasSpinlock_step spin_holds spin_releases (spin_init 0) (Bench09RecordExecution 10 100) ledger threads iterations"

definition Bench09_BufferPool_ThreadMagazine32 :: "SharedOrderBookLedger \<Rightarrow> nat \<Rightarrow> nat \<Rightarrow> spin_event trial_event list \<Rightarrow> SharedOrderBookLedger option" where
  "Bench09_BufferPool_ThreadMagazine32 ledger threads iterations =
     run_lock_loop ReadBeforeCasSpinlock_step spin_holds spin_releases (spin_init 0) (Bench09RecordExecution 320 100) ledger threads
       (mag_loop iterations 32 0)"

definition Bench09_SplitLock_CacheLineBoundary :: "nat \<Rightarrow> nat \<Rightarrow> segment \<Rightarrow> segment \<times> u64 list" where
  "Bench09_SplitLock_CacheLineBoundary byte_offset iterations arena =
     (arena_fetch_add byte_offset ^^ (iterations * 1024)) (store64 arena byte_offset 0, [])"

section \<open>What they leave\<close>

lemma bench_range:
  assumes "0 < m" and "0 < n" and "\<And>sched. all_done m n sched \<Longrightarrow> fold body sched s = r"
  shows "range (RunParallelBench m n body s) = {None, Some r}"
proof (rule only_outcome)
  show "RunParallelBench m n body s [] = None"
    using assms(1,2) by (auto simp: RunParallelBench_def all_done_def list_all_iff)
  show "\<exists>sched r. RunParallelBench m n body s sched = Some r"
    using bench_completes [of m n] by (auto simp: RunParallelBench_def)
qed (use assms(3) in \<open>auto simp: RunParallelBench_def split: if_splits\<close>)

text \<open>The loads see the old value up to the store and 42 from then on.\<close>

lemma loads_before: "0 \<notin> set sched \<Longrightarrow> fold load_body sched (v, False, seen) = (v, False, replicate (length sched) v @ seen)"
  by (induction sched arbitrary: seen) (auto simp: load_body_def replicate_app_Cons_same)

lemma loads_after: "fold load_body sched (v, True, seen) = (v, True, replicate (length sched) v @ seen)"
  by (induction sched arbitrary: seen) (auto simp: load_body_def replicate_app_Cons_same)

lemma loads_run:
  assumes "0 < m" and "BM_AtomicLoad_SharedScaling m n v sched = Some (line, seen)"
  shows "line = 42 \<and> (\<exists>late early. late + early = m * n * 1024 \<and> n * 1024 \<le> late
    \<and> seen = replicate late 42 @ replicate early v)"
proof -
  have ok: "\<forall>t \<in> set sched. t < m" "\<forall>t < m. count_list sched t = (if t = 0 then 1 else 0) + n * 1024"
    using assms(2) by (auto simp: BM_AtomicLoad_SharedScaling_def list_all_iff split: if_splits prod.splits)
  have "count_list sched 0 \<noteq> 0" using ok(2) assms(1) by auto
  then have "0 \<in> set sched" by (simp add: count_list_0_iff)
  then obtain pre post where sched: "sched = pre @ 0 # post" "0 \<notin> set pre" by (meson split_list_first)
  have run: "fold load_body sched (v, False, []) = (42, True, replicate (length post) 42 @ replicate (length pre) v)"
    using sched(2) by (simp add: sched(1) loads_before loads_after load_body_def)
  have "count_list post 0 = n * 1024" using ok(2) assms(1) sched by (auto simp: count_list_0_iff)
  then have late: "n * 1024 \<le> length post" using count_le_length [of post 0] by simp
  have "length (pre @ post) = m * (n * 1024)"
  proof (rule length_by_counts)
    show "\<forall>t \<in> set (pre @ post). t < m" using ok(1) by (auto simp: sched(1))
    show "list_all (\<lambda>t. count_list (pre @ post) t = n * 1024) [0..<m]"
      using ok(2) by (auto simp: sched(1) list_all_iff split: if_splits)
  qed
  moreover have "line = 42 \<and> seen = replicate (length post) 42 @ replicate (length pre) v"
    using assms(2) run by (simp add: BM_AtomicLoad_SharedScaling_def split: if_splits)
  ultimately show ?thesis using late by (intro conjI exI [of _ "length post"] exI [of _ "length pre"]) simp_all
qed

lemma loads_complete: "0 < m \<Longrightarrow> \<exists>sched r. BM_AtomicLoad_SharedScaling m n v sched = Some r"
  using count_round_robin [of _ m "n * 1024"]
  by (intro exI [of _ "0 # concat (replicate (n * 1024) [0..<m])"])
    (auto simp: BM_AtomicLoad_SharedScaling_def list_all_iff split: prod.splits)

lemma fetch_add_prevs:
  "fold fetch_add_prev sched (v, ps) = (v + of_nat (length sched), rev (map (\<lambda>k. v + of_nat k) [0..<length sched]) @ ps)"
proof (induction sched rule: rev_induct)
  case (snoc t sched)
  then show ?case by (simp add: fetch_add_prev_def algebra_simps)
qed simp

lemma fetch_add_range:
  assumes "0 < m" and "0 < n"
  shows "range (RunParallelBench m n fetch_add_prev (v, []))
    = {None, Some (v + of_nat (m * n), rev (map (\<lambda>k. v + of_nat k) [0..<m * n]))}"
  by (rule bench_range [OF assms]) (simp add: fetch_add_prevs done_length del: of_nat_mult)

lemma distinct_from: "k \<le> 2 ^ 64 \<Longrightarrow> distinct (map (\<lambda>i. v + of_nat i :: u64) [0..<k])"
proof -
  assume k: "k \<le> 2 ^ 64"
  have "i = j" if "v + of_nat i = v + (of_nat j :: u64)" "i < k" "j < k" for i j
  proof -
    have "(of_nat i :: u64) = of_nat j" using that(1) by simp
    then have "unat (of_nat i :: u64) = unat (of_nat j :: u64)" by simp
    then show "i = j" using that k by (simp add: unsigned_of_nat take_bit_nat_eq_self)
  qed
  then show ?thesis by (auto simp: distinct_map inj_on_def)
qed

text \<open>
  The generator at another watermark hands out the ids from there on: a run shifted by \<open>g\<close>, where a used-up
  lease matches any other used-up lease.
\<close>

definition shifted_lease :: "u64 \<Rightarrow> ThreadLease \<Rightarrow> ThreadLease \<Rightarrow> bool" where
  "shifted_lease g l l' \<longleftrightarrow> (cur l = batch_end l \<and> cur l' = batch_end l') \<or> l' = \<lparr>cur = cur l + g, batch_end = batch_end l + g\<rparr>"

definition shifted :: "u64 \<Rightarrow> id_clients \<Rightarrow> id_clients \<Rightarrow> bool" where
  "shifted g s s' \<longleftrightarrow> global_id s' = global_id s + g \<and> list_all2 (shifted_lease g) (leases s) (leases s')
     \<and> issued s' = map (\<lambda>(t, i). (t, i + g)) (issued s)"

lemma NextId_shifted:
  assumes "shifted_lease g l l'" and "NextId b w l = (i, w1, l1)"
  shows "\<exists>l1'. NextId b (w + g) l' = (i + g, w1 + g, l1') \<and> shifted_lease g l1 l1'"
  using assms by (auto simp: NextId_def shifted_lease_def Let_def algebra_simps split: if_splits)

lemma id_call_shifted:
  assumes "shifted g s s'" and "id_call b s t = Some q"
  shows "\<exists>q'. id_call b s' t = Some q' \<and> shifted g q q'"
proof -
  obtain i w l where n: "NextId b (global_id s) (leases s ! t) = (i, w, l)" by (metis prod_cases3)
  have t: "t < length (leases s)" using assms(2) by (simp add: id_call_def split: if_splits)
  then have "shifted_lease g (leases s ! t) (leases s' ! t)" "length (leases s') = length (leases s)"
    using assms(1) by (auto simp: shifted_def list_all2_conv_all_nth)
  with NextId_shifted [OF _ n] t show ?thesis
    using assms by (force simp: id_call_def n shifted_def intro: list_all2_update_cong)
qed

lemma id_run_shifted: "shifted g s s' \<Longrightarrow> run (id_call b) s ts = Some q \<Longrightarrow> \<exists>q'. run (id_call b) s' ts = Some q' \<and> shifted g q q'"
proof (induction ts arbitrary: s s')
  case (Cons t ts)
  then obtain p where p: "id_call b s t = Some p" "run (id_call b) p ts = Some q" by (auto split: option.splits)
  with id_call_shifted [OF Cons.prems(1)] Cons.IH show ?case by fastforce
qed auto

lemma distinct_below:
  fixes xs :: "u64 list"
  assumes "distinct xs" and "length xs = k" and "\<forall>x \<in> set xs. unat x < k"
  shows "unat ` set xs = {..<k}"
proof (rule card_subset_eq)
  have "inj_on unat (set xs)" by (auto simp: inj_on_def word_unat_eq_iff)
  then show "card (unat ` set xs) = card {..<k}"
    using assms(1,2) by (simp add: card_image distinct_card)
qed (use assms(3) in auto)

lemma leases_run:
  assumes "m * n * 65536 < 2 ^ 64" and "BM_TraceId_BatchedLease64 m n w sched = Some (w', ids)"
  shows "w' = w + of_nat (m * n * 1024) \<and> length ids = m * n * 1024 \<and> distinct (map snd ids)
    \<and> snd ` set ids = (\<lambda>k. w + of_nat k) ` {..<m * n * 1024} \<and> (\<forall>t < m. count_list (map fst ids) t = n * 1024)"
proof -
  let ?s' = "\<lparr>global_id = w, leases = replicate m default_lease, issued = []\<rparr>"
  let ?N = "m * n * 1024"
  obtain q' where q': "run (id_call 64) ?s' sched = Some q'" "w' = GlobalWatermark q'" "ids = issued q'" and d: "all_done m (n * 1024) sched"
    using assms(2) by (auto simp: BM_TraceId_BatchedLease64_def split: if_splits)
  have "\<forall>t \<in> set sched. t < length (leases (id_clients_init m))"
    using d by (auto simp: all_done_def list_all_iff id_clients_init_def)
  then obtain q where q: "run (id_call 64) (id_clients_init m) sched = Some q" using id_run_total by blast
  have "shifted w (id_clients_init m) ?s'"
    by (auto simp: shifted_def id_clients_init_def list_all2_conv_all_nth shifted_lease_def default_lease_def)
  with id_run_shifted [OF _ q] q'(1) have sh: "shifted w q q'" by fastforce
  have len: "length sched = ?N" using done_length [OF d] by simp
  then have room: "unat (64 :: u64) * length sched < 2 ^ 64" using assms(1) by simp
  note r = id_reachable [OF _ room q]
  have "(63 + (16 * n) * 64) div 64 = 16 * n + 63 div 64" by (rule div_mult_self1) simp
  then have batches: "(63 + n * 1024) div 64 = 16 * n" by (simp add: mult.commute)
  have "unat (GlobalWatermark q) = (\<Sum>t < m. n * 1024)"
    using r(4) batches by (simp add: done_count [OF d])
  then have wm: "unat (GlobalWatermark q) = ?N" by simp
  have inv: "distinct (map snd (issued q))" "\<forall>i \<in> snd ` set (issued q). i < GlobalWatermark q"
    using r(1) by (auto simp: id_inv_def GlobalWatermark_def)
  have fsts: "map fst (issued q) = rev sched" using r(2) by simp
  then have len': "length (issued q) = ?N" by (metis len length_map length_rev)
  have "unat ` set (map snd (issued q)) = {..<?N}"
    using inv len' wm by (intro distinct_below) (auto simp: word_less_nat_alt)
  then have "(of_nat ` unat ` set (map snd (issued q)) :: u64 set) = of_nat ` {..<?N}" by simp
  then have whole: "snd ` set (issued q) = of_nat ` {..<?N}" by (simp add: image_image)
  have ids: "ids = map (\<lambda>(t, i). (t, i + w)) (issued q)" "w' = GlobalWatermark q + w"
    using sh q'(2,3) by (simp_all add: shifted_def GlobalWatermark_def)
  have snds: "map snd ids = map (\<lambda>i. i + w) (map snd (issued q))" "map fst ids = rev sched"
    by (simp_all add: ids(1) split_beta comp_def flip: fsts)
  have "w' = w + of_nat ?N"
    using wm ids(2) by (metis add.commute of_nat_unat ucast_id)
  moreover have "snd ` set ids = (\<lambda>k. w + of_nat k) ` {..<?N}"
  proof -
    have "snd ` set ids = (\<lambda>i. i + w) ` snd ` set (issued q)"
      using arg_cong [OF snds(1), of set] by (simp only: set_map)
    then show ?thesis by (simp add: whole image_image add.commute)
  qed
  moreover have "distinct (map snd ids)" unfolding snds(1) using inv(1) by (simp add: distinct_map inj_on_def)
  moreover have "length ids = ?N" using len' by (simp add: ids(1))
  ultimately show ?thesis by (simp add: snds(2) done_count [OF d] del: of_nat_mult)
qed

lemma leases_complete: "\<exists>sched r. BM_TraceId_BatchedLease64 m n w sched = Some r"
proof -
  let ?s = "\<lparr>global_id = w, leases = replicate m default_lease, issued = []\<rparr>"
  obtain sched where d: "all_done m (n * 1024) sched" using bench_completes by blast
  then obtain q where "run (id_call 64) ?s sched = Some q"
    using id_run_total [of sched ?s 64] by (auto simp: all_done_def list_all_iff)
  with d show ?thesis by (auto simp: BM_TraceId_BatchedLease64_def)
qed

text \<open>The shards: up to 64 threads never meet in one.\<close>

lemma shards_fold:
  assumes "all_done m n sched" and "m \<le> 64" and "length ss = 64"
  shows "fold (\<lambda>tid. Increment 64 (of_nat tid) 1) sched ss = map (\<lambda>i. ss ! i + (if i < m then of_nat n else 0)) [0..<64]"
proof -
  have small: "list_all (\<lambda>t. t < 64) sched" by (rule done_threads [OF assms(1,2)])
  have "fold (\<lambda>tid. Increment 64 (of_nat tid) 1) sched ss = fold sharded_body sched ss"
    using small by (intro fold_cong) (auto simp: list_all_iff Increment_sharded_body)
  also have "\<dots> = map (\<lambda>i. ss ! i + of_nat (count_list sched i)) [0..<64]" by (rule sharded_fold [OF small assms(3)])
  also have "\<dots> = map (\<lambda>i. ss ! i + (if i < m then of_nat n else 0)) [0..<64]"
    by (rule map_cong [OF refl]) (simp add: done_count [OF assms(1)])
  finally show ?thesis .
qed

lemma store_store:
  assumes "length bs = length bs'" and "length bs' \<le> length m"
  shows "store (store m a bs) a bs' = store m a bs'"
proof (cases "m = []")
  case False
  then have ne: "store m a bs \<noteq> []" by (metis length_store length_0_conv)
  show ?thesis
  proof (rule nth_equalityI)
    fix x
    assume "x < length (store (store m a bs) a bs')"
    then have x: "x mod length m = x" by simp
    have "peek (store (store m a bs) a bs') x = peek (store m a bs') x"
    proof (cases "\<exists>k < length bs. (a + k) mod length m = x mod length m")
      case True
      then obtain k where k: "k < length bs" "(a + k) mod length m = x mod length m" by blast
      then have at: "peek s x = peek s (a + k)" if "length s = length m" for s using that by (simp add: peek_def)
      show ?thesis using k(1) assms \<open>m \<noteq> []\<close> ne by (simp add: at peek_store_inside)
    next
      case False
      with \<open>m \<noteq> []\<close> ne assms show ?thesis by (subst (1 2) peek_store_outside) (auto simp: peek_store_outside)
    qed
    then show "store (store m a bs) a bs' ! x = store m a bs' ! x" by (simp add: peek_def x)
  qed simp
qed (use assms in simp)

lemma store64_store64: "8 \<le> length m \<Longrightarrow> store64 (store64 m a v) a w = store64 m a w"
  by (simp add: store64_def store_store)

text \<open>The atomic counts wherever it lies; only where it straddles a line does the processor lock the bus.\<close>

lemma arena_counts:
  assumes "8 \<le> length arena"
  shows "(arena_fetch_add off ^^ n) (store64 arena off 0, []) = (store64 arena off (of_nat n), rev (map of_nat [0..<n]))"
proof (induction n)
  case (Suc n)
  then show ?case using assms by (simp add: arena_fetch_add_def Let_def load64_store64 store64_store64 add.commute)
qed simp

lemma arena_outside:
  assumes "length arena = 256" and "off + 8 \<le> 256" and "x < 256" and "x < off \<or> off + 8 \<le> x"
  shows "store64 arena off v ! x = arena ! x"
proof -
  have "peek (store arena off (le_bytes 8 v)) x = peek arena x"
    using assms by (intro peek_store_outside) auto
  then show ?thesis using assms by (simp add: peek_def store64_def)
qed

lemma split_offsets: "off \<in> {0, 56, 60} \<Longrightarrow> split_lock (128 * block + off) 8 \<longleftrightarrow> off = 60"
proof -
  have "(c + 64 * (2 * block)) div 64 = 2 * block + c div 64" for c :: nat by (rule div_mult_self2) simp
  then have line: "(128 * block + c) div 64 = 2 * block + c div 64" for c :: nat by (simp add: add.commute)
  show "off \<in> {0, 56, 60} \<Longrightarrow> split_lock (128 * block + off) 8 \<longleftrightarrow> off = 60"
    using line [of off] line [of "off + 7"] by (auto simp: split_lock_def)
qed

text \<open>The copies of episode 09.\<close>

definition lease_vars :: "id_clients \<Rightarrow> u64 \<times> (u64 \<times> u64) list \<times> (tid \<times> u64) list" where
  "lease_vars s = (global_id s, map (\<lambda>l. (cur l, batch_end l)) (leases s), issued s)"

lemma trace_id_call: "id_call 64 s t = Some q \<Longrightarrow> Bench09_trace_id t (lease_vars s) = lease_vars q"
  by (auto simp: id_call_def NextId_def Bench09_trace_id_def lease_vars_def Let_def map_update split: if_splits)

lemma trace_id_run: "run (id_call 64) s ts = Some q \<Longrightarrow> fold Bench09_trace_id ts (lease_vars s) = lease_vars q"
  by (induction ts arbitrary: s) (auto simp: trace_id_call split: option.splits)

lemma bench09_leases: "Bench09_TraceId_BatchedLease64 m n w = BM_TraceId_BatchedLease64 m n w"
proof
  fix sched
  let ?s = "\<lparr>global_id = w, leases = replicate m default_lease, issued = []\<rparr>"
  have init: "(w, replicate m (0, 0), []) = lease_vars ?s" by (simp add: lease_vars_def default_lease_def)
  show "Bench09_TraceId_BatchedLease64 m n w sched = BM_TraceId_BatchedLease64 m n w sched"
  proof (cases "all_done m (n * 1024) sched")
    case True
    then obtain q where q: "run (id_call 64) ?s sched = Some q"
      using id_run_total [of sched ?s 64] by (auto simp: all_done_def list_all_iff)
    show ?thesis using True
      by (simp add: Bench09_TraceId_BatchedLease64_def BM_TraceId_BatchedLease64_def RunParallelBench_def q init trace_id_run [OF q])
        (simp add: lease_vars_def GlobalWatermark_def)
  qed (simp add: Bench09_TraceId_BatchedLease64_def BM_TraceId_BatchedLease64_def RunParallelBench_def)
qed

lemma bench09_increment: "Bench09Increment = Increment 64"
  by (simp add: fun_eq_iff Bench09Increment_def Increment_def shard_index_def)

lemma bench09_record: "Bench09RecordExecution = RecordExecution"
  by (simp add: fun_eq_iff Bench09RecordExecution_def RecordExecution_def)

lemma bench09_same:
  "Bench09_AtomicLoad_SharedScaling = BM_AtomicLoad_SharedScaling"
  "Bench09_AtomicRMW_FetchAdd = BM_AtomicRMW_FetchAdd"
  "Bench09_AtomicRMW_TopologyPingPong = BM_AtomicRMW_TopologyPingPong"
  "Bench09_TraceId_BatchedLease64 = BM_TraceId_BatchedLease64"
  "Bench09_TelemetryCounter_ShardedAlignas64 = BM_TelemetryCounter_ShardedAlignas64"
  "Bench09_CASLoop_Naive = BM_CASLoop_Naive"
  "Bench09_CASLoop_ReadBeforeCAS = BM_CASLoop_ReadBeforeCAS"
  "Bench09_BufferPool_ThreadMagazine32 = BM_BufferPool_ThreadMagazine32"
  "Bench09_SplitLock_CacheLineBoundary = BM_SplitLock_CacheLineBoundary"
  by (simp_all add: fun_eq_iff Bench09_AtomicLoad_SharedScaling_def BM_AtomicLoad_SharedScaling_def
      Bench09_AtomicRMW_FetchAdd_def BM_AtomicRMW_FetchAdd_def Bench09_AtomicRMW_TopologyPingPong_def BM_AtomicRMW_TopologyPingPong_def
      bench09_leases Bench09_TelemetryCounter_ShardedAlignas64_def BM_TelemetryCounter_ShardedAlignas64_def bench09_increment
      Bench09_CASLoop_Naive_def BM_CASLoop_Naive_def Bench09_CASLoop_ReadBeforeCAS_def BM_CASLoop_ReadBeforeCAS_def
      Bench09_BufferPool_ThreadMagazine32_def BM_BufferPool_ThreadMagazine32_def bench09_record
      Bench09_SplitLock_CacheLineBoundary_def BM_SplitLock_CacheLineBoundary_def)

section \<open>Properties\<close>

lemma mag_refills_32: "mag_loop n 32 0 = (n - 1) div 32"
  using mag_loop_refills [of 32 n 0] by simp

lemma magazine_range:
  "range (BM_BufferPool_ThreadMagazine32 l m n) \<subseteq> {None, Some ((RecordExecution 320 100 ^^ (m * ((n - 1) div 32))) l)}"
  "Some ((RecordExecution 320 100 ^^ (m * ((n - 1) div 32))) l) \<in> range (BM_BufferPool_ThreadMagazine32 l m n)"
proof -
  let ?r = "(RecordExecution 320 100 ^^ (m * ((n - 1) div 32))) l"
  have ok: "r = ?r" if "BM_BufferPool_ThreadMagazine32 l m n es = Some r" for es r
    using that unfolding BM_BufferPool_ThreadMagazine32_def mag_refills_32 by (rule rbcas.lock_loop_ok)
  then show "range (BM_BufferPool_ThreadMagazine32 l m n) \<subseteq> {None, Some ?r}"
    by (intro image_subsetI) (case_tac "BM_BufferPool_ThreadMagazine32 l m n x"; blast)
  obtain es r where "BM_BufferPool_ThreadMagazine32 l m n es = Some r"
    unfolding BM_BufferPool_ThreadMagazine32_def
    using rbcas_solo.lock_loop_completes [OF spin_free_init, of "RecordExecution 320 100" l m "mag_loop n 32 0"] by blast
  with ok show "Some ?r \<in> range (BM_BufferPool_ThreadMagazine32 l m n)" by (metis rangeI)
qed

text \<open>
  C31. The benchmarks on cache-line contention, of \<open>common/mesi_coherency\<close> and, equal to them, of episode 09. Whatever
  the interleaving, no increment and no ledger entry is lost: the loads see the old value and then 42, the
  \<open>fetch_add\<close>s return every value once, 1024 \<open>n\<close> leased ids per thread are exactly the next ones from the watermark, each of up to
  64 threads counts in a shard of its own, the locked ledger has an entry per iteration and the magazine one
  per 32, and the atomic in the arena counts at every offset but touches two cache lines only at 60.
\<close>

theorem mesi_benchmarks:
  assumes "0 < m" and "0 < n" and "m \<le> 64" and "m * n * 65536 < 2 ^ 64" and "length ss = 64" and "length arena = 256"
    and "off \<in> {0, 56, 60}"
  shows "(\<forall>sched line seen. BM_AtomicLoad_SharedScaling m n v sched = Some (line, seen) \<longrightarrow> line = 42
        \<and> (\<exists>late early. late + early = m * n * 1024 \<and> n * 1024 \<le> late \<and> seen = replicate late 42 @ replicate early v))
    \<and> range (BM_AtomicRMW_FetchAdd m n v) = {None, Some (v + of_nat (m * (n * 1024)), rev (map (\<lambda>k. v + of_nat k) [0..<m * (n * 1024)]))}
    \<and> range (BM_AtomicRMW_TopologyPingPong n v) = {None, Some (v + of_nat (2 * (n * 1024)), rev (map (\<lambda>k. v + of_nat k) [0..<2 * (n * 1024)]))}
    \<and> distinct (map (\<lambda>k. v + of_nat k) [0..<m * (n * 1024)])
    \<and> (\<forall>sched w' ids. BM_TraceId_BatchedLease64 m n w sched = Some (w', ids) \<longrightarrow>
        w' = w + of_nat (m * n * 1024) \<and> length ids = m * n * 1024 \<and> distinct (map snd ids)
        \<and> snd ` set ids = (\<lambda>k. w + of_nat k) ` {..<m * n * 1024} \<and> (\<forall>t < m. count_list (map fst ids) t = n * 1024))
    \<and> range (BM_TelemetryCounter_ShardedAlignas64 m n ss)
        = {None, Some (map (\<lambda>i. ss ! i + (if i < m then of_nat (n * 1024) else 0)) [0..<64])}
    \<and> range (BM_CASLoop_Naive l m n) = {None, Some ((RecordExecution 10 100 ^^ (m * n)) l)}
    \<and> range (BM_CASLoop_ReadBeforeCAS l m n) = {None, Some ((RecordExecution 10 100 ^^ (m * n)) l)}
    \<and> total_Fill_qty ((RecordExecution 10 100 ^^ (m * n)) l) = total_Fill_qty l + of_nat (m * n) * 10
    \<and> range (BM_BufferPool_ThreadMagazine32 l m n) \<subseteq> {None, Some ((RecordExecution 320 100 ^^ (m * ((n - 1) div 32))) l)}
    \<and> Some ((RecordExecution 320 100 ^^ (m * ((n - 1) div 32))) l) \<in> range (BM_BufferPool_ThreadMagazine32 l m n)
    \<and> BM_SplitLock_CacheLineBoundary off n arena = (store64 arena off (of_nat (n * 1024)), rev (map of_nat [0..<n * 1024]))
    \<and> (\<forall>x < 256. x < off \<or> off + 8 \<le> x \<longrightarrow> fst (BM_SplitLock_CacheLineBoundary off n arena) ! x = arena ! x)
    \<and> (split_lock (128 * block + off) 8 \<longleftrightarrow> off = 60)
    \<and> Bench09_TraceId_BatchedLease64 = BM_TraceId_BatchedLease64
    \<and> Bench09_TelemetryCounter_ShardedAlignas64 = BM_TelemetryCounter_ShardedAlignas64
    \<and> Bench09_BufferPool_ThreadMagazine32 = BM_BufferPool_ThreadMagazine32"
proof -
  have n: "0 < n * 1024" using assms(2) by simp
  have shards: "range (BM_TelemetryCounter_ShardedAlignas64 m n ss)
      = {None, Some (map (\<lambda>i. ss ! i + (if i < m then of_nat (n * 1024) else 0)) [0..<64])}"
    unfolding BM_TelemetryCounter_ShardedAlignas64_def
    by (rule bench_range [OF assms(1) n]) (rule shards_fold [OF _ assms(3,5)])
  have arena: "BM_SplitLock_CacheLineBoundary off n arena = (store64 arena off (of_nat (n * 1024)), rev (map of_nat [0..<n * 1024]))"
    unfolding BM_SplitLock_CacheLineBoundary_def by (rule arena_counts) (simp add: assms(6))
  have outside: "\<forall>x < 256. x < off \<or> off + 8 \<le> x \<longrightarrow> fst (BM_SplitLock_CacheLineBoundary off n arena) ! x = arena ! x"
    using assms(6,7) unfolding arena fst_conv by (intro allI impI arena_outside) auto
  have "m * (n * 1024) \<le> m * n * 65536" by simp
  with assms(4) have "m * (n * 1024) \<le> 2 ^ 64" by linarith
  note dist = distinct_from [OF this, of v]
  have cas: "range (BM_CASLoop_Naive l m n) = {None, Some ((RecordExecution 10 100 ^^ (m * n)) l)}"
    "range (BM_CASLoop_ReadBeforeCAS l m n) = {None, Some ((RecordExecution 10 100 ^^ (m * n)) l)}"
    unfolding BM_CASLoop_Naive_def BM_CASLoop_ReadBeforeCAS_def by (rule lock_loop_outcome(2) [OF assms(1,2)]; simp)+
  have two: "0 < (2 :: nat)" by simp
  have total: "total_Fill_qty ((RecordExecution 10 100 ^^ (m * n)) l) = total_Fill_qty l + of_nat (m * n) * 10"
    using RecordExecution_totals by blast
  have loads: "\<forall>sched line seen. BM_AtomicLoad_SharedScaling m n v sched = Some (line, seen) \<longrightarrow> line = 42
      \<and> (\<exists>late early. late + early = m * n * 1024 \<and> n * 1024 \<le> late \<and> seen = replicate late 42 @ replicate early v)"
    by (intro allI impI) (rule loads_run [OF assms(1)])
  have ids: "\<forall>sched w' ids. BM_TraceId_BatchedLease64 m n w sched = Some (w', ids) \<longrightarrow>
      w' = w + of_nat (m * n * 1024) \<and> length ids = m * n * 1024 \<and> distinct (map snd ids)
      \<and> snd ` set ids = (\<lambda>k. w + of_nat k) ` {..<m * n * 1024} \<and> (\<forall>t < m. count_list (map fst ids) t = n * 1024)"
    by (intro allI impI) (rule leases_run [OF assms(4)])
  show ?thesis
    by (intro conjI loads ids shards arena outside dist cas total magazine_range split_offsets [OF assms(7)] bench09_same
        fetch_add_range [OF assms(1) n, folded BM_AtomicRMW_FetchAdd_def] fetch_add_range [OF two n, folded BM_AtomicRMW_TopologyPingPong_def])
qed

theorem mesi_benchmarks_witness:
  "range (BM_CASLoop_Naive empty_ledger 16 1) = {None, Some ((RecordExecution 10 100 ^^ 16) empty_ledger)}
   \<and> (\<exists>sched w' ids. BM_TraceId_BatchedLease64 16 1 7 sched = Some (w', ids) \<and> w' = 16391 \<and> distinct (map snd ids))"
proof -
  have "0 < (16 :: nat)" "0 < (1 :: nat)" "(16 :: nat) \<le> 64" "16 * 1 * 65536 < (2 :: nat) ^ 64"
    "length (replicate 64 0 :: shards) = 64" "length (replicate 256 0 :: segment) = 256" "(60 :: nat) \<in> {0, 56, 60}"
    by simp_all
  note all = mesi_benchmarks [OF this, where w = 7 and l = empty_ledger and v = 0 and block = 0]
  obtain sched w' ids where run: "BM_TraceId_BatchedLease64 16 1 7 sched = Some (w', ids)"
    using leases_complete [of 16 1 7] by auto
  have "w' = 7 + of_nat (16 * 1 * 1024) \<and> distinct (map snd ids)"
    using all [THEN conjunct2, THEN conjunct2, THEN conjunct2, THEN conjunct2, THEN conjunct1, rule_format, OF run]
    by (elim conjE) (rule conjI)
  then have ids: "w' = 16391 \<and> distinct (map snd ids)" by simp
  have "range (BM_CASLoop_Naive empty_ledger 16 1) = {None, Some ((RecordExecution 10 100 ^^ (16 * 1)) empty_ledger)}"
    using all [THEN conjunct2, THEN conjunct2, THEN conjunct2, THEN conjunct2, THEN conjunct2, THEN conjunct2, THEN conjunct1] .
  then show ?thesis unfolding mult_1_right using run ids by blast
qed

end
