(* ===== verification/JitBench.thy ===== *)
theory JitBench
  imports Jit
begin

text \<open>
  \<open>common/cpp_vs_java_jit/cpp_vs_java_jit_benchmark.cc\<close> (and its copy in episode 13): the benchmarks of battles 1 and 2 and the
  command line. A benchmark of battle 1 gives the net of each of its iterations; one of battle 2 the
  exposure every iteration computes. The benchmark library and \<open>std::shuffle\<close> are parameters.
\<close>

section \<open>Battle 1\<close>

text \<open>The tags of the three traffic profiles, by the argument of the benchmark.\<close>

definition naive_tags :: "int \<Rightarrow> u8 list" where
  "naive_tags mode =
     map (\<lambda>i. if mode = 0 then (if i mod 1000 = 999 then 1 else 0) else of_nat (i mod 5)) [0..<kBattle1BatchSize]"

definition BM_Battle1_Cpp_NaiveOop_HeapAndVirtual :: "int \<Rightarrow> nat \<Rightarrow> i64 list" where
  "BM_Battle1_Cpp_NaiveOop_HeapAndVirtual mode iterations =
     (let tags = naive_tags mode
      in snd (fold (\<lambda>_ (idx, nets).
           let tag = tags ! (and idx (kBattle1BatchSize - 1)); idx = idx + 1;
               res = ProcessHeapAlloc (MakeEventByType tag (of_nat (100 + and idx 63)) (of_nat (10 + and idx 15)) 42)
           in (idx, nets @ [notional res - fee_ticks res])) [0..<iterations] (0, [])))"

definition virtual_ring :: "int \<Rightarrow> event list" where
  "virtual_ring mode =
     map (\<lambda>i. let tag = (if mode = 0 then (if i mod 1000 = 999 then 1 else 0)
                         else if mode = 1 then of_nat (and i 1) else of_nat (i mod 5))
              in MakeEventByType tag (of_nat (100 + and i 63)) (of_nat (10 + and i 15)) 42) [0..<kBattle1BatchSize]"

definition BM_Battle1_Cpp_CrossTuVirtual_NoAlloc :: "int \<Rightarrow> nat \<Rightarrow> i64 list" where
  "BM_Battle1_Cpp_CrossTuVirtual_NoAlloc mode iterations =
     (let ring = virtual_ring mode
      in snd (fold (\<lambda>_ (idx, nets). (idx + 1, nets @ [ProcessNoAlloc (ring ! (and idx (kBattle1BatchSize - 1)))]))
           [0..<iterations] (0, [])))"

definition flat_ring :: "int \<Rightarrow> flat_event list" where
  "flat_ring mode =
     map (\<lambda>i. let tag = (if mode = 0 then (if i mod 1000 = 999 then 1 else 0) else of_nat (i mod 5))
              in \<lparr>price = of_nat (100 + and i 63), qty = of_nat (10 + and i 15), symbol_id = 42, type_tag = tag\<rparr>)
       [0..<kBattle1BatchSize]"

definition BM_Battle1_Cpp_IdiomaticFlatValue :: "int \<Rightarrow> nat \<Rightarrow> i64 list" where
  "BM_Battle1_Cpp_IdiomaticFlatValue mode iterations =
     (let ring = flat_ring mode
      in snd (fold (\<lambda>_ (idx, nets). (idx + 1, nets @ [ProcessInline (ring ! (and idx (kBattle1BatchSize - 1)))]))
           [0..<iterations] (0, [])))"

section \<open>Battle 2\<close>

definition BM_Battle2_PointerArray_ChurnedHeap :: "(nat list \<Rightarrow> nat list) \<Rightarrow> nat \<Rightarrow> i64 list" where
  "BM_Battle2_PointerArray_ChurnedHeap shuffle iterations =
     (let storage = battle2_storage kBattle2OrderCount; ptr_list = shuffle (battle2_ptrs kBattle2OrderCount)
      in map (\<lambda>_. pointer_exposure storage ptr_list kBattle2OrderCount) [0..<iterations])"

definition BM_Battle2_StdVector_ContiguousAoS :: "nat \<Rightarrow> i64 list" where
  "BM_Battle2_StdVector_ContiguousAoS iterations =
     (let orders = battle2_storage kBattle2OrderCount
      in map (\<lambda>_. contiguous_exposure orders kBattle2OrderCount) [0..<iterations])"

definition BM_Battle2_SIMD_StructureOfArrays :: "nat \<Rightarrow> i64 list" where
  "BM_Battle2_SIMD_StructureOfArrays iterations =
     (let soa = OrderBookSoA kBattle2OrderCount
      in map (\<lambda>_. soa_exposure soa kBattle2OrderCount) [0..<iterations])"

section \<open>The command line\<close>

text \<open>What \<open>main\<close> runs and the code it exits with; \<open>unrecognized\<close> is \<open>ReportUnrecognizedArguments\<close>.\<close>

datatype bench_run = TailReport | Benchmarks | Usage

definition jit_main :: "(string list \<Rightarrow> bool) \<Rightarrow> string list \<Rightarrow> bench_run \<times> int" where
  "jit_main unrecognized args =
     (if list_ex (\<lambda>arg. arg = ''--run_battle3_tail'') (tl args) then (TailReport, 0)
      else if unrecognized args then (Usage, 1)
      else (Benchmarks, 0))"

section \<open>Lemmas\<close>

lemma ring_walk:
  "fold (\<lambda>_ (idx, nets). (idx + 1, nets @ [f idx])) [0..<n] (0, []) = (n, map f [0..<n :: nat])"
  by (induction n) simp_all

definition tag_of :: "int \<Rightarrow> nat \<Rightarrow> u8" where
  "tag_of mode i = (if mode = 0 then (if i mod 1000 = 999 then 1 else 0) else of_nat (i mod 5))"

lemma flat_nets:
  "BM_Battle1_Cpp_IdiomaticFlatValue mode n
   = map (\<lambda>i. ProcessInline \<lparr>price = event_price i, qty = event_qty i, symbol_id = 42, type_tag = tag_of mode (i mod 4096)\<rparr>) [0..<n]"
proof -
  have "flat_ring mode = map (\<lambda>i. \<lparr>price = event_price i, qty = event_qty i, symbol_id = 42, type_tag = tag_of mode i\<rparr>) [0..<kBattle1BatchSize]"
    by (simp add: flat_ring_def tag_of_def event_price_def event_qty_def Let_def)
  then show ?thesis by (simp only: BM_Battle1_Cpp_IdiomaticFlatValue_def Let_def ring_walk snd_conv ring_index ring_nth event_inputs_wrap)
qed

lemma virtual_nets:
  "BM_Battle1_Cpp_CrossTuVirtual_NoAlloc mode n
   = map (\<lambda>i. ProcessInline \<lparr>price = event_price i, qty = event_qty i, symbol_id = 42,
       type_tag = if mode = 1 then of_nat (i mod 2) else tag_of mode (i mod 4096)\<rparr>) [0..<n]"
proof -
  have "virtual_ring mode = map (\<lambda>i. MakeEventByType (if mode = 1 then of_nat (i mod 2) else tag_of mode i) (event_price i) (event_qty i) 42) [0..<kBattle1BatchSize]"
    by (simp add: virtual_ring_def tag_of_def event_price_def event_qty_def Let_def nat_and_low)
  moreover have "i mod 4096 mod 2 = i mod 2" for i :: nat by (simp add: mod_mod_cancel)
  ultimately show ?thesis
    by (simp only: BM_Battle1_Cpp_CrossTuVirtual_NoAlloc_def Let_def ring_walk snd_conv ring_index ring_nth event_inputs_wrap flat_matches)
qed

text \<open>
  The naive benchmark advances its index in the lookup of the tag, so event \<open>i\<close> gets the price and the
  quantity of event \<open>i + 1\<close>.
\<close>

lemma naive_nets:
  "BM_Battle1_Cpp_NaiveOop_HeapAndVirtual mode n
   = map (\<lambda>i. ProcessInline \<lparr>price = event_price (i + 1), qty = event_qty (i + 1), symbol_id = 42, type_tag = tag_of mode (i mod 4096)\<rparr>
       + fee_gap (tag_of mode (i mod 4096)) (event_price (i + 1)) (event_qty (i + 1))) [0..<n]"
proof -
  have tags: "naive_tags mode = map (tag_of mode) [0..<kBattle1BatchSize]" by (simp add: naive_tags_def tag_of_def)
  let ?res = "\<lambda>i. ProcessHeapAlloc (MakeEventByType (tag_of mode (i mod 4096)) (event_price (i + 1)) (event_qty (i + 1)) 42)"
  have "BM_Battle1_Cpp_NaiveOop_HeapAndVirtual mode n
      = snd (fold (\<lambda>_ (idx, nets). (idx + 1, nets @ [notional (?res idx) - fee_ticks (?res idx)])) [0..<n] (0, []))"
    by (simp only: BM_Battle1_Cpp_NaiveOop_HeapAndVirtual_def Let_def tags ring_index ring_nth event_price_def event_qty_def)
  then show ?thesis by (simp only: ring_walk snd_conv naive_net flat_matches)
qed

lemma naive_differs: "0 < n \<Longrightarrow> BM_Battle1_Cpp_NaiveOop_HeapAndVirtual 0 n ! 0 = 1110 \<and> BM_Battle1_Cpp_IdiomaticFlatValue 0 n ! 0 = 1000"
  by (simp add: naive_nets flat_nets ProcessInline_def fee_gap_def event_price_def event_qty_def tag_of_def)

lemma battle2_benchmarks:
  assumes "mset (shuffle (battle2_ptrs kBattle2OrderCount)) = mset (battle2_ptrs kBattle2OrderCount)"
  shows "BM_Battle2_PointerArray_ChurnedHeap shuffle n = BM_Battle2_StdVector_ContiguousAoS n"
    and "BM_Battle2_SIMD_StructureOfArrays n = BM_Battle2_StdVector_ContiguousAoS n"
  using battle2_exposures [OF assms order.refl]
  by (simp_all only: BM_Battle2_PointerArray_ChurnedHeap_def BM_Battle2_StdVector_ContiguousAoS_def
      BM_Battle2_SIMD_StructureOfArrays_def Let_def)

section \<open>Properties\<close>

text \<open>
  C37. The first two battles, in the challenge and in the benchmarks. The virtual call on a built event returns what the flat
  value returns, building in an arena slot builds the same object, and the virtual and the flat loops accumulate
  the same sums and give the same nets, event by event, on both traffics they share. The naive loop of the
  challenge deducts other fees for modified and pegged orders; the naive benchmark moreover prices each
  event as the next one, so it already differs on the first event of the simplest traffic. Over any
  number of orders up to that of the battle, and whatever the shuffle does to the pointers, the three scans of
  battle 2 return one total, that of the integers, so nothing overflows.
\<close>

theorem jit_battles:
  assumes "mset (shuffle (battle2_ptrs kBattle2OrderCount)) = mset (battle2_ptrs kBattle2OrderCount)"
    and "mset ptrs = mset (battle2_ptrs k)" and "k \<le> kBattle2OrderCount" and "0 < n"
  shows "ProcessNoAlloc (MakeEventByType tag p q s) = ProcessInline \<lparr>price = p, qty = q, symbol_id = s, type_tag = tag\<rparr>
    \<and> ConstructEventInPlace arena slot tag p q s = arena[slot := Some (MakeEventByType tag p q s)]
    \<and> virtual_loop (mono_ring battle1_rings) n = flat_loop (flat_mono battle1_rings) n
    \<and> virtual_loop (mega_ring battle1_rings) n = flat_loop (flat_mega battle1_rings) n
    \<and> naive_loop (mono_tags battle1_rings) n = virtual_loop (mono_ring battle1_rings) n
    \<and> naive_loop (mega_tags battle1_rings) n = virtual_loop (mega_ring battle1_rings) n
        + (\<Sum>i\<leftarrow>[0..<n]. fee_gap (of_nat (i mod 4096 mod 5)) (event_price i) (event_qty i))
    \<and> BM_Battle1_Cpp_CrossTuVirtual_NoAlloc 0 n = BM_Battle1_Cpp_IdiomaticFlatValue 0 n
    \<and> BM_Battle1_Cpp_CrossTuVirtual_NoAlloc 2 n = BM_Battle1_Cpp_IdiomaticFlatValue 1 n
    \<and> BM_Battle1_Cpp_NaiveOop_HeapAndVirtual 0 n
        = map (\<lambda>i. ProcessInline \<lparr>price = event_price (i + 1), qty = event_qty (i + 1), symbol_id = 42,
            type_tag = if i mod 4096 mod 1000 = 999 then 1 else 0\<rparr>) [0..<n]
    \<and> BM_Battle1_Cpp_NaiveOop_HeapAndVirtual 0 n \<noteq> BM_Battle1_Cpp_IdiomaticFlatValue 0 n
    \<and> pointer_exposure (battle2_storage k) ptrs k = contiguous_exposure (battle2_storage k) k
    \<and> soa_exposure (OrderBookSoA k) k = contiguous_exposure (battle2_storage k) k
    \<and> sint (contiguous_exposure (battle2_storage k) k) = (\<Sum>i<k. (1000 + int i mod 1024) * (1 + int i mod 32))
    \<and> BM_Battle2_PointerArray_ChurnedHeap shuffle n = BM_Battle2_StdVector_ContiguousAoS n
    \<and> BM_Battle2_SIMD_StructureOfArrays n = BM_Battle2_StdVector_ContiguousAoS n
    \<and> (snd (jit_main unrecognized args) = 1 \<longleftrightarrow> ''--run_battle3_tail'' \<notin> set (tl args) \<and> unrecognized args)"
proof -
  have same: "BM_Battle1_Cpp_CrossTuVirtual_NoAlloc 0 n = BM_Battle1_Cpp_IdiomaticFlatValue 0 n"
    "BM_Battle1_Cpp_CrossTuVirtual_NoAlloc 2 n = BM_Battle1_Cpp_IdiomaticFlatValue 1 n"
    by (simp_all add: virtual_nets flat_nets tag_of_def)
  have next_one: "BM_Battle1_Cpp_NaiveOop_HeapAndVirtual 0 n
      = map (\<lambda>i. ProcessInline \<lparr>price = event_price (i + 1), qty = event_qty (i + 1), symbol_id = 42,
          type_tag = if i mod 4096 mod 1000 = 999 then 1 else 0\<rparr>) [0..<n]"
    by (simp add: naive_nets tag_of_def fee_gap_def)
  have differs: "BM_Battle1_Cpp_NaiveOop_HeapAndVirtual 0 n \<noteq> BM_Battle1_Cpp_IdiomaticFlatValue 0 n"
  proof
    assume "BM_Battle1_Cpp_NaiveOop_HeapAndVirtual 0 n = BM_Battle1_Cpp_IdiomaticFlatValue 0 n"
    then have "(1110 :: i64) = 1000" using naive_differs [OF assms(4)] by metis
    then show False by simp
  qed
  have exits: "snd (jit_main unrecognized args) = 1 \<longleftrightarrow> ''--run_battle3_tail'' \<notin> set (tl args) \<and> unrecognized args"
    by (auto simp: jit_main_def list_ex_iff)
  note b1 = battle1_pipelines [of tag p q s arena slot n] and b2 = battle2_exposures [OF assms(2,3)]
  show ?thesis
    by (intro conjI same next_one differs exits battle2_benchmarks [where shuffle = shuffle, OF assms(1)]; (insert b1 b2, elim conjE, assumption)?)
qed

theorem jit_battles_witness:
  "BM_Battle2_PointerArray_ChurnedHeap rev 2 = BM_Battle2_StdVector_ContiguousAoS 2
   \<and> sint (contiguous_exposure (battle2_storage 3) 3) = 1000 + 2002 + 3006
   \<and> BM_Battle1_Cpp_NaiveOop_HeapAndVirtual 0 2 \<noteq> BM_Battle1_Cpp_IdiomaticFlatValue 0 2"
proof -
  have a: "mset (rev (battle2_ptrs kBattle2OrderCount)) = mset (battle2_ptrs kBattle2OrderCount)" by simp
  have b: "mset [2, 0, 1] = mset (battle2_ptrs 3)" by (simp add: battle2_ptrs_def upt_rec)
  have c: "3 \<le> kBattle2OrderCount" by (simp add: kBattle2OrderCount_def)
  have d: "0 < (2 :: nat)" by simp
  note all = jit_battles [where shuffle = rev, OF a b c d, where tag = 0 and p = 0 and q = 0 and s = 0 and arena = "[]" and slot = 0
      and unrecognized = "\<lambda>_. False" and args = "[]"]
  have "sint (contiguous_exposure (battle2_storage 3) 3) = (\<Sum>i<3. (1000 + int i mod 1024) * (1 + int i mod 32))"
    "BM_Battle2_PointerArray_ChurnedHeap rev 2 = BM_Battle2_StdVector_ContiguousAoS 2"
    "BM_Battle1_Cpp_NaiveOop_HeapAndVirtual 0 2 \<noteq> BM_Battle1_Cpp_IdiomaticFlatValue 0 2"
    by (insert all) (elim conjE, assumption)+
  then show ?thesis by (simp add: lessThan_nat_numeral lessThan_Suc)
qed

end
