(* ===== verification/ExecBench.thy ===== *)
theory ExecBench
  imports Exec
begin

text \<open>
  The programs around the pipelines: \<open>common/execution/execution_benchmark.cc\<close>, the benchmark of episode 07, whose loops
  have no code for a rest, and \<open>main\<close> of the challenge. The seeded generators are streams of values; an
  iteration of a benchmark computes the same value every time, so a benchmark is that value.
\<close>

section \<open>The benchmark of \<open>common\<close>\<close>

definition kDataSize :: nat where "kDataSize = 65536"

definition CreateData :: "(nat \<Rightarrow> u64) \<Rightarrow> u64 list" where
  "CreateData rng = map rng [0..<kDataSize]"

definition CreateFloatData :: "(nat \<Rightarrow> 'f) \<Rightarrow> 'f list" where
  "CreateFloatData uniform = map uniform [0..<kDataSize]"

definition BM_DependentChain :: "(nat \<Rightarrow> u64) \<Rightarrow> u64" where
  "BM_DependentChain rng = AccumulateHash (CreateData rng)"

definition BM_DependentSum :: "(nat \<Rightarrow> u64) \<Rightarrow> u64" where
  "BM_DependentSum rng = Sum (CreateData rng)"

definition BM_IndependentSum4Way :: "(nat \<Rightarrow> u64) \<Rightarrow> u64" where
  "BM_IndependentSum4Way rng = Sum4Way (CreateData rng)"

definition BM_IndependentSum8Way :: "(nat \<Rightarrow> u64) \<Rightarrow> u64" where
  "BM_IndependentSum8Way rng = Sum8Way (CreateData rng)"

definition BM_DependentFloatSum :: "'f fp \<Rightarrow> (nat \<Rightarrow> 'f) \<Rightarrow> 'f" where
  "BM_DependentFloatSum F uniform = SumFloat F (CreateFloatData uniform)"

definition BM_IndependentFloatSum4Way :: "'f fp \<Rightarrow> (nat \<Rightarrow> 'f) \<Rightarrow> 'f" where
  "BM_IndependentFloatSum4Way F uniform = SumFloat4Way F (CreateFloatData uniform)"

section \<open>The benchmark of episode 07\<close>

text \<open>
  Its unrolled loops run while \<open>i < data.size()\<close> and read \<open>data[i + 3]\<close> or \<open>data[i + 7]\<close>; a read behind the end is
  undefined, here \<open>None\<close>.
\<close>

definition Ep07_CreateData :: "(nat \<Rightarrow> u64) \<Rightarrow> u64 list" where
  "Ep07_CreateData rng = map rng [0..<65536]"

definition Ep07_CreateFloatData :: "(nat \<Rightarrow> 'f) \<Rightarrow> 'f list" where
  "Ep07_CreateFloatData uniform = map uniform [0..<65536]"

definition Ep07_DependentChain :: "u64 list \<Rightarrow> u64" where
  "Ep07_DependentChain data = fold (\<lambda>i acc. xor (acc * 33) (data ! i)) [0..<length data] 0"

definition Ep07_IndependentPipelines :: "u64 list \<Rightarrow> u64 option" where
  "Ep07_IndependentPipelines data =
     (if list_all (\<lambda>i. i + 3 < length data) (stride 4 (length data))
      then let (acc0, acc1, acc2, acc3) =
             fold (\<lambda>i (a0, a1, a2, a3). (a0 + data ! i, a1 + data ! (i + 1), a2 + data ! (i + 2), a3 + data ! (i + 3)))
               (stride 4 (length data)) (0, 0, 0, 0)
           in Some ((acc0 + acc1) + (acc2 + acc3))
      else None)"

definition Ep07_IndependentPipelines8Way :: "u64 list \<Rightarrow> u64 option" where
  "Ep07_IndependentPipelines8Way data =
     (if list_all (\<lambda>i. i + 7 < length data) (stride 8 (length data))
      then let (acc0, acc1, acc2, acc3, acc4, acc5, acc6, acc7) =
             fold (\<lambda>i (a0, a1, a2, a3, a4, a5, a6, a7).
                      (a0 + data ! i, a1 + data ! (i + 1), a2 + data ! (i + 2), a3 + data ! (i + 3),
                       a4 + data ! (i + 4), a5 + data ! (i + 5), a6 + data ! (i + 6), a7 + data ! (i + 7)))
               (stride 8 (length data)) (0, 0, 0, 0, 0, 0, 0, 0)
           in Some (((acc0 + acc1) + (acc2 + acc3)) + ((acc4 + acc5) + (acc6 + acc7)))
      else None)"

definition Ep07_DependentFloatSum :: "'f fp \<Rightarrow> 'f list \<Rightarrow> 'f" where
  "Ep07_DependentFloatSum F data = fold (\<lambda>i total. fadd F total (data ! i)) [0..<length data] (fzero F)"

definition Ep07_IndependentFloatSum4Way :: "'f fp \<Rightarrow> 'f list \<Rightarrow> 'f option" where
  "Ep07_IndependentFloatSum4Way F data =
     (if list_all (\<lambda>i. i + 3 < length data) (stride 4 (length data))
      then let (acc0, acc1, acc2, acc3) =
             fold (\<lambda>i (a0, a1, a2, a3). (fadd F a0 (data ! i), fadd F a1 (data ! (i + 1)),
                                         fadd F a2 (data ! (i + 2)), fadd F a3 (data ! (i + 3))))
               (stride 4 (length data)) (fzero F, fzero F, fzero F, fzero F)
           in Some (fadd F (fadd F acc0 acc1) (fadd F acc2 acc3))
      else None)"

section \<open>The challenge\<close>

text \<open>\<open>main\<close>: the input of a million samples, both filters, and the exit code from the difference of the checksums.\<close>

definition fp_abs :: "'f fp \<Rightarrow> 'f \<Rightarrow> 'f" where
  "fp_abs F d = (if fless F d (fzero F) then fsub F (fzero F) d else d)"

definition filter_main :: "'f fp \<Rightarrow> (nat \<Rightarrow> 'f) \<Rightarrow> int" where
  "filter_main F uniform =
     (let input_data = map uniform [0..<1000000]; alpha = flit F 0.85;
          (_, baseline) = RunBaseline F input_data alpha;
          (_, optimized) = RunOptimizedChallenge F input_data alpha;
          diff = fp_abs F (fsub F baseline optimized)
      in if fless F diff (flit F 0.0001) then 0 else 1)"

section \<open>Lemmas\<close>

lemma stride_in_range:
  assumes "0 < k"
  shows "list_all (\<lambda>i. i + (k - 1) < n) (stride k n) \<longleftrightarrow> k dvd n"
proof
  assume "k dvd n"
  then obtain m where m: "n = m * k" by (metis dvd_def mult.commute)
  have "i * k + (k - 1) < m * k" if "i < m" for i
  proof -
    have "Suc i * k \<le> m * k" using that by (intro mult_le_mono1) simp
    then show ?thesis using assms by simp
  qed
  then show "list_all (\<lambda>i. i + (k - 1) < n) (stride k n)"
    unfolding m stride_mult [OF assms] by (auto simp: list_all_iff)
next
  assume all: "list_all (\<lambda>i. i + (k - 1) < n) (stride k n)"
  show "k dvd n"
  proof (rule ccontr)
    assume "\<not> k dvd n"
    then have r: "n mod k \<noteq> 0" by (simp add: dvd_eq_mod_eq_0)
    have n: "n = n div k * k + n mod k" by simp
    then have "n div k * k + k \<le> n + k - 1" using r by linarith
    from div_le_mono [OF this, of k] have "n div k < (n + k - 1) div k" using assms by simp
    then have "n div k * k \<in> set (stride k n)" by (auto simp: stride_def)
    with all have "n div k * k + (k - 1) < n" by (simp add: list_all_iff)
    moreover have "n mod k < k" using assms by simp
    ultimately show False using n by linarith
  qed
qed

lemma no_rest: "k dvd n \<Longrightarrow> n - n mod k = (n :: nat)"
  by simp

lemma ep07_sums:
  "4 dvd length data \<Longrightarrow> Ep07_IndependentPipelines data = Some (Sum4Way data)"
  "8 dvd length data \<Longrightarrow> Ep07_IndependentPipelines8Way data = Some (Sum8Way data)"
  "4 dvd length reals \<Longrightarrow> Ep07_IndependentFloatSum4Way F reals = Some (SumFloat4Way F reals)"
  using stride_in_range [of 4 "length data"] stride_in_range [of 8 "length data"] stride_in_range [of 4 "length reals"]
  by (simp_all add: Ep07_IndependentPipelines_def Ep07_IndependentPipelines8Way_def Ep07_IndependentFloatSum4Way_def
      Sum4Way_def Sum8Way_def SumFloat4Way_def Let_def no_rest split: prod.split)

lemma ep07_overrun:
  "\<not> 4 dvd length data \<Longrightarrow> Ep07_IndependentPipelines data = None"
  "\<not> 8 dvd length data \<Longrightarrow> Ep07_IndependentPipelines8Way data = None"
  "\<not> 4 dvd length reals \<Longrightarrow> Ep07_IndependentFloatSum4Way F reals = None"
  using stride_in_range [of 4 "length data"] stride_in_range [of 8 "length data"] stride_in_range [of 4 "length reals"]
  by (simp_all add: Ep07_IndependentPipelines_def Ep07_IndependentPipelines8Way_def Ep07_IndependentFloatSum4Way_def)

lemma filter_main_exact: "filter_main exact (uniform :: nat \<Rightarrow> real) = 0"
  by (simp add: filter_main_def RunOptimizedChallenge_exact fp_abs_def Let_def of_rat_divide split: prod.split)

section \<open>Properties\<close>

text \<open>
  C39. The pipelines and the programs around them. On 64-bit words, overflow included, the four- and eight-way
  sums return what the single accumulator returns, for every length and so for every generated data set; on
  doubles, when nothing rounds, the four-way sum does, and the lookahead filter fills the same outputs
  and checksum as the serial one, so that the challenge exits with 0 on every input. The loops of
  episode 07 do the same on its data, and read behind the end exactly when the length is not a multiple of
  their stride. The hash tells two streams of one length apart when they differ in one element.
\<close>

theorem execution_programs:
  "Sum4Way data = Sum data \<and> Sum8Way data = Sum data
   \<and> SumFloat4Way exact reals = SumFloat exact (reals :: 'a :: linordered_field list)
   \<and> RunOptimizedChallenge exact x alpha = RunBaseline exact x (alpha :: 'b :: linordered_field)
   \<and> (AccumulateHash (xs @ a # ys) = AccumulateHash (xs @ b # ys) \<longleftrightarrow> a = b)
   \<and> BM_IndependentSum4Way rng = BM_DependentSum rng \<and> BM_IndependentSum8Way rng = BM_DependentSum rng
   \<and> BM_IndependentFloatSum4Way exact real_rng = BM_DependentFloatSum exact (real_rng :: nat \<Rightarrow> 'a)
   \<and> Ep07_IndependentPipelines data = (if 4 dvd length data then Some (Sum data) else None)
   \<and> Ep07_IndependentPipelines8Way data = (if 8 dvd length data then Some (Sum data) else None)
   \<and> Ep07_IndependentFloatSum4Way exact reals = (if 4 dvd length reals then Some (SumFloat exact reals) else None)
   \<and> Ep07_IndependentPipelines8Way (Ep07_CreateData rng) = Some (BM_DependentSum rng)
   \<and> Ep07_IndependentFloatSum4Way exact (Ep07_CreateFloatData real_rng) = Some (Ep07_DependentFloatSum exact (Ep07_CreateFloatData real_rng))
   \<and> Ep07_DependentChain (Ep07_CreateData rng) = BM_DependentChain rng
   \<and> filter_main exact (samples :: nat \<Rightarrow> real) = 0"
proof -
  have sums: "Sum4Way d = Sum d" "Sum8Way d = Sum d" "SumFloat4Way exact r = SumFloat exact r" for d and r :: "'a list"
    using execution_equivalences by blast+
  have data: "Ep07_CreateData rng = CreateData rng" "length (Ep07_CreateData rng) = 65536" "length (Ep07_CreateFloatData real_rng) = 65536"
    by (simp_all add: Ep07_CreateData_def CreateData_def kDataSize_def Ep07_CreateFloatData_def)
  have ep07: "Ep07_IndependentPipelines data = (if 4 dvd length data then Some (Sum data) else None)"
    "Ep07_IndependentPipelines8Way d = (if 8 dvd length d then Some (Sum d) else None)"
    "Ep07_IndependentFloatSum4Way exact r = (if 4 dvd length r then Some (SumFloat exact r) else None)" for d and r :: "'a list"
    using ep07_sums ep07_overrun sums by metis+
  have chain: "Ep07_DependentChain (Ep07_CreateData rng) = BM_DependentChain rng"
    by (simp add: Ep07_DependentChain_def BM_DependentChain_def AccumulateHash_def data(1))
  have eight: "Ep07_IndependentPipelines8Way (Ep07_CreateData rng) = Some (BM_DependentSum rng)"
    unfolding ep07(2) data(2) by (simp add: BM_DependentSum_def data(1))
  have float: "Ep07_IndependentFloatSum4Way exact (Ep07_CreateFloatData real_rng) = Some (Ep07_DependentFloatSum exact (Ep07_CreateFloatData real_rng))"
    unfolding ep07(3) data(3) by (simp add: Ep07_DependentFloatSum_def SumFloat_def)
  have bench: "BM_IndependentSum4Way rng = BM_DependentSum rng" "BM_IndependentSum8Way rng = BM_DependentSum rng"
    "BM_IndependentFloatSum4Way exact real_rng = BM_DependentFloatSum exact real_rng"
    by (simp_all add: BM_IndependentSum4Way_def BM_IndependentSum8Way_def BM_DependentSum_def BM_IndependentFloatSum4Way_def
        BM_DependentFloatSum_def sums)
  show ?thesis
    by (intro conjI sums RunOptimizedChallenge_exact hash_tells_apart bench ep07 eight float chain filter_main_exact)
qed

end
