(* ===== verification/Spec2Isabelle.thy ===== *)
theory Spec2Isabelle
  imports Prelude Seqlock RouteCache SpinLocks FutexLocks Counters ShardedMap Litmus Spsc RingProps MemMap
    RcuReaders Ebr Kernels Exec Jit Measure Mmu Dispatch LockTrials RouteTrial Ep10
    Handoff MesiChallenge Paging MmuBench MeasureBench SpscBench RingTyped RingBench RcuBench SeqlockBench
    LockBench Ep10Bench MesiBench JitBench ExecBench
begin

text \<open>
  Hot Path C++: the low-latency library under \<open>src/common\<close> and the programs of its episodes, modelled
  from the sources and proved correct where they are, with the places where they are not.

  The program. \<open>common/shared_memory\<close> is a broadcast ring buffer (one producer, up to 16 registered
  readers, any number of unregistered ones) in two memory mappings that \<open>MemoryMap\<close> makes; the
  payload segment is mapped twice in a row, so a frame that crosses the end is contiguous in memory.
  \<open>common/concurrency\<close> has a sequence lock, epoch-based reclamation, and a hash map with wait-free readers
  that retires its nodes through it. \<open>common/locks_under_the_hood\<close> and \<open>common/mesi_coherency\<close> have the
  locks, the routing caches, a sharded map, counters, an id generator and a magazine, and trials that run
  them on 16 threads; \<open>common/store_buffer\<close> has a queue for one producer and one consumer and the
  store-load litmus test. \<open>common/dispatch\<close>, \<open>common/execution\<close>, \<open>common/cpp_vs_java_jit\<close>,
  \<open>common/measurement\<close>, \<open>common/syscalls_traps_and_mmu\<close> and \<open>episodes/ai/02_how_ai_learns\<close> hold computations
  in a plain and an optimised form, and the memory and the data they run on.

  Theories, and the sources they model.
  \<^item> \<open>Prelude\<close>: machine integers, machines run over a schedule (\<open>run\<close>), the locale \<open>safe_machine\<close>,
    masks that are powers of two, blocks of loops.
  \<^item> \<open>Seqlock\<close> (\<open>seqlock.h\<close>): \<open>SeqLock\<close>, and the locale \<open>seq_lock\<close> of the read protocol, with \<open>Seqlock\<close>
    and the episode 10 cache as its interpretations: no torn copy is accepted, and a reader returns. \<open>SeqlockBench\<close>
    (\<open>seqlock_benchmark.cc\<close>): its loops alone and in contention, where a kept quote is never mixed.
  \<^item> \<open>RouteCache\<close> (\<open>locks_under_the_hood.h\<close> 82-185, \<open>challenge.cc\<close>, episode 10): four caches that copy an
    entry field by field. Three are tear-free; two runs show that \<open>SeqlockRouteCache\<close> is not.
  \<^item> \<open>LockProtocol\<close>, \<open>SpinLocks\<close>, \<open>FutexLocks\<close> (\<open>locks_under_the_hood.h\<close>, \<open>mesi_coherency.h\<close>): the locale
    \<open>lock_protocol\<close> is what a critical section asks of a lock; the ten locks are its interpretations, each
    a machine with one step per atomic operation and, for the futex locks, the wait queue of the kernel.
    What \<open>RunLockTrial\<close> does is proved in the locale, and that it can be completed in the locale \<open>solo_lock\<close>.
  \<^item> \<open>LockTrials\<close>, \<open>RouteTrial\<close>, \<open>Ep10\<close> (\<open>challenge.cc\<close> of \<open>locks_under_the_hood\<close> and of episode 10): the lock trial
    for every lock; the routing-cache trial, whose verdict is proved in the locale \<open>tear_free_cache\<close> and whose
    completion in \<open>solo_trial\<close>; the exit codes of the two programs as functions of the schedules.
  \<^item> \<open>LockBench\<close>, \<open>Ep10Bench\<close> (\<open>locks_under_the_hood_benchmark.cc\<close>, \<open>benchmark.cc\<close> of episode 10): the loops on every
    lock, on the sharded map, whose updates commute, and on the caches; the copies of the classes in episode 10.
  \<^item> \<open>Counters\<close>, \<open>ShardedMap\<close>, \<open>MesiChallenge\<close> (\<open>mesi_coherency.h\<close>, \<open>locks_under_the_hood.h\<close>, \<open>challenge.cc\<close> of
    \<open>mesi_coherency\<close> and of episode 09): sharded counters, id generators, the magazine, the sharded map, and the
    exit codes of the two programs in every interleaving. \<open>MesiBench\<close> (\<open>mesi_coherency_benchmark.cc\<close>, \<open>benchmark.cc\<close> of
    episode 09): the shared line, leases, shards, ledger, magazine and byte arena after any schedule.
  \<^item> \<open>Spsc\<close>, \<open>SpscBench\<close> (\<open>store_buffer.h\<close>, \<open>store_buffer_benchmark.cc\<close>): both queues as a bounded queue (locale
    \<open>bounded_queue\<close>), the one of the library also on two cores with store buffers, and the loops over the other.
  \<^item> \<open>Litmus\<close>, \<open>Handoff\<close> (\<open>store_buffer/challenge.cc\<close>): the store-load litmus test, the handoff over the ring that
    the challenge writes inline, and its exit code.
  \<^item> \<open>Frames\<close>, \<open>Ring\<close>, \<open>RingProps\<close> (\<open>broadcast_ring_buffer.h\<close>, \<open>.cc\<close>): bytes and frame headers of the
    mirrored segment; every operation of the ring; the log of messages it carries. \<open>RingTyped\<close>: what any
    sequence of calls keeps, and the one bound the polls leave open. \<open>RingBench\<close>
    (\<open>broadcast_ring_buffer_benchmark.cc\<close>): the fixture and the five benchmarks run to their end.
  \<^item> \<open>MemMap\<close> (\<open>memory_map.h\<close>, \<open>.cc\<close>): \<open>Create\<close> with every failing path, the destructor and the moves, on
    descriptors, files and mappings of a process.
  \<^item> \<open>Ebr\<close> (\<open>ebr.h\<close>, \<open>ebr.cc\<close>), \<open>RcuMap\<close>, \<open>RcuReaders\<close> (\<open>rcu_hash_map.h\<close>): control blocks, epochs and batches,
    interleaved step by step; the map on a heap as a \<open>dictionary\<close>; its readers beside its writers. \<open>RcuBench\<close>
    (\<open>rcu_hash_map_benchmark.cc\<close>): the three fixtures answer every lookup alike.
  \<^item> \<open>Fp\<close>, \<open>Mlp\<close>, \<open>Kernels\<close> (\<open>02_how_ai_learns/benchmark.cc\<close>), \<open>Exec\<close>, \<open>ExecBench\<close> (\<open>execution_pipeline.h\<close>,
    \<open>challenge.cc\<close>, \<open>execution_benchmark.cc\<close>, \<open>benchmark.cc\<close> of episode 07), \<open>Dispatch\<close> (\<open>order_dispatcher.h\<close>, \<open>instrument_feed.h\<close>, \<open>dispatch_benchmark.cc\<close>,
    \<open>challenge.cc\<close>): what is computed on \<open>float\<close> and \<open>double\<close>.
  \<^item> \<open>Jit\<close>, \<open>JitBench\<close> (\<open>cpp_vs_java_jit.h\<close>, the classes of \<open>cpp_vs_java_jit_oop_tu.cc\<close>, \<open>challenge.cc\<close>,
    \<open>cpp_vs_java_jit_benchmark.cc\<close>), \<open>Measure\<close>
    (\<open>entropy_generator.h\<close>, \<open>measurement_harness.h\<close>), \<open>MeasureBench\<close> (\<open>measurement_benchmark.cc\<close>, \<open>challenge.cc\<close>).
  \<^item> \<open>Mmu\<close> (\<open>syscalls_traps_and_mmu.h\<close>, the lookup test), \<open>Paging\<close> (\<open>challenge.cc\<close>: the modes of
    \<open>RunIsolatedPmuMode\<close> and case 2), \<open>MmuBench\<close> (\<open>syscalls_traps_and_mmu_benchmark.cc\<close>): arenas and what is mapped
    and resident; of the kernel the predicates \<open>demand_paging\<close> and \<open>maps_free_pages\<close> are assumed.

  How state and operations correspond. A class is a record with its members, a method a function with the
  method's name that returns the new state, a status is the left of a sum, and \<open>None\<close> is a call that has
  not returned or a step that is not possible. Where threads meet, a component is a machine: a step is
  one atomic operation, or one plain load or store where tearing is the question, and a theorem that
  holds for every schedule holds for every interleaving. Loops of a caller that waits take the list of
  what each iteration observes, or one machine step per iteration, so that not terminating is visible.

  What the lemmas show. Safety by invariants of the machines (no torn read, mutual exclusion, no use
  after free, no lost update, no lapped reader); refinement of abstract data (queue, stack, finite
  map, stream of messages); progress where the code promises it (readers that return, wake-ups that are
  not lost, readers that need at most one step per node, nodes that are reclaimed); equality of the
  optimised and the plain computation, bit for bit when the operations are applied in the same order
  and in exact arithmetic otherwise; and layouts, rounding and indices in bounds. Runs that go wrong are
  theorems as well: torn route entries, an integrity check that can only fail, a gradient row that is
  left stale, a payload size that wraps, a failed mapping that is written to or read through.

  Bounds and fuel. Integers of the source are words, so they wrap; sizes and loop counters that stay far
  below \<open>2 ^ 64\<close> are natural numbers. Walks along a bucket carry the number of heap nodes as fuel, and the
  invariant of the map bounds a chain by it. Hypotheses about cursors and epochs (no wrap within a
  run) are stated with the theorem that needs them. x86-TSO is modelled for \<open>Spsc\<close>, \<open>Litmus\<close>, \<open>Handoff\<close> and \<open>Ebr\<close>;
  elsewhere the atomics interleave, which their acquire and release orders allow on x86.

  Parameters. The kernel (\<open>mmap\<close>, futex queues, clocks, thread ids), \<open>std::shuffle\<close>, random draws, hash
  functions and floating-point operations are arguments or schedules, with what the code relies on as
  named hypotheses.

  Not modelled: the loop of the benchmark library itself (its bodies run a number of times that is an
  argument) and the mains with their clocks, thread pinning and printing; latency percentiles; the
  \<open>std::vector\<close> cases of the page-fault programs, which depend on the allocator; the programs of episodes 08, 11
  and 13 and the challenge of episode 07, which are those under \<open>common\<close>, so that what is said of these
  holds of them; tests, listings, and the Java and Python programs.
\<close>

end
